(* ===== verification/CT_Prelude.thy ===== *)
theory CT_Prelude
  imports Main "HOL-Library.Word" "HOL-Library.Monad_Syntax"
begin

unbundle bit_operations_syntax

text \<open>
  Shared vocabulary of the development: the machine integers of the Rust sources, big-endian
  byte encodings and the length prefixes of the TLS presentation language built from them, and the
  arithmetic of powers of two that the Merkle tree components share.

  Arithmetic is that of the release profile of \<^verbatim>\<open>src/Cargo.toml\<close>, which leaves overflow
  checks off: \<open>+\<close>, \<open>-\<close> and \<open>*\<close> wrap, and a shift amount is taken modulo the width.
\<close>

section \<open>Machine integers and bytes\<close>

type_synonym u8 = "8 word"
type_synonym u16 = "16 word"
type_synonym u32 = "32 word"
type_synonym u64 = "64 word"
type_synonym bytes = "u8 list"

named_theorems node_simps \<open>rewriting of array-tree nodes\<close>
named_theorems hoare_intro \<open>introduction rules of the Hoare predicate\<close>

text \<open>Rust's \<^verbatim>\<open><<\<close>, \<^verbatim>\<open>>>\<close> on \<^verbatim>\<open>u64\<close>, \<^verbatim>\<open>u64::trailing_ones\<close> and \<^verbatim>\<open>u64::checked_ilog2\<close>.\<close>

definition shl64 :: "u64 \<Rightarrow> nat \<Rightarrow> u64" where
  "shl64 w k = push_bit (k mod 64) w"

definition shr64 :: "u64 \<Rightarrow> nat \<Rightarrow> u64" where
  "shr64 w k = drop_bit (k mod 64) w"

definition trailing_ones :: "u64 \<Rightarrow> nat" where
  "trailing_ones w = length (takeWhile (bit w) [0..<64])"

fun ilog2_nat :: "nat \<Rightarrow> nat" where
  "ilog2_nat n = (if n < 2 then 0 else Suc (ilog2_nat (n div 2)))"

declare ilog2_nat.simps [simp del]

definition checked_ilog2 :: "u64 \<Rightarrow> nat option" where
  "checked_ilog2 w = (if w = 0 then None else Some (ilog2_nat (unat w)))"

lemma ilog2_nat_bounds: "0 < n \<Longrightarrow> 2 ^ ilog2_nat n \<le> n \<and> n < 2 ^ Suc (ilog2_nat n)"
proof (induction n rule: ilog2_nat.induct)
  case (1 n)
  show ?case
  proof (cases "n < 2")
    case True
    with "1.prems" have "n = 1" by simp
    then show ?thesis by (simp add: ilog2_nat.simps)
  next
    case False
    then have "0 < n div 2" by simp
    with "1.IH" False have "2 ^ ilog2_nat (n div 2) \<le> n div 2 \<and> n div 2 < 2 ^ Suc (ilog2_nat (n div 2))"
      by simp
    with False show ?thesis by (auto simp: ilog2_nat.simps [of n])
  qed
qed

lemma pow2_pos: "0 < (2::nat) ^ k"
  by simp

lemma pow2_unique:
  assumes "2 ^ a \<le> (n::nat)" "n < 2 ^ Suc a" "2 ^ b \<le> n" "n < 2 ^ Suc b"
  shows "a = b"
proof -
  have "(2::nat) ^ a < 2 ^ Suc b" "(2::nat) ^ b < 2 ^ Suc a" using assms by linarith+
  then have "a < Suc b" "b < Suc a" by (simp_all only: power_strict_increasing_iff one_less_numeral_iff semiring_norm)
  then show ?thesis by simp
qed

lemma ilog2_nat_eqI: "2 ^ k \<le> n \<Longrightarrow> n < 2 ^ Suc k \<Longrightarrow> ilog2_nat n = k"
  using ilog2_nat_bounds [of n] pow2_unique [of "ilog2_nat n" n k]
  by (metis gr0I less_le_trans not_less zero_less_power zero_less_numeral)

text \<open>Words that hold natural numbers below their width.\<close>

lemma of_nat_u64_eq_iff: "a < 2 ^ 64 \<Longrightarrow> b < 2 ^ 64 \<Longrightarrow> (of_nat a :: u64) = of_nat b \<longleftrightarrow> a = b"
  by (simp add: word_unat_eq_iff unat_of_nat)

lemma of_nat_u64_less_iff: "a < 2 ^ 64 \<Longrightarrow> b < 2 ^ 64 \<Longrightarrow> (of_nat a :: u64) < of_nat b \<longleftrightarrow> a < b"
  by (simp add: word_less_nat_alt unat_of_nat)

lemma of_nat_u64_le_iff: "a < 2 ^ 64 \<Longrightarrow> b < 2 ^ 64 \<Longrightarrow> (of_nat a :: u64) \<le> of_nat b \<longleftrightarrow> a \<le> b"
  by (simp add: word_le_nat_alt unat_of_nat)

lemmas of_nat_u64_cmp = of_nat_u64_eq_iff of_nat_u64_less_iff of_nat_u64_le_iff

lemma of_nat_u64_diff: "b \<le> a \<Longrightarrow> (of_nat a :: u64) - of_nat b = of_nat (a - b)"
  by simp

section \<open>Big-endian encodings\<close>

text \<open>
  \<open>be_bytes n w\<close> are the \<open>n\<close> low-order bytes of \<open>w\<close>, most significant first:
  \<^verbatim>\<open>to_be_bytes\<close> for \<open>n\<close> the width of the type, the three-byte TLS length for \<open>n = 3\<close>.
  \<open>be_val\<close> is \<^verbatim>\<open>from_be_bytes\<close>.
\<close>

fun be_bytes :: "nat \<Rightarrow> 'a::len word \<Rightarrow> bytes" where
  "be_bytes 0 w = []"
| "be_bytes (Suc n) w = ucast (drop_bit (8 * n) w) # be_bytes n w"

definition be_val :: "bytes \<Rightarrow> 'a::len word" where
  "be_val bs = foldl (\<lambda>acc b. push_bit 8 acc OR ucast b) 0 bs"

lemma length_be_bytes [simp]: "length (be_bytes n w) = n"
  by (induction n) auto

lemma foldl_be_bytes:
  "foldl (\<lambda>acc b. push_bit 8 acc OR ucast b) (acc :: 'a::len word) (be_bytes n w)
     = push_bit (8 * n) acc OR take_bit (8 * n) w"
proof (induction n arbitrary: acc)
  case 0
  then show ?case by simp
next
  case (Suc n)
  have "push_bit (8 * n) (push_bit 8 acc OR ucast (ucast (drop_bit (8 * n) w) :: u8)) OR take_bit (8 * n) w
      = push_bit (8 * Suc n) acc OR take_bit (8 * Suc n) w"
    by (rule bit_word_eqI) (auto simp: bit_simps ac_simps)
  with Suc show ?case by simp
qed

lemma be_val_be_bytes: "be_val (be_bytes n (w :: 'a::len word)) = take_bit (8 * n) w"
  by (simp add: be_val_def foldl_be_bytes)

lemma be_bytes_2: "be_bytes 2 w = [ucast (drop_bit 8 w), ucast w]"
  by (simp add: eval_nat_numeral)

lemma be_bytes_3: "be_bytes 3 w = [ucast (drop_bit 16 w), ucast (drop_bit 8 w), ucast w]"
  by (simp add: eval_nat_numeral)

definition be64 :: "u64 \<Rightarrow> bytes" where
  "be64 w = be_bytes 8 w"

text \<open>\<^verbatim>\<open>bytes.try_into::<[u8; 8]>()\<close> followed by \<^verbatim>\<open>u64::from_be_bytes\<close>.\<close>

definition read_be64 :: "bytes \<Rightarrow> u64 option" where
  "read_be64 bs = (if length bs = 8 then Some (be_val bs) else None)"

lemma length_be64 [simp]: "length (be64 w) = 8"
  by (simp add: be64_def)

lemma take_bit_64_u64 [simp]: "take_bit 64 (w :: u64) = w"
  by (rule bit_word_eqI) (simp add: bit_simps)

lemma read_be64_be64 [simp]: "read_be64 (be64 w) = Some w"
  by (simp add: read_be64_def be64_def be_val_be_bytes)

lemma be64_inject [simp]: "be64 a = be64 b \<longleftrightarrow> a = b"
  using read_be64_be64 by (metis option.inject)

section \<open>Length prefixes\<close>

text \<open>
  A vector of the TLS presentation language: its length in \<open>n\<close> bytes and its contents. The length
  is cast from \<^verbatim>\<open>usize\<close> to \<^verbatim>\<open>u16\<close> or \<^verbatim>\<open>u32\<close> first; \<open>read_vec\<close> is the reader, which
  returns what follows the vector, too.
\<close>

definition vec16 :: "bytes \<Rightarrow> bytes" where
  "vec16 bs = be_bytes 2 (of_nat (length bs) :: u16) @ bs"

definition vec24 :: "bytes \<Rightarrow> bytes" where
  "vec24 bs = be_bytes 3 (of_nat (length bs) :: u32) @ bs"

definition vec32 :: "bytes \<Rightarrow> bytes" where
  "vec32 bs = be_bytes 4 (of_nat (length bs) :: u32) @ bs"

definition read_n :: "nat \<Rightarrow> bytes \<Rightarrow> (bytes \<times> bytes) option" where
  "read_n n bs = (if n \<le> length bs then Some (take n bs, drop n bs) else None)"

definition read_vec :: "nat \<Rightarrow> bytes \<Rightarrow> (bytes \<times> bytes) option" where
  "read_vec n bs = do { (l, rest) \<leftarrow> read_n n bs; read_n (unat (be_val l :: u64)) rest }"

lemma read_n_append [simp]: "length a = n \<Longrightarrow> read_n n (a @ b) = Some (a, b)"
  by (simp add: read_n_def)

lemma read_n_2 [simp]: "read_n 2 (a # b # r) = Some ([a, b], r)"
  by (simp add: read_n_def)

lemma read_n_be64 [simp]: "read_n 8 (be64 w @ r) = Some (be64 w, r)"
  by simp

lemma be_val_be64 [simp]: "be_val (be64 w) = w"
  by (simp add: be64_def be_val_be_bytes)

lemma unat_be_val_be_bytes:
  assumes "l < 2 ^ (8 * n)" "8 * n \<le> LENGTH('a)" "8 * n < 64"
  shows "unat (be_val (be_bytes n (of_nat l :: 'a::len word)) :: u64) = l"
proof -
  have "be_bytes n (of_nat l :: 'a word) = be_bytes n (of_nat l :: u64)"
    using assms(2,3)
  proof (induction n)
    case (Suc n)
    have "ucast (drop_bit (8 * n) (of_nat l :: 'a word)) = (ucast (drop_bit (8 * n) (of_nat l :: u64)) :: u8)"
      by (rule bit_word_eqI) (use Suc.prems in \<open>auto simp: bit_simps\<close>)
    with Suc show ?case by simp
  qed simp
  then have "be_val (be_bytes n (of_nat l :: 'a word)) = (take_bit (8 * n) (of_nat l) :: u64)"
    by (simp add: be_val_be_bytes)
  moreover have "unat (take_bit (8 * n) (of_nat l :: u64)) = l"
  proof -
    have "l < 2 ^ 64" using assms(1,3) by (meson less_trans power_strict_increasing_iff one_less_numeral_iff semiring_norm(76))
    then show ?thesis
      using assms(1) by (simp add: unsigned_take_bit_eq unsigned_of_nat take_bit_nat_eq_self)
  qed
  ultimately show ?thesis by simp
qed

lemma read_vec_vec [simp]:
  "length bs < 2 ^ 16 \<Longrightarrow> read_vec 2 (vec16 bs @ r) = Some (bs, r)"
  "length bs < 2 ^ 24 \<Longrightarrow> read_vec 3 (vec24 bs @ r) = Some (bs, r)"
  "length bs < 2 ^ 32 \<Longrightarrow> read_vec 4 (vec32 bs @ r) = Some (bs, r)"
  using unat_be_val_be_bytes [of "length bs" 2, where 'a = 16] unat_be_val_be_bytes [of "length bs" 3, where 'a = 32]
    unat_be_val_be_bytes [of "length bs" 4, where 'a = 32]
  by (simp_all add: read_vec_def vec16_def vec24_def vec32_def)

end
