(* ===== verification/Tree_Nodes.thy ===== *)
theory Tree_Nodes
  imports Tree_Math
begin

unbundle bit_operations_syntax

text \<open>
  What the array-tree arithmetic of \<^verbatim>\<open>Tree_Math\<close> computes. A node of the tree over \<open>n\<close> leaves is
  described by the range \<open>lo ..< hi\<close> of leaves below it; \<open>node_of lo hi\<close> is its index. The
  theory shows that on these indices the word-level \<^const>\<open>parent\<close>, \<^const>\<open>sibling\<close>,
  \<^const>\<open>left_child\<close>, \<^const>\<open>right_child\<close>, \<^const>\<open>is_left\<close> and \<^const>\<open>root_idx\<close> move along the
  recursive splitting of RFC 6962, section 2.1: the range \<open>0 ..< n\<close> is the root and a range of
  more than one leaf splits after the largest power of two smaller than its size.
\<close>

section \<open>Ceiling of the binary logarithm and the RFC split\<close>

definition clog2 :: "nat \<Rightarrow> nat" where
  "clog2 n = (if n \<le> 1 then 0 else Suc (ilog2_nat (n - 1)))"

definition split_point :: "nat \<Rightarrow> nat" where
  "split_point n = 2 ^ (clog2 n - 1)"

lemma clog2_bounds: "0 < n \<Longrightarrow> n \<le> 2 ^ clog2 n \<and> 2 ^ clog2 n < 2 * n"
  using ilog2_nat_bounds [of "n - 1"] by (auto simp: clog2_def)

lemma clog2_eqI:
  assumes "n \<le> 2 ^ r" "2 ^ r < 2 * n"
  shows "clog2 n = r"
proof -
  have "0 < n" using assms(2) by (cases n) auto
  note b = clog2_bounds [OF this]
  have "(2::nat) ^ r < 2 ^ Suc (clog2 n)" "(2::nat) ^ clog2 n < 2 ^ Suc r"
    using b assms by simp_all
  then have "r < Suc (clog2 n)" "clog2 n < Suc r"
    by (simp_all only: power_strict_increasing_iff one_less_numeral_iff semiring_norm)
  then show ?thesis by simp
qed

lemma clog2_pow2 [simp]: "clog2 (2 ^ k) = k"
  by (rule clog2_eqI) simp_all

lemma clog2_1 [simp]: "clog2 (Suc 0) = 0" "clog2 1 = 0"
  by (simp_all add: clog2_def)

lemma clog2_pos: "1 < n \<Longrightarrow> 0 < clog2 n"
  by (simp add: clog2_def)

lemma split_point_double: "1 < n \<Longrightarrow> 2 * split_point n = 2 ^ clog2 n"
  using clog2_pos [of n] by (simp add: split_point_def flip: power_Suc)

lemma split_point_bounds:
  assumes "1 < n"
  shows "0 < split_point n" "split_point n < n" "n \<le> 2 * split_point n"
  using split_point_double [OF assms] clog2_bounds [of n] assms
  by (simp_all add: split_point_def)

lemma clog2_split_point: "clog2 (split_point n) = clog2 n - 1"
  by (simp add: split_point_def)

lemma split_point_eqI: "2 ^ k < n \<Longrightarrow> n \<le> 2 * 2 ^ k \<Longrightarrow> split_point n = 2 ^ k"
  using clog2_eqI [of n "Suc k"] by (simp add: split_point_def)

lemma clog2_mono: "0 < m \<Longrightarrow> m \<le> n \<Longrightarrow> clog2 m \<le> clog2 n"
proof -
  assume "0 < m" "m \<le> n"
  then have "(2::nat) ^ clog2 m < 2 ^ Suc (clog2 n)"
    using clog2_bounds [of m] clog2_bounds [of n] by simp
  then show ?thesis
    by (simp only: power_strict_increasing_iff one_less_numeral_iff semiring_norm less_Suc_eq_le)
qed

section \<open>Nodes by level and block\<close>

definition node :: "nat \<Rightarrow> nat \<Rightarrow> InternalIdx" where
  "node k j = of_nat (2 * (j * 2 ^ k) + 2 ^ k - 1)"

definition in_tree :: "nat \<Rightarrow> nat \<Rightarrow> nat \<Rightarrow> bool" where
  "in_tree n k j \<longleftrightarrow> 2 * (j * 2 ^ k) + 2 ^ k < 2 * n"

lemma node_nat_eq: "2 * (j * 2 ^ k) + 2 ^ k - 1 = push_bit (Suc k) j OR (mask k :: nat)"
proof -
  have "push_bit (Suc k) j AND (mask k :: nat) = 0"
    by (rule bit_eqI) (auto simp: bit_simps)
  then have "push_bit (Suc k) j OR (mask k :: nat) = push_bit (Suc k) j + mask k"
    by (rule disjunctive_add_eq_or [symmetric])
  then show ?thesis
    by (simp add: push_bit_eq_mult mask_eq_exp_minus_1 algebra_simps)
qed

lemma bit_node: "bit (node k j) i \<longleftrightarrow> i < 64 \<and> (i < k \<or> (k < i \<and> bit j (i - Suc k)))"
  unfolding node_def node_nat_eq by (auto simp: bit_simps simp del: push_bit_Suc)

lemma length_takeWhile_upt:
  assumes "k < m" "\<And>i. i < k \<Longrightarrow> P i" "\<not> P k"
  shows "length (takeWhile P [0..<m]) = k"
proof -
  have "[0..<m] = [0..<k] @ k # [Suc k..<m]"
    using assms(1) using upt_add_eq_append [of 0 k "m - k"] by (simp add: upt_conv_Cons)
  then have "takeWhile P [0..<m] = [0..<k]"
    using assms(2,3) by (auto simp: takeWhile_append)
  then show ?thesis by simp
qed

lemma level_node [node_simps]: "k < 64 \<Longrightarrow> level (node k j) = k"
  unfolding level_def trailing_ones_def by (rule length_takeWhile_upt) (simp_all add: bit_node)

lemma parent_step_node [node_simps]:
  assumes "Suc k < 64"
  shows "parent_step (node k j) = node (Suc k) (j div 2)"
proof -
  have "bit (parent_step (node k j)) i = bit (node (Suc k) (j div 2)) i" if "i < 64" for i
  proof -
    have half: "bit (j div 2) m = bit j (Suc m)" for m by (simp add: bit_Suc)
    have [simp]: "Suc (i - Suc (Suc k)) = i - Suc k" if "Suc k < i" using that by simp
    from \<open>i < 64\<close> assms show ?thesis
      by (cases "i = Suc k")
        (auto simp: parent_step_def level_node Let_def shl64_def shr64_def bit_simps bit_node half
          simp del: push_bit_Suc bit_Suc)
  qed
  then show ?thesis by (intro bit_word_eqI) simp
qed

lemma bit_double_nat:
  "bit (2 * j :: nat) m \<longleftrightarrow> 0 < m \<and> bit j (m - 1)"
  "bit (Suc (2 * j) :: nat) m \<longleftrightarrow> m = 0 \<or> bit j (m - 1)"
  by (cases m; simp add: bit_Suc bit_0)+

lemma left_child_node [node_simps]:
  assumes "Suc k < 64"
  shows "left_child (node (Suc k) j) = Some (node k (2 * j))"
proof -
  have "bit (node (Suc k) j XOR shl64 1 k) i = bit (node k (2 * j)) i" if "i < 64" for i
    using that assms
    by (cases "i = Suc k")
      (auto simp: shl64_def bit_simps bit_node bit_double_nat less_Suc_eq simp del: bit_Suc)
  then have "node (Suc k) j XOR shl64 1 k = node k (2 * j)"
    by (intro bit_word_eqI) simp
  with assms show ?thesis by (simp add: left_child_def level_node)
qed

lemma bit_3_u64: "bit (3 :: u64) i \<longleftrightarrow> i = 0 \<or> i = 1"
proof -
  have "bit (mask 2 :: u64) i \<longleftrightarrow> i = 0 \<or> i = 1"
    unfolding bit_mask_iff by auto
  then show ?thesis by (simp add: mask_eq_exp_minus_1)
qed

lemma bit_shl64_3: "k < 64 \<Longrightarrow> bit (shl64 3 k) i \<longleftrightarrow> i < 64 \<and> (i = k \<or> i = Suc k)"
  unfolding shl64_def bit_push_bit_iff bit_3_u64 by auto

lemma right_child_raw_node [node_simps]:
  assumes "Suc k < 64"
  shows "node (Suc k) j XOR shl64 3 k = node k (Suc (2 * j))"
proof -
  have "bit (node (Suc k) j XOR shl64 3 k) i = bit (node k (Suc (2 * j))) i" if "i < 64" for i
    using that assms
    by (cases "i = Suc k")
      (auto simp: bit_shl64_3 bit_simps bit_node bit_double_nat less_Suc_eq simp del: bit_Suc)
  then show ?thesis by (intro bit_word_eqI) simp
qed

section \<open>Order, bounds and the loops\<close>

definition slot :: "nat \<Rightarrow> nat \<Rightarrow> bool" where
  "slot k j \<longleftrightarrow> k \<le> 63 \<and> j * 2 ^ k < 2 ^ 63"

lemma slot_bound:
  assumes "slot k j"
  shows "2 * (j * 2 ^ k) + 2 ^ k < 2 ^ 64"
proof -
  have e: "(2::nat) ^ 63 = 2 ^ (63 - k) * 2 ^ k"
    using assms by (simp add: slot_def flip: power_add)
  have "j * 2 ^ k < 2 ^ (63 - k) * 2 ^ k" using assms e by (simp add: slot_def)
  then have "j + 1 \<le> 2 ^ (63 - k)" by simp
  then have "(j + 1) * 2 ^ k \<le> 2 ^ 63" unfolding e by (rule mult_le_mono1)
  moreover have "(2::nat) ^ 64 = 2 * 2 ^ 63" by simp
  ultimately show ?thesis unfolding add_mult_distrib using pow2_pos [of k] by linarith
qed

lemma unat_node: "slot k j \<Longrightarrow> unat (node k j) = 2 * (j * 2 ^ k) + 2 ^ k - 1"
  using slot_bound [of k j] by (simp add: node_def unat_of_nat)

lemma node_less_iff:
  "slot k j \<Longrightarrow> slot k' j' \<Longrightarrow>
    node k j < node k' j' \<longleftrightarrow> 2 * (j * 2 ^ k) + 2 ^ k < 2 * (j' * 2 ^ k') + (2::nat) ^ k'"
  unfolding word_less_nat_alt unat_node using pow2_pos [of k] by linarith

lemma node_inject:
  assumes "slot k j" "slot k' j'"
  shows "node k j = node k' j' \<longleftrightarrow> k = k' \<and> j = j'"
proof
  assume eq: "node k j = node k' j'"
  have k: "k = k'" using arg_cong [OF eq, of level] assms by (simp add: level_node slot_def)
  have "unat (node k j) = unat (node k' j')" using eq by simp
  then have "j * 2 ^ k = j' * 2 ^ k"
    unfolding unat_node [OF assms(1)] unat_node [OF assms(2)] unfolding k
    using pow2_pos [of k'] by linarith
  with k show "k = k' \<and> j = j'" by simp
qed simp

lemma slot_div: "slot k j \<Longrightarrow> k + d \<le> 63 \<Longrightarrow> slot (k + d) (j div 2 ^ d)"
proof -
  assume s: "slot k j" "k + d \<le> 63"
  have "j div 2 ^ d * 2 ^ (k + d) = j div 2 ^ d * 2 ^ d * 2 ^ k" by (simp add: power_add algebra_simps)
  also have "\<dots> \<le> j * 2 ^ k" by simp
  finally show ?thesis using s by (simp add: slot_def)
qed

lemma slot_mult: "slot (k + d) j \<Longrightarrow> slot k (j * 2 ^ d)"
  by (auto simp: slot_def power_add algebra_simps)

lemma slot_in_tree: "in_tree n k j \<Longrightarrow> n \<le> 2 ^ 63 \<Longrightarrow> slot k j"
proof -
  assume i: "in_tree n k j" "n \<le> 2 ^ 63"
  have j: "j * 2 ^ k < n" and "(2::nat) ^ k < 2 ^ 64" using i unfolding in_tree_def by simp_all
  then have "k < 64" by (simp only: power_strict_increasing_iff one_less_numeral_iff semiring_norm)
  with j i(2) show ?thesis by (simp add: slot_def)
qed

lemma unat_of_nat_u64: "n < 2 ^ 64 \<Longrightarrow> unat (of_nat n :: u64) = n"
  by (simp add: unat_of_nat)

lemma unat_num_internal_nodes:
  assumes "0 < n" "n \<le> 2 ^ 63"
  shows "unat (num_internal_nodes (of_nat n)) = 2 * n - 1"
proof -
  have u: "unat (of_nat n :: u64) = n" using assms by (simp add: unat_of_nat)
  have "(of_nat n :: u64) \<noteq> 0" using u assms(1) by (metis neq0_conv unat_0)
  moreover have "2 * (of_nat n - 1) + 1 = (of_nat (2 * n - 1) :: u64)"
    using assms(1) by (cases n) (simp_all add: algebra_simps)
  ultimately have "num_internal_nodes (of_nat n) = of_nat (2 * n - 1)"
    by (simp add: num_internal_nodes_def)
  moreover have "2 * n - 1 < 2 ^ 64" using assms by simp
  ultimately show ?thesis by (simp add: unat_of_nat)
qed

lemma node_out_of_tree [node_simps]:
  assumes "0 < n" "n \<le> 2 ^ 63" "slot k j"
  shows "num_internal_nodes (of_nat n) \<le> node k j \<longleftrightarrow> \<not> in_tree n k j"
  unfolding word_le_nat_alt unat_num_internal_nodes [OF assms(1,2)] unat_node [OF assms(3)] in_tree_def
  using pow2_pos [of k] assms(1) by linarith

lemma clog2_le_63: "0 < n \<Longrightarrow> n \<le> 2 ^ 63 \<Longrightarrow> clog2 n \<le> 63"
  using clog2_mono [of n "2 ^ 63"] by (simp only: clog2_pow2)

lemma root_idx_node [node_simps]:
  assumes "0 < n" "n \<le> 2 ^ 63"
  shows "root_idx (of_nat n) = node (clog2 n) 0"
proof -
  let ?w = "num_internal_nodes (of_nat n)"
  have u: "unat ?w = 2 * n - 1" by (rule unat_num_internal_nodes [OF assms])
  have "0 < unat ?w" unfolding u using assms(1) by simp
  then have "?w \<noteq> 0" by auto
  then have "log2 ?w = clog2 n"
    using clog2_bounds [OF assms(1)] u
    by (auto simp: log2_def checked_ilog2_def intro!: ilog2_nat_eqI)
  then show ?thesis
    using clog2_le_63 [OF assms] by (simp add: root_idx_def shl64_def node_def of_nat_diff)
qed

lemma parent_loop_climb:
  assumes n: "0 < n" "n \<le> 2 ^ 63"
    and "slot k j" "k + d \<le> 63"
    and "\<And>i. i < d \<Longrightarrow> \<not> in_tree n (k + i) (j div 2 ^ i)"
    and "in_tree n (k + d) (j div 2 ^ d)"
  shows "parent_loop (of_nat n) (node k j) = Some (node (k + d) (j div 2 ^ d))"
  using assms(3-)
proof (induction d arbitrary: k j)
  case 0
  then show ?case by (simp add: parent_loop.simps [of "of_nat n" "node k j"] node_out_of_tree [OF n])
next
  case (Suc d)
  have "\<not> in_tree n k j" using Suc.prems(3) [of 0] by simp
  then have "parent_loop (of_nat n) (node k j) = parent_loop (of_nat n) (node (Suc k) (j div 2))"
    using Suc.prems(1,2)
    by (simp add: parent_loop.simps [of "of_nat n" "node k j"] node_out_of_tree [OF n] parent_step_node)
  also have "\<dots> = Some (node (Suc k + d) (j div 2 div 2 ^ d))"
  proof (rule Suc.IH)
    show "slot (Suc k) (j div 2)" using slot_div [of k j 1] Suc.prems(1,2) by simp
    show "Suc k + d \<le> 63" using Suc.prems(2) by simp
    show "in_tree n (Suc k + d) (j div 2 div 2 ^ d)" using Suc.prems(4) by (simp add: div_mult2_eq)
    show "\<not> in_tree n (Suc k + i) (j div 2 div 2 ^ i)" if "i < d" for i
      using Suc.prems(3) [of "Suc i"] that by (simp add: div_mult2_eq)
  qed
  finally show ?case by (simp add: div_mult2_eq)
qed

lemma right_child_loop_descend:
  assumes n: "0 < n" "n \<le> 2 ^ 63"
    and "slot (k + d) j"
    and "\<And>i. 0 < i \<Longrightarrow> i \<le> d \<Longrightarrow> \<not> in_tree n (k + i) (j * 2 ^ (d - i))"
    and "in_tree n k (j * 2 ^ d)"
  shows "right_child_loop (of_nat n) (node (k + d) j) = Some (node k (j * 2 ^ d))"
  using assms(3-)
proof (induction d arbitrary: j)
  case 0
  then show ?case
    by (simp add: right_child_loop.simps [of "of_nat n" "node k j"] node_out_of_tree [OF n])
next
  case (Suc d)
  have "\<not> in_tree n (k + Suc d) j" using Suc.prems(2) [of "Suc d"] by simp
  then have "right_child_loop (of_nat n) (node (k + Suc d) j)
      = right_child_loop (of_nat n) (node (k + d) (j * 2))"
    using Suc.prems(1) left_child_node [of "k + d" j]
    by (simp add: right_child_loop.simps [of "of_nat n" "node (Suc (k + d)) j"]
        node_out_of_tree [OF n] slot_def mult.commute)
  also have "\<dots> = Some (node k (j * 2 * 2 ^ d))"
  proof (rule Suc.IH)
    show "slot (k + d) (j * 2)" using slot_mult [of "k + d" 1 j] Suc.prems(1) by simp
    show "in_tree n k (j * 2 * 2 ^ d)" using Suc.prems(3) by (simp add: algebra_simps)
    show "\<not> in_tree n (k + i) (j * 2 * 2 ^ (d - i))" if "0 < i" "i \<le> d" for i
      using Suc.prems(2) [of i] that by (simp add: Suc_diff_le algebra_simps)
  qed
  finally show ?case by (simp add: algebra_simps)
qed

section \<open>Nodes by the range of leaves below them\<close>

definition trange :: "nat \<Rightarrow> nat \<Rightarrow> nat \<Rightarrow> bool" where
  "trange n lo hi \<longleftrightarrow> lo < hi \<and> hi \<le> n \<and> n \<le> 2 ^ 63 \<and> 2 ^ clog2 (hi - lo) dvd lo \<and>
     (hi = n \<or> hi = lo + 2 ^ clog2 (hi - lo))"

definition node_of :: "nat \<Rightarrow> nat \<Rightarrow> InternalIdx" where
  "node_of lo hi = node (clog2 (hi - lo)) (lo div 2 ^ clog2 (hi - lo))"

lemma trangeD:
  assumes "trange n lo hi"
  shows "lo < hi" "hi \<le> n" "0 < n" "n \<le> 2 ^ 63" "0 < hi - lo"
    "lo div 2 ^ clog2 (hi - lo) * 2 ^ clog2 (hi - lo) = lo"
    "hi = n \<or> hi = lo + 2 ^ clog2 (hi - lo)"
  using assms by (auto simp: trange_def)

lemma trange_slot: "trange n lo hi \<Longrightarrow> slot (clog2 (hi - lo)) (lo div 2 ^ clog2 (hi - lo))"
proof -
  assume t: "trange n lo hi"
  note d = trangeD [OF t]
  have "clog2 (hi - lo) \<le> 63" using clog2_le_63 [of "hi - lo"] d by simp
  with d show ?thesis by (simp add: slot_def)
qed

lemma trange_in_tree: "trange n lo hi \<Longrightarrow> in_tree n (clog2 (hi - lo)) (lo div 2 ^ clog2 (hi - lo))"
proof -
  assume t: "trange n lo hi"
  note d = trangeD [OF t]
  have "2 ^ clog2 (hi - lo) < 2 * (hi - lo)" using clog2_bounds [OF d(5)] by simp
  then have "2 * lo + 2 ^ clog2 (hi - lo) < 2 * n" using d(1,2) by linarith
  then show ?thesis by (simp add: in_tree_def d(6))
qed

lemma trange_root: "0 < n \<Longrightarrow> n \<le> 2 ^ 63 \<Longrightarrow> trange n 0 n"
  by (simp add: trange_def)

lemma root_idx_node_of: "0 < n \<Longrightarrow> n \<le> 2 ^ 63 \<Longrightarrow> root_idx (of_nat n) = node_of 0 n"
  by (simp add: root_idx_node node_of_def)

lemma node_of_leaf: "node_of i (Suc i) = 2 * of_nat i"
  by (simp add: node_of_def node_def)

lemma trange_leaf: "i < n \<Longrightarrow> n \<le> 2 ^ 63 \<Longrightarrow> trange n i (Suc i)"
  by (simp add: trange_def)

text \<open>The arithmetic of one split, shared by the lemmas below.\<close>

lemma split_facts:
  assumes t: "trange n lo hi" and s: "1 < hi - lo"
  defines "k \<equiv> clog2 (hi - lo)" and "m \<equiv> lo + split_point (hi - lo)"
  shows "0 < k" "m = lo + 2 ^ (k - 1)" "lo < m" "m < hi" "2 * m = 2 * lo + 2 ^ k"
    "clog2 (m - lo) = k - 1" "clog2 (hi - m) \<le> k - 1" "2 ^ (k - 1) dvd m"
    "clog2 (hi - m) < k - 1 \<Longrightarrow> hi = n" "k \<le> clog2 n" "hi - m \<le> 2 ^ clog2 (hi - m)"
    "m = (2 * (lo div 2 ^ k) + 1) * 2 ^ (k - 1)"
proof -
  note d = trangeD [OF t] and sb = split_point_bounds [OF s] and sd = split_point_double [OF s]
  show k: "0 < k" unfolding k_def by (rule clog2_pos [OF s])
  show m: "m = lo + 2 ^ (k - 1)" by (simp add: m_def k_def split_point_def)
  show "lo < m" "m < hi" using sb d unfolding m_def by simp_all
  have 2: "(2::nat) ^ k = 2 * 2 ^ (k - 1)" using k by (simp flip: power_Suc)
  show "2 * m = 2 * lo + 2 ^ k" unfolding m 2 by simp
  show "clog2 (m - lo) = k - 1" unfolding m by simp
  have "hi - m \<le> 2 ^ (k - 1)" 
    using sb(3) d(1) unfolding m_def k_def split_point_def by linarith
  then show le: "clog2 (hi - m) \<le> k - 1"
    using clog2_mono [of "hi - m" "2 ^ (k - 1)"] \<open>m < hi\<close> by simp
  have lo: "lo = lo div 2 ^ k * 2 ^ k" using d(6) unfolding k_def by simp
  show mm: "m = (2 * (lo div 2 ^ k) + 1) * 2 ^ (k - 1)"
    unfolding m by (subst lo) (simp add: 2 algebra_simps)
  show "2 ^ (k - 1) dvd m" by (subst mm) simp
  show "hi = n" if "clog2 (hi - m) < k - 1"
  proof -
    have "hi \<noteq> lo + 2 ^ k"
    proof
      assume "hi = lo + 2 ^ k"
      then have "hi - m = 2 ^ (k - 1)" unfolding m 2 by simp
      then show False using that by simp
    qed
    then show ?thesis using d(7) unfolding k_def by blast
  qed
  show "k \<le> clog2 n" unfolding k_def using d by (intro clog2_mono) simp_all
  show "hi - m \<le> 2 ^ clog2 (hi - m)" using clog2_bounds [of "hi - m"] \<open>m < hi\<close> by simp
qed

lemma trange_left:
  assumes t: "trange n lo hi" and s: "1 < hi - lo"
  shows "trange n lo (lo + split_point (hi - lo))"
proof -
  note f = split_facts [OF t s] and d = trangeD [OF t]
  have "2 ^ clog2 (hi - lo) dvd lo" using t by (simp add: trange_def)
  then have "2 ^ (clog2 (hi - lo) - 1) dvd lo" by (rule power_le_dvd) simp
  then show ?thesis using d f(2,3,4,6) by (simp add: trange_def)
qed

lemma trange_right:
  assumes t: "trange n lo hi" and s: "1 < hi - lo"
  shows "trange n (lo + split_point (hi - lo)) hi"
proof -
  note f = split_facts [OF t s] and d = trangeD [OF t]
  let ?k = "clog2 (hi - lo)" and ?m = "lo + split_point (hi - lo)"
  have "2 ^ clog2 (hi - ?m) dvd ?m" using f(7,8) by (rule power_le_dvd [rotated])
  moreover have "hi = n \<or> hi = ?m + 2 ^ clog2 (hi - ?m)"
  proof (cases "clog2 (hi - ?m) < ?k - 1")
    case True
    then show ?thesis using f(9) by simp
  next
    case False
    then have "clog2 (hi - ?m) = ?k - 1" using f(7) by simp
    moreover have "hi = n \<or> hi = lo + 2 ^ ?k" by (rule d(7))
    moreover have "lo + 2 ^ ?k = ?m + 2 ^ (?k - 1)" using f(2,5) by simp
    ultimately show ?thesis by metis
  qed
  ultimately show ?thesis using d f(4) by (simp add: trange_def)
qed

lemma node_of_left_eq:
  assumes t: "trange n lo hi" and s: "1 < hi - lo"
  shows "node_of lo (lo + split_point (hi - lo))
       = node (clog2 (hi - lo) - 1) (2 * (lo div 2 ^ clog2 (hi - lo)))"
proof -
  note f = split_facts [OF t s] and d = trangeD [OF t]
  let ?k = "clog2 (hi - lo)"
  have "(2::nat) ^ ?k = 2 * 2 ^ (?k - 1)" using f(1) by (simp flip: power_Suc)
  then have "lo = 2 * (lo div 2 ^ ?k) * 2 ^ (?k - 1)" using d(6) by (simp add: algebra_simps)
  then have "lo div 2 ^ (?k - 1) = 2 * (lo div 2 ^ ?k)"
    by (metis nonzero_mult_div_cancel_right pow2_pos less_numeral_extra(3))
  then show ?thesis unfolding node_of_def f(6) by simp
qed

lemma node_of_right_eq:
  assumes t: "trange n lo hi" and s: "1 < hi - lo"
  defines "m \<equiv> lo + split_point (hi - lo)" and "k \<equiv> clog2 (hi - lo)"
  shows "node_of m hi = node (clog2 (hi - m)) (m div 2 ^ clog2 (hi - m))"
    and "m div 2 ^ clog2 (hi - m) = (2 * (lo div 2 ^ k) + 1) * 2 ^ (k - 1 - clog2 (hi - m))"
proof -
  note f = split_facts [OF t s, folded m_def k_def]
  show "node_of m hi = node (clog2 (hi - m)) (m div 2 ^ clog2 (hi - m))" by (simp add: node_of_def)
  have "(2::nat) ^ (k - 1) = 2 ^ (k - 1 - clog2 (hi - m)) * 2 ^ clog2 (hi - m)"
    using f(7) by (simp flip: power_add)
  then show "m div 2 ^ clog2 (hi - m) = (2 * (lo div 2 ^ k) + 1) * 2 ^ (k - 1 - clog2 (hi - m))"
    by (subst f(12)) simp
qed

text \<open>Between the right half and its parent, the intermediate array positions are outside the tree.\<close>

lemma right_gap:
  assumes t: "trange n lo hi" and s: "1 < hi - lo"
  defines "m \<equiv> lo + split_point (hi - lo)" and "k \<equiv> clog2 (hi - lo)"
  assumes l: "clog2 (hi - m) < l" "l < k" and j: "j * 2 ^ l = m"
  shows "\<not> in_tree n l j"
proof -
  note f = split_facts [OF t s, folded m_def k_def]
  have "hi = n" using f(9) l by simp
  moreover have "2 ^ Suc (clog2 (hi - m)) \<le> (2::nat) ^ l" using l(1) by (intro power_increasing) simp_all
  ultimately have "2 * n \<le> 2 * m + 2 ^ l" using f(11) by simp
  then show ?thesis by (simp add: in_tree_def j)
qed

lemma right_pos:
  assumes t: "trange n lo hi" and s: "1 < hi - lo"
  defines "m \<equiv> lo + split_point (hi - lo)" and "k \<equiv> clog2 (hi - lo)"
  assumes l: "l < k"
  shows "m div 2 ^ l * 2 ^ l = m"
proof -
  note f = split_facts [OF t s, folded m_def k_def]
  have "2 ^ l dvd m" using f(8) by (rule power_le_dvd) (use l in simp)
  then show ?thesis by simp
qed

lemma child_not_root:
  assumes t: "trange n lo hi" and s: "1 < hi - lo" and l: "l < clog2 (hi - lo)" "slot l j"
  shows "node l j \<noteq> root_idx (of_nat n)"
proof -
  note f = split_facts [OF t s] and d = trangeD [OF t]
  have "l \<noteq> clog2 n" using f(10) l(1) by simp
  moreover have "slot (clog2 n) 0" using clog2_le_63 d by (simp add: slot_def)
  ultimately show ?thesis using d l(2) by (simp add: root_idx_node node_inject)
qed

lemma parent_left [node_simps]:
  assumes t: "trange n lo hi" and s: "1 < hi - lo"
  shows "parent (node_of lo (lo + split_point (hi - lo))) (of_nat n) = Some (node_of lo hi)"
proof -
  note f = split_facts [OF t s] and d = trangeD [OF t]
  let ?k = "clog2 (hi - lo)" and ?j = "lo div 2 ^ clog2 (hi - lo)"
  have sl: "slot (?k - 1) (2 * ?j)"
    using trange_slot [OF trange_left [OF t s]] node_of_left_eq [OF t s] f(1) slot_mult [of "?k - 1" 1 ?j]
      trange_slot [OF t] by (simp add: mult.commute)
  have "?k \<le> 63" using trange_slot [OF t] by (simp add: slot_def)
  then have "parent_step (node (?k - 1) (2 * ?j)) = node ?k ?j"
    using parent_step_node [of "?k - 1" "2 * ?j"] f(1) by simp
  moreover have "parent_loop (of_nat n) (node ?k ?j) = Some (node ?k ?j)"
    using parent_loop_climb [of n ?k ?j 0] d(3,4) trange_slot [OF t] trange_in_tree [OF t]
    by (simp add: slot_def)
  moreover have "node (?k - 1) (2 * ?j) \<noteq> root_idx (of_nat n)"
    using child_not_root [OF t s _ sl] f(1) by simp
  ultimately show ?thesis
    unfolding node_of_left_eq [OF t s] by (simp add: parent_def node_of_def)
qed

lemma parent_right [node_simps]:
  assumes t: "trange n lo hi" and s: "1 < hi - lo"
  shows "parent (node_of (lo + split_point (hi - lo)) hi) (of_nat n) = Some (node_of lo hi)"
proof -
  let ?k = "clog2 (hi - lo)" and ?j = "lo div 2 ^ clog2 (hi - lo)" and ?m = "lo + split_point (hi - lo)"
  let ?k' = "clog2 (hi - ?m)"
  let ?j' = "?m div 2 ^ ?k'"
  note f = split_facts [OF t s] and d = trangeD [OF t]
  have lt: "?k' < ?k" using f(1,7) by simp
  have sl: "slot ?k' ?j'" by (rule trange_slot [OF trange_right [OF t s]])
  have k63: "?k \<le> 63" using trange_slot [OF t] by (simp add: slot_def)
  have e: "?k' + 1 + (?k - ?k' - 1) = ?k" using lt by simp
  have div: "?j' div 2 div 2 ^ i = ?m div 2 ^ (?k' + 1 + i)" for i
    by (simp add: power_add mult_ac flip: div_mult2_eq)
  have top: "?m div 2 ^ ?k = ?j"
  proof -
    have "(2::nat) ^ ?k = 2 * 2 ^ (?k - 1)" using f(1) by (simp flip: power_Suc)
    then have "?m div 2 ^ ?k = (2 * ?j + 1) * 2 ^ (?k - 1) div (2 * 2 ^ (?k - 1))"
      using f(12) by metis
    also have "\<dots> = (2 * ?j + 1) div 2" by (rule div_mult_mult2) simp
    finally show ?thesis by simp
  qed
  have "parent_loop (of_nat n) (node (?k' + 1) (?j' div 2))
      = Some (node (?k' + 1 + (?k - ?k' - 1)) (?j' div 2 div 2 ^ (?k - ?k' - 1)))"
  proof (rule parent_loop_climb [OF d(3,4)])
    show "slot (?k' + 1) (?j' div 2)" using slot_div [OF sl, of 1] lt k63 by simp
    show "?k' + 1 + (?k - ?k' - 1) \<le> 63" unfolding e by (rule k63)
    show "in_tree n (?k' + 1 + (?k - ?k' - 1)) (?j' div 2 div 2 ^ (?k - ?k' - 1))"
      unfolding div e top by (rule trange_in_tree [OF t])
    show "\<not> in_tree n (?k' + 1 + i) (?j' div 2 div 2 ^ i)" if "i < ?k - ?k' - 1" for i
      unfolding div using that
      by (intro right_gap [OF t s] right_pos [OF t s]) simp_all
  qed
  then have "parent_loop (of_nat n) (parent_step (node ?k' ?j')) = Some (node ?k ?j)"
    unfolding div e top using lt k63 by (simp add: parent_step_node)
  then show ?thesis
    using child_not_root [OF t s lt sl] by (simp add: parent_def node_of_def)
qed

lemma left_child_of [node_simps]:
  assumes t: "trange n lo hi" and s: "1 < hi - lo"
  shows "left_child (node_of lo hi) = Some (node_of lo (lo + split_point (hi - lo)))"
proof -
  let ?k = "clog2 (hi - lo)"
  note f = split_facts [OF t s]
  have "?k \<le> 63" using trange_slot [OF t] by (simp add: slot_def)
  then show ?thesis
    unfolding node_of_left_eq [OF t s] node_of_def [of lo hi]
    using left_child_node [of "?k - 1"] f(1) by simp
qed

lemma gap_arith:
  "a \<le> b - 1 \<Longrightarrow> a + (b - 1 - a) = b - (1::nat)"
  "a \<le> b - 1 \<Longrightarrow> 0 < b \<Longrightarrow> i \<le> b - 1 - a \<Longrightarrow> a + i < (b::nat)"
  by arith+

lemma right_child_of [node_simps]:
  assumes t: "trange n lo hi" and s: "1 < hi - lo"
  shows "right_child (node_of lo hi) (of_nat n) = Some (node_of (lo + split_point (hi - lo)) hi)"
proof -
  let ?k = "clog2 (hi - lo)" and ?j = "lo div 2 ^ clog2 (hi - lo)" and ?m = "lo + split_point (hi - lo)"
  let ?k' = "clog2 (hi - ?m)"
  let ?d = "?k - 1 - ?k'"
  note f = split_facts [OF t s] and d = trangeD [OF t]
  have k63: "?k \<le> 63" using trange_slot [OF t] by (simp add: slot_def)
  have e: "?k' + ?d = ?k - 1" by (rule gap_arith(1) [OF f(7)])
  have j': "?m div 2 ^ ?k' = (2 * ?j + 1) * 2 ^ ?d" by (rule node_of_right_eq [OF t s])
  have "right_child_loop (of_nat n) (node (?k' + ?d) (2 * ?j + 1)) = Some (node ?k' ((2 * ?j + 1) * 2 ^ ?d))"
  proof (rule right_child_loop_descend [OF d(3,4)])
    have "(2 * ?j + 1) * 2 ^ (?k - 1) = ?m" using f(12) by simp
    moreover have "?m < n" using f(4) d(2) by simp
    ultimately show "slot (?k' + ?d) (2 * ?j + 1)" unfolding e slot_def using d(4) k63 by linarith
    show "in_tree n ?k' ((2 * ?j + 1) * 2 ^ ?d)"
      using trange_in_tree [OF trange_right [OF t s]] unfolding j' .
    show "\<not> in_tree n (?k' + i) ((2 * ?j + 1) * 2 ^ (?d - i))" if i: "0 < i" "i \<le> ?d" for i
    proof (rule right_gap [OF t s])
      show "?k' < ?k' + i" using i(1) by simp
      show "?k' + i < ?k" by (rule gap_arith(2) [OF f(7,1) i(2)])
      have "(2::nat) ^ (?d - i) * 2 ^ (?k' + i) = 2 ^ (?k - 1)" using i e by (simp flip: power_add)
      then show "(2 * ?j + 1) * 2 ^ (?d - i) * 2 ^ (?k' + i) = ?m"
        using f(12) by (simp only: mult.assoc)
    qed
  qed
  moreover have "node ?k ?j XOR shl64 3 (?k - 1) = node (?k - 1) (2 * ?j + 1)"
    using right_child_raw_node [of "?k - 1" ?j] f(1) k63 by simp
  ultimately show ?thesis
    unfolding e using f(1) k63
    by (simp add: right_child_def Let_def node_of_def [of lo hi] node_of_right_eq(1) [OF t s] j' level_node)
qed

lemma node_of_order:
  assumes t: "trange n lo hi" and s: "1 < hi - lo"
  shows "node_of lo (lo + split_point (hi - lo)) < node_of lo hi"
    and "node_of lo hi < node_of (lo + split_point (hi - lo)) hi"
proof -
  let ?k = "clog2 (hi - lo)" and ?m = "lo + split_point (hi - lo)"
  note f = split_facts [OF t s] and d = trangeD [OF t]
  note dl = trangeD [OF trange_left [OF t s]] and dr = trangeD [OF trange_right [OF t s]]
  have "(2::nat) ^ (?k - 1) < 2 ^ ?k" using f(1) by (intro power_strict_increasing) simp_all
  then show "node_of lo ?m < node_of lo hi"
    unfolding node_of_def node_less_iff [OF trange_slot [OF trange_left [OF t s]] trange_slot [OF t]] d(6) dl(6)
    using f(6) by simp
  show "node_of lo hi < node_of ?m hi"
    unfolding node_of_def node_less_iff [OF trange_slot [OF t] trange_slot [OF trange_right [OF t s]]] d(6) dr(6)
    unfolding f(5) [symmetric] using pow2_pos by simp
qed

lemma sibling_left [node_simps]:
  "trange n lo hi \<Longrightarrow> 1 < hi - lo \<Longrightarrow>
    sibling (node_of lo (lo + split_point (hi - lo))) (of_nat n) = Some (node_of (lo + split_point (hi - lo)) hi)"
  by (simp add: sibling_def parent_left right_child_of node_of_order)

lemma sibling_right [node_simps]:
  assumes t: "trange n lo hi" and s: "1 < hi - lo"
  shows "sibling (node_of (lo + split_point (hi - lo)) hi) (of_nat n)
       = Some (node_of lo (lo + split_point (hi - lo)))"
proof -
  have "\<not> node_of (lo + split_point (hi - lo)) hi < node_of lo hi"
    using node_of_order(2) [OF t s] by simp
  then show ?thesis
    by (simp only: sibling_def parent_right [OF t s] left_child_of [OF t s] bind.bind_lunit if_False)
qed

lemma is_left_left [node_simps]:
  "trange n lo hi \<Longrightarrow> 1 < hi - lo \<Longrightarrow>
    is_left (node_of lo (lo + split_point (hi - lo))) (of_nat n) = Some True"
  by (simp add: is_left_def parent_left node_of_order)

lemma is_left_right [node_simps]:
  "trange n lo hi \<Longrightarrow> 1 < hi - lo \<Longrightarrow>
    is_left (node_of (lo + split_point (hi - lo)) hi) (of_nat n) = Some False"
  using node_of_order(2) [of n lo hi] by (simp add: is_left_def parent_right)

lemma node_of_inject:
  assumes "trange n lo hi" "trange n' lo' hi'"
  shows "node_of lo hi = node_of lo' hi' \<longleftrightarrow> clog2 (hi - lo) = clog2 (hi' - lo') \<and> lo = lo'"
  using trange_slot assms trangeD(6) [OF assms(1)] trangeD(6) [OF assms(2)]
  unfolding node_of_def by (subst node_inject) auto

lemma node_of_root_iff:
  assumes t: "trange n lo hi"
  shows "node_of lo hi = root_idx (of_nat n) \<longleftrightarrow> lo = 0 \<and> hi = n"
proof -
  note d = trangeD [OF t]
  have "lo = 0 \<and> hi = n" if "clog2 (hi - lo) = clog2 n" "lo = 0"
    using that d(7) d(2) clog2_bounds [OF d(3)] by auto
  then show ?thesis
    using node_of_inject [OF t trange_root [OF d(3,4)]] by (auto simp: root_idx_node_of [OF d(3,4)])
qed

section \<open>Inclusion proof indices are the RFC audit path\<close>

lemma split_arith:
  assumes "\<not> hi - lo \<le> (1::nat)"
  shows "lo + split_point (hi - lo) - lo < hi - lo" "hi - (lo + split_point (hi - lo)) < hi - lo"
    "lo < lo + split_point (hi - lo)" "lo + split_point (hi - lo) < hi"
  using split_point_bounds [of "hi - lo"] assms by simp_all

function path_ranges :: "nat \<Rightarrow> nat \<Rightarrow> nat \<Rightarrow> (nat \<times> nat) list" where
  "path_ranges m lo hi =
     (if hi - lo \<le> 1 then []
      else if m < lo + split_point (hi - lo)
      then path_ranges m lo (lo + split_point (hi - lo)) @ [(lo + split_point (hi - lo), hi)]
      else path_ranges m (lo + split_point (hi - lo)) hi @ [(lo, lo + split_point (hi - lo))])"
  by pat_completeness auto
termination
  by (relation "measure (\<lambda>(m, lo, hi). hi - lo)") (use split_arith in auto)

declare path_ranges.simps [simp del]

abbreviation node_pair :: "nat \<times> nat \<Rightarrow> InternalIdx" where
  "node_pair r \<equiv> node_of (fst r) (snd r)"

lemma inclusion_loop_climb:
  assumes "trange n lo hi" "lo \<le> m" "m < hi"
  shows "inclusion_loop (of_nat n) (node_of m (Suc m)) out
       = inclusion_loop (of_nat n) (node_of lo hi) (out @ map node_pair (path_ranges m lo hi))"
  using assms
proof (induction m lo hi arbitrary: out rule: path_ranges.induct)
  case (1 m lo hi)
  let ?s = "lo + split_point (hi - lo)"
  show ?case
  proof (cases "hi - lo \<le> 1")
    case True
    with "1.prems" have "m = lo" "hi = Suc lo" by simp_all
    then show ?thesis by (simp add: path_ranges.simps [of lo lo "Suc lo"])
  next
    case False
    note t = "1.prems"(1) and s = False [unfolded not_le]
    note sa = split_arith [OF False]
    show ?thesis
    proof (cases "m < ?s")
      case True
      have "node_of lo ?s \<noteq> root_idx (of_nat n)"
        using node_of_root_iff [OF trange_left [OF t s]] sa(4) trangeD(2) [OF t] by simp
      then show ?thesis
        using "1.IH"(1) [OF False True trange_left [OF t s] "1.prems"(2) True] False True
        by (simp add: path_ranges.simps [of m lo hi] sibling_left [OF t s] parent_left [OF t s]
            inclusion_loop.simps [of _ "node_of lo ?s"])
    next
      case m: False
      then have "?s \<le> m" by simp
      have "node_of ?s hi \<noteq> root_idx (of_nat n)"
        using node_of_root_iff [OF trange_right [OF t s]] sa(3) by simp
      then show ?thesis
        using "1.IH"(2) [OF False m trange_right [OF t s] \<open>?s \<le> m\<close> "1.prems"(3)] False m
        by (simp add: path_ranges.simps [of m lo hi] sibling_right [OF t s] parent_right [OF t s]
            inclusion_loop.simps [of _ "node_of ?s hi"])
    qed
  qed
qed

lemma LeafIdx_new_of_nat: "i < 2 ^ 63 \<Longrightarrow> LeafIdx_new (of_nat i) = Some (of_nat i)"
  using of_nat_u64_le_iff [of i "2 ^ 63 - 1"] by (simp add: LeafIdx_new_def u64_max_def)

lemma indices_for_inclusion_proof_eq:
  assumes "i < n" "n \<le> 2 ^ 63"
  shows "indices_for_inclusion_proof (of_nat n) (of_nat i) = Some (map node_pair (path_ranges i 0 n))"
proof (cases "n = 1")
  case True
  with assms show ?thesis
    by (simp add: indices_for_inclusion_proof_def u64_max_def path_ranges.simps [of 0 0 "Suc 0"])
next
  case False
  have i: "i < 2 ^ 63" "0 < n" using assms by simp_all
  note leaf = LeafIdx_new_of_nat [OF i(1)]
  have guards: "(of_nat n :: u64) \<noteq> 0" "\<not> (of_nat n :: u64) \<le> of_nat i" "(of_nat n :: u64) \<noteq> 1"
    "\<not> u64_max div 2 < of_nat i"
    using assms False of_nat_u64_cmp [of n 0] of_nat_u64_cmp [of n 1] of_nat_u64_cmp [of n i] leaf
    by (auto simp: LeafIdx_new_def split: if_splits)
  have "node_of i (Suc i) \<noteq> root_idx (of_nat n)"
    using node_of_root_iff [OF trange_leaf [OF assms]] False by auto
  then have "indices_for_inclusion_proof (of_nat n) (of_nat i)
      = inclusion_loop (of_nat n) (node_of i (Suc i)) []"
    using guards leaf
    by (simp add: indices_for_inclusion_proof_def internal_from_leaf_def node_of_leaf
        inclusion_loop.simps [of "of_nat n" "2 * of_nat i"] Let_def)
  also have "\<dots> = inclusion_loop (of_nat n) (node_of 0 n) (map node_pair (path_ranges i 0 n))"
    using inclusion_loop_climb [OF trange_root [OF i(2) assms(2)], of i "[]"] assms by simp
  also have "\<dots> = Some (map node_pair (path_ranges i 0 n))"
    using root_idx_node_of [OF i(2) assms(2)] by (simp add: inclusion_loop.simps)
  finally show ?thesis .
qed

section \<open>Consistency proof indices are the RFC subproof\<close>

lemma pow2_loop_eq:
  assumes "1 < n" "n \<le> 2 ^ 63" "i < clog2 n"
  shows "pow2_loop (of_nat n) (of_nat (2 ^ i)) = Some (of_nat (split_point n))"
  using assms(3)
proof (induction "clog2 n - i" arbitrary: i)
  case 0
  then show ?case by simp
next
  case (Suc d)
  have le: "(2::nat) ^ Suc i \<le> 2 ^ 63"
    using Suc.prems clog2_le_63 [of n] assms by (intro power_increasing) simp_all
  then have lt: "(2::nat) ^ Suc i < 2 ^ 64" "n < 2 ^ 64" using assms(2) by simp_all
  have step: "(of_nat (2 ^ i) :: u64) * 2 = of_nat (2 ^ Suc i)" by simp
  have cmp: "(of_nat (2 ^ i) :: u64) * 2 < of_nat n \<longleftrightarrow> 2 ^ Suc i < n"
    unfolding step by (rule of_nat_u64_less_iff [OF lt])
  show ?case
  proof (cases "Suc i < clog2 n")
    case True
    have "(2::nat) ^ Suc i \<le> 2 ^ (clog2 n - 1)" using True by (intro power_increasing) simp_all
    also have "\<dots> < n" using split_point_bounds(2) [OF assms(1)] by (simp add: split_point_def)
    finally have "2 ^ Suc i < n" .
    with cmp Suc.hyps(1) [of "Suc i"] Suc.hyps(2) True show ?thesis
      unfolding pow2_loop.simps [of "of_nat n" "of_nat (2 ^ i)"] step by simp
  next
    case False
    then have i: "Suc i = clog2 n" using Suc.prems by simp
    then have "\<not> 2 ^ Suc i < n" using clog2_bounds [of n] assms(1) by simp
    moreover have "i = clog2 n - 1" using i by simp
    then have "split_point n = 2 ^ i" by (simp add: split_point_def)
    ultimately show ?thesis
      unfolding pow2_loop.simps [of "of_nat n" "of_nat (2 ^ i)"] cmp by simp
  qed
qed

lemma largest_power_of_two_eq:
  assumes "1 < n" "n \<le> 2 ^ 63"
  shows "largest_power_of_two_less_than (of_nat n) = Some (of_nat (split_point n))"
  using pow2_loop_eq [OF assms, of 0] clog2_pos [OF assms(1)] of_nat_u64_le_iff [of n 1] assms
  by (simp add: largest_power_of_two_less_than_def)

lemma trange_self: "trange n lo hi \<Longrightarrow> trange hi lo hi"
  by (auto simp: trange_def)

lemma compute_subtree_root_eq:
  assumes "trange n lo hi"
  shows "compute_subtree_root (of_nat lo) (of_nat hi) = Some (node_of lo hi)"
  using trange_self [OF assms]
proof (induction "hi - lo" arbitrary: lo hi rule: less_induct)
  case less
  note t = less.prems
  note d = trangeD [OF t]
  have diff: "(of_nat hi :: u64) - of_nat lo = of_nat (hi - lo)" using d(1) by (simp add: of_nat_diff)
  have one: "(of_nat (hi - lo) :: u64) = 1 \<longleftrightarrow> hi - lo = 1"
    using of_nat_u64_eq_iff [of "hi - lo" 1] d by simp
  show ?case
  proof (cases "hi - lo = 1")
    case True
    then have "hi = Suc lo" using d by simp
    moreover have "lo < 2 ^ 63" using d by simp
    ultimately show ?thesis
      unfolding compute_subtree_root.simps [of "of_nat lo" "of_nat hi"] diff one
      by (simp add: LeafIdx_new_of_nat internal_from_leaf_def node_of_leaf)
  next
    case False
    then have s: "1 < hi - lo" using d by simp
    let ?m = "lo + split_point (hi - lo)"
    have L: "compute_subtree_root (of_nat lo) (of_nat ?m) = Some (node_of lo ?m)"
      using less.hyps [of ?m lo] split_arith [of hi lo] s trange_self [OF trange_left [OF t s]] by simp
    have R: "compute_subtree_root (of_nat ?m) (of_nat hi) = Some (node_of ?m hi)"
      using less.hyps [of hi ?m] split_arith [of hi lo] s trange_right [OF t s] by simp
    have P: "largest_power_of_two_less_than (of_nat (hi - lo)) = Some (of_nat (split_point (hi - lo)))"
      by (rule largest_power_of_two_eq [OF s]) (use d in simp)
    show ?thesis
      unfolding compute_subtree_root.simps [of "of_nat lo" "of_nat hi"] diff one P
      using False L R parent_left [OF t s] by simp
  qed
qed

function sub_ranges :: "nat \<Rightarrow> nat \<Rightarrow> bool \<Rightarrow> nat \<Rightarrow> (nat \<times> nat) list" where
  "sub_ranges m n b off =
     (if m = n then (if b then [] else [(off, off + m)])
      else if n \<le> 1 then []
      else if m \<le> split_point n
      then sub_ranges m (split_point n) b off @ [(off + split_point n, off + n)]
      else sub_ranges (m - split_point n) (n - split_point n) False (off + split_point n)
             @ [(off, off + split_point n)])"
  by pat_completeness auto
termination
proof (relation "measure (\<lambda>(m, n, b, off). n)")
  show "((m, split_point n, b, off), m, n, b, off) \<in> measure (\<lambda>(m, n, b, off). n)"
    if "\<not> n \<le> 1" for m n :: nat and b :: bool and off :: nat
    using split_point_bounds [of n] that by simp
  show "((m - split_point n, n - split_point n, False, off + split_point n), m, n, b, off)
      \<in> measure (\<lambda>(m, n, b, off). n)"
    if "\<not> n \<le> 1" for m n :: nat and b :: bool and off :: nat
    using split_point_bounds [of n] that by simp
qed simp

declare sub_ranges.simps [simp del]

lemma subproof_eq:
  assumes "trange N off (off + n)" "0 < m" "m \<le> n"
  shows "subproof_with_offset (of_nat m) (of_nat n) b (of_nat off)
       = Some (map node_pair (sub_ranges m n b off))"
  using assms
proof (induction m n b off rule: sub_ranges.induct)
  case (1 m n b off)
  note t = "1.prems"(1)
  note d = trangeD [OF t]
  have n63: "n \<le> 2 ^ 63" "m \<le> 2 ^ 63" using d "1.prems"(3) by simp_all
  have eq: "(of_nat m :: u64) = of_nat n \<longleftrightarrow> m = n"
    using of_nat_u64_eq_iff [of m n] n63 by simp
  have root: "compute_subtree_root (of_nat a) (of_nat c) = Some (node_of a c)" if "trange N a c" for a c
    by (rule compute_subtree_root_eq [OF that])
  show ?case
  proof (cases "m = n")
    case True
    then show ?thesis
      using root [OF t] unfolding subproof_with_offset.simps [of "of_nat m" "of_nat n" b "of_nat off"]
      by (simp add: sub_ranges.simps [of n n])
  next
    case False
    then have n1: "1 < n" using "1.prems" by simp
    let ?k = "split_point n"
    note sb = split_point_bounds [OF n1]
    have tl: "trange N off (off + ?k)" using trange_left [OF t] n1 by simp
    have tr: "trange N (off + ?k) (off + n)" using trange_right [OF t] n1 by simp
    have P: "largest_power_of_two_less_than (of_nat n) = Some (of_nat ?k)"
      by (rule largest_power_of_two_eq [OF n1 n63(1)])
    have le: "(of_nat m :: u64) \<le> of_nat ?k \<longleftrightarrow> m \<le> ?k"
      using of_nat_u64_le_iff [of m ?k] n63 sb by simp
    show ?thesis
    proof (cases "m \<le> ?k")
      case True
      have "subproof_with_offset (of_nat m) (of_nat ?k) b (of_nat off) = Some (map node_pair (sub_ranges m ?k b off))"
        using "1.IH"(1) [OF False _ True tl "1.prems"(2) True] n1 by simp
      then show ?thesis
        unfolding subproof_with_offset.simps [of "of_nat m" "of_nat n" b "of_nat off"] eq P
        using False True le root [OF tr] n1 by (simp add: sub_ranges.simps [of m n])
    next
      case F: False
      have "subproof_with_offset (of_nat (m - ?k)) (of_nat (n - ?k)) False (of_nat (off + ?k))
          = Some (map node_pair (sub_ranges (m - ?k) (n - ?k) False (off + ?k)))"
      proof (rule "1.IH"(2) [OF False _ F])
        show "trange N (off + ?k) (off + ?k + (n - ?k))" using tr sb by simp
      qed (use n1 F "1.prems" in simp_all)
      then have "subproof_with_offset (of_nat m - of_nat ?k) (of_nat n - of_nat ?k) False (of_nat off + of_nat ?k)
          = Some (map node_pair (sub_ranges (m - ?k) (n - ?k) False (off + ?k)))"
        using F sb by (simp add: of_nat_diff)
      then show ?thesis
        unfolding subproof_with_offset.simps [of "of_nat m" "of_nat n" b "of_nat off"] eq P
        using False F le root [OF tl] n1 by (simp add: sub_ranges.simps [of m n])
    qed
  qed
qed

lemma indices_for_consistency_proof_eq:
  assumes "0 < m" "m < n" "n \<le> 2 ^ 63"
  shows "indices_for_consistency_proof (of_nat m) (of_nat (n - m))
       = Some (map node_pair (sub_ranges m n True 0))"
proof -
  have sum: "(of_nat m :: u64) + of_nat (n - m) = of_nat n" using assms by (simp flip: of_nat_add)
  have "u64_max div 2 + 1 = of_nat (2 ^ 63)" by (simp add: u64_max_def)
  then have "\<not> u64_max div 2 + 1 < of_nat n" using of_nat_u64_less_iff [of "2 ^ 63" n] assms by simp
  moreover have "(of_nat m :: u64) \<noteq> 0" "(of_nat m :: u64) \<noteq> of_nat n"
    using of_nat_u64_eq_iff [of m 0] of_nat_u64_eq_iff [of m n] assms by simp_all
  ultimately show ?thesis
    using subproof_eq [of n 0 n m True] trange_root [of n] assms
    by (simp add: indices_for_consistency_proof_def checked_add64_def subproof_def sum)
qed

end
