(* ===== verification/Merkle_Spec.thy ===== *)
theory Merkle_Spec
  imports Tree_Nodes
begin

text \<open>
  The specification the Merkle components are measured against: the Merkle Tree Hash, the audit
  path and the consistency proof of RFC 6962, section 2.1, over a list of leaf contents, with the
  leaf and node hashes of \<^verbatim>\<open>src/src/merkle_tree/ct_merkle_vendored.rs\<close>. The hash function \<open>H\<close> is
  the \<^verbatim>\<open>Digest\<close> parameter of the code and a parameter here; the log uses SHA-256, so digests
  have \<open>output_size = 32\<close> bytes.

  The second part shows that the specification is what the index ranges of \<^verbatim>\<open>Tree_Nodes\<close>
  describe: the audit path and the consistency proof are the hashes of the ranges whose
  node indices the code computes.
\<close>

section \<open>Leaf and node hashes\<close>

type_synonym digest_fun = "bytes \<Rightarrow> bytes"

definition output_size :: nat where
  "output_size = 32"

definition LEAF_HASH_PREFIX :: bytes where
  "LEAF_HASH_PREFIX = [0]"

definition PARENT_HASH_PREFIX :: bytes where
  "PARENT_HASH_PREFIX = [1]"

definition leaf_hash :: "digest_fun \<Rightarrow> bytes \<Rightarrow> bytes" where
  "leaf_hash H leaf = H (LEAF_HASH_PREFIX @ leaf)"

definition parent_hash :: "digest_fun \<Rightarrow> bytes \<Rightarrow> bytes \<Rightarrow> bytes" where
  "parent_hash H left right = H (PARENT_HASH_PREFIX @ left @ right)"

section \<open>Merkle tree hash, audit path and consistency proof of RFC 6962\<close>

function mth :: "digest_fun \<Rightarrow> bytes list \<Rightarrow> bytes" where
  "mth H D =
     (if D = [] then H []
      else if length D = 1 then leaf_hash H (hd D)
      else parent_hash H (mth H (take (split_point (length D)) D)) (mth H (drop (split_point (length D)) D)))"
  by pat_completeness auto

termination
proof (relation "measure (\<lambda>(H, D). length D)")
  fix H :: digest_fun and D :: "bytes list"
  assume "D \<noteq> []" "length D \<noteq> 1"
  then have "1 < length D" by (cases D) auto
  note b = split_point_bounds [OF this]
  show "((H, take (split_point (length D)) D), H, D) \<in> measure (\<lambda>(H, D). length D)"
    "((H, drop (split_point (length D)) D), H, D) \<in> measure (\<lambda>(H, D). length D)"
    using b by simp_all
qed simp

declare mth.simps [simp del]

function path :: "digest_fun \<Rightarrow> nat \<Rightarrow> bytes list \<Rightarrow> bytes list" where
  "path H m D =
     (if length D \<le> 1 then []
      else if m < split_point (length D)
      then path H m (take (split_point (length D)) D) @ [mth H (drop (split_point (length D)) D)]
      else path H (m - split_point (length D)) (drop (split_point (length D)) D)
             @ [mth H (take (split_point (length D)) D)])"
  by pat_completeness auto
termination
proof (relation "measure (\<lambda>(H, m, D). length D)")
  fix H :: digest_fun and m :: nat and D :: "bytes list"
  assume "\<not> length D \<le> 1"
  note b = split_point_bounds [OF this [unfolded not_le]]
  show "((H, m, take (split_point (length D)) D), H, m, D) \<in> measure (\<lambda>(H, m, D). length D)"
    "((H, m - split_point (length D), drop (split_point (length D)) D), H, m, D)
      \<in> measure (\<lambda>(H, m, D). length D)"
    using b by simp_all
qed simp

declare path.simps [simp del]

function rfc_subproof :: "digest_fun \<Rightarrow> nat \<Rightarrow> bytes list \<Rightarrow> bool \<Rightarrow> bytes list" where
  "rfc_subproof H m D b =
     (if m = length D then (if b then [] else [mth H D])
      else if length D \<le> 1 then []
      else if m \<le> split_point (length D)
      then rfc_subproof H m (take (split_point (length D)) D) b @ [mth H (drop (split_point (length D)) D)]
      else rfc_subproof H (m - split_point (length D)) (drop (split_point (length D)) D) False
             @ [mth H (take (split_point (length D)) D)])"
  by pat_completeness auto
termination
proof (relation "measure (\<lambda>(H, m, D, b). length D)")
  fix H :: digest_fun and m :: nat and D :: "bytes list" and c :: bool
  assume "\<not> length D \<le> 1"
  note b = split_point_bounds [OF this [unfolded not_le]]
  show "((H, m, take (split_point (length D)) D, c), H, m, D, c) \<in> measure (\<lambda>(H, m, D, b). length D)"
    "((H, m - split_point (length D), drop (split_point (length D)) D, False), H, m, D, c)
      \<in> measure (\<lambda>(H, m, D, b). length D)"
    using b by simp_all
qed simp

declare rfc_subproof.simps [simp del]

definition rfc_proof :: "digest_fun \<Rightarrow> nat \<Rightarrow> bytes list \<Rightarrow> bytes list" where
  "rfc_proof H m D = rfc_subproof H m D True"

section \<open>Hashes of ranges\<close>

definition seg :: "'a list \<Rightarrow> nat \<Rightarrow> nat \<Rightarrow> 'a list" where
  "seg D lo hi = take (hi - lo) (drop lo D)"

lemma length_seg [simp]: "hi \<le> length D \<Longrightarrow> length (seg D lo hi) = hi - lo"
  by (simp add: seg_def)

lemma seg_all [simp]: "seg D 0 (length D) = D"
  by (simp add: seg_def)

lemma take_seg: "lo + k \<le> hi \<Longrightarrow> take k (seg D lo hi) = seg D lo (lo + k)"
  by (simp add: seg_def min_def)

lemma drop_seg: "lo + k \<le> hi \<Longrightarrow> drop k (seg D lo hi) = seg D (lo + k) hi"
  by (simp add: seg_def drop_take add.commute)

lemma seg_single: "i < length D \<Longrightarrow> seg D i (Suc i) = [D ! i]"
  by (simp add: seg_def take_Suc_conv_app_nth hd_drop_conv_nth take_Suc)

lemma seg_append: "hi \<le> length D \<Longrightarrow> seg (D @ E) lo hi = seg D lo hi"
  by (cases "lo \<le> hi") (simp_all add: seg_def)

definition range_hash :: "digest_fun \<Rightarrow> bytes list \<Rightarrow> nat \<Rightarrow> nat \<Rightarrow> bytes" where
  "range_hash H D lo hi = mth H (seg D lo hi)"

abbreviation range_pair :: "digest_fun \<Rightarrow> bytes list \<Rightarrow> nat \<times> nat \<Rightarrow> bytes" where
  "range_pair H D r \<equiv> range_hash H D (fst r) (snd r)"

lemma range_hash_leaf: "i < length D \<Longrightarrow> range_hash H D i (Suc i) = leaf_hash H (D ! i)"
  by (simp add: range_hash_def seg_single mth.simps)

lemma range_hash_split:
  assumes "1 < hi - lo" "hi \<le> length D"
  shows "range_hash H D lo hi
       = parent_hash H (range_hash H D lo (lo + split_point (hi - lo)))
           (range_hash H D (lo + split_point (hi - lo)) hi)"
proof -
  have l: "length (seg D lo hi) = hi - lo" using assms by simp
  have "seg D lo hi \<noteq> []" using l assms(1) by (cases "seg D lo hi") simp_all
  moreover have "lo + split_point (hi - lo) \<le> hi" using split_arith(4) [of hi lo] assms by simp
  ultimately show ?thesis
    using assms l unfolding range_hash_def
    by (subst mth.simps) (simp add: take_seg drop_seg)
qed

lemma range_hash_all: "range_hash H D 0 (length D) = mth H D"
  by (simp add: range_hash_def)

lemma range_hash_append: "hi \<le> length D \<Longrightarrow> range_hash H (D @ E) lo hi = range_hash H D lo hi"
  by (simp add: range_hash_def seg_append)

lemma length_range_hash:
  assumes "\<And>x. length (H x) = output_size"
  shows "length (range_hash H D lo hi) = output_size"
  using assms by (simp add: range_hash_def mth.simps [of H "seg D lo hi"] leaf_hash_def parent_hash_def)

lemma path_eq_ranges:
  assumes "lo \<le> m" "hi \<le> length D"
  shows "path H (m - lo) (seg D lo hi) = map (range_pair H D) (path_ranges m lo hi)"
  using assms
proof (induction m lo hi rule: path_ranges.induct)
  case (1 m lo hi)
  have l: "length (seg D lo hi) = hi - lo" using "1.prems" by simp
  let ?s = "lo + split_point (hi - lo)"
  show ?case
  proof (cases "hi - lo \<le> 1")
    case True
    then show ?thesis using l by (simp add: path.simps [of H "m - lo" "seg D lo hi"] path_ranges.simps [of m lo hi])
  next
    case False
    note sa = split_arith [OF False]
    have cmp: "m - lo < split_point (hi - lo) \<longleftrightarrow> m < ?s" using "1.prems"(1) by auto
    have sub: "m - lo - split_point (hi - lo) = m - ?s" by simp
    have ts: "take (split_point (hi - lo)) (seg D lo hi) = seg D lo ?s"
      "drop (split_point (hi - lo)) (seg D lo hi) = seg D ?s hi"
      using sa(4) by (simp_all add: take_seg drop_seg)
    show ?thesis
    proof (cases "m < ?s")
      case True
      with "1.IH"(1) "1.prems" False sa show ?thesis
        by (simp add: path.simps [of H "m - lo" "seg D lo hi"] path_ranges.simps [of m lo hi] l cmp ts range_hash_def)
    next
      case F: False
      with "1.IH"(2) "1.prems" False show ?thesis
        by (simp add: path.simps [of H "m - lo" "seg D lo hi"] path_ranges.simps [of m lo hi] l cmp sub ts range_hash_def)
    qed
  qed
qed

lemma path_ranges_hashes: "path H m D = map (range_pair H D) (path_ranges m 0 (length D))"
  using path_eq_ranges [of 0 m "length D" D H] by simp

lemma rfc_subproof_eq_ranges:
  assumes "off + n \<le> length D"
  shows "rfc_subproof H m (seg D off (off + n)) b = map (range_pair H D) (sub_ranges m n b off)"
  using assms
proof (induction m n b off rule: sub_ranges.induct)
  case (1 m n b off)
  have l: "length (seg D off (off + n)) = n" using "1.prems" by simp
  let ?k = "split_point n"
  show ?case
  proof (cases "m = n \<or> n \<le> 1")
    case True
    then show ?thesis
      using l by (auto simp: rfc_subproof.simps [of H m "seg D off (off + n)" b] sub_ranges.simps [of m n b off] range_hash_def)
  next
    case False
    then have n: "m \<noteq> n" "\<not> n \<le> 1" by simp_all
    note sb = split_point_bounds [of n]
    have ts: "take ?k (seg D off (off + n)) = seg D off (off + ?k)"
      "drop ?k (seg D off (off + n)) = seg D (off + ?k) (off + n)"
      using sb n by (simp_all add: take_seg drop_seg)
    have e: "off + ?k + (n - ?k) = off + n" using sb n by simp
    show ?thesis
    proof (cases "m \<le> ?k")
      case True
      with "1.IH"(1) [OF n True] "1.prems" n sb l ts show ?thesis
        by (simp add: rfc_subproof.simps [of H m "seg D off (off + n)" b] sub_ranges.simps [of m n b off] range_hash_def)
    next
      case F: False
      with "1.IH"(2) [OF n F] "1.prems" n l ts e show ?thesis
        by (simp add: rfc_subproof.simps [of H m "seg D off (off + n)" b] sub_ranges.simps [of m n b off] range_hash_def)
    qed
  qed
qed

lemma rfc_proof_hashes: "rfc_proof H m D = map (range_pair H D) (sub_ranges m (length D) True 0)"
  using rfc_subproof_eq_ranges [of 0 "length D" D H m True] by (simp add: rfc_proof_def)

end
