(* ===== verification/Merkle_Proofs.thy ===== *)
theory Merkle_Proofs
  imports Merkle_Spec
begin

unbundle bit_operations_syntax

text \<open>
  Root hashes, inclusion proofs and consistency proofs of
  \<^verbatim>\<open>src/src/merkle_tree/ct_merkle_vendored.rs\<close>: the byte strings they are and the two verifiers.
  A verifier returns \<^const>\<open>None\<close> where the code panics, and otherwise the \<^verbatim>\<open>Result\<close>.

  The verifiers climb the array tree from a node to the root. \<open>path_root\<close>, \<open>new_root_of\<close> and
  \<open>old_root_of\<close> say by recursion over the RFC splitting which root such a climb computes from a
  list of digests; the verifiers are shown to compute exactly these, from which follow
  completeness (honest proofs verify) and soundness (what verifies is true, unless the hash
  function has a collision among the inputs that were hashed).
\<close>

section \<open>The code\<close>

record RootHash =
  root_hash :: bytes
  num_leaves :: u64

record InclusionProof =
  inclusion_bytes :: bytes

record ConsistencyProof =
  consistency_bytes :: bytes

definition inclusion_from_digests :: "bytes list \<Rightarrow> InclusionProof" where
  "inclusion_from_digests digests = \<lparr>inclusion_bytes = concat digests\<rparr>"

definition consistency_from_digests :: "bytes list \<Rightarrow> ConsistencyProof" where
  "consistency_from_digests digests = \<lparr>consistency_bytes = concat digests\<rparr>"

text \<open>\<^verbatim>\<open>slice.chunks(n)\<close>: pieces of \<open>n\<close> elements, the last one possibly shorter.\<close>

function chunks :: "nat \<Rightarrow> 'a list \<Rightarrow> 'a list list" where
  "chunks n xs = (if xs = [] \<or> n = 0 then [] else take n xs # chunks n (drop n xs))"
  by pat_completeness auto
termination
  by (relation "measure (\<lambda>(n, xs). length xs)") auto

declare chunks.simps [simp del]

text \<open>\<^verbatim>\<open>GenericArray::from_slice\<close> and \<^verbatim>\<open>copy_from_slice\<close> panic on another length.\<close>

definition digest_from_slice :: "bytes \<Rightarrow> bytes option" where
  "digest_from_slice bs = (if length bs = output_size then Some bs else None)"

primrec inclusion_verify_loop :: "digest_fun \<Rightarrow> u64 \<Rightarrow> bytes list \<Rightarrow> InternalIdx \<times> bytes \<Rightarrow> (InternalIdx \<times> bytes) option" where
  "inclusion_verify_loop H n [] st = Some st"
| "inclusion_verify_loop H n (chunk # rest) st = do {
     sibling_hash \<leftarrow> digest_from_slice chunk;
     left \<leftarrow> is_left (fst st) n;
     let cur_hash = (if left then parent_hash H (snd st) sibling_hash else parent_hash H sibling_hash (snd st));
     cur_idx \<leftarrow> parent (fst st) n;
     inclusion_verify_loop H n rest (cur_idx, cur_hash) }"

definition inclusion_verify ::
  "digest_fun \<Rightarrow> InclusionProof \<Rightarrow> bytes \<Rightarrow> u64 \<Rightarrow> RootHash \<Rightarrow> (string + unit) option" where
  "inclusion_verify H self leaf_val leaf_idx root =
     (let n = num_leaves root in
      if n \<le> leaf_idx then Some (Inl ''leaf index out of bounds'')
      else if n = 0 then Some (Inl ''cannot verify inclusion in empty tree'')
      else do {
        indices \<leftarrow> indices_for_inclusion_proof n leaf_idx;
        if length (inclusion_bytes self) \<noteq> length indices * output_size
        then Some (Inl ''invalid proof length'')
        else if inclusion_bytes self = [] then
          (if leaf_hash H leaf_val = root_hash root then Some (Inr ())
           else Some (Inl ''root hash mismatch for single leaf''))
        else do {
          leaf \<leftarrow> LeafIdx_new leaf_idx;
          st \<leftarrow> inclusion_verify_loop H n (chunks output_size (inclusion_bytes self))
                  (internal_from_leaf leaf, leaf_hash H leaf_val);
          if snd st = root_hash root then Some (Inr ())
          else Some (Inl ''computed root does not match'') } })"

partial_function (option) diverging_loop :: "u64 \<Rightarrow> u64 \<Rightarrow> InternalIdx \<Rightarrow> InternalIdx option" where
  "diverging_loop num_leaves1 num_leaves2 idx = do {
     p1 \<leftarrow> parent idx num_leaves1;
     p2 \<leftarrow> parent idx num_leaves2;
     if p1 = p2 then diverging_loop num_leaves1 num_leaves2 p1 else Some idx }"

lemmas [code] = diverging_loop.simps

definition first_node_with_diverging_parents :: "u64 \<Rightarrow> u64 \<Rightarrow> InternalIdx option" where
  "first_node_with_diverging_parents num_leaves1 num_leaves2 =
     (if \<not> num_leaves2 < num_leaves1 then None
      else if num_leaves2 = 0 then None
      else if \<not> num_leaves1 \<le> u64_max div 2 + 1 then None
      else do {
        leaf \<leftarrow> LeafIdx_new (num_leaves2 - 1);
        diverging_loop num_leaves1 num_leaves2 (internal_from_leaf leaf) })"

definition is_power_of_two :: "u64 \<Rightarrow> bool" where
  "is_power_of_two w \<longleftrightarrow> length (filter (bit w) [0..<64]) = 1"

text \<open>The running values of the loop of \<^verbatim>\<open>ConsistencyProof::verify\<close>.\<close>

record running =
  newtree_idx :: InternalIdx
  newtree_hash :: bytes
  oldtree_idx :: InternalIdx
  oldtree_hash :: bytes

definition combine :: "digest_fun \<Rightarrow> bool \<Rightarrow> bytes \<Rightarrow> bytes \<Rightarrow> bytes" where
  "combine H left running_hash sibling_hash =
     (if left then parent_hash H running_hash sibling_hash else parent_hash H sibling_hash running_hash)"

definition consistency_step :: "digest_fun \<Rightarrow> u64 \<Rightarrow> u64 \<Rightarrow> bytes \<Rightarrow> running \<Rightarrow> running option" where
  "consistency_step H num_new num_old sibling_hash st = do {
     sibling_idx \<leftarrow> sibling (newtree_idx st) num_new;
     left \<leftarrow> is_left (newtree_idx st) num_new;
     let tree_hash = combine H left (newtree_hash st) sibling_hash;
     new_idx \<leftarrow> parent (newtree_idx st) num_new;
     let st' = st\<lparr>newtree_idx := new_idx, newtree_hash := tree_hash\<rparr>;
     if oldtree_idx st = root_idx num_old then Some st'
     else do {
       old_sibling \<leftarrow> sibling (oldtree_idx st) num_old;
       if sibling_idx = old_sibling then do {
         old_left \<leftarrow> is_left (oldtree_idx st) num_old;
         old_idx \<leftarrow> parent (oldtree_idx st) num_old;
         Some (st'\<lparr>oldtree_hash := combine H old_left (oldtree_hash st) sibling_hash, oldtree_idx := old_idx\<rparr>) }
       else Some st' } }"

primrec consistency_loop :: "digest_fun \<Rightarrow> u64 \<Rightarrow> u64 \<Rightarrow> bytes list \<Rightarrow> running \<Rightarrow> running option" where
  "consistency_loop H num_new num_old [] st = Some st"
| "consistency_loop H num_new num_old (chunk # rest) st = do {
     sibling_hash \<leftarrow> digest_from_slice chunk;
     st' \<leftarrow> consistency_step H num_new num_old sibling_hash st;
     consistency_loop H num_new num_old rest st' }"

definition consistency_verify ::
  "digest_fun \<Rightarrow> ConsistencyProof \<Rightarrow> RootHash \<Rightarrow> RootHash \<Rightarrow> (string + unit) option" where
  "consistency_verify H self old_root new_root =
     (let num_new = num_leaves new_root; num_old = num_leaves old_root in
      if num_old = 0 then Some (Inl ''cannot verify consistency from empty tree'')
      else if num_new < num_old then Some (Inl ''old tree size cannot be larger than new tree size'')
      else if u64_max div 2 + 1 < num_new then Some (Inl ''new tree too big'')
      else do {
        indices \<leftarrow> indices_for_consistency_proof num_old (num_new - num_old);
        if output_size * length indices \<noteq> length (consistency_bytes self)
        then Some (Inl ''malformed proof'')
        else do {
          let digests = chunks output_size (consistency_bytes self);
          let oldtree_is_subtree = (is_power_of_two num_old \<or> num_old = num_new);
          start \<leftarrow> (if oldtree_is_subtree then Some (root_idx num_old, root_hash old_root, digests)
                    else case digests of
                        [] \<Rightarrow> None
                      | first # rest \<Rightarrow> do {
                          first_hash \<leftarrow> digest_from_slice first;
                          starting_idx \<leftarrow> first_node_with_diverging_parents num_new num_old;
                          Some (starting_idx, first_hash, rest) });
          st \<leftarrow> consistency_loop H num_new num_old (snd (snd start))
                  \<lparr>newtree_idx = fst start, newtree_hash = fst (snd start),
                   oldtree_idx = fst start, oldtree_hash = fst (snd start)\<rparr>;
          if oldtree_hash st = root_hash old_root \<and> newtree_hash st = root_hash new_root
          then Some (Inr ())
          else Some (Inl ''verification failure'') } })"

section \<open>Splitting a proof into digests\<close>

definition digests_ok :: "bytes list \<Rightarrow> bool" where
  "digests_ok ds \<longleftrightarrow> (\<forall>d \<in> set ds. length d = output_size)"

lemma digests_ok_simps [simp]:
  "digests_ok []" "digests_ok (d # ds) \<longleftrightarrow> length d = output_size \<and> digests_ok ds"
  "digests_ok (ds @ es) \<longleftrightarrow> digests_ok ds \<and> digests_ok es"
  by (auto simp: digests_ok_def)

lemma chunks_concat: "digests_ok ds \<Longrightarrow> chunks output_size (concat ds) = ds"
proof (induction ds)
  case Nil
  show ?case by (simp add: chunks.simps)
next
  case (Cons d ds)
  then have "d @ concat ds \<noteq> []" "output_size \<noteq> 0" by (auto simp: output_size_def)
  with Cons show ?case by (simp add: chunks.simps [of output_size "d @ concat ds"])
qed

lemma length_concat_digests: "digests_ok ds \<Longrightarrow> length (concat ds) = length ds * output_size"
  by (induction ds) auto

lemma concat_chunks: "0 < n \<Longrightarrow> concat (chunks n xs) = xs"
  by (induction n xs rule: chunks.induct) (auto simp: chunks.simps)

lemma chunks_ok: "length xs = k * output_size \<Longrightarrow> digests_ok (chunks output_size xs) \<and> length (chunks output_size xs) = k"
proof (induction k arbitrary: xs)
  case 0
  then show ?case by (simp add: chunks.simps)
next
  case (Suc k)
  have "length (drop output_size xs) = k * output_size" using Suc.prems by simp
  note ih = Suc.IH [OF this]
  have "xs \<noteq> []" "output_size \<noteq> 0" using Suc.prems by (auto simp: output_size_def)
  with ih Suc.prems show ?case by (simp add: chunks.simps [of output_size xs])
qed

lemma digest_from_slice_ok [simp]: "length d = output_size \<Longrightarrow> digest_from_slice d = Some d"
  by (simp add: digest_from_slice_def)

lemma inclusion_verify_loop_append:
  "inclusion_verify_loop H n (xs @ ys) st
     = Option.bind (inclusion_verify_loop H n xs st) (inclusion_verify_loop H n ys)"
  by (induction xs arbitrary: st) (simp_all add: Let_def)

lemma consistency_loop_append:
  "consistency_loop H n m (xs @ ys) st
     = Option.bind (consistency_loop H n m xs st) (consistency_loop H n m ys)"
  by (induction xs arbitrary: st) simp_all

section \<open>Inclusion proofs\<close>

text \<open>The root that the digests \<open>ds\<close> of an audit path give for leaf \<open>m\<close> with hash \<open>h\<close>.\<close>

function path_root :: "digest_fun \<Rightarrow> nat \<Rightarrow> nat \<Rightarrow> nat \<Rightarrow> bytes \<Rightarrow> bytes list \<Rightarrow> bytes" where
  "path_root H m lo hi h ds =
     (if hi - lo \<le> 1 then h
      else if m < lo + split_point (hi - lo)
      then parent_hash H (path_root H m lo (lo + split_point (hi - lo)) h (butlast ds)) (last ds)
      else parent_hash H (last ds) (path_root H m (lo + split_point (hi - lo)) hi h (butlast ds)))"
  by pat_completeness auto
termination
proof (relation "measure (\<lambda>(H, m, lo, hi, h, ds). hi - lo)")
  fix H :: digest_fun and m lo hi :: nat and h :: bytes and ds :: "bytes list"
  assume "\<not> hi - lo \<le> 1"
  note sa = split_arith [OF this]
  show "((H, m, lo, lo + split_point (hi - lo), h, butlast ds), H, m, lo, hi, h, ds)
      \<in> measure (\<lambda>(H, m, lo, hi, h, ds). hi - lo)"
    "((H, m, lo + split_point (hi - lo), hi, h, butlast ds), H, m, lo, hi, h, ds)
      \<in> measure (\<lambda>(H, m, lo, hi, h, ds). hi - lo)"
    using sa(1,2) by simp_all
qed simp

declare path_root.simps [simp del]

text \<open>The inputs hashed on the way, without the leaf's.\<close>

function path_inputs :: "digest_fun \<Rightarrow> nat \<Rightarrow> nat \<Rightarrow> nat \<Rightarrow> bytes \<Rightarrow> bytes list \<Rightarrow> bytes list" where
  "path_inputs H m lo hi h ds =
     (if hi - lo \<le> 1 then []
      else if m < lo + split_point (hi - lo)
      then (PARENT_HASH_PREFIX @ path_root H m lo (lo + split_point (hi - lo)) h (butlast ds) @ last ds)
             # path_inputs H m lo (lo + split_point (hi - lo)) h (butlast ds)
      else (PARENT_HASH_PREFIX @ last ds @ path_root H m (lo + split_point (hi - lo)) hi h (butlast ds))
             # path_inputs H m (lo + split_point (hi - lo)) hi h (butlast ds))"
  by pat_completeness auto
termination
proof (relation "measure (\<lambda>(H, m, lo, hi, h, ds). hi - lo)")
  fix H :: digest_fun and m lo hi :: nat and h :: bytes and ds :: "bytes list"
  assume "\<not> hi - lo \<le> 1"
  note sa = split_arith [OF this]
  show "((H, m, lo, lo + split_point (hi - lo), h, butlast ds), H, m, lo, hi, h, ds)
      \<in> measure (\<lambda>(H, m, lo, hi, h, ds). hi - lo)"
    "((H, m, lo + split_point (hi - lo), hi, h, butlast ds), H, m, lo, hi, h, ds)
      \<in> measure (\<lambda>(H, m, lo, hi, h, ds). hi - lo)"
    using sa(1,2) by simp_all
qed simp

declare path_inputs.simps [simp del]

lemma snoc_cases:
  assumes "length ds = length (xs @ [x])"
  obtains d ds' where "ds = ds' @ [d]" "length ds' = length xs"
  using assms by (cases ds rule: rev_cases) auto

lemma inclusion_verify_loop_eq:
  assumes "trange n lo hi" "lo \<le> m" "m < hi"
    and "length ds = length (path_ranges m lo hi)" "digests_ok ds"
  shows "inclusion_verify_loop H (of_nat n) ds (node_of m (Suc m), h)
       = Some (node_of lo hi, path_root H m lo hi h ds)"
  using assms
proof (induction m lo hi arbitrary: ds rule: path_ranges.induct)
  case (1 m lo hi)
  let ?s = "lo + split_point (hi - lo)"
  show ?case
  proof (cases "hi - lo \<le> 1")
    case True
    with "1.prems" have "m = lo" "hi = Suc lo" by simp_all
    with "1.prems"(4) show ?thesis
      by (simp add: path_ranges.simps [of lo lo "Suc lo"] path_root.simps [of H lo lo "Suc lo" h "[]"])
  next
    case False
    note t = "1.prems"(1) and s = False [unfolded not_le]
    show ?thesis
    proof (cases "m < ?s")
      case True
      then have "length ds = length (path_ranges m lo ?s @ [(?s, hi)])"
        using "1.prems"(4) False by (simp add: path_ranges.simps [of m lo hi])
      then obtain d ds' where ds: "ds = ds' @ [d]" "length ds' = length (path_ranges m lo ?s)"
        by (rule snoc_cases)
      have ih: "inclusion_verify_loop H (of_nat n) ds' (node_of m (Suc m), h)
          = Some (node_of lo ?s, path_root H m lo ?s h ds')"
        by (rule "1.IH"(1) [OF False True trange_left [OF t s] "1.prems"(2) True ds(2)])
          (use "1.prems"(5) ds in simp)
      show ?thesis
        using False True "1.prems"(5)
        by (simp add: ds ih inclusion_verify_loop_append is_left_left [OF t s] parent_left [OF t s]
            path_root.simps [of H m lo hi h "ds' @ [d]"] Let_def)
    next
      case m: False
      then have "?s \<le> m" by simp
      from m have "length ds = length (path_ranges m ?s hi @ [(lo, ?s)])"
        using "1.prems"(4) False by (simp add: path_ranges.simps [of m lo hi])
      then obtain d ds' where ds: "ds = ds' @ [d]" "length ds' = length (path_ranges m ?s hi)"
        by (rule snoc_cases)
      have ih: "inclusion_verify_loop H (of_nat n) ds' (node_of m (Suc m), h)
          = Some (node_of ?s hi, path_root H m ?s hi h ds')"
        by (rule "1.IH"(2) [OF False m trange_right [OF t s] \<open>?s \<le> m\<close> "1.prems"(3) ds(2)])
          (use "1.prems"(5) ds in simp)
      show ?thesis
        using False m "1.prems"(5)
        by (simp add: ds ih inclusion_verify_loop_append is_left_right [OF t s] parent_right [OF t s]
            path_root.simps [of H m lo hi h "ds' @ [d]"] Let_def)
    qed
  qed
qed

lemma path_ranges_Nil_iff: "path_ranges m lo hi = [] \<longleftrightarrow> hi - lo \<le> 1"
  by (simp add: path_ranges.simps [of m lo hi])

text \<open>What the verifier decides on a proof of the right length.\<close>

lemma inclusion_verify_eq:
  assumes "i < n" "n \<le> 2 ^ 63" "length ds = length (path_ranges i 0 n)" "digests_ok ds"
  shows "inclusion_verify H \<lparr>inclusion_bytes = concat ds\<rparr> leaf (of_nat i) \<lparr>root_hash = r, num_leaves = of_nat n\<rparr>
       = Some (if path_root H i 0 n (leaf_hash H leaf) ds = r then Inr ()
               else Inl (if n = 1 then ''root hash mismatch for single leaf'' else ''computed root does not match''))"
proof -
  have i: "i < 2 ^ 63" "0 < n" using assms by simp_all
  have guards: "\<not> (of_nat n :: u64) \<le> of_nat i" "(of_nat n :: u64) \<noteq> 0"
    using of_nat_u64_cmp [of n i] of_nat_u64_cmp [of n 0] assms by auto
  have len: "length (concat ds) = length (path_ranges i 0 n) * output_size"
    using length_concat_digests [OF assms(4)] assms(3) by simp
  have emp: "concat ds = [] \<longleftrightarrow> n = 1"
    using len path_ranges_Nil_iff [of i 0 n] i(2) by (cases "concat ds") (auto simp: output_size_def)
  show ?thesis
  proof (cases "n = 1")
    case True
    with assms(1) have "i = 0" by simp
    with True guards len emp indices_for_inclusion_proof_eq [OF assms(1,2)] show ?thesis
      by (simp add: inclusion_verify_def Let_def path_root.simps [of H 0 0 "Suc 0"])
  next
    case False
    note loop = inclusion_verify_loop_eq [OF trange_root [OF i(2) assms(2)] _ assms(1,3,4)]
    from False guards len emp show ?thesis
      by (simp add: inclusion_verify_def Let_def indices_for_inclusion_proof_eq [OF assms(1,2)]
          LeafIdx_new_of_nat [OF i(1)] internal_from_leaf_def flip: node_of_leaf)
        (simp add: chunks_concat [OF assms(4)] loop)
  qed
qed

lemma path_root_path:
  assumes "lo \<le> m" "m < hi" "hi \<le> length D"
  shows "path_root H m lo hi (leaf_hash H (D ! m)) (map (range_pair H D) (path_ranges m lo hi))
       = range_hash H D lo hi"
  using assms
proof (induction m lo hi rule: path_ranges.induct)
  case (1 m lo hi)
  let ?s = "lo + split_point (hi - lo)"
  show ?case
  proof (cases "hi - lo \<le> 1")
    case True
    with "1.prems" have "m = lo" "hi = Suc lo" by simp_all
    with "1.prems"(3) show ?thesis
      by (simp add: path_root.simps [of H lo lo "Suc lo"] range_hash_leaf)
  next
    case False
    note sa = split_arith [OF False]
    have sp: "range_hash H D lo hi = parent_hash H (range_hash H D lo ?s) (range_hash H D ?s hi)"
      by (rule range_hash_split) (use False "1.prems" in simp_all)
    show ?thesis
    proof (cases "m < ?s")
      case True
      with "1.IH"(1) [OF False True "1.prems"(1) True] False "1.prems"(3) sa(4) sp show ?thesis
        by (simp add: path_root.simps [of H m lo hi] path_ranges.simps [of m lo hi])
    next
      case F: False
      with "1.IH"(2) [OF False F _ "1.prems"(2,3)] False sp show ?thesis
        by (simp add: path_root.simps [of H m lo hi] path_ranges.simps [of m lo hi])
    qed
  qed
qed

lemma digests_ok_ranges:
  assumes "\<And>x. length (H x) = output_size"
  shows "digests_ok (map (range_pair H D) rs)"
  using length_range_hash [of H D] assms by (auto simp: digests_ok_def)

text \<open>The inputs hashed for the Merkle tree hash of \<open>D\<close> restricted to a range.\<close>

function mth_inputs :: "digest_fun \<Rightarrow> bytes list \<Rightarrow> bytes list" where
  "mth_inputs H D =
     (if D = [] then [[]]
      else if length D = 1 then [LEAF_HASH_PREFIX @ hd D]
      else (PARENT_HASH_PREFIX @ mth H (take (split_point (length D)) D) @ mth H (drop (split_point (length D)) D))
             # mth_inputs H (take (split_point (length D)) D) @ mth_inputs H (drop (split_point (length D)) D))"
  by pat_completeness auto
termination
proof (relation "measure (\<lambda>(H, D). length D)")
  fix H :: digest_fun and D :: "bytes list"
  assume "D \<noteq> []" "length D \<noteq> 1"
  then have "1 < length D" by (cases D) auto
  note b = split_point_bounds [OF this]
  show "((H, take (split_point (length D)) D), H, D) \<in> measure (\<lambda>(H, D). length D)"
    "((H, drop (split_point (length D)) D), H, D) \<in> measure (\<lambda>(H, D). length D)"
    using b by simp_all
qed simp

declare mth_inputs.simps [simp del]

lemma mth_inputs_leaf:
  "i < length D \<Longrightarrow> mth_inputs H (seg D i (Suc i)) = [LEAF_HASH_PREFIX @ D ! i]"
  by (simp add: mth_inputs.simps seg_single)

lemma mth_inputs_split:
  assumes "1 < hi - lo" "hi \<le> length D"
  shows "mth_inputs H (seg D lo hi)
       = (PARENT_HASH_PREFIX @ range_hash H D lo (lo + split_point (hi - lo)) @ range_hash H D (lo + split_point (hi - lo)) hi)
           # mth_inputs H (seg D lo (lo + split_point (hi - lo)))
           @ mth_inputs H (seg D (lo + split_point (hi - lo)) hi)"
proof -
  have l: "length (seg D lo hi) = hi - lo" using assms by simp
  have "seg D lo hi \<noteq> []" using l assms(1) by (cases "seg D lo hi") simp_all
  moreover have "lo + split_point (hi - lo) \<le> hi" using split_arith(4) [of hi lo] assms by simp
  ultimately show ?thesis
    using assms l unfolding range_hash_def
    by (subst mth_inputs.simps) (simp add: take_seg drop_seg)
qed

lemma parent_input_inject:
  assumes "inj_on H S" "PARENT_HASH_PREFIX @ a @ b \<in> S" "PARENT_HASH_PREFIX @ c @ d \<in> S"
    and "parent_hash H a b = parent_hash H c d" "length a = length c \<or> length b = length d"
  shows "a = c \<and> b = d"
  using inj_onD [OF assms(1) assms(4) [unfolded parent_hash_def] assms(2,3)] assms(5) by auto

lemma path_root_sound:
  assumes "inj_on H S" "\<And>x. length (H x) = output_size"
    and "set (mth_inputs H (seg D lo hi)) \<subseteq> S" "set (path_inputs H m lo hi (leaf_hash H leaf) ds) \<subseteq> S"
    and "LEAF_HASH_PREFIX @ leaf \<in> S"
    and "lo \<le> m" "m < hi" "hi \<le> length D" "digests_ok ds" "length ds = length (path_ranges m lo hi)"
    and "path_root H m lo hi (leaf_hash H leaf) ds = range_hash H D lo hi"
  shows "leaf = D ! m"
  using assms(3-)
proof (induction m lo hi arbitrary: ds rule: path_ranges.induct)
  case (1 m lo hi)
  let ?s = "lo + split_point (hi - lo)"
  show ?case
  proof (cases "hi - lo \<le> 1")
    case True
    with "1.prems" have m: "m = lo" "hi = Suc lo" "lo < length D" by simp_all
    have "leaf_hash H leaf = leaf_hash H (D ! lo)"
      using "1.prems"(9) m by (simp add: path_root.simps [of H lo lo "Suc lo"] range_hash_leaf)
    moreover have "LEAF_HASH_PREFIX @ D ! lo \<in> S"
      using "1.prems"(1) m by (simp add: mth_inputs_leaf)
    ultimately show ?thesis
      using inj_onD [OF assms(1), of "LEAF_HASH_PREFIX @ leaf" "LEAF_HASH_PREFIX @ D ! lo"] "1.prems"(3) m(1)
      by (simp add: leaf_hash_def)
  next
    case False
    then have s: "1 < hi - lo" by simp
    note sa = split_arith [OF False]
    note sp = range_hash_split [OF s "1.prems"(6), of H]
    note ins = mth_inputs_split [OF s "1.prems"(6), of H]
    note lr = length_range_hash [of H D, OF assms(2)]
    show ?thesis
    proof (cases "m < ?s")
      case True
      then have "length ds = length (path_ranges m lo ?s @ [(?s, hi)])"
        using "1.prems"(8) False by (simp add: path_ranges.simps [of m lo hi])
      then obtain d ds' where ds: "ds = ds' @ [d]" "length ds' = length (path_ranges m lo ?s)"
        by (rule snoc_cases)
      let ?r = "path_root H m lo ?s (leaf_hash H leaf) ds'"
      have pin: "set (path_inputs H m lo hi (leaf_hash H leaf) ds)
          = insert (PARENT_HASH_PREFIX @ ?r @ d) (set (path_inputs H m lo ?s (leaf_hash H leaf) ds'))"
        using False True ds by (simp add: path_inputs.simps [of H m lo hi])
      have eq: "parent_hash H ?r d = parent_hash H (range_hash H D lo ?s) (range_hash H D ?s hi)"
        using "1.prems"(9) False True ds sp by (simp add: path_root.simps [of H m lo hi])
      have "?r = range_hash H D lo ?s"
        using parent_input_inject [OF assms(1) _ _ eq] "1.prems"(1,2,7) pin ins lr ds by simp
      then show ?thesis
        using "1.IH"(1) [OF False True _ _ "1.prems"(3,4) True _ _ ds(2)] "1.prems"(1,2,6,7) pin ins ds sa(4)
        by simp
    next
      case F: False
      then have "length ds = length (path_ranges m ?s hi @ [(lo, ?s)])"
        using "1.prems"(8) False by (simp add: path_ranges.simps [of m lo hi])
      then obtain d ds' where ds: "ds = ds' @ [d]" "length ds' = length (path_ranges m ?s hi)"
        by (rule snoc_cases)
      let ?r = "path_root H m ?s hi (leaf_hash H leaf) ds'"
      have pin: "set (path_inputs H m lo hi (leaf_hash H leaf) ds)
          = insert (PARENT_HASH_PREFIX @ d @ ?r) (set (path_inputs H m ?s hi (leaf_hash H leaf) ds'))"
        using False F ds by (simp add: path_inputs.simps [of H m lo hi])
      have eq: "parent_hash H d ?r = parent_hash H (range_hash H D lo ?s) (range_hash H D ?s hi)"
        using "1.prems"(9) False F ds sp by (simp add: path_root.simps [of H m lo hi])
      have "?r = range_hash H D ?s hi"
        using parent_input_inject [OF assms(1) _ _ eq] "1.prems"(1,2,7) pin ins lr ds by simp
      then show ?thesis
        using "1.IH"(2) [OF False F _ _ "1.prems"(3) _ "1.prems"(5,6) _ ds(2)] "1.prems"(1,2,7) pin ins ds F
        by simp
    qed
  qed
qed

section \<open>Consistency proofs\<close>

text \<open>
  \<open>keeps m n b\<close>: the climb starts at the old root itself, so that no digest of the proof is used
  up by the start. \<open>base_low m n off\<close> is the first leaf of the node it starts at.
\<close>

function keeps :: "nat \<Rightarrow> nat \<Rightarrow> bool \<Rightarrow> bool" where
  "keeps m n b = (if m = n then b else if n \<le> 1 then b else if m \<le> split_point n then keeps m (split_point n) b else False)"
  by pat_completeness auto
termination
proof (relation "measure (\<lambda>(m, n, b). n)")
  fix m n :: nat and b :: bool
  assume "\<not> n \<le> 1"
  then show "((m, split_point n, b), m, n, b) \<in> measure (\<lambda>(m, n, b). n)"
    using split_point_bounds [of n] by simp
qed simp

declare keeps.simps [simp del]

function base_low :: "nat \<Rightarrow> nat \<Rightarrow> nat \<Rightarrow> nat" where
  "base_low m n off =
     (if m = n \<or> n \<le> 1 then off
      else if m \<le> split_point n then base_low m (split_point n) off
      else base_low (m - split_point n) (n - split_point n) (off + split_point n))"
  by pat_completeness auto
termination
proof (relation "measure (\<lambda>(m, n, off). n)")
  fix m n off :: nat
  assume "\<not> (m = n \<or> n \<le> 1)"
  then show "((m, split_point n, off), m, n, off) \<in> measure (\<lambda>(m, n, off). n)"
    "((m - split_point n, n - split_point n, off + split_point n), m, n, off) \<in> measure (\<lambda>(m, n, off). n)"
    using split_point_bounds [of n] by simp_all
qed simp

declare base_low.simps [simp del]

text \<open>
  The new and the old root that the digests \<open>ds\<close> after the start give, for a climb that starts
  with hash \<open>h\<close>.
\<close>

function new_root_of :: "digest_fun \<Rightarrow> nat \<Rightarrow> nat \<Rightarrow> bytes \<Rightarrow> bytes list \<Rightarrow> bytes" where
  "new_root_of H m n h ds =
     (if m = n \<or> n \<le> 1 then h
      else if m \<le> split_point n
      then parent_hash H (new_root_of H m (split_point n) h (butlast ds)) (last ds)
      else parent_hash H (last ds) (new_root_of H (m - split_point n) (n - split_point n) h (butlast ds)))"
  by pat_completeness auto
termination
proof (relation "measure (\<lambda>(H, m, n, h, ds). n)")
  fix H :: digest_fun and m n :: nat and h :: bytes and ds :: "bytes list"
  assume "\<not> (m = n \<or> n \<le> 1)"
  then show "((H, m, split_point n, h, butlast ds), H, m, n, h, ds) \<in> measure (\<lambda>(H, m, n, h, ds). n)"
    "((H, m - split_point n, n - split_point n, h, butlast ds), H, m, n, h, ds) \<in> measure (\<lambda>(H, m, n, h, ds). n)"
    using split_point_bounds [of n] by simp_all
qed simp

declare new_root_of.simps [simp del]

function old_root_of :: "digest_fun \<Rightarrow> nat \<Rightarrow> nat \<Rightarrow> bytes \<Rightarrow> bytes list \<Rightarrow> bytes" where
  "old_root_of H m n h ds =
     (if m = n \<or> n \<le> 1 then h
      else if m \<le> split_point n then old_root_of H m (split_point n) h (butlast ds)
      else parent_hash H (last ds) (old_root_of H (m - split_point n) (n - split_point n) h (butlast ds)))"
  by pat_completeness auto
termination
proof (relation "measure (\<lambda>(H, m, n, h, ds). n)")
  fix H :: digest_fun and m n :: nat and h :: bytes and ds :: "bytes list"
  assume "\<not> (m = n \<or> n \<le> 1)"
  then show "((H, m, split_point n, h, butlast ds), H, m, n, h, ds) \<in> measure (\<lambda>(H, m, n, h, ds). n)"
    "((H, m - split_point n, n - split_point n, h, butlast ds), H, m, n, h, ds) \<in> measure (\<lambda>(H, m, n, h, ds). n)"
    using split_point_bounds [of n] by simp_all
qed simp

declare old_root_of.simps [simp del]

text \<open>The ranges of the digests after the start.\<close>

definition tail_ranges :: "nat \<Rightarrow> nat \<Rightarrow> bool \<Rightarrow> nat \<Rightarrow> (nat \<times> nat) list" where
  "tail_ranges m n b off = (if keeps m n b then sub_ranges m n b off else tl (sub_ranges m n b off))"

lemma keeps_False [simp]: "\<not> keeps m n False"
proof (induction m n False rule: keeps.induct)
  case (1 m n)
  then show ?case by (auto simp: keeps.simps [of m n False])
qed

lemma sub_ranges_self: "sub_ranges n n b off = (if b then [] else [(off, off + n)])"
  by (subst sub_ranges.simps) simp

lemma sub_ranges_Nil_keeps: "0 < m \<Longrightarrow> m \<le> n \<Longrightarrow> sub_ranges m n b off = [] \<Longrightarrow> keeps m n b"
  by (subst (asm) sub_ranges.simps) (auto simp: keeps.simps [of m n b] split: if_splits)

lemma tail_ranges_simps:
  assumes "0 < m" "m \<le> n"
  shows "m = n \<Longrightarrow> tail_ranges m n b off = []"
    "m \<noteq> n \<Longrightarrow> m \<le> split_point n \<Longrightarrow>
      tail_ranges m n b off = tail_ranges m (split_point n) b off @ [(off + split_point n, off + n)]"
    "m \<noteq> n \<Longrightarrow> \<not> m \<le> split_point n \<Longrightarrow>
      tail_ranges m n b off = tail_ranges (m - split_point n) (n - split_point n) False (off + split_point n)
        @ [(off, off + split_point n)]"
proof -
  show "m = n \<Longrightarrow> tail_ranges m n b off = []"
    by (auto simp: tail_ranges_def sub_ranges_self keeps.simps [of n n b])
  assume n: "m \<noteq> n"
  then have n1: "\<not> n \<le> 1" using assms by simp
  show "tail_ranges m n b off = tail_ranges m (split_point n) b off @ [(off + split_point n, off + n)]"
    if "m \<le> split_point n"
    using sub_ranges_Nil_keeps [of m "split_point n" b off] assms n n1 that
    by (cases "sub_ranges m (split_point n) b off")
      (auto simp: tail_ranges_def sub_ranges.simps [of m n b off] keeps.simps [of m n b])
  show "tail_ranges m n b off = tail_ranges (m - split_point n) (n - split_point n) False (off + split_point n)
        @ [(off, off + split_point n)]" if "\<not> m \<le> split_point n"
    using sub_ranges_Nil_keeps [of "m - split_point n" "n - split_point n" False "off + split_point n"] assms n n1 that
      diff_le_mono [OF assms(2), of "split_point n"]
    by (cases "sub_ranges (m - split_point n) (n - split_point n) False (off + split_point n)")
      (auto simp: tail_ranges_def sub_ranges.simps [of m n b off] keeps.simps [of m n b])
qed

lemma sub_ranges_head:
  assumes "0 < m" "m \<le> n"
  shows "sub_ranges m n b off
       = (if keeps m n b then [] else [(base_low m n off, off + m)]) @ tail_ranges m n b off"
  using assms
proof (induction m n b off rule: sub_ranges.induct)
  case (1 m n b off)
  show ?case
  proof (cases "m = n")
    case True
    then show ?thesis
      using "1.prems" by (simp add: sub_ranges_self keeps.simps [of n n b] base_low.simps [of n n off] tail_ranges_simps)
  next
    case False
    then have n: "\<not> n \<le> 1" using "1.prems" by simp
    show ?thesis
    proof (cases "m \<le> split_point n")
      case True
      have "sub_ranges m n b off = sub_ranges m (split_point n) b off @ [(off + split_point n, off + n)]"
        using False True n by (subst sub_ranges.simps) simp
      with "1.IH"(1) [OF False n True "1.prems"(1) True] False True n "1.prems" show ?thesis
        by (simp add: keeps.simps [of m n b] base_low.simps [of m n off] tail_ranges_simps(2))
    next
      case F: False
      then have m: "0 < m - split_point n" "m - split_point n \<le> n - split_point n" using "1.prems" by simp_all
      have "sub_ranges m n b off
          = sub_ranges (m - split_point n) (n - split_point n) False (off + split_point n) @ [(off, off + split_point n)]"
        using False F n by (subst sub_ranges.simps) simp
      with "1.IH"(2) [OF False n F m] False F n "1.prems" show ?thesis
        by (simp add: keeps.simps [of m n b] base_low.simps [of m n off] tail_ranges_simps(3))
    qed
  qed
qed

text \<open>The parent of a node on the right edge of the old tree.\<close>

definition edge_parent :: "nat \<Rightarrow> nat \<Rightarrow> nat \<Rightarrow> bool" where
  "edge_parent M off lo \<longleftrightarrow> trange M lo M \<and> 1 < M - lo \<and> lo + split_point (M - lo) = off"

lemma split_point_le_eq: "split_point n < m \<Longrightarrow> m \<le> n \<Longrightarrow> 1 < n \<Longrightarrow> split_point m = split_point n"
  using split_point_bounds(3) [of n] split_point_eqI [of "clog2 n - 1" m] unfolding split_point_def by simp

lemma edge_right:
  assumes "trange M off (off + m)" "M = off + m" "split_point n < m" "m \<le> n" "1 < n"
  shows "edge_parent M (off + split_point n) off" "trange M (off + split_point n) M"
proof -
  have sp: "split_point m = split_point n" by (rule split_point_le_eq [OF assms(3-5)])
  have m1: "1 < off + m - off" using assms(3) split_point_bounds(1) [OF assms(5)] by simp
  show "edge_parent M (off + split_point n) off"
    using assms(1,2) m1 sp by (simp add: edge_parent_def)
  show "trange M (off + split_point n) M"
    using trange_right [OF assms(1) m1] assms(2) sp by simp
qed

lemma consistency_step_left:
  assumes tN: "trange N off (off + n)" and n1: "1 < n"
    and tM: "trange M off M" and edge: "off = 0 \<or> (\<exists>lo. edge_parent M off lo)"
  shows "consistency_step H (of_nat N) (of_nat M) d
      \<lparr>newtree_idx = node_of off (off + split_point n), newtree_hash = g, oldtree_idx = node_of off M, oldtree_hash = h\<rparr>
    = Some \<lparr>newtree_idx = node_of off (off + n), newtree_hash = parent_hash H g d,
            oldtree_idx = node_of off M, oldtree_hash = h\<rparr>"
proof -
  have s: "1 < off + n - off" using n1 by simp
  note new = sibling_left [OF tN s] is_left_left [OF tN s] parent_left [OF tN s]
  show ?thesis
  proof (cases "off = 0")
    case True
    have "node_of 0 M = root_idx (of_nat M)" using root_idx_node_of [of M] trangeD [OF tM] by simp
    with True new show ?thesis by (simp add: consistency_step_def combine_def)
  next
    case False
    then obtain lo where e: "trange M lo M" "1 < M - lo" "lo + split_point (M - lo) = off"
      using edge by (auto simp: edge_parent_def)
    have "node_of off M \<noteq> root_idx (of_nat M)" using node_of_root_iff [OF tM] False by simp
    moreover have "sibling (node_of off M) (of_nat M) = Some (node_of lo off)"
      using sibling_right [OF e(1,2)] e(3) by simp
    moreover have "lo < off" using e(3) split_point_bounds(1) [OF e(2)] by simp
    then have "node_of (off + split_point n) (off + n) \<noteq> node_of lo off"
      using node_of_inject [OF trange_right [OF tN s] trange_left [OF e(1,2)]] e(3) by simp
    ultimately show ?thesis using new by (simp add: consistency_step_def combine_def)
  qed
qed

lemma consistency_step_right:
  assumes tN: "trange N off (off + n)" and n1: "1 < n"
    and tM: "trange M off (off + m)" "M = off + m" "split_point n < m" "m \<le> n"
  shows "consistency_step H (of_nat N) (of_nat M) d
      \<lparr>newtree_idx = node_of (off + split_point n) (off + n), newtree_hash = g,
       oldtree_idx = node_of (off + split_point n) M, oldtree_hash = h\<rparr>
    = Some \<lparr>newtree_idx = node_of off (off + n), newtree_hash = parent_hash H d g,
            oldtree_idx = node_of off M, oldtree_hash = parent_hash H d h\<rparr>"
proof -
  have s: "1 < off + n - off" using n1 by simp
  note new = sibling_right [OF tN s] is_left_right [OF tN s] parent_right [OF tN s]
  have e: "trange M off M" "1 < M - off" "off + split_point (M - off) = off + split_point n"
    using edge_right(1) [OF tM n1] by (simp_all add: edge_parent_def)
  note old = sibling_right [OF e(1,2)] is_left_right [OF e(1,2)] parent_right [OF e(1,2)]
  have "0 < split_point n" by (rule split_point_bounds(1) [OF n1])
  then have "node_of (off + split_point n) M \<noteq> root_idx (of_nat M)"
    using node_of_root_iff [OF edge_right(2) [OF tM n1]] by simp
  with new old e(3) show ?thesis by (simp add: consistency_step_def combine_def)
qed

lemma consistency_loop_eq:
  assumes "trange N off (off + n)" "trange M off (off + m)" "M = off + m" "0 < m" "m \<le> n"
    and "off = 0 \<or> (\<exists>lo. edge_parent M off lo)"
    and "length ds = length (tail_ranges m n b off)" "digests_ok ds"
  shows "consistency_loop H (of_nat N) (of_nat M) ds
      \<lparr>newtree_idx = node_of (base_low m n off) M, newtree_hash = h,
       oldtree_idx = node_of (base_low m n off) M, oldtree_hash = h\<rparr>
    = Some \<lparr>newtree_idx = node_of off (off + n), newtree_hash = new_root_of H m n h ds,
            oldtree_idx = node_of off M, oldtree_hash = old_root_of H m n h ds\<rparr>"
  using assms
proof (induction m n b off arbitrary: ds rule: sub_ranges.induct)
  case (1 m n b off)
  let ?k = "split_point n"
  note p = "1.prems"
  show ?case
  proof (cases "m = n")
    case True
    with p show ?thesis
      by (simp add: tail_ranges_simps(1) base_low.simps [of n n off] new_root_of.simps [of H n n]
          old_root_of.simps [of H n n])
  next
    case False
    then have n: "\<not> n \<le> 1" and n1: "1 < n" using p by simp_all
    have tN: "trange N off (off + ?k)" "trange N (off + ?k) (off + n)"
      using trange_left [OF p(1)] trange_right [OF p(1)] n1 by simp_all
    show ?thesis
    proof (cases "m \<le> ?k")
      case True
      then have "length ds = length (tail_ranges m ?k b off @ [(off + ?k, off + n)])"
        using p(7) False tail_ranges_simps(2) [OF p(4,5)] by simp
      then obtain d ds' where ds: "ds = ds' @ [d]" "length ds' = length (tail_ranges m ?k b off)"
        by (rule snoc_cases)
      note ih = "1.IH"(1) [OF False n True tN(1) p(2-4) True p(6) ds(2)]
      have "trange M off M" using p(2,3) by simp
      note step = consistency_step_left [OF p(1) n1 this p(6)]
      show ?thesis
        using False True n p(8) ds(1) ih
        by (simp add: consistency_loop_append step base_low.simps [of m n off] new_root_of.simps [of H m n]
            old_root_of.simps [of H m n])
    next
      case F: False
      then have k: "?k < m" by simp
      have m: "0 < m - ?k" "m - ?k \<le> n - ?k" and M: "M = off + ?k + (m - ?k)" and on: "off + ?k + (n - ?k) = off + n"
        using k p(3,5) by simp_all
      have "length ds = length (tail_ranges (m - ?k) (n - ?k) False (off + ?k) @ [(off, off + ?k)])"
        using p(7) False F tail_ranges_simps(3) [OF p(4,5)] by simp
      then obtain d ds' where ds: "ds = ds' @ [d]"
          "length ds' = length (tail_ranges (m - ?k) (n - ?k) False (off + ?k))"
        by (rule snoc_cases)
      note e = edge_right [OF p(2,3) k p(5) n1]
      have tM: "trange M (off + ?k) (off + ?k + (m - ?k))" using e(2) M by simp
      have "consistency_loop H (of_nat N) (of_nat M) ds'
        \<lparr>newtree_idx = node_of (base_low (m - ?k) (n - ?k) (off + ?k)) M, newtree_hash = h,
         oldtree_idx = node_of (base_low (m - ?k) (n - ?k) (off + ?k)) M, oldtree_hash = h\<rparr>
        = Some \<lparr>newtree_idx = node_of (off + ?k) (off + n), newtree_hash = new_root_of H (m - ?k) (n - ?k) h ds',
            oldtree_idx = node_of (off + ?k) M, oldtree_hash = old_root_of H (m - ?k) (n - ?k) h ds'\<rparr>"
        using "1.IH"(2) [OF False n F _ tM M m _ ds(2)] on tN(2) e(1) p(8) ds(1) by auto
      note ih = this
      note step = consistency_step_right [OF p(1) n1 p(2,3) k p(5)]
      show ?thesis
        using False F n p(8) ds(1) ih
        by (simp add: consistency_loop_append step base_low.simps [of m n off] new_root_of.simps [of H m n]
            old_root_of.simps [of H m n])
    qed
  qed
qed

subsection \<open>Where the climb starts\<close>

lemma pow2_le_split_point: "2 ^ e < n \<Longrightarrow> 2 ^ e \<le> split_point n"
proof -
  assume e: "2 ^ e < n"
  then have n1: "1 < n" using pow2_pos [of e] by linarith
  have "(2::nat) ^ e < 2 ^ clog2 n"
    using e clog2_bounds [of n] n1 by linarith
  then have "e < clog2 n" by (simp only: power_strict_increasing_iff one_less_numeral_iff semiring_norm)
  then show ?thesis unfolding split_point_def by (intro power_increasing) simp_all
qed

lemma keeps_iff:
  assumes "0 < m" "m \<le> n"
  shows "keeps m n True \<longleftrightarrow> m = n \<or> (\<exists>e. m = 2 ^ e)"
  using assms
proof (induction m n True rule: keeps.induct)
  case (1 m n)
  show ?case
  proof (cases "m = n \<or> n \<le> 1")
    case True
    with "1.prems" have "m = n" by auto
    then show ?thesis by (simp add: keeps.simps [of n n True])
  next
    case False
    then have n: "m \<noteq> n" "\<not> n \<le> 1" "m < n" using "1.prems" by simp_all
    show ?thesis
    proof (cases "m \<le> split_point n")
      case True
      have "split_point n = 2 ^ (clog2 n - 1)" by (simp add: split_point_def)
      with "1.hyps" [OF n(1,2) True "1.prems"(1) True] True n show ?thesis
        by (auto simp: keeps.simps [of m n True])
    next
      case F: False
      with n pow2_le_split_point [of _ n] show ?thesis by (auto simp: keeps.simps [of m n True])
    qed
  qed
qed

lemma keeps_base_low: "keeps m n b \<Longrightarrow> base_low m n off = off"
proof (induction m n b rule: keeps.induct)
  case (1 m n b)
  then show ?case by (simp add: keeps.simps [of m n b] base_low.simps [of m n off] split: if_splits)
qed

lemma is_power_of_two_eq:
  assumes "0 < m" "m < 2 ^ 64"
  shows "is_power_of_two (of_nat m) \<longleftrightarrow> (\<exists>e. m = 2 ^ e)"
proof
  let ?w = "of_nat m :: u64"
  assume "is_power_of_two ?w"
  then have "card {i. i < 64 \<and> bit ?w i} = 1"
    using distinct_card [of "filter (bit ?w) [0..<64]"] by (simp add: is_power_of_two_def Collect_conj_eq)
  then obtain e where e: "{i. i < 64 \<and> bit ?w i} = {e}" by (auto simp: card_1_singleton_iff)
  then have "e < 64" by auto
  have "bit ?w i \<longleftrightarrow> bit (2 ^ e :: u64) i" if "i < 64" for i
    using e that \<open>e < 64\<close> by (auto simp: bit_exp_iff)
  then have "?w = 2 ^ e" by (intro bit_word_eqI) simp
  then have "(of_nat m :: u64) = of_nat (2 ^ e)" by simp
  moreover have "(2::nat) ^ e < 2 ^ 64" using \<open>e < 64\<close> by (intro power_strict_increasing) simp_all
  ultimately have "m = 2 ^ e" using assms of_nat_u64_eq_iff [of m "2 ^ e"] by blast
  then show "\<exists>e. m = 2 ^ e" by blast
next
  assume "\<exists>e. m = 2 ^ e"
  then obtain e where m: "m = 2 ^ e" by blast
  then have "(2::nat) ^ e < 2 ^ 64" using assms by simp
  then have e: "e < 64" by (simp only: power_strict_increasing_iff one_less_numeral_iff semiring_norm)
  have "{i. i < 64 \<and> bit (of_nat m :: u64) i} = {e}" using e m by (auto simp: bit_simps)
  then have "card {i. i < 64 \<and> bit (of_nat m :: u64) i} = 1" by simp
  then show "is_power_of_two (of_nat m)"
    using distinct_card [of "filter (bit (of_nat m :: u64)) [0..<64]"]
    by (simp add: is_power_of_two_def Collect_conj_eq)
qed

lemma diverging_climb:
  assumes "trange N lo M" "trange M lo M"
  shows "diverging_loop (of_nat N) (of_nat M) (node_of (M - 1) M) = diverging_loop (of_nat N) (of_nat M) (node_of lo M)"
  using assms
proof (induction "M - lo" arbitrary: lo rule: less_induct)
  case less
  note d = trangeD [OF less.prems(1)]
  show ?case
  proof (cases "1 < M - lo")
    case False
    then have "lo = M - 1" using d(1) by simp
    then show ?thesis by simp
  next
    case s: True
    let ?s = "lo + split_point (M - lo)"
    have "diverging_loop (of_nat N) (of_nat M) (node_of (M - 1) M)
        = diverging_loop (of_nat N) (of_nat M) (node_of ?s M)"
      using less.hyps [of ?s] split_arith [of M lo] s trange_right [OF less.prems(1) s] trange_right [OF less.prems(2) s]
      by simp
    also have "\<dots> = diverging_loop (of_nat N) (of_nat M) (node_of lo M)"
      by (simp add: diverging_loop.simps [of _ _ "node_of ?s M"] parent_right [OF less.prems(1) s]
          parent_right [OF less.prems(2) s])
    finally show ?thesis .
  qed
qed

lemma diverging_stop:
  assumes "trange N off (off + n)" "1 < n" "M = off + split_point n" "edge_parent M off lo"
  shows "diverging_loop (of_nat N) (of_nat M) (node_of off M) = Some (node_of off M)"
proof -
  have s: "1 < off + n - off" using assms(2) by simp
  have e: "trange M lo M" "1 < M - lo" "lo + split_point (M - lo) = off"
    using assms(4) by (simp_all add: edge_parent_def)
  have P: "parent (node_of off M) (of_nat N) = Some (node_of off (off + n))"
    using parent_left [OF assms(1) s] assms(3) by simp
  have Q: "parent (node_of off M) (of_nat M) = Some (node_of lo M)"
    using parent_right [OF e(1,2)] e(3) by simp
  have "lo < off" using e(3) split_point_bounds(1) [OF e(2)] by simp
  then have "node_of off (off + n) \<noteq> node_of lo M" using node_of_inject [OF assms(1) e(1)] by simp
  with P Q show ?thesis by (simp add: diverging_loop.simps [of _ _ "node_of off M"])
qed

lemma diverging_loop_eq:
  assumes "trange N off (off + n)" "trange M off (off + m)" "M = off + m" "0 < m" "m < n"
    and "(off = 0 \<and> (\<forall>e. m \<noteq> 2 ^ e)) \<or> (\<exists>lo. edge_parent M off lo)"
  shows "diverging_loop (of_nat N) (of_nat M) (node_of (M - 1) M) = Some (node_of (base_low m n off) M)"
  using assms
proof (induction m n off rule: base_low.induct)
  case (1 m n off)
  note p = "1.prems"
  let ?k = "split_point n"
  have n: "m \<noteq> n" "\<not> n \<le> 1" "\<not> (m = n \<or> n \<le> 1)" "1 < n" using p by simp_all
  have tN: "trange N off (off + ?k)" "trange N (off + ?k) (off + n)"
    using trange_left [OF p(1)] trange_right [OF p(1)] n(4) by simp_all
  consider (stop) "m = ?k" | (left) "m < ?k" | (right) "?k < m" by linarith
  then show ?case
  proof cases
    case stop
    then obtain lo where e: "edge_parent M off lo" using p(6) by (auto simp: split_point_def)
    have "diverging_loop (of_nat N) (of_nat M) (node_of (M - 1) M) = diverging_loop (of_nat N) (of_nat M) (node_of off M)"
      by (rule diverging_climb) (use tN(1) p(2,3) stop in simp_all)
    also have "\<dots> = Some (node_of off M)"
      by (rule diverging_stop [OF p(1) n(4) _ e]) (use p(3) stop in simp)
    finally show ?thesis using stop n by (simp add: base_low.simps [of ?k n off] base_low.simps [of ?k ?k off])
  next
    case left
    then have le: "m \<le> ?k" by simp
    show ?thesis
      using "1.IH"(1) [OF n(3) le tN(1) p(2-4) left p(6)] n(3) le by (simp add: base_low.simps [of m n off])
  next
    case right
    then have nle: "\<not> m \<le> ?k" by simp
    have m: "0 < m - ?k" "m - ?k < n - ?k" and M: "M = off + ?k + (m - ?k)" and on: "off + ?k + (n - ?k) = off + n"
      using right p(3,5) by simp_all
    note e = edge_right [OF p(2,3) right less_imp_le [OF p(5)] n(4)]
    have tM: "trange M (off + ?k) (off + ?k + (m - ?k))" using e(2) M by simp
    have "diverging_loop (of_nat N) (of_nat M) (node_of (M - 1) M)
        = Some (node_of (base_low (m - ?k) (n - ?k) (off + ?k)) M)"
      using "1.IH"(2) [OF n(3) nle _ tM M m] on tN(2) e(1) by auto
    with n(3) nle show ?thesis by (simp add: base_low.simps [of m n off])
  qed
qed

lemma first_node_with_diverging_parents_eq:
  assumes "0 < m" "m < n" "n \<le> 2 ^ 63" "\<And>e. m \<noteq> 2 ^ e"
  shows "first_node_with_diverging_parents (of_nat n) (of_nat m) = Some (node_of (base_low m n 0) m)"
proof -
  have "u64_max div 2 + 1 = of_nat (2 ^ 63)" by (simp add: u64_max_def)
  then have guards: "(of_nat m :: u64) < of_nat n" "(of_nat m :: u64) \<noteq> 0" "(of_nat n :: u64) \<le> u64_max div 2 + 1"
    using of_nat_u64_cmp [of m n] of_nat_u64_cmp [of m 0] of_nat_u64_le_iff [of n "2 ^ 63"] assms by simp_all
  have m1: "m - 1 < 2 ^ 63" and "(of_nat m :: u64) - 1 = of_nat (m - 1)" using assms by simp_all
  moreover have "node_of (m - 1) m = 2 * of_nat (m - 1)" using node_of_leaf [of "m - 1"] assms by simp
  moreover have "diverging_loop (of_nat n) (of_nat m) (node_of (m - 1) m) = Some (node_of (base_low m n 0) m)"
    using diverging_loop_eq [of n 0 n m m] trange_root [of n] trange_root [of m] assms by simp
  ultimately show ?thesis
    using guards by (simp add: first_node_with_diverging_parents_def LeafIdx_new_of_nat internal_from_leaf_def)
qed

subsection \<open>What the verifier decides\<close>

lemma indices_for_consistency_proof_le:
  assumes "0 < m" "m \<le> n" "n \<le> 2 ^ 63"
  shows "indices_for_consistency_proof (of_nat m) (of_nat n - of_nat m)
       = Some (map node_pair (sub_ranges m n True 0))"
proof (cases "m = n")
  case True
  have "(of_nat m :: u64) \<noteq> 0" "\<not> u64_max div 2 + 1 < of_nat m"
    using of_nat_u64_eq_iff [of m 0] of_nat_u64_less_iff [of "2 ^ 63" m] assms by (simp_all add: u64_max_def)
  with True show ?thesis
    by (simp add: indices_for_consistency_proof_def checked_add64_def sub_ranges_self)
next
  case False
  with assms indices_for_consistency_proof_eq [of m n] show ?thesis by simp
qed

lemma consistency_verify_eq:
  assumes "0 < m" "m \<le> n" "n \<le> 2 ^ 63" "length ds = length (sub_ranges m n True 0)" "digests_ok ds"
    and h: "h = (if keeps m n True then r_old else hd ds)"
    and rest: "rest = (if keeps m n True then ds else tl ds)"
  shows "consistency_verify H \<lparr>consistency_bytes = concat ds\<rparr>
      \<lparr>root_hash = r_old, num_leaves = of_nat m\<rparr> \<lparr>root_hash = r_new, num_leaves = of_nat n\<rparr>
    = Some (if old_root_of H m n h rest = r_old \<and> new_root_of H m n h rest = r_new
            then Inr () else Inl ''verification failure'')"
proof -
  have guards: "(of_nat m :: u64) \<noteq> 0" "\<not> (of_nat n :: u64) < of_nat m" "\<not> u64_max div 2 + 1 < of_nat n"
    using of_nat_u64_eq_iff [of m 0] of_nat_u64_less_iff [of n m] of_nat_u64_less_iff [of "2 ^ 63" n] assms
    by (simp_all add: u64_max_def)
  have mn: "(of_nat m :: u64) = of_nat n \<longleftrightarrow> m = n" "is_power_of_two (of_nat m) \<longleftrightarrow> (\<exists>e. m = 2 ^ e)"
    using of_nat_u64_eq_iff [of m n] is_power_of_two_eq [of m] assms by simp_all
  have sub: "is_power_of_two (of_nat m) \<or> (of_nat m :: u64) = of_nat n \<longleftrightarrow> keeps m n True"
    unfolding mn using keeps_iff [OF assms(1,2)] by blast
  have len: "output_size * length (sub_ranges m n True 0) = length (concat ds)"
    using length_concat_digests [OF assms(5)] assms(4) by simp
  have lr: "length rest = length (tail_ranges m n True 0)" "digests_ok rest"
    using assms(4,5) rest sub_ranges_head [OF assms(1,2), of True 0]
    by (cases ds; simp add: tail_ranges_def split: if_splits)+
  have loop: "consistency_loop H (of_nat n) (of_nat m) rest
      \<lparr>newtree_idx = node_of (base_low m n 0) m, newtree_hash = h,
       oldtree_idx = node_of (base_low m n 0) m, oldtree_hash = h\<rparr>
    = Some \<lparr>newtree_idx = node_of 0 n, newtree_hash = new_root_of H m n h rest,
            oldtree_idx = node_of 0 m, oldtree_hash = old_root_of H m n h rest\<rparr>"
    using consistency_loop_eq [of n 0 n m m rest True H h] trange_root [of n] trange_root [of m] assms lr by simp
  show ?thesis
  proof (cases "keeps m n True")
    case True
    have "root_idx (of_nat m) = node_of (base_low m n 0) m"
      using root_idx_node_of [of m] assms keeps_base_low [OF True, of 0] by simp
    with True h rest guards len sub loop show ?thesis
      by (simp add: consistency_verify_def Let_def indices_for_consistency_proof_le [OF assms(1-3)]
          chunks_concat [OF assms(5)])
  next
    case False
    then have np: "\<And>e. m \<noteq> 2 ^ e" and lt: "m < n" using keeps_iff [OF assms(1,2)] assms by auto
    have "ds \<noteq> []" using assms(4) sub_ranges_head [OF assms(1,2), of True 0] False by auto
    then have ds: "ds = h # rest" using h rest False by simp
    have "length h = output_size" using assms(5) ds by simp
    with False ds guards len sub loop first_node_with_diverging_parents_eq [OF assms(1) lt assms(3) np] show ?thesis
      using chunks_concat [OF assms(5)]
      by (simp add: consistency_verify_def Let_def indices_for_consistency_proof_le [OF assms(1-3)])
  qed
qed

lemma roots_of_ranges:
  assumes "0 < m" "m \<le> n" "off + n \<le> length D" "h = range_hash H D (base_low m n off) (off + m)"
  shows "new_root_of H m n h (map (range_pair H D) (tail_ranges m n b off)) = range_hash H D off (off + n)"
    and "old_root_of H m n h (map (range_pair H D) (tail_ranges m n b off)) = range_hash H D off (off + m)"
  using assms
proof (induction m n b off rule: sub_ranges.induct)
  case (1 m n b off)
  let ?k = "split_point n"
  {
    case 1
    show ?case
    proof (cases "m = n")
      case True
      with 1 show ?thesis by (simp add: new_root_of.simps [of H n n] base_low.simps [of n n off])
    next
      case False
      then have n: "m \<noteq> n" "\<not> n \<le> 1" "1 < n" using 1 by simp_all
      have sp: "range_hash H D off (off + n) = parent_hash H (range_hash H D off (off + ?k)) (range_hash H D (off + ?k) (off + n))"
        using range_hash_split [of "off + n" off D H] n 1(3) by simp
      show ?thesis
      proof (cases "m \<le> ?k")
        case True
        with "1.IH"(1) [OF n(1,2) True 1(1) True] 1 n sp split_point_bounds(2) [OF n(3)] show ?thesis
          by (simp add: new_root_of.simps [of H m n] base_low.simps [of m n off] tail_ranges_simps(2))
      next
        case F: False
        with "1.IH"(3) [OF n(1,2) F] 1 n sp show ?thesis
          by (simp add: new_root_of.simps [of H m n] base_low.simps [of m n off] tail_ranges_simps(3))
      qed
    qed
  next
    case 2
    show ?case
    proof (cases "m = n")
      case True
      with 2 show ?thesis by (simp add: old_root_of.simps [of H n n] base_low.simps [of n n off])
    next
      case False
      then have n: "m \<noteq> n" "\<not> n \<le> 1" "1 < n" using 2 by simp_all
      show ?thesis
      proof (cases "m \<le> ?k")
        case True
        with "1.IH"(2) [OF n(1,2) True 2(1) True] 2 n split_point_bounds(2) [OF n(3)] show ?thesis
          by (simp add: old_root_of.simps [of H m n] base_low.simps [of m n off] tail_ranges_simps(2))
      next
        case F: False
        then have spm: "split_point m = ?k" using split_point_le_eq [of n m] 2 n by simp
        have "1 < m" using F split_point_bounds(1) [OF n(3)] by simp
        then have "range_hash H D off (off + m) = parent_hash H (range_hash H D off (off + ?k)) (range_hash H D (off + ?k) (off + m))"
          using range_hash_split [of "off + m" off D H] 2(2,3) spm by simp
        with "1.IH"(4) [OF n(1,2) F] 2 n F show ?thesis
          by (simp add: old_root_of.simps [of H m n] base_low.simps [of m n off] tail_ranges_simps(3))
      qed
    qed
  }
qed

subsection \<open>Soundness\<close>

text \<open>The inputs hashed when the new root is recomputed.\<close>

function new_inputs :: "digest_fun \<Rightarrow> nat \<Rightarrow> nat \<Rightarrow> bytes \<Rightarrow> bytes list \<Rightarrow> bytes list" where
  "new_inputs H m n h ds =
     (if m = n \<or> n \<le> 1 then []
      else if m \<le> split_point n
      then (PARENT_HASH_PREFIX @ new_root_of H m (split_point n) h (butlast ds) @ last ds)
             # new_inputs H m (split_point n) h (butlast ds)
      else (PARENT_HASH_PREFIX @ last ds @ new_root_of H (m - split_point n) (n - split_point n) h (butlast ds))
             # new_inputs H (m - split_point n) (n - split_point n) h (butlast ds))"
  by pat_completeness auto
termination
proof (relation "measure (\<lambda>(H, m, n, h, ds). n)")
  fix H :: digest_fun and m n :: nat and h :: bytes and ds :: "bytes list"
  assume "\<not> (m = n \<or> n \<le> 1)"
  then show "((H, m, split_point n, h, butlast ds), H, m, n, h, ds) \<in> measure (\<lambda>(H, m, n, h, ds). n)"
    "((H, m - split_point n, n - split_point n, h, butlast ds), H, m, n, h, ds) \<in> measure (\<lambda>(H, m, n, h, ds). n)"
    using split_point_bounds [of n] by simp_all
qed simp

declare new_inputs.simps [simp del]

lemma new_root_of_sound:
  assumes "inj_on H S" "\<And>x. length (H x) = output_size"
    and "set (mth_inputs H (seg D off (off + n))) \<subseteq> S" "set (new_inputs H m n h ds) \<subseteq> S"
    and "0 < m" "m \<le> n" "off + n \<le> length D" "digests_ok ds" "length ds = length (tail_ranges m n b off)"
    and "new_root_of H m n h ds = range_hash H D off (off + n)"
  shows "h = range_hash H D (base_low m n off) (off + m) \<and> ds = map (range_pair H D) (tail_ranges m n b off)"
  using assms(3-)
proof (induction m n b off arbitrary: ds rule: sub_ranges.induct)
  case (1 m n b off)
  note p = "1.prems"
  let ?k = "split_point n"
  show ?case
  proof (cases "m = n")
    case True
    with p show ?thesis by (simp add: new_root_of.simps [of H n n] base_low.simps [of n n off] tail_ranges_simps(1))
  next
    case False
    then have n: "m \<noteq> n" "\<not> n \<le> 1" "\<not> (m = n \<or> n \<le> 1)" "1 < n" using p by simp_all
    have s: "1 < off + n - off" using n by simp
    have sp: "range_hash H D off (off + n) = parent_hash H (range_hash H D off (off + ?k)) (range_hash H D (off + ?k) (off + n))"
      and ins: "mth_inputs H (seg D off (off + n))
        = (PARENT_HASH_PREFIX @ range_hash H D off (off + ?k) @ range_hash H D (off + ?k) (off + n))
           # mth_inputs H (seg D off (off + ?k)) @ mth_inputs H (seg D (off + ?k) (off + n))"
      using range_hash_split [OF s p(5), of H] mth_inputs_split [OF s p(5), of H] by simp_all
    note lr = length_range_hash [of H D, OF assms(2)]
    note kn = split_point_bounds [OF n(4)]
    show ?thesis
    proof (cases "m \<le> ?k")
      case True
      then have "length ds = length (tail_ranges m ?k b off @ [(off + ?k, off + n)])"
        using p(7) False tail_ranges_simps(2) [OF p(3,4)] by simp
      then obtain d ds' where ds: "ds = ds' @ [d]" "length ds' = length (tail_ranges m ?k b off)"
        by (rule snoc_cases)
      let ?r = "new_root_of H m ?k h ds'"
      have nin: "new_inputs H m n h ds = (PARENT_HASH_PREFIX @ ?r @ d) # new_inputs H m ?k h ds'"
        using n(3) True ds by (simp add: new_inputs.simps [of H m n])
      have eq: "parent_hash H ?r d = parent_hash H (range_hash H D off (off + ?k)) (range_hash H D (off + ?k) (off + n))"
        using p(8) n(3) True ds sp by (simp add: new_root_of.simps [of H m n])
      have "?r = range_hash H D off (off + ?k) \<and> d = range_hash H D (off + ?k) (off + n)"
        by (rule parent_input_inject [OF assms(1) _ _ eq]) (use p(1,2,6) nin ins lr ds in simp_all)
      then show ?thesis
        using "1.IH"(1) [OF n(1,2) True _ _ p(3) True _ _ ds(2)] p(1,2,5,6) nin ins ds kn n True p(3,4)
        by (simp add: base_low.simps [of m n off] tail_ranges_simps(2))
    next
      case F: False
      then have "length ds = length (tail_ranges (m - ?k) (n - ?k) False (off + ?k) @ [(off, off + ?k)])"
        using p(7) False tail_ranges_simps(3) [OF p(3,4)] by simp
      then obtain d ds' where ds: "ds = ds' @ [d]"
          "length ds' = length (tail_ranges (m - ?k) (n - ?k) False (off + ?k))"
        by (rule snoc_cases)
      let ?r = "new_root_of H (m - ?k) (n - ?k) h ds'"
      have nin: "new_inputs H m n h ds = (PARENT_HASH_PREFIX @ d @ ?r) # new_inputs H (m - ?k) (n - ?k) h ds'"
        using n(3) F ds by (simp add: new_inputs.simps [of H m n])
      have eq: "parent_hash H d ?r = parent_hash H (range_hash H D off (off + ?k)) (range_hash H D (off + ?k) (off + n))"
        using p(8) n(3) F ds sp by (simp add: new_root_of.simps [of H m n])
      have dr: "d = range_hash H D off (off + ?k) \<and> ?r = range_hash H D (off + ?k) (off + n)"
        by (rule parent_input_inject [OF assms(1) _ _ eq]) (use p(1,2,6) nin ins lr ds in simp_all)
      have on: "off + ?k + (n - ?k) = off + n" "off + ?k + (m - ?k) = off + m" using kn F by simp_all
      have "h = range_hash H D (base_low (m - ?k) (n - ?k) (off + ?k)) (off + ?k + (m - ?k))
          \<and> ds' = map (range_pair H D) (tail_ranges (m - ?k) (n - ?k) False (off + ?k))"
      proof (rule "1.IH"(2) [OF n(1,2) F _ _ _ _ _ _ ds(2)])
        show "set (mth_inputs H (seg D (off + ?k) (off + ?k + (n - ?k)))) \<subseteq> S"
          using p(1) ins unfolding on by simp
        show "set (new_inputs H (m - ?k) (n - ?k) h ds') \<subseteq> S" using p(2) nin by simp
        show "?r = range_hash H D (off + ?k) (off + ?k + (n - ?k))" unfolding on using dr by simp
      qed (use F p(4,5,6) on ds(1) in simp_all)
      then show ?thesis
        unfolding on using n F dr ds p(3,4)
        by (simp add: base_low.simps [of m n off] tail_ranges_simps(3))
    qed
  qed
qed

lemma mth_inject:
  assumes "inj_on H S" "\<And>x. length (H x) = output_size"
    and "set (mth_inputs H D) \<subseteq> S" "set (mth_inputs H E) \<subseteq> S" "length D = length E" "mth H D = mth H E"
  shows "D = E"
  using assms(3-)
proof (induction "length D" arbitrary: D E rule: less_induct)
  case less
  note p = less.prems
  consider "D = []" | "length D = 1" "D \<noteq> []" | "1 < length D" "D \<noteq> []" "length D \<noteq> 1"
    by (cases D; cases "tl D"; fastforce)
  then show ?case
  proof cases
    case 1
    with p(3) show ?thesis by simp
  next
    case 2
    then obtain x y where xy: "D = [x]" "E = [y]" using p(3) by (auto simp: length_Suc_conv)
    have "LEAF_HASH_PREFIX @ x = LEAF_HASH_PREFIX @ y"
      by (rule inj_onD [OF assms(1)]) (use p xy in \<open>simp_all add: mth.simps mth_inputs.simps leaf_hash_def\<close>)
    with xy show ?thesis by simp
  next
    case 3
    then have E: "E \<noteq> []" "length E \<noteq> 1" "length E = length D" using p(3) by auto
    let ?k = "split_point (length D)"
    note kb = split_point_bounds [OF 3(1)]
    have lm: "length (mth H xs) = output_size" for xs
      using length_range_hash [of H xs 0 "length xs"] assms(2) by (simp add: range_hash_all)
    have ins: "mth_inputs H X = (PARENT_HASH_PREFIX @ mth H (take ?k X) @ mth H (drop ?k X))
        # mth_inputs H (take ?k X) @ mth_inputs H (drop ?k X)"
      if "X \<noteq> []" "length X \<noteq> 1" "length X = length D" for X
      unfolding mth_inputs.simps [of H X] using that by simp
    have mt: "mth H X = parent_hash H (mth H (take ?k X)) (mth H (drop ?k X))"
      if "X \<noteq> []" "length X \<noteq> 1" "length X = length D" for X
      unfolding mth.simps [of H X] using that by simp
    note iD = ins [OF 3(2,3) refl] mt [OF 3(2,3) refl] and iE = ins [OF E] mt [OF E]
    have "mth H (take ?k D) = mth H (take ?k E) \<and> mth H (drop ?k D) = mth H (drop ?k E)"
    proof (rule parent_input_inject [OF assms(1)])
      show "PARENT_HASH_PREFIX @ mth H (take ?k D) @ mth H (drop ?k D) \<in> S"
        using p(1) unfolding iD(1) by simp
      show "PARENT_HASH_PREFIX @ mth H (take ?k E) @ mth H (drop ?k E) \<in> S"
        using p(2) unfolding iE(1) by simp
      show "parent_hash H (mth H (take ?k D)) (mth H (drop ?k D)) = parent_hash H (mth H (take ?k E)) (mth H (drop ?k E))"
        using p(4) unfolding iD(2) iE(2) .
    qed (simp add: lm)
    then have eqs: "mth H (take ?k D) = mth H (take ?k E)" "mth H (drop ?k D) = mth H (drop ?k E)" by simp_all
    have sD: "set (mth_inputs H (take ?k D)) \<subseteq> S" "set (mth_inputs H (drop ?k D)) \<subseteq> S"
      using p(1) unfolding iD(1) by simp_all
    have sE: "set (mth_inputs H (take ?k E)) \<subseteq> S" "set (mth_inputs H (drop ?k E)) \<subseteq> S"
      using p(2) unfolding iE(1) by simp_all
    have "take ?k D = take ?k E" by (rule less.hyps [OF _ sD(1) sE(1) _ eqs(1)]) (use kb E(3) in simp_all)
    moreover have "drop ?k D = drop ?k E" by (rule less.hyps [OF _ sD(2) sE(2) _ eqs(2)]) (use kb E(3) in simp_all)
    ultimately have "take ?k D @ drop ?k D = take ?k E @ drop ?k E" by (rule arg_cong2)
    then show ?thesis by (simp only: append_take_drop_id)
  qed
qed

section \<open>The properties of proofs\<close>

text \<open>
  The digest function of the witnesses: the first 16 bytes of the input and the first 16 after
  byte 33, where the right child of a node begins. It is injective on the few inputs that the
  witnesses hash.
\<close>

definition toy_hash :: digest_fun where
  "toy_hash x = take 32 (take 16 (x @ replicate 16 0) @ take 16 (drop 33 x) @ replicate 16 0)"

lemma length_toy_hash [simp]: "length (toy_hash x) = output_size"
  by (simp add: toy_hash_def output_size_def min_def) presburger

lemma path_ranges_trange:
  "trange n lo hi \<Longrightarrow> r \<in> set (path_ranges m lo hi) \<Longrightarrow> trange n (fst r) (snd r)"
proof (induction m lo hi rule: path_ranges.induct)
  case (1 m lo hi)
  show ?case
  proof (cases "hi - lo \<le> 1")
    case True
    with "1.prems"(2) show ?thesis by (simp add: path_ranges.simps [of m lo hi])
  next
    case False
    note t = trange_left [OF "1.prems"(1)] trange_right [OF "1.prems"(1)]
    from False "1.prems"(2) "1.IH" t show ?thesis
      by (auto simp: path_ranges.simps [of m lo hi] split: if_splits)
  qed
qed

lemma sub_ranges_trange:
  assumes "trange N off (off + n)" "0 < m" "m \<le> n" "r \<in> set (sub_ranges m n b off)"
  shows "trange N (fst r) (snd r)"
  using assms
proof (induction m n b off rule: sub_ranges.induct)
  case (1 m n b off)
  note p = "1.prems"
  show ?case
  proof (cases "m = n")
    case True
    with p show ?thesis by (auto simp: sub_ranges_self split: if_splits)
  next
    case False
    then have n: "\<not> n \<le> 1" "1 < n" using p by simp_all
    have t: "trange N off (off + split_point n)" "trange N (off + split_point n) (off + n)"
      using trange_left [OF p(1)] trange_right [OF p(1)] n by simp_all
    have on: "off + split_point n + (n - split_point n) = off + n" using split_point_bounds(2) [OF n(2)] by simp
    show ?thesis
    proof (cases "m \<le> split_point n")
      case True
      with "1.IH"(1) [OF False n(1) True t(1) p(2) True] p(4) False n(1) t(2) show ?thesis
        by (auto simp: sub_ranges.simps [of m n b off])
    next
      case F: False
      with "1.IH"(2) [OF False n(1) F] p(3,4) False n(1) t on show ?thesis
        by (auto simp: sub_ranges.simps [of m n b off])
    qed
  qed
qed

lemma inclusion_verify_accepts:
  assumes "\<And>x. length (H x) = output_size" "i < length D" "length D \<le> 2 ^ 63"
  shows "inclusion_verify H (inclusion_from_digests (path H i D)) (D ! i) (of_nat i)
           \<lparr>root_hash = mth H D, num_leaves = of_nat (length D)\<rparr> = Some (Inr ())"
proof -
  have "path_root H i 0 (length D) (leaf_hash H (D ! i)) (path H i D) = mth H D"
    using path_root_path [of 0 i "length D" D H] assms(2) by (simp add: path_ranges_hashes range_hash_all)
  moreover have "length (path H i D) = length (path_ranges i 0 (length D))" "digests_ok (path H i D)"
    using digests_ok_ranges [of H D] assms(1) by (simp_all add: path_ranges_hashes)
  ultimately show ?thesis
    using inclusion_verify_eq [OF assms(2,3)] by (simp add: inclusion_from_digests_def)
qed

lemma consistency_verify_accepts:
  assumes "\<And>x. length (H x) = output_size" "0 < m" "m \<le> length D" "length D \<le> 2 ^ 63"
  shows "consistency_verify H (consistency_from_digests (rfc_proof H m D))
           \<lparr>root_hash = mth H (take m D), num_leaves = of_nat m\<rparr>
           \<lparr>root_hash = mth H D, num_leaves = of_nat (length D)\<rparr> = Some (Inr ())"
proof -
  let ?n = "length D" and ?ds = "rfc_proof H m D"
  have ds: "length ?ds = length (sub_ranges m ?n True 0)" "digests_ok ?ds"
    using digests_ok_ranges [of H D] assms(1) by (simp_all add: rfc_proof_hashes)
  let ?h = "if keeps m ?n True then mth H (take m D) else hd ?ds"
  let ?rest = "if keeps m ?n True then ?ds else tl ?ds"
  have old: "range_hash H D 0 m = mth H (take m D)" by (simp add: range_hash_def seg_def)
  have h: "?h = range_hash H D (base_low m ?n 0) (0 + m)"
    using sub_ranges_head [OF assms(2,3), of True 0] old keeps_base_low [of m ?n True 0] by (simp add: rfc_proof_hashes)
  have rest: "?rest = map (range_pair H D) (tail_ranges m ?n True 0)"
    using sub_ranges_head [OF assms(2,3), of True 0] by (simp add: rfc_proof_hashes)
  note roots = roots_of_ranges [of m ?n 0 D ?h H True]
  show ?thesis
    unfolding consistency_from_digests_def
      consistency_verify_eq [OF assms(2-4) ds refl refl, of H "mth H (take m D)" "mth H D"]
    using roots assms(2,3) h old unfolding rest by (simp add: range_hash_all)
qed

text \<open>Splitting lowers the height, so the proofs are as short as the tree is high.\<close>

lemma clog2_halves:
  assumes "1 < n"
  shows "clog2 (split_point n) < clog2 n" "clog2 (n - split_point n) < clog2 n"
proof -
  note b = split_point_bounds [OF assms] and c = clog2_split_point [of n] clog2_pos [OF assms]
  show "clog2 (split_point n) < clog2 n" using c by simp
  moreover have "clog2 (n - split_point n) \<le> clog2 (split_point n)" using b by (intro clog2_mono) simp_all
  ultimately show "clog2 (n - split_point n) < clog2 n" by simp
qed

lemma length_path_ranges: "length (path_ranges m lo hi) \<le> clog2 (hi - lo)"
proof (induction m lo hi rule: path_ranges.induct)
  case (1 m lo hi)
  show ?case
  proof (cases "hi - lo \<le> 1")
    case True
    then show ?thesis by (simp add: path_ranges.simps [of m lo hi])
  next
    case False
    then show ?thesis
      using 1 clog2_halves [of "hi - lo"] by (cases "m < lo + split_point (hi - lo)") (auto simp: path_ranges.simps [of m lo hi])
  qed
qed

lemma length_sub_ranges: "length (sub_ranges m n b off) \<le> Suc (clog2 n)"
proof (induction m n b off rule: sub_ranges.induct)
  case (1 m n b off)
  show ?case
  proof (cases "m = n \<or> n \<le> 1")
    case True
    then show ?thesis by (auto simp: sub_ranges.simps [of m n b off])
  next
    case False
    then show ?thesis
      using 1 clog2_halves [of n] by (cases "m \<le> split_point n") (auto simp: sub_ranges.simps [of m n b off])
  qed
qed

text \<open>C40: the loops of the proof computations end. The climb to the root with its inner loops for parents and right children, the recursion
  of the subproof with its recursion for subtree roots and loop for powers of two, and the search for the node where two trees
  diverge are loops without a bound in the code. For every tree of up to \<open>2 ^ 63\<close> leaves all of them end and none panics, and the
  number of indices is at most the height of the tree, or one more for a consistency proof.\<close>

theorem proof_index_loops_terminate:
  assumes "i < n" "0 < m" "m \<le> n" "n \<le> 2 ^ 63"
  shows "(\<exists>is. indices_for_inclusion_proof (of_nat n) (of_nat i) = Some is \<and> length is \<le> clog2 n) \<and>
    (\<exists>is. indices_for_consistency_proof (of_nat m) (of_nat n - of_nat m) = Some is \<and> length is \<le> Suc (clog2 n)) \<and>
    (m = n \<or> (\<exists>e. m = 2 ^ e) \<or> (\<exists>x. first_node_with_diverging_parents (of_nat n) (of_nat m) = Some x)) \<and> clog2 n \<le> 63"
proof (intro conjI)
  show "\<exists>is. indices_for_inclusion_proof (of_nat n) (of_nat i) = Some is \<and> length is \<le> clog2 n"
    using indices_for_inclusion_proof_eq [OF assms(1,4)] length_path_ranges [of i 0 n] by simp
  show "\<exists>is. indices_for_consistency_proof (of_nat m) (of_nat n - of_nat m) = Some is \<and> length is \<le> Suc (clog2 n)"
    using indices_for_consistency_proof_le [OF assms(2-4)] length_sub_ranges [of m n True 0] by simp
  show "m = n \<or> (\<exists>e. m = 2 ^ e) \<or> (\<exists>x. first_node_with_diverging_parents (of_nat n) (of_nat m) = Some x)"
    using first_node_with_diverging_parents_eq [OF assms(2) _ assms(4)] assms(3) by (cases "m = n") auto
  show "clog2 n \<le> 63" using assms(1,4) by (intro clog2_le_63) simp_all
qed

theorem proof_index_loops_terminate_witness:
  "(\<exists>is. indices_for_inclusion_proof (of_nat 7) (of_nat 4) = Some is \<and> length is \<le> clog2 7) \<and>
    (\<exists>is. indices_for_consistency_proof (of_nat 3) (of_nat 7 - of_nat 3) = Some is \<and> length is \<le> Suc (clog2 7)) \<and>
    (3 = (7 :: nat) \<or> (\<exists>e. (3 :: nat) = 2 ^ e) \<or> (\<exists>x. first_node_with_diverging_parents (of_nat 7) (of_nat 3) = Some x)) \<and> clog2 7 \<le> 63"
  by (rule proof_index_loops_terminate) simp_all

text \<open>The node indices of an inclusion proof are the RFC 6962 audit path. For every leaf of
  every tree of up to \<open>2 ^ 63\<close> leaves \<open>indices_for_inclusion_proof\<close> returns without panic; each
  index is a node of the tree, standing for a range of leaves, and the Merkle tree hashes of these
  ranges, in the order of the indices, are \<open>PATH(i, D)\<close>.\<close>

lemma inclusion_indices_are_rfc_path:
  assumes "i < length D" "length D \<le> 2 ^ 63"
  shows "\<exists>ranges. indices_for_inclusion_proof (of_nat (length D)) (of_nat i) = Some (map node_pair ranges)
    \<and> (\<forall>r \<in> set ranges. trange (length D) (fst r) (snd r))
    \<and> map (range_pair H D) ranges = path H i D"
proof (intro exI conjI ballI)
  show "indices_for_inclusion_proof (of_nat (length D)) (of_nat i) = Some (map node_pair (path_ranges i 0 (length D)))"
    by (rule indices_for_inclusion_proof_eq [OF assms])
  show "map (range_pair H D) (path_ranges i 0 (length D)) = path H i D" by (simp add: path_ranges_hashes)
  show "trange (length D) (fst r) (snd r)" if "r \<in> set (path_ranges i 0 (length D))" for r
    by (rule path_ranges_trange [OF trange_root that]) (use assms in auto)
qed

text \<open>The node indices of a consistency proof are the RFC 6962 proof. For every old size \<open>m\<close>
  and every larger tree of up to \<open>2 ^ 63\<close> leaves \<open>indices_for_consistency_proof\<close> returns without
  panic the nodes whose Merkle tree hashes, in that order, are \<open>PROOF(m, D)\<close>.\<close>

lemma consistency_indices_are_rfc_proof:
  assumes "0 < m" "m \<le> length D" "length D \<le> 2 ^ 63"
  shows "\<exists>ranges. indices_for_consistency_proof (of_nat m) (of_nat (length D) - of_nat m) = Some (map node_pair ranges)
    \<and> (\<forall>r \<in> set ranges. trange (length D) (fst r) (snd r))
    \<and> map (range_pair H D) ranges = rfc_proof H m D"
proof (intro exI conjI ballI)
  show "indices_for_consistency_proof (of_nat m) (of_nat (length D) - of_nat m)
      = Some (map node_pair (sub_ranges m (length D) True 0))"
    by (rule indices_for_consistency_proof_le [OF assms])
  show "map (range_pair H D) (sub_ranges m (length D) True 0) = rfc_proof H m D" by (simp add: rfc_proof_hashes)
  have "trange (length D) 0 (length D)" by (rule trange_root) (use assms in auto)
  then show "trange (length D) (fst r) (snd r)" if "r \<in> set (sub_ranges m (length D) True 0)" for r
    using sub_ranges_trange [of "length D" 0 "length D" m r True] assms that by simp
qed

text \<open>Completeness of inclusion verification: the audit path of leaf \<open>i\<close> verifies against the
  root of its tree, for every tree of up to \<open>2 ^ 63\<close> leaves.\<close>

lemma inclusion_verify_complete:
  assumes "\<And>x. length (H x) = output_size" "i < length D" "length D \<le> 2 ^ 63"
  shows "inclusion_verify H (inclusion_from_digests (path H i D)) (D ! i) (of_nat i)
           \<lparr>root_hash = mth H D, num_leaves = of_nat (length D)\<rparr> = Some (Inr ())"
  using assms by (rule inclusion_verify_accepts)

text \<open>C8: soundness of inclusion verification: if any proof whatever is accepted for a leaf value
  and an index against the root of \<open>D\<close>, that value is the leaf of \<open>D\<close> at the index, as long as the hash
  function has no collision among the inputs hashed for the root and by the verifier.\<close>

theorem inclusion_verify_sound:
  assumes "\<And>x. length (H x) = output_size" "i < length D" "length D \<le> 2 ^ 63"
    and "inclusion_verify H prf leaf (of_nat i) \<lparr>root_hash = mth H D, num_leaves = of_nat (length D)\<rparr> = Some (Inr ())"
    and "inj_on H (set (mth_inputs H D) \<union> {LEAF_HASH_PREFIX @ leaf} \<union>
           set (path_inputs H i 0 (length D) (leaf_hash H leaf) (chunks output_size (inclusion_bytes prf))))"
  shows "leaf = D ! i"
proof -
  let ?n = "length D" and ?ds = "chunks output_size (inclusion_bytes prf)"
  have n: "\<not> (of_nat ?n :: u64) \<le> of_nat i" "(of_nat ?n :: u64) \<noteq> 0"
    using of_nat_u64_le_iff [of ?n i] of_nat_u64_eq_iff [of ?n 0] assms(2,3) by auto
  have "length (inclusion_bytes prf) = length (path_ranges i 0 ?n) * output_size"
    using assms(4) indices_for_inclusion_proof_eq [OF assms(2,3)] n
    by (simp add: inclusion_verify_def Let_def split: if_splits)
  note ok = chunks_ok [OF this]
  have "concat ?ds = inclusion_bytes prf" by (rule concat_chunks) (simp add: output_size_def)
  then have pr: "prf = \<lparr>inclusion_bytes = concat ?ds\<rparr>" by simp
  have "path_root H i 0 ?n (leaf_hash H leaf) ?ds = mth H D"
    using assms(4) inclusion_verify_eq [OF assms(2,3), of ?ds H leaf "mth H D"] ok
    by (subst (asm) pr) (simp split: if_splits)
  then show ?thesis
    by (intro path_root_sound [OF assms(5,1), of D 0 ?n i leaf ?ds]) (use assms(2) ok in \<open>auto simp: range_hash_all\<close>)
qed

theorem inclusion_verify_sound_witness:
  "[2::u8] = [[1], [2], [3]] ! 1"
proof (rule inclusion_verify_sound [of toy_hash 1 "[[1], [2], [3]]"
      "inclusion_from_digests (path toy_hash 1 [[1], [2], [3]])" "[2]"])
  show "inclusion_verify toy_hash (inclusion_from_digests (path toy_hash 1 [[1], [2], [3]])) [2] (of_nat 1)
      \<lparr>root_hash = mth toy_hash [[1], [2], [3]], num_leaves = of_nat (length [[1], [2], [3::u8]])\<rparr> = Some (Inr ())"
    by code_simp
  show "inj_on toy_hash (set (mth_inputs toy_hash [[1], [2], [3]]) \<union> {LEAF_HASH_PREFIX @ [2]} \<union>
      set (path_inputs toy_hash 1 0 (length [[1], [2], [3::u8]]) (leaf_hash toy_hash [2])
        (chunks output_size (inclusion_bytes (inclusion_from_digests (path toy_hash 1 [[1], [2], [3]]))))))"
    by code_simp
qed simp_all

text \<open>Completeness of consistency verification: the RFC 6962 consistency proof between any two
  sizes of a tree of up to \<open>2 ^ 63\<close> leaves verifies against the two roots.\<close>

lemma consistency_verify_complete:
  assumes "\<And>x. length (H x) = output_size" "0 < m" "m \<le> length D" "length D \<le> 2 ^ 63"
  shows "consistency_verify H (consistency_from_digests (rfc_proof H m D))
           \<lparr>root_hash = mth H (take m D), num_leaves = of_nat m\<rparr>
           \<lparr>root_hash = mth H D, num_leaves = of_nat (length D)\<rparr> = Some (Inr ())"
  using assms by (rule consistency_verify_accepts)

text \<open>C7: soundness of consistency verification: if any proof whatever is accepted between the
  root of \<open>D'\<close> at size \<open>m\<close> and the root of \<open>D\<close>, the older tree is the prefix of the newer
  one, as long as the hash function has no collision among the inputs hashed for the roots of
  \<open>D'\<close>, \<open>D\<close> and the prefix of \<open>D\<close> and by the verifier. This is the append-only property a
  log is audited for.\<close>

theorem consistency_verify_sound:
  assumes "\<And>x. length (H x) = output_size" "D' \<noteq> []" "length D' \<le> length D" "length D \<le> 2 ^ 63"
    and "consistency_verify H prf \<lparr>root_hash = mth H D', num_leaves = of_nat (length D')\<rparr>
           \<lparr>root_hash = mth H D, num_leaves = of_nat (length D)\<rparr> = Some (Inr ())"
    and "ds = chunks output_size (consistency_bytes prf)"
    and "h = (if keeps (length D') (length D) True then mth H D' else hd ds)"
    and "inj_on H (set (mth_inputs H D') \<union> set (mth_inputs H D) \<union> set (mth_inputs H (take (length D') D)) \<union>
           set (new_inputs H (length D') (length D) h (if keeps (length D') (length D) True then ds else tl ds)))"
  shows "D' = take (length D') D"
proof -
  let ?m = "length D'" and ?n = "length D"
  let ?rest = "if keeps ?m ?n True then ds else tl ds"
  have m: "0 < ?m" "?m \<le> ?n" "?n \<le> 2 ^ 63" using assms by simp_all
  have guards: "(of_nat ?m :: u64) \<noteq> 0" "\<not> (of_nat ?n :: u64) < of_nat ?m" "\<not> u64_max div 2 + 1 < of_nat ?n"
    using of_nat_u64_eq_iff [of ?m 0] of_nat_u64_less_iff [of ?n ?m] of_nat_u64_less_iff [of "2 ^ 63" ?n] m
    by (simp_all add: u64_max_def)
  have "length (consistency_bytes prf) = length (sub_ranges ?m ?n True 0) * output_size"
    using assms(5) indices_for_consistency_proof_le [OF m] guards
    by (simp add: consistency_verify_def Let_def mult.commute split: if_splits)
  note ok = chunks_ok [OF this, folded assms(6)]
  have "concat ds = consistency_bytes prf" unfolding assms(6) by (rule concat_chunks) (simp add: output_size_def)
  then have pr: "prf = \<lparr>consistency_bytes = concat ds\<rparr>" by simp
  have eqs: "old_root_of H ?m ?n h ?rest = mth H D'" "new_root_of H ?m ?n h ?rest = mth H D"
    using assms(5) consistency_verify_eq [OF m conjunct2 [OF ok] conjunct1 [OF ok] assms(7) refl, of H "mth H D"]
    unfolding pr by (simp_all split: if_splits)
  have rest: "length ?rest = length (tail_ranges ?m ?n True 0)" "digests_ok ?rest"
    using ok sub_ranges_head [OF m(1,2), of True 0] by (cases ds; simp split: if_splits)+
  have "h = range_hash H D (base_low ?m ?n 0) (0 + ?m) \<and> ?rest = map (range_pair H D) (tail_ranges ?m ?n True 0)"
    by (rule new_root_of_sound [OF assms(8,1), of D 0 ?n ?m])
      (use m rest eqs(2) in \<open>auto simp: range_hash_all\<close>)
  then have "old_root_of H ?m ?n h ?rest = range_hash H D 0 ?m"
    using roots_of_ranges(2) [OF m(1,2), of 0 D h H True] by simp
  then have "mth H D' = mth H (take ?m D)" using eqs(1) by (simp add: range_hash_def seg_def)
  then show ?thesis by (intro mth_inject [OF assms(8,1)]) (use m in auto)
qed

theorem consistency_verify_sound_witness:
  "[[1], [2], [3::u8]] = take (length [[1], [2], [3::u8]]) [[1], [2], [3], [4], [5]]"
proof (rule consistency_verify_sound [of toy_hash "[[1], [2], [3]]" "[[1], [2], [3], [4], [5]]"
      "consistency_from_digests (rfc_proof toy_hash 3 [[1], [2], [3], [4], [5]])", OF _ _ _ _ _ refl refl])
  show "consistency_verify toy_hash (consistency_from_digests (rfc_proof toy_hash 3 [[1], [2], [3], [4], [5]]))
      \<lparr>root_hash = mth toy_hash [[1], [2], [3]], num_leaves = of_nat (length [[1], [2], [3::u8]])\<rparr>
      \<lparr>root_hash = mth toy_hash [[1], [2], [3], [4], [5]], num_leaves = of_nat (length [[1], [2], [3], [4], [5::u8]])\<rparr>
    = Some (Inr ())"
    by code_simp
  show "inj_on toy_hash (set (mth_inputs toy_hash [[1], [2], [3]]) \<union> set (mth_inputs toy_hash [[1], [2], [3], [4], [5]])
      \<union> set (mth_inputs toy_hash (take (length [[1], [2], [3::u8]]) [[1], [2], [3], [4], [5]]))
      \<union> set (new_inputs toy_hash (length [[1], [2], [3::u8]]) (length [[1], [2], [3], [4], [5::u8]])
          (if keeps (length [[1], [2], [3::u8]]) (length [[1], [2], [3], [4], [5::u8]]) True
           then mth toy_hash [[1], [2], [3]]
           else hd (chunks output_size (consistency_bytes (consistency_from_digests (rfc_proof toy_hash 3 [[1], [2], [3], [4], [5]])))))
          (if keeps (length [[1], [2], [3::u8]]) (length [[1], [2], [3], [4], [5::u8]]) True
           then chunks output_size (consistency_bytes (consistency_from_digests (rfc_proof toy_hash 3 [[1], [2], [3], [4], [5]])))
           else tl (chunks output_size (consistency_bytes (consistency_from_digests (rfc_proof toy_hash 3 [[1], [2], [3], [4], [5]])))))))"
    by code_simp
qed simp_all

end
