(* ===== verification/Effects.thy ===== *)
theory Effects
  imports CT_Prelude
begin

text \<open>
  The effects of the asynchronous Rust functions. An operation takes a state to an outcome and a
  new state; the outcome is a value, an error of the operation's error type (\<^verbatim>\<open>Err(e)\<close>), or a panic.
  \<open>and_then\<close> is the \<^verbatim>\<open>?\<close> operator followed by the rest of the function. Operations run one at a
  time here: the awaits inside a function are sequenced in program order, and
  \<^verbatim>\<open>try_join_all\<close> runs its futures in the order of the list.

  \<open>triple P m Q R\<close> is total correctness with an error postcondition: from a state satisfying
  \<open>P\<close> the operation does not panic, ends in \<open>Q\<close> when it returns a value and in \<open>R\<close> when it
  returns an error. The rules below are the only access the component proofs need.
\<close>

section \<open>Operations\<close>

datatype 'e exc = Err 'e | Panic

type_synonym ('s, 'e, 'a) io = "'s \<Rightarrow> ('e exc + 'a) \<times> 's"

definition ret :: "'a \<Rightarrow> ('s, 'e, 'a) io" where
  "ret a s = (Inr a, s)"

definition raise :: "'e \<Rightarrow> ('s, 'e, 'a) io" where
  "raise e s = (Inl (Err e), s)"

definition panic :: "('s, 'e, 'a) io" where
  "panic s = (Inl Panic, s)"

definition and_then :: "('s, 'e, 'a) io \<Rightarrow> ('a \<Rightarrow> ('s, 'e, 'b) io) \<Rightarrow> ('s, 'e, 'b) io" where
  "and_then m f s = (case m s of (Inl x, s') \<Rightarrow> (Inl x, s') | (Inr a, s') \<Rightarrow> f a s')"

definition modify :: "('s \<Rightarrow> 's) \<Rightarrow> ('s, 'e, unit) io" where
  "modify f s = (Inr (), f s)"

definition gets :: "('s \<Rightarrow> 'a) \<Rightarrow> ('s, 'e, 'a) io" where
  "gets f s = (Inr (f s), s)"

text \<open>\<^verbatim>\<open>Result::map_err\<close>.\<close>

definition map_err :: "('e \<Rightarrow> 'f) \<Rightarrow> ('s, 'e, 'a) io \<Rightarrow> ('s, 'f, 'a) io" where
  "map_err g m s =
     (case m s of (Inl (Err e), s') \<Rightarrow> (Inl (Err (g e)), s') | (Inl Panic, s') \<Rightarrow> (Inl Panic, s')
      | (Inr a, s') \<Rightarrow> (Inr a, s'))"

text \<open>An operation whose \<^verbatim>\<open>Result\<close> is inspected instead of being passed on.\<close>

definition attempt :: "('s, 'e, 'a) io \<Rightarrow> ('s, 'f, 'e + 'a) io" where
  "attempt m s =
     (case m s of (Inl (Err e), s') \<Rightarrow> (Inr (Inl e), s') | (Inl Panic, s') \<Rightarrow> (Inl Panic, s')
      | (Inr a, s') \<Rightarrow> (Inr (Inr a), s'))"

text \<open>A pure computation that may panic, and one that may return an error.\<close>

definition of_option :: "'a option \<Rightarrow> ('s, 'e, 'a) io" where
  "of_option x = (case x of None \<Rightarrow> panic | Some a \<Rightarrow> ret a)"

definition of_result :: "'e + 'a \<Rightarrow> ('s, 'e, 'a) io" where
  "of_result x = (case x of Inl e \<Rightarrow> raise e | Inr a \<Rightarrow> ret a)"

text \<open>\<^verbatim>\<open>option.ok_or(e)?\<close>.\<close>

definition ok_or :: "'e \<Rightarrow> 'a option \<Rightarrow> ('s, 'e, 'a) io" where
  "ok_or e x = (case x of None \<Rightarrow> raise e | Some a \<Rightarrow> ret a)"

primrec map_io :: "('x \<Rightarrow> ('s, 'e, 'a) io) \<Rightarrow> 'x list \<Rightarrow> ('s, 'e, 'a list) io" where
  "map_io f [] = ret []"
| "map_io f (x # xs) = and_then (f x) (\<lambda>a. and_then (map_io f xs) (\<lambda>as. ret (a # as)))"

lemma map_io_map: "map_io f (map g xs) = map_io (\<lambda>x. f (g x)) xs"
  by (induction xs) simp_all

primrec fold_io :: "('x \<Rightarrow> 'a \<Rightarrow> ('s, 'e, 'a) io) \<Rightarrow> 'x list \<Rightarrow> 'a \<Rightarrow> ('s, 'e, 'a) io" where
  "fold_io f [] a = ret a"
| "fold_io f (x # xs) a = and_then (f x a) (fold_io f xs)"

text \<open>\<^verbatim>\<open>tokio::join!(m, n)\<close> with both results unwrapped by \<^verbatim>\<open>?\<close>: both run, the first error counts.\<close>

definition join_io :: "('s, 'e, 'a) io \<Rightarrow> ('s, 'e, 'b) io \<Rightarrow> ('s, 'e, 'a \<times> 'b) io" where
  "join_io m n s =
     (case m s of
        (Inl Panic, s') \<Rightarrow> (Inl Panic, s')
      | (Inl (Err e), s') \<Rightarrow> (case n s' of (Inl Panic, s'') \<Rightarrow> (Inl Panic, s'') | (_, s'') \<Rightarrow> (Inl (Err e), s''))
      | (Inr a, s') \<Rightarrow> (case n s' of (Inl x, s'') \<Rightarrow> (Inl x, s'') | (Inr b, s'') \<Rightarrow> (Inr (a, b), s'')))"

text \<open>
  A \<^verbatim>\<open>while\<close> loop with a bound on the number of iterations; running out of it stands for not
  ending and counts as a panic, so that a \<open>triple\<close> of the loop shows that it ends.
\<close>

primrec while_io :: "nat \<Rightarrow> ('a \<Rightarrow> bool) \<Rightarrow> ('a \<Rightarrow> ('s, 'e, 'a) io) \<Rightarrow> 'a \<Rightarrow> ('s, 'e, 'a) io" where
  "while_io 0 b f a = panic"
| "while_io (Suc n) b f a = (if b a then and_then (f a) (while_io n b f) else ret a)"

text \<open>An operation on a part of the state.\<close>

definition zoom :: "('s \<Rightarrow> 't) \<Rightarrow> ('t \<Rightarrow> 's \<Rightarrow> 's) \<Rightarrow> ('t, 'e, 'a) io \<Rightarrow> ('s, 'e, 'a) io" where
  "zoom get put m s = (case m (get s) of (r, t) \<Rightarrow> (r, put t s))"

lemma and_then_ret [simp]: "and_then (ret a) f = f a"
  by (rule ext) (simp add: and_then_def ret_def)

lemma and_then_raise [simp]: "and_then (raise e) f = raise e"
  by (rule ext) (simp add: and_then_def raise_def)

lemma pure_ops [simp]:
  "of_option (Some a) = ret a" "of_option None = panic" "of_result (Inl e) = raise e" "of_result (Inr a) = ret a"
  "ok_or e (Some a) = ret a" "ok_or e None = raise e"
  by (simp_all add: of_option_def of_result_def ok_or_def)

lemma map_err_pure [simp]: "map_err g (ret a) = ret a" "map_err g (raise e) = raise (g e)"
  by (rule ext, simp add: map_err_def ret_def raise_def)+

section \<open>Total correctness\<close>

definition triple ::
  "('s \<Rightarrow> bool) \<Rightarrow> ('s, 'e, 'a) io \<Rightarrow> ('a \<Rightarrow> 's \<Rightarrow> bool) \<Rightarrow> ('e \<Rightarrow> 's \<Rightarrow> bool) \<Rightarrow> bool" where
  "triple P m Q R \<longleftrightarrow>
     (\<forall>s. P s \<longrightarrow> (case m s of (Inr a, s') \<Rightarrow> Q a s' | (Inl (Err e), s') \<Rightarrow> R e s' | (Inl Panic, s') \<Rightarrow> False))"

lemma tripleI:
  "(\<And>s. P s \<Longrightarrow> case m s of (Inr a, s') \<Rightarrow> Q a s' | (Inl (Err e), s') \<Rightarrow> R e s' | (Inl Panic, s') \<Rightarrow> False)
     \<Longrightarrow> triple P m Q R"
  by (simp add: triple_def)

lemma tripleD:
  assumes "triple P m Q R" "P s"
  shows "(\<exists>a s'. m s = (Inr a, s') \<and> Q a s') \<or> (\<exists>e s'. m s = (Inl (Err e), s') \<and> R e s')"
proof (cases "m s")
  case (Pair r s')
  with assms show ?thesis
    unfolding triple_def by (cases r; cases "projl r") (fastforce dest: spec [of _ s])+
qed

lemma triple_valueD:
  assumes "triple P m Q (\<lambda>_ _. False)" "P s"
  shows "\<exists>a s'. m s = (Inr a, s') \<and> Q a s'"
  using tripleD [OF assms] by blast

lemma triple_conseq:
  assumes "triple P m Q R" "\<And>s. P' s \<Longrightarrow> P s" "\<And>a s. Q a s \<Longrightarrow> Q' a s" "\<And>e s. R e s \<Longrightarrow> R' e s"
  shows "triple P' m Q' R'"
  using assms unfolding triple_def by (fastforce split: prod.splits sum.splits exc.splits)

lemma triple_ret [hoare_intro]: "(\<And>s. P s \<Longrightarrow> Q a s) \<Longrightarrow> triple P (ret a) Q R"
  by (simp add: triple_def ret_def)

lemma triple_raise [hoare_intro]: "(\<And>s. P s \<Longrightarrow> R e s) \<Longrightarrow> triple P (raise e) Q R"
  by (simp add: triple_def raise_def)

lemma triple_modify [hoare_intro]: "(\<And>s. P s \<Longrightarrow> Q () (f s)) \<Longrightarrow> triple P (modify f) Q R"
  by (simp add: triple_def modify_def)

lemma triple_gets [hoare_intro]: "(\<And>s. P s \<Longrightarrow> Q (f s) s) \<Longrightarrow> triple P (gets f) Q R"
  by (simp add: triple_def gets_def)

lemma triple_and_then:
  assumes "triple P m M R" "\<And>a. triple (M a) (f a) Q R"
  shows "triple P (and_then m f) Q R"
proof (rule tripleI)
  fix s assume "P s"
  from tripleD [OF assms(1) this] show "case and_then m f s of (Inr a, s') \<Rightarrow> Q a s' | (Inl (Err e), s') \<Rightarrow> R e s' | (Inl Panic, s') \<Rightarrow> False"
    using assms(2) unfolding triple_def and_then_def by fastforce
qed

text \<open>A step whose value is known.\<close>

lemma triple_then:
  assumes "triple P m (\<lambda>r s. P' s \<and> r = x) R" "triple P' (f x) Q R"
  shows "triple P (and_then m f) Q R"
proof (rule triple_and_then [OF assms(1)])
  show "triple (\<lambda>s. P' s \<and> a = x) (f a) Q R" for a
    by (cases "a = x") (use assms(2) in \<open>auto simp: triple_def\<close>)
qed

lemma triple_if [hoare_intro]:
  "(b \<Longrightarrow> triple P m Q R) \<Longrightarrow> (\<not> b \<Longrightarrow> triple P n Q R) \<Longrightarrow> triple P (if b then m else n) Q R"
  by simp

lemma triple_weaken_pre: "triple P m Q R \<Longrightarrow> (\<And>s. P' s \<Longrightarrow> P s) \<Longrightarrow> triple P' m Q R"
  by (auto simp: triple_def)

lemma triple_of_option [hoare_intro]: "x = Some a \<Longrightarrow> (\<And>s. P s \<Longrightarrow> Q a s) \<Longrightarrow> triple P (of_option x) Q R"
  by (simp add: of_option_def triple_ret)

lemma triple_of_result [hoare_intro]:
  "(\<And>e s. x = Inl e \<Longrightarrow> P s \<Longrightarrow> R e s) \<Longrightarrow> (\<And>a s. x = Inr a \<Longrightarrow> P s \<Longrightarrow> Q a s) \<Longrightarrow> triple P (of_result x) Q R"
  by (cases x) (simp_all add: of_result_def triple_ret triple_raise)

lemma triple_ok_or [hoare_intro]: "x = Some a \<Longrightarrow> (\<And>s. P s \<Longrightarrow> Q a s) \<Longrightarrow> triple P (ok_or e x) Q R"
  by (simp add: ok_or_def triple_ret)

lemma triple_map_err:
  assumes "triple P m Q (\<lambda>e. R (g e))"
  shows "triple P (map_err g m) Q R"
  using assms unfolding triple_def map_err_def by (fastforce split: prod.splits sum.splits exc.splits)

lemma triple_attempt:
  assumes "triple P m (\<lambda>a. Q (Inr a)) (\<lambda>e. Q (Inl e))"
  shows "triple P (attempt m) Q R"
  using assms unfolding triple_def attempt_def by (fastforce split: prod.splits sum.splits exc.splits)

lemma triple_pre: "(\<And>s. P s \<Longrightarrow> B) \<Longrightarrow> (B \<Longrightarrow> triple P m Q R) \<Longrightarrow> triple P m Q R"
  by (fastforce simp: triple_def)

lemma triple_map_io_rel:
  assumes "\<And>x. x \<in> set xs \<Longrightarrow> triple P (f x) (\<lambda>a s. P s \<and> Q x a) R"
  shows "triple P (map_io f xs) (\<lambda>as s. P s \<and> list_all2 Q xs as) R"
  using assms
proof (induction xs)
  case Nil
  show ?case by (simp add: triple_ret)
next
  case (Cons x xs)
  have "triple P (f x) (\<lambda>a s. P s \<and> Q x a) R" by (rule Cons.prems) simp
  moreover have "triple (\<lambda>s. P s \<and> Q x a) (and_then (map_io f xs) (\<lambda>as. ret (a # as)))
      (\<lambda>as s. P s \<and> list_all2 Q (x # xs) as) R" for a
  proof (rule triple_and_then)
    show "triple (\<lambda>s. P s \<and> Q x a) (map_io f xs) (\<lambda>as s. (P s \<and> list_all2 Q xs as) \<and> Q x a) R"
    proof (cases "Q x a")
      case True
      with Cons show ?thesis by simp
    qed (simp add: triple_def)
  qed (rule triple_ret, simp)
  ultimately show ?case by (simp add: triple_and_then)
qed

lemma triple_map_io:
  assumes "\<And>x. x \<in> set xs \<Longrightarrow> triple P (f x) (\<lambda>a s. P s \<and> a = g x) R"
  shows "triple P (map_io f xs) (\<lambda>as s. P s \<and> as = map g xs) R"
  using triple_map_io_rel [of xs P f "\<lambda>x a. a = g x" R, OF assms]
  by (rule triple_conseq) (auto simp: list_all2_conv_all_nth list_eq_iff_nth_eq)

lemma triple_join_io:
  assumes "triple P m (\<lambda>a s. P s \<and> A a) (\<lambda>e s. P s \<and> e \<in> X)" "triple P n (\<lambda>b s. P s \<and> B b) (\<lambda>e s. P s \<and> e \<in> X)"
  shows "triple P (join_io m n) (\<lambda>(a, b) s. P s \<and> A a \<and> B b) (\<lambda>e s. P s \<and> e \<in> X)"
proof (rule tripleI)
  fix s assume "P s"
  note m = tripleD [OF assms(1) this]
  then obtain s' where s': "snd (m s) = s'" "P s'" by auto
  note n = tripleD [OF assms(2) s'(2)]
  from m n s'(1) show "case join_io m n s of (Inr a, s') \<Rightarrow> (case a of (a, b) \<Rightarrow> \<lambda>s. P s \<and> A a \<and> B b) s'
      | (Inl (Err e), s') \<Rightarrow> P s' \<and> e \<in> X | (Inl Panic, s') \<Rightarrow> False"
    by (auto simp: join_io_def)
qed

text \<open>A loop with an invariant indexed by what has been processed.\<close>

lemma triple_fold_io:
  assumes "\<And>i a. i < length xs \<Longrightarrow> triple (I i a) (f (xs ! i) a) (I (Suc i)) R"
  shows "triple (I 0 a) (fold_io f xs a) (I (length xs)) R"
  using assms
proof (induction xs arbitrary: I a)
  case Nil
  show ?case by (simp add: triple_ret)
next
  case (Cons x xs)
  have "triple (I 0 a) (f x a) (I (Suc 0)) R" using Cons.prems [of 0] by simp
  moreover have "triple (I (Suc 0) b) (fold_io f xs b) (I (length (x # xs))) R" for b
    using Cons.IH [of "\<lambda>i. I (Suc i)" b] Cons.prems [of "Suc _"] by simp
  ultimately show ?case by (simp add: triple_and_then)
qed

text \<open>A loop that appends to a list.\<close>

lemma triple_fold_append:
  assumes "\<And>x b. x \<in> set xs \<Longrightarrow> triple T (f x b) (\<lambda>b' s. T s \<and> b' = b @ g x) R"
  shows "triple T (fold_io f xs b) (\<lambda>b' s. T s \<and> b' = b @ concat (map g xs)) R"
  using assms
proof (induction xs arbitrary: b)
  case Nil
  show ?case by (simp add: triple_ret)
next
  case (Cons x xs)
  have "triple T (f x b) (\<lambda>b' s. T s \<and> b' = b @ g x) R" by (rule Cons.prems) simp
  moreover have "triple T (fold_io f xs (b @ g x)) (\<lambda>b' s. T s \<and> b' = (b @ g x) @ concat (map g xs)) R"
    by (rule Cons.IH) (simp add: Cons.prems)
  ultimately show ?case by (simp add: triple_then)
qed

lemma triple_while_io:
  assumes "\<And>a. b a \<Longrightarrow> triple (I a) (f a) (\<lambda>a' s. I a' s \<and> V a' < V a) R"
    and "\<And>a s. I a s \<Longrightarrow> \<not> b a \<Longrightarrow> Q a s" and "(V a :: nat) < n"
  shows "triple (I a) (while_io n b f a) Q R"
  using assms(3)
proof (induction n arbitrary: a)
  case (Suc n)
  show ?case
  proof (cases "b a")
    case True
    have "triple (\<lambda>s. I a' s \<and> V a' < V a) (while_io n b f a') Q R" for a'
    proof (cases "V a' < V a")
      case True
      with Suc show ?thesis by (intro triple_conseq [OF Suc.IH]) auto
    qed (simp add: triple_def)
    then have "triple (I a) (and_then (f a) (while_io n b f)) Q R"
      by (rule triple_and_then [OF assms(1) [OF True]])
    with True show ?thesis by simp
  next
    case False
    with assms(2) show ?thesis by (simp add: triple_ret)
  qed
qed simp

lemma triple_zoom:
  assumes "triple P m Q R"
    and "\<And>s. P' s \<Longrightarrow> P (get s)" "\<And>s a t. P' s \<Longrightarrow> Q a t \<Longrightarrow> Q' a (put t s)" "\<And>s e t. P' s \<Longrightarrow> R e t \<Longrightarrow> R' e (put t s)"
  shows "triple P' (zoom get put m) Q' R'"
proof (rule tripleI)
  fix s assume s: "P' s"
  from tripleD [OF assms(1) assms(2) [OF s]] show
    "case zoom get put m s of (Inr a, s') \<Rightarrow> Q' a s' | (Inl (Err e), s') \<Rightarrow> R' e s' | (Inl Panic, s') \<Rightarrow> False"
    using assms(3,4) [OF s] by (auto simp: zoom_def)
qed

section \<open>Ranges\<close>

text \<open>\<^verbatim>\<open>a..b\<close> and \<^verbatim>\<open>a..=b\<close> over \<^verbatim>\<open>u64\<close>.\<close>

definition u64_range :: "u64 \<Rightarrow> u64 \<Rightarrow> u64 list" where
  "u64_range a b = map of_nat [unat a..<unat b]"

definition u64_range_incl :: "u64 \<Rightarrow> u64 \<Rightarrow> u64 list" where
  "u64_range_incl a b = map of_nat [unat a..<Suc (unat b)]"

section \<open>Ordered maps\<close>

text \<open>
  \<^verbatim>\<open>std::collections::BTreeMap\<close> and \<^verbatim>\<open>BTreeSet\<close>: a list of entries in the order of their keys,
  which is the order of iteration.
\<close>

fun btree_insert :: "'k::linorder \<Rightarrow> 'v \<Rightarrow> ('k \<times> 'v) list \<Rightarrow> ('k \<times> 'v) list" where
  "btree_insert k v [] = [(k, v)]"
| "btree_insert k v ((k', v') # m) =
     (if k < k' then (k, v) # (k', v') # m
      else if k = k' then (k, v) # m
      else (k', v') # btree_insert k v m)"

definition btree :: "('k::linorder \<times> 'v) list \<Rightarrow> bool" where
  "btree m \<longleftrightarrow> sorted_wrt (<) (map fst m)"

lemma btree_Nil [simp]: "btree []"
  by (simp add: btree_def)

lemma map_of_btree_insert [simp]: "map_of (btree_insert k v m) = (map_of m)(k \<mapsto> v)"
  by (induction k v m rule: btree_insert.induct) auto

lemma set_btree_insert: "fst ` set (btree_insert k v m) = insert k (fst ` set m)"
  by (induction k v m rule: btree_insert.induct) auto

lemma btree_insert_btree [simp]: "btree m \<Longrightarrow> btree (btree_insert k v m)"
proof (induction k v m rule: btree_insert.induct)
  case (2 k v k' v' m)
  have m: "k' < fst x" if "x \<in> set m" for x using "2.prems" that by (auto simp: btree_def)
  have ins: "k' < fst x" if "x \<in> set (btree_insert k v m)" "k' < k" for x
    using set_btree_insert [of k v m] m that by (metis image_eqI image_iff insertE)
  show ?case
    using 2 m ins by (auto simp: btree_def intro: less_trans)
qed (simp add: btree_def)

lemma btree_distinct: "btree m \<Longrightarrow> distinct (map fst m)"
  unfolding btree_def by (simp add: strict_sorted_iff)

section \<open>Decimal rendering\<close>

definition digit_char :: "nat \<Rightarrow> char" where
  "digit_char d = char_of (48 + d)"

fun dec_nat :: "nat \<Rightarrow> string" where
  "dec_nat n = (if n < 10 then [digit_char n] else dec_nat (n div 10) @ [digit_char (n mod 10)])"

declare dec_nat.simps [simp del]

definition dec :: "'a::len word \<Rightarrow> string" where
  "dec w = dec_nat (unat w)"

text \<open>The bytes of an ASCII literal, Rust's \<^verbatim>\<open>b"..."\<close>.\<close>

definition ascii :: "string \<Rightarrow> bytes" where
  "ascii s = map of_char s"

lemma length_ascii [simp]: "length (ascii s) = length s"
  by (simp add: ascii_def)

end
