(* ===== verification/Kv_Store.thy ===== *)
theory Kv_Store
  imports Effects
begin

text \<open>
  The key-value store under the log. SlateDB and the foyer cache are third-party code: they are
  parameters (\<open>SlateDb\<close>, \<open>CacheOps\<close>), and \<open>slatedb_ok\<close> and \<open>cache_ok\<close> state what their
  documentation promises. \<open>RateLimitedDb\<close> models \<^verbatim>\<open>src/src/storage/rate_limited_db.rs\<close>, through
  which every other component reads and writes; the permit of the read rate limiter only delays a
  read and is left out. The locale \<open>kv_store\<close> is the contract the other components use, and
  the interpretation shows that \<open>RateLimitedDb\<close> provides it. The last part holds the key
  encodings of \<^verbatim>\<open>src/src/merkle_tree/slatedb_backed_tree.rs\<close>.
\<close>

section \<open>SlateDB\<close>

type_synonym key_values = "bytes \<rightharpoonup> bytes"
type_synonym WriteBatch = "(bytes \<times> bytes) list"

text \<open>An error of SlateDB is represented by its text.\<close>

type_synonym SlateDBError = string

record 'db SlateDb =
  slate_get :: "bytes \<Rightarrow> 'db \<Rightarrow> (SlateDBError + bytes option) \<times> 'db"
  slate_put :: "bytes \<Rightarrow> bytes \<Rightarrow> 'db \<Rightarrow> (SlateDBError + unit) \<times> 'db"
  slate_write :: "WriteBatch \<Rightarrow> 'db \<Rightarrow> (SlateDBError + unit) \<times> 'db"
  slate_flush :: "'db \<Rightarrow> (SlateDBError + unit) \<times> 'db"

text \<open>The puts of a write batch take effect together, in the order in which they were added.\<close>

definition apply_batch :: "WriteBatch \<Rightarrow> key_values \<Rightarrow> key_values" where
  "apply_batch b M = M ++ map_of (rev b)"

text \<open>
  What is relied on: a read returns the value of the last write of its key; a batch is atomic, and
  one that reports an error may or may not have been applied, but never in part; \<open>F\<close> are the
  errors that may occur, so that \<open>F = {}\<close> describes a store that does not fail.
\<close>

definition slatedb_ok :: "'db SlateDb \<Rightarrow> ('db \<Rightarrow> key_values) \<Rightarrow> SlateDBError set \<Rightarrow> bool" where
  "slatedb_ok S view F \<longleftrightarrow>
     (\<forall>k s. view (snd (slate_get S k s)) = view s \<and>
        (case fst (slate_get S k s) of Inl e \<Rightarrow> e \<in> F | Inr r \<Rightarrow> r = view s k)) \<and>
     (\<forall>k v s. case slate_put S k v s of
          (Inl e, s') \<Rightarrow> e \<in> F \<and> view s' \<in> {view s, (view s)(k \<mapsto> v)}
        | (Inr _, s') \<Rightarrow> view s' = (view s)(k \<mapsto> v)) \<and>
     (\<forall>b s. case slate_write S b s of
          (Inl e, s') \<Rightarrow> e \<in> F \<and> view s' \<in> {view s, apply_batch b (view s)}
        | (Inr _, s') \<Rightarrow> view s' = apply_batch b (view s)) \<and>
     (\<forall>s. view (snd (slate_flush S s)) = view s \<and>
        (case fst (slate_flush S s) of Inl e \<Rightarrow> e \<in> F | Inr _ \<Rightarrow> True))"

section \<open>RateLimitedDb\<close>

record 'db RateLimitedDb =
  rl_db :: 'db
  read_ops :: u64
  bytes_read :: u64

definition RateLimitedDb_new :: "'db \<Rightarrow> 'db RateLimitedDb" where
  "RateLimitedDb_new db = \<lparr>rl_db = db, read_ops = 0, bytes_read = 0\<rparr>"

definition on_db :: "('db \<Rightarrow> (SlateDBError + 'a) \<times> 'db) \<Rightarrow> ('db RateLimitedDb, SlateDBError, 'a) io" where
  "on_db f s =
     (case f (rl_db s) of
        (Inl e, d) \<Rightarrow> (Inl (Err e), s\<lparr>rl_db := d\<rparr>)
      | (Inr a, d) \<Rightarrow> (Inr a, s\<lparr>rl_db := d\<rparr>))"

definition rl_get :: "'db SlateDb \<Rightarrow> bytes \<Rightarrow> ('db RateLimitedDb, SlateDBError, bytes option) io" where
  "rl_get S key =
     and_then (modify (\<lambda>s. s\<lparr>read_ops := read_ops s + 1\<rparr>)) (\<lambda>_.
     and_then (on_db (slate_get S key)) (\<lambda>result.
     and_then (case result of
                 Some value \<Rightarrow> modify (\<lambda>s. s\<lparr>bytes_read := bytes_read s + of_nat (length value)\<rparr>)
               | None \<Rightarrow> ret ()) (\<lambda>_.
     ret result)))"

definition rl_put :: "'db SlateDb \<Rightarrow> bytes \<Rightarrow> bytes \<Rightarrow> ('db RateLimitedDb, SlateDBError, unit) io" where
  "rl_put S key value = on_db (slate_put S key value)"

definition rl_write_batch :: "'db SlateDb \<Rightarrow> WriteBatch \<Rightarrow> ('db RateLimitedDb, SlateDBError, unit) io" where
  "rl_write_batch S batch = and_then (on_db (slate_write S batch)) (\<lambda>_. on_db (slate_flush S))"

definition get_read_stats :: "'db RateLimitedDb \<Rightarrow> u64 \<times> u64" where
  "get_read_stats s = (read_ops s, bytes_read s)"

definition rl_contents :: "('db \<Rightarrow> key_values) \<Rightarrow> 'db RateLimitedDb \<Rightarrow> key_values" where
  "rl_contents view s = view (rl_db s)"

section \<open>The store contract\<close>

text \<open>
  \<open>good S view F\<close> says that the store below behaves; under it every operation is described by
  what it does to the contents.
\<close>

locale kv_store =
  fixes get :: "'e \<Rightarrow> bytes \<Rightarrow> ('s, SlateDBError, bytes option) io"
    and put :: "'e \<Rightarrow> bytes \<Rightarrow> bytes \<Rightarrow> ('s, SlateDBError, unit) io"
    and write_batch :: "'e \<Rightarrow> WriteBatch \<Rightarrow> ('s, SlateDBError, unit) io"
    and contents :: "('db \<Rightarrow> key_values) \<Rightarrow> 's \<Rightarrow> key_values"
    and good :: "'e \<Rightarrow> ('db \<Rightarrow> key_values) \<Rightarrow> SlateDBError set \<Rightarrow> bool"
  assumes get_spec: "good S view F \<Longrightarrow>
      triple (\<lambda>s. contents view s = M) (get S k) (\<lambda>r s. contents view s = M \<and> r = M k)
        (\<lambda>e s. contents view s = M \<and> e \<in> F)"
    and put_spec: "good S view F \<Longrightarrow>
      triple (\<lambda>s. contents view s = M) (put S k v) (\<lambda>_ s. contents view s = M(k \<mapsto> v))
        (\<lambda>e s. contents view s \<in> {M, M(k \<mapsto> v)} \<and> e \<in> F)"
    and write_batch_spec: "good S view F \<Longrightarrow>
      triple (\<lambda>s. contents view s = M) (write_batch S b) (\<lambda>_ s. contents view s = apply_batch b M)
        (\<lambda>e s. contents view s \<in> {M, apply_batch b M} \<and> e \<in> F)"
begin

lemma get_keeps:
  assumes "good S view F"
  shows "triple (\<lambda>s. I (contents view s)) (get S k) (\<lambda>r s. I (contents view s) \<and> r = contents view s k)
    (\<lambda>e s. I (contents view s) \<and> e \<in> F)"
proof (rule tripleI)
  fix s assume "I (contents view s)"
  with tripleD [OF get_spec [OF assms, of "contents view s" k], of s] show
    "case get S k s of (Inr a, s') \<Rightarrow> I (contents view s') \<and> a = contents view s' k
      | (Inl (Err e), s') \<Rightarrow> I (contents view s') \<and> e \<in> F | (Inl Panic, s') \<Rightarrow> False"
    by auto
qed

lemma get_after_batch:
  assumes "good S view F"
  shows "triple (\<lambda>s. contents view s = M) (and_then (write_batch S b) (\<lambda>_. get S k))
    (\<lambda>r s. contents view s = apply_batch b M \<and> r = apply_batch b M k)
    (\<lambda>e s. contents view s \<in> {M, apply_batch b M} \<and> e \<in> F)"
  by (rule triple_and_then [OF write_batch_spec [OF assms]])
    (rule triple_conseq [OF get_spec [OF assms]], auto)

lemma get_many:
  assumes "good S view F"
  shows "triple (\<lambda>s. contents view s = M) (map_io (get S) ks) (\<lambda>rs s. contents view s = M \<and> rs = map M ks)
    (\<lambda>e s. contents view s = M \<and> e \<in> F)"
  by (rule triple_map_io) (rule get_spec [OF assms])

end

lemma on_db_read:
  assumes "\<And>s. view (snd (f s)) = view s" "\<And>s. case fst (f s) of Inl e \<Rightarrow> e \<in> F | Inr r \<Rightarrow> Q (view s) r"
  shows "triple (\<lambda>s. rl_contents view s = M) (on_db f) (\<lambda>r s. rl_contents view s = M \<and> Q M r)
    (\<lambda>e s. rl_contents view s = M \<and> e \<in> F)"
proof (rule tripleI)
  fix s assume "rl_contents view s = M"
  then show "case on_db f s of (Inr a, s') \<Rightarrow> rl_contents view s' = M \<and> Q M a
      | (Inl (Err e), s') \<Rightarrow> rl_contents view s' = M \<and> e \<in> F | (Inl Panic, s') \<Rightarrow> False"
    using assms [of "rl_db s"] by (auto simp: on_db_def rl_contents_def split: prod.splits sum.splits)
qed

lemma on_db_write:
  assumes "\<And>s. case f s of (Inl e, s') \<Rightarrow> e \<in> F \<and> view s' \<in> {view s, g (view s)} | (Inr _, s') \<Rightarrow> view s' = g (view s)"
  shows "triple (\<lambda>s. rl_contents view s = M) (on_db f) (\<lambda>_ s. rl_contents view s = g M)
    (\<lambda>e s. rl_contents view s \<in> {M, g M} \<and> e \<in> F)"
proof (rule tripleI)
  fix s assume "rl_contents view s = M"
  then show "case on_db f s of (Inr a, s') \<Rightarrow> rl_contents view s' = g M
      | (Inl (Err e), s') \<Rightarrow> rl_contents view s' \<in> {M, g M} \<and> e \<in> F | (Inl Panic, s') \<Rightarrow> False"
    using assms [of "rl_db s"] by (auto simp: on_db_def rl_contents_def split: prod.splits sum.splits)
qed

interpretation rl: kv_store rl_get rl_put rl_write_batch rl_contents slatedb_ok
proof
  fix S :: "'db SlateDb" and view F and M :: key_values and k v :: bytes and b :: WriteBatch
  assume ok: "slatedb_ok S view F"
  let ?P = "\<lambda>s. rl_contents view s = M"
  have g: "triple ?P (on_db (slate_get S k)) (\<lambda>r s. ?P s \<and> r = M k) (\<lambda>e s. ?P s \<and> e \<in> F)"
    by (rule on_db_read) (use ok in \<open>auto simp: slatedb_ok_def\<close>)
  show "triple ?P (rl_get S k) (\<lambda>r s. ?P s \<and> r = M k) (\<lambda>e s. ?P s \<and> e \<in> F)"
    unfolding rl_get_def
  proof (rule triple_and_then)
    show "triple ?P (modify (\<lambda>s. s\<lparr>read_ops := read_ops s + 1\<rparr>)) (\<lambda>_. ?P) (\<lambda>e s. ?P s \<and> e \<in> F)"
      by (rule triple_modify) (simp add: rl_contents_def)
    show "triple ?P (and_then (on_db (slate_get S k)) (\<lambda>result. and_then (case result of
            Some value \<Rightarrow> modify (\<lambda>s. s\<lparr>bytes_read := bytes_read s + of_nat (length value)\<rparr>)
          | None \<Rightarrow> ret ()) (\<lambda>_. ret result))) (\<lambda>r s. ?P s \<and> r = M k) (\<lambda>e s. ?P s \<and> e \<in> F)"
      by (rule triple_and_then [OF g])
        (auto simp: rl_contents_def intro!: triple_and_then [where M = "\<lambda>_ s. ?P s \<and> _ = M k"] triple_modify triple_ret split: option.split)
  qed
  show "triple ?P (rl_put S k v) (\<lambda>_ s. rl_contents view s = M(k \<mapsto> v)) (\<lambda>e s. rl_contents view s \<in> {M, M(k \<mapsto> v)} \<and> e \<in> F)"
    unfolding rl_put_def by (rule on_db_write) (use ok in \<open>auto simp: slatedb_ok_def\<close>)
  have w: "triple ?P (on_db (slate_write S b)) (\<lambda>_ s. rl_contents view s = apply_batch b M)
      (\<lambda>e s. rl_contents view s \<in> {M, apply_batch b M} \<and> e \<in> F)"
    by (rule on_db_write) (use ok in \<open>auto simp: slatedb_ok_def\<close>)
  have fl: "triple (\<lambda>s. rl_contents view s = N) (on_db (slate_flush S)) (\<lambda>_ s. rl_contents view s = N \<and> True)
      (\<lambda>e s. rl_contents view s = N \<and> e \<in> F)" for N
    by (rule on_db_read) (use ok in \<open>auto simp: slatedb_ok_def\<close>)
  show "triple ?P (rl_write_batch S b) (\<lambda>_ s. rl_contents view s = apply_batch b M)
      (\<lambda>e s. rl_contents view s \<in> {M, apply_batch b M} \<and> e \<in> F)"
    unfolding rl_write_batch_def by (rule triple_and_then [OF w]) (rule triple_conseq [OF fl], auto)
qed

section \<open>Caches\<close>

text \<open>
  \<^verbatim>\<open>foyer::Cache\<close>: a bounded cache that may evict any entry at any time. What is relied on: a
  lookup returns only what was last inserted under the key.
\<close>

record ('c, 'k, 'v) CacheOps =
  cache_get :: "'k \<Rightarrow> 'c \<Rightarrow> 'v option \<times> 'c"
  cache_insert :: "'k \<Rightarrow> 'v \<Rightarrow> 'c \<Rightarrow> 'c"

definition cache_ok :: "('c, 'k, 'v) CacheOps \<Rightarrow> ('c \<Rightarrow> 'k \<rightharpoonup> 'v) \<Rightarrow> bool" where
  "cache_ok C held \<longleftrightarrow>
     (\<forall>k c. fst (cache_get C k c) \<in> {None, held c k} \<and> held (snd (cache_get C k c)) \<subseteq>\<^sub>m held c) \<and>
     (\<forall>k v c. held (cache_insert C k v c) \<subseteq>\<^sub>m (held c)(k \<mapsto> v))"

lemma cache_okD:
  assumes "cache_ok C held"
  shows "fst (cache_get C k c) = Some v \<Longrightarrow> held c k = Some v"
    "held (snd (cache_get C k c)) k' = Some v' \<Longrightarrow> held c k' = Some v'"
    "held (cache_insert C k v c) k' = Some v' \<Longrightarrow> (if k' = k then v' = v else held c k' = Some v')"
proof -
  have a: "fst (cache_get C k c) \<in> {None, held c k}" "held (snd (cache_get C k c)) \<subseteq>\<^sub>m held c"
    "held (cache_insert C k v c) \<subseteq>\<^sub>m (held c)(k \<mapsto> v)"
    using assms by (simp_all add: cache_ok_def)
  show "fst (cache_get C k c) = Some v \<Longrightarrow> held c k = Some v" using a(1) by auto
  show "held (snd (cache_get C k c)) k' = Some v' \<Longrightarrow> held c k' = Some v'"
    using a(2) by (auto simp: map_le_def dom_def)
  show "held (cache_insert C k v c) k' = Some v' \<Longrightarrow> (if k' = k then v' = v else held c k' = Some v')"
    using a(3) by (auto simp: map_le_def dom_def)
qed

section \<open>Keys\<close>

definition LEAF_PREFIX :: bytes where
  "LEAF_PREFIX = ascii ''leaf:''"

definition META_KEY :: bytes where
  "META_KEY = ascii ''meta''"

definition VERSIONED_NODE_PREFIX :: bytes where
  "VERSIONED_NODE_PREFIX = ascii ''vnode:''"

definition COMMITTED_SIZE_KEY :: bytes where
  "COMMITTED_SIZE_KEY = ascii ''committed_size''"

definition NODE_LATEST_VERSION_PREFIX :: bytes where
  "NODE_LATEST_VERSION_PREFIX = ascii ''nver:''"

definition TILE_PREFIX :: bytes where
  "TILE_PREFIX = ascii ''tile:''"

definition LAST_PRECOMPUTED_SIZE_KEY :: bytes where
  "LAST_PRECOMPUTED_SIZE_KEY = ascii ''last_precomputed_size''"

definition leaf_key :: "u64 \<Rightarrow> bytes" where
  "leaf_key index = LEAF_PREFIX @ be64 index"

definition versioned_node_key :: "u64 \<Rightarrow> u64 \<Rightarrow> bytes" where
  "versioned_node_key index version = VERSIONED_NODE_PREFIX @ be64 index @ ascii ''@'' @ be64 version"

definition node_latest_version_key :: "u64 \<Rightarrow> bytes" where
  "node_latest_version_key index = NODE_LATEST_VERSION_PREFIX @ be64 index"

definition tile_key :: "u8 \<Rightarrow> u64 \<Rightarrow> bytes" where
  "tile_key level index = TILE_PREFIX @ level # ascii '':'' @ be64 index"

lemmas key_prefix_defs = LEAF_PREFIX_def META_KEY_def VERSIONED_NODE_PREFIX_def COMMITTED_SIZE_KEY_def
  NODE_LATEST_VERSION_PREFIX_def TILE_PREFIX_def LAST_PRECOMPUTED_SIZE_KEY_def

lemmas key_defs = key_prefix_defs leaf_key_def versioned_node_key_def node_latest_version_key_def tile_key_def

text \<open>The first two bytes tell the kinds of keys apart.\<close>

lemma key_tags:
  "take 2 (leaf_key i) = [108, 101]" "take 2 META_KEY = [109, 101]" "take 2 (versioned_node_key i w) = [118, 110]"
  "take 2 COMMITTED_SIZE_KEY = [99, 111]" "take 2 (node_latest_version_key i) = [110, 118]"
  "take 2 (tile_key l i) = [116, 105]" "take 2 LAST_PRECOMPUTED_SIZE_KEY = [108, 97]"
  by (simp_all add: key_defs ascii_def of_char_def)

text \<open>The keys of the tree; everything written beside them must have another tag.\<close>

definition tree_tags :: "bytes list" where
  "tree_tags = [[108, 101], [109, 101], [118, 110], [99, 111], [110, 118], [116, 105], [108, 97]]"

definition foreign_key :: "bytes \<Rightarrow> bool" where
  "foreign_key k \<longleftrightarrow> take 2 k \<notin> set tree_tags"

lemma key_inject [simp]:
  "leaf_key i = leaf_key j \<longleftrightarrow> i = j"
  "versioned_node_key i v = versioned_node_key j w \<longleftrightarrow> i = j \<and> v = w"
  "node_latest_version_key i = node_latest_version_key j \<longleftrightarrow> i = j"
  "tile_key l i = tile_key m j \<longleftrightarrow> l = m \<and> i = j"
  by (auto simp: leaf_key_def versioned_node_key_def node_latest_version_key_def tile_key_def)

lemma key_differ: "take 2 k \<noteq> take 2 k' \<Longrightarrow> k \<noteq> k'"
  by auto

lemma keys_distinct [simp]:
  "leaf_key i \<noteq> META_KEY" "leaf_key i \<noteq> versioned_node_key j w" "leaf_key i \<noteq> COMMITTED_SIZE_KEY"
  "leaf_key i \<noteq> node_latest_version_key j" "leaf_key i \<noteq> tile_key l j" "leaf_key i \<noteq> LAST_PRECOMPUTED_SIZE_KEY"
  "META_KEY \<noteq> versioned_node_key j w" "META_KEY \<noteq> COMMITTED_SIZE_KEY" "META_KEY \<noteq> node_latest_version_key j"
  "META_KEY \<noteq> tile_key l j" "META_KEY \<noteq> LAST_PRECOMPUTED_SIZE_KEY"
  "versioned_node_key i w \<noteq> COMMITTED_SIZE_KEY" "versioned_node_key i w \<noteq> node_latest_version_key j"
  "versioned_node_key i w \<noteq> tile_key l j" "versioned_node_key i w \<noteq> LAST_PRECOMPUTED_SIZE_KEY"
  "COMMITTED_SIZE_KEY \<noteq> node_latest_version_key j" "COMMITTED_SIZE_KEY \<noteq> tile_key l j"
  "COMMITTED_SIZE_KEY \<noteq> LAST_PRECOMPUTED_SIZE_KEY"
  "node_latest_version_key i \<noteq> tile_key l j" "node_latest_version_key i \<noteq> LAST_PRECOMPUTED_SIZE_KEY"
  "tile_key l i \<noteq> LAST_PRECOMPUTED_SIZE_KEY"
  by (rule key_differ, simp add: key_tags)+

lemmas keys_distinct' [simp] = keys_distinct [symmetric]

lemma foreign_distinct:
  assumes "foreign_key k"
  shows "k \<noteq> leaf_key i" "k \<noteq> META_KEY" "k \<noteq> versioned_node_key i w" "k \<noteq> COMMITTED_SIZE_KEY"
    "k \<noteq> node_latest_version_key i" "k \<noteq> tile_key l i" "k \<noteq> LAST_PRECOMPUTED_SIZE_KEY"
  by (use assms in \<open>auto simp: foreign_key_def tree_tags_def key_tags\<close>)

section \<open>Batches\<close>

lemma apply_batch_Nil [simp]: "apply_batch [] M = M"
  by (simp add: apply_batch_def)

lemma apply_batch_append: "apply_batch (a @ b) M = apply_batch b (apply_batch a M)"
  by (simp add: apply_batch_def)

lemma apply_batch_Cons: "apply_batch ((k, v) # b) M = apply_batch b (M(k \<mapsto> v))"
  by (simp add: apply_batch_def)

lemma apply_batch_other: "k \<notin> fst ` set b \<Longrightarrow> apply_batch b M k = M k"
  by (simp add: apply_batch_def map_add_dom_app_simps(3) dom_map_of_conv_image_fst)

lemma apply_batch_distinct:
  "distinct (map fst b) \<Longrightarrow> apply_batch b M k = (case map_of b k of Some v \<Rightarrow> Some v | None \<Rightarrow> M k)"
proof -
  assume "distinct (map fst b)"
  then have "map_of (rev b) = map_of b" by (intro map_of_eqI) (auto simp: map_of_eq_Some_iff simp flip: rev_map)
  then show ?thesis by (simp add: apply_batch_def map_add_def)
qed

end
