(* ===== verification/Tile.thy ===== *)
theory Tile
  imports Effects
begin

text \<open>
  Hash tiles of \<^verbatim>\<open>src/src/types/tiles.rs\<close>: up to 256 hashes of 32 bytes.
\<close>

record Tile =
  hashes :: "bytes list"

text \<open>The width is cast to \<^verbatim>\<open>u16\<close> before it is checked.\<close>

definition Tile_new :: "bytes list \<Rightarrow> Tile option" where
  "Tile_new hs =
     (let width = (of_nat (length hs) :: u16) in
      if 0 < width \<and> width \<le> 256 then Some \<lparr>hashes = hs\<rparr> else None)"

definition Tile_to_bytes :: "Tile \<Rightarrow> bytes" where
  "Tile_to_bytes self = concat (hashes self)"

lemma Tile_new_256: "length hs = 256 \<Longrightarrow> Tile_new hs = Some \<lparr>hashes = hs\<rparr>"
  by (simp add: Tile_new_def)

end
