(* ===== verification/Slate_Tree.thy ===== *)
theory Slate_Tree
  imports Merkle_Proofs Kv_Store Tile
begin

text \<open>
  \<^verbatim>\<open>src/src/merkle_tree/slatedb_backed_tree.rs\<close>: the append-only Merkle tree kept in the key-value
  store. Each batch writes the hashes of the nodes it changed under a key that carries the tree
  size after the batch (the version), and a pointer from each node to its latest version; a read at
  a version falls back to the latest one. The operations below are the code, in its order; the
  invariant and the theorems are in \<^verbatim>\<open>Slate_Tree_Inv\<close>.

  Parameters (\<open>TreeEnv\<close>): the SlateDB store, the two caches, the digest and the postcard
  serializer. The write lock serializes the writers, which are atomic operations here.
\<close>

section \<open>Errors and state\<close>

datatype SlateDbTreeError =
  DbError SlateDBError
| EncodingError string
| InconsistentState string

text \<open>\<^verbatim>\<open>impl fmt::Display\<close>.\<close>

fun tree_error_display :: "SlateDbTreeError \<Rightarrow> string" where
  "tree_error_display (DbError e) = ''SlateDB error: '' @ e"
| "tree_error_display (EncodingError e) = ''Encoding error: '' @ e"
| "tree_error_display (InconsistentState e) = ''Inconsistent state: '' @ e"

record ('db, 'nc, 'tc) TreeEnv =
  slate :: "'db SlateDb"
  node_cache_ops :: "('nc, u64 \<times> u64, bytes) CacheOps"
  tile_cache_ops :: "('tc, u8 \<times> u64, bool) CacheOps"
  digest_of :: digest_fun
  to_stdvec :: "bytes \<Rightarrow> string + bytes"

record ('db, 'nc, 'tc) Tree =
  tree_db :: "'db RateLimitedDb"
  node_cache :: 'nc
  tile_cache :: 'tc

type_synonym ('db, 'nc, 'tc, 'a) tree_op = "(('db, 'nc, 'tc) Tree, SlateDbTreeError, 'a) io"

definition on_tree_db :: "('db RateLimitedDb, SlateDBError, 'a) io \<Rightarrow> ('db, 'nc, 'tc, 'a) tree_op" where
  "on_tree_db m = map_err DbError (zoom tree_db (\<lambda>d s. s\<lparr>tree_db := d\<rparr>) m)"

definition db_get :: "('db, 'nc, 'tc) TreeEnv \<Rightarrow> bytes \<Rightarrow> ('db, 'nc, 'tc, bytes option) tree_op" where
  "db_get E key = on_tree_db (rl_get (slate E) key)"

definition node_cache_get :: "('db, 'nc, 'tc) TreeEnv \<Rightarrow> u64 \<times> u64 \<Rightarrow> ('db, 'nc, 'tc, bytes option) tree_op" where
  "node_cache_get E k s =
     (case cache_get (node_cache_ops E) k (node_cache s) of (r, c) \<Rightarrow> (Inr r, s\<lparr>node_cache := c\<rparr>))"

definition node_cache_insert :: "('db, 'nc, 'tc) TreeEnv \<Rightarrow> u64 \<times> u64 \<Rightarrow> bytes \<Rightarrow> ('db, 'nc, 'tc, unit) tree_op" where
  "node_cache_insert E k v = modify (\<lambda>s. s\<lparr>node_cache := cache_insert (node_cache_ops E) k v (node_cache s)\<rparr>)"

definition tile_cache_insert :: "('db, 'nc, 'tc) TreeEnv \<Rightarrow> u8 \<times> u64 \<Rightarrow> bool \<Rightarrow> ('db, 'nc, 'tc, unit) tree_op" where
  "tile_cache_insert E k v = modify (\<lambda>s. s\<lparr>tile_cache := cache_insert (tile_cache_ops E) k v (tile_cache s)\<rparr>)"

text \<open>\<^verbatim>\<open>digest::Output::default()\<close>.\<close>

definition default_hash :: bytes where
  "default_hash = replicate output_size 0"

section \<open>Reading\<close>

definition check_keys_exist :: "('db, 'nc, 'tc) TreeEnv \<Rightarrow> bytes list \<Rightarrow> ('db, 'nc, 'tc, bool list) tree_op" where
  "check_keys_exist E keys = map_io (\<lambda>key. and_then (db_get E key) (\<lambda>r. ret (r \<noteq> None))) keys"

definition get_num_leaves :: "('db, 'nc, 'tc) TreeEnv \<Rightarrow> ('db, 'nc, 'tc, u64 option) tree_op" where
  "get_num_leaves E =
     and_then (db_get E META_KEY) (\<lambda>r. case r of
       Some bytes \<Rightarrow> and_then (ok_or (EncodingError ''Invalid metadata'') (read_be64 bytes)) (\<lambda>n. ret (Some n))
     | None \<Rightarrow> ret None)"

definition set_num_leaves :: "('db, 'nc, 'tc) TreeEnv \<Rightarrow> u64 \<Rightarrow> ('db, 'nc, 'tc, unit) tree_op" where
  "set_num_leaves E n = on_tree_db (rl_put (slate E) META_KEY (be64 n))"

definition tree_len :: "('db, 'nc, 'tc) TreeEnv \<Rightarrow> ('db, 'nc, 'tc, u64) tree_op" where
  "tree_len E = and_then (get_num_leaves E) (\<lambda>r. ret (case r of Some n \<Rightarrow> n | None \<Rightarrow> 0))"

definition get_committed_size :: "('db, 'nc, 'tc) TreeEnv \<Rightarrow> ('db, 'nc, 'tc, u64) tree_op" where
  "get_committed_size E =
     and_then (db_get E COMMITTED_SIZE_KEY) (\<lambda>r. case r of
       Some bytes \<Rightarrow> ok_or (EncodingError ''Invalid committed size'') (read_be64 bytes)
     | None \<Rightarrow> ret 0)"

definition get_last_precomputed_size :: "('db, 'nc, 'tc) TreeEnv \<Rightarrow> ('db, 'nc, 'tc, u64) tree_op" where
  "get_last_precomputed_size E =
     and_then (db_get E LAST_PRECOMPUTED_SIZE_KEY) (\<lambda>r. case r of
       Some bytes \<Rightarrow> ok_or (EncodingError ''Invalid last precomputed size'') (read_be64 bytes)
     | None \<Rightarrow> ret 0)"

definition tree_new :: "('db, 'nc, 'tc) TreeEnv \<Rightarrow> ('db, 'nc, 'tc, unit) tree_op" where
  "tree_new E =
     and_then (get_num_leaves E) (\<lambda>existing_leaves.
     if existing_leaves = None
     then and_then (set_num_leaves E 0) (\<lambda>_. on_tree_db (rl_put (slate E) COMMITTED_SIZE_KEY (be64 0)))
     else ret ())"

definition is_tile_full_at_size :: "u8 \<Rightarrow> u64 \<Rightarrow> u64 \<Rightarrow> bool" where
  "is_tile_full_at_size lvl tile_index tree_size =
     (let subtree_size = 256 ^ unat lvl;
          entries_per_tile = 256;
          start_position = tile_index * entries_per_tile;
          end_position = start_position + entries_per_tile;
          last_position_end = end_position * subtree_size
      in last_position_end \<le> tree_size)"

definition get_tile :: "('db, 'nc, 'tc) TreeEnv \<Rightarrow> u8 \<Rightarrow> u64 \<Rightarrow> ('db, 'nc, 'tc, bytes option) tree_op" where
  "get_tile E lvl index = db_get E (tile_key lvl index)"

definition get_node_hash_at_version :: "('db, 'nc, 'tc) TreeEnv \<Rightarrow> u64 \<Rightarrow> u64 \<Rightarrow> ('db, 'nc, 'tc, bytes) tree_op" where
  "get_node_hash_at_version E idx version =
     and_then (node_cache_get E (idx, version)) (\<lambda>entry.
     if (case entry of Some cached_hash \<Rightarrow> length cached_hash = output_size | None \<Rightarrow> False)
     then ret (the entry)
     else
       and_then (db_get E (versioned_node_key idx version)) (\<lambda>exact. case exact of
         Some bytes \<Rightarrow>
           if length bytes = output_size
           then and_then (node_cache_insert E (idx, version) bytes) (\<lambda>_. ret bytes)
           else raise (EncodingError ''Invalid hash size'')
       | None \<Rightarrow>
           and_then (db_get E (node_latest_version_key idx)) (\<lambda>latest. case latest of
             Some latest_version_bytes \<Rightarrow>
               and_then (ok_or (EncodingError ''Invalid version format'') (read_be64 latest_version_bytes)) (\<lambda>latest_version.
               if version < latest_version
               then and_then (node_cache_insert E (idx, version) default_hash) (\<lambda>_. ret default_hash)
               else
                 and_then (db_get E (versioned_node_key idx latest_version)) (\<lambda>r. case r of
                   Some bytes \<Rightarrow>
                     if length bytes = output_size
                     then and_then (node_cache_insert E (idx, version) bytes) (\<lambda>_. ret bytes)
                     else raise (EncodingError ''Invalid hash size'')
                 | None \<Rightarrow> raise (InconsistentState
                     (''Node '' @ dec idx @ '' has latest version '' @ dec latest_version @ '' but no data''))))
           | None \<Rightarrow> and_then (node_cache_insert E (idx, version) default_hash) (\<lambda>_. ret default_hash))))"

definition get_node_hash :: "('db, 'nc, 'tc) TreeEnv \<Rightarrow> u64 \<Rightarrow> ('db, 'nc, 'tc, bytes) tree_op" where
  "get_node_hash E idx =
     and_then (db_get E (node_latest_version_key idx)) (\<lambda>r. case r of
       Some version_bytes \<Rightarrow>
         and_then (ok_or (EncodingError ''Invalid version format'') (read_be64 version_bytes)) (\<lambda>latest_version.
         get_node_hash_at_version E idx latest_version)
     | None \<Rightarrow> ret default_hash)"

section \<open>Proofs and roots\<close>

definition prove_consistency_between ::
  "('db, 'nc, 'tc) TreeEnv \<Rightarrow> u64 \<Rightarrow> u64 \<Rightarrow> ('db, 'nc, 'tc, ConsistencyProof) tree_op" where
  "prove_consistency_between E old_size new_size =
     (if old_size = 0 then raise (InconsistentState ''Cannot create consistency proof from empty tree'')
      else if new_size < old_size then raise (InconsistentState
        (''Old size '' @ dec old_size @ '' must be less than or equal to new size '' @ dec new_size))
      else if old_size = new_size then ret (consistency_from_digests [])
      else
        and_then (get_committed_size E) (\<lambda>current_size.
        if current_size < new_size then raise (InconsistentState
          (''New size '' @ dec new_size @ '' exceeds current committed tree size '' @ dec current_size))
        else
          and_then (join_io (db_get E (versioned_node_key (root_idx old_size) old_size))
                            (db_get E (versioned_node_key (root_idx new_size) new_size))) (\<lambda>exist.
          case exist of
            (Some _, Some _) \<Rightarrow>
              and_then (of_option (indices_for_consistency_proof old_size (new_size - old_size))) (\<lambda>idxs.
              and_then (map_io (\<lambda>node_idx. get_node_hash_at_version E node_idx new_size) idxs) (\<lambda>proof_hashes.
              ret (consistency_from_digests proof_hashes)))
          | (None, _) \<Rightarrow> raise (InconsistentState
              (''Old tree size '' @ dec old_size @ '' is not a published STH boundary''))
          | (_, None) \<Rightarrow> raise (InconsistentState
              (''New tree size '' @ dec new_size @ '' is not a published STH boundary'')))))"

definition root_at_size :: "('db, 'nc, 'tc) TreeEnv \<Rightarrow> u64 \<Rightarrow> ('db, 'nc, 'tc, RootHash) tree_op" where
  "root_at_size E tree_size =
     (if tree_size = 0 then ret \<lparr>root_hash = digest_of E [], num_leaves = 0\<rparr>
      else
        and_then (get_committed_size E) (\<lambda>current_size.
        if current_size < tree_size then raise (InconsistentState
          (''Requested tree size '' @ dec tree_size @ '' exceeds current committed tree size '' @ dec current_size))
        else
          and_then (db_get E (versioned_node_key (root_idx tree_size) tree_size)) (\<lambda>r.
          if r = None then raise (InconsistentState
            (''Tree size '' @ dec tree_size @ '' is not a published STH boundary''))
          else
            and_then (get_node_hash_at_version E (root_idx tree_size) tree_size) (\<lambda>hash.
            ret \<lparr>root_hash = hash, num_leaves = tree_size\<rparr>))))"

definition prove_inclusion_at_size ::
  "('db, 'nc, 'tc) TreeEnv \<Rightarrow> u64 \<Rightarrow> u64 \<Rightarrow> ('db, 'nc, 'tc, InclusionProof) tree_op" where
  "prove_inclusion_at_size E idx tree_size =
     and_then (get_committed_size E) (\<lambda>current_leaves.
     if current_leaves < tree_size then raise (InconsistentState
       (''Requested tree size '' @ dec tree_size @ '' exceeds current committed tree size '' @ dec current_leaves))
     else if tree_size \<le> idx then raise (InconsistentState
       (''Index '' @ dec idx @ '' out of bounds for requested tree size '' @ dec tree_size))
     else
       and_then (db_get E (versioned_node_key (root_idx tree_size) tree_size)) (\<lambda>r. case r of
         Some _ \<Rightarrow>
           and_then (of_option (indices_for_inclusion_proof tree_size idx)) (\<lambda>idxs.
           and_then (map_io (\<lambda>node_idx. get_node_hash_at_version E node_idx tree_size) idxs) (\<lambda>sibling_hashes.
           ret (inclusion_from_digests sibling_hashes)))
       | None \<Rightarrow> raise (InconsistentState
           (''Tree size '' @ dec tree_size @ '' is not a published STH boundary''))))"

section \<open>Precomputed tiles\<close>

text \<open>
  The tiles of one level that the batch completes: the loop over \<^verbatim>\<open>first_affected_tile..=last_affected_tile\<close>
  with its \<^verbatim>\<open>break\<close> and its two \<^verbatim>\<open>continue\<close>s.
\<close>

fun tiles_to_process :: "u8 \<Rightarrow> u64 \<Rightarrow> u64 \<Rightarrow> u64 list \<Rightarrow> (u64 \<times> u64 \<times> u64) list" where
  "tiles_to_process lvl total_positions last_precomputed_size [] = []"
| "tiles_to_process lvl total_positions last_precomputed_size (tile_index # rest) =
     (let start_position = tile_index * 256;
          end_position = min (start_position + 256) total_positions
      in if total_positions \<le> start_position then []
         else if end_position - start_position < 256
         then tiles_to_process lvl total_positions last_precomputed_size rest
         else if is_tile_full_at_size lvl tile_index last_precomputed_size
         then tiles_to_process lvl total_positions last_precomputed_size rest
         else (tile_index, start_position, end_position)
                # tiles_to_process lvl total_positions last_precomputed_size rest)"

text \<open>The roots of the subtrees at the positions of a tile, up to the end of the tree.\<close>

definition tile_subtree_roots :: "u64 \<Rightarrow> u64 \<Rightarrow> u64 \<Rightarrow> u64 \<Rightarrow> u64 list option" where
  "tile_subtree_roots subtree_size tree_size start_position end_position =
     those (map (\<lambda>position. compute_subtree_root (position * subtree_size)
                   (min (position * subtree_size + subtree_size) tree_size))
       (takeWhile (\<lambda>position. position * subtree_size < tree_size) (u64_range start_position end_position)))"

text \<open>The second pass: a computed hash, or the next one fetched.\<close>

fun assemble_hashes :: "(u64 \<times> bytes) list \<Rightarrow> u64 list \<Rightarrow> bytes list \<Rightarrow> bytes list option" where
  "assemble_hashes computed_hashes [] fetched = Some []"
| "assemble_hashes computed_hashes (idx # idxs) fetched =
     (case map_of computed_hashes idx of
        Some h \<Rightarrow> do { a \<leftarrow> digest_from_slice h; as \<leftarrow> assemble_hashes computed_hashes idxs fetched; Some (a # as) }
      | None \<Rightarrow> (case fetched of
          [] \<Rightarrow> None
        | h # rest \<Rightarrow> do { a \<leftarrow> digest_from_slice h; as \<leftarrow> assemble_hashes computed_hashes idxs rest; Some (a # as) }))"

definition process_tile ::
  "('db, 'nc, 'tc) TreeEnv \<Rightarrow> u64 \<Rightarrow> (u64 \<times> bytes) list \<Rightarrow> u8 \<Rightarrow> u64 \<times> u64 \<times> u64 \<Rightarrow> WriteBatch
    \<Rightarrow> ('db, 'nc, 'tc, WriteBatch) tree_op" where
  "process_tile E tree_size computed_hashes lvl tile batch =
     (case tile of (tile_index, start_position, end_position) \<Rightarrow>
      and_then (db_get E (tile_key lvl tile_index)) (\<lambda>stored.
      if stored \<noteq> None
      then and_then (tile_cache_insert E (lvl, tile_index) True) (\<lambda>_. ret batch)
      else
        let subtree_size = 256 ^ unat lvl in
        and_then (of_option (tile_subtree_roots subtree_size tree_size start_position end_position)) (\<lambda>roots.
        and_then (map_io (\<lambda>idx. get_node_hash_at_version E idx tree_size)
                    (filter (\<lambda>idx. map_of computed_hashes idx = None) roots)) (\<lambda>fetched_hashes.
        and_then (of_option (assemble_hashes computed_hashes roots fetched_hashes)) (\<lambda>hashes.
        if length hashes = 256 \<and>
           (lvl = 0 \<or> is_tile_full_at_size (lvl - 1) ((tile_index + 1) * 256 - 1) tree_size)
        then
          and_then (of_option (Tile_new hashes)) (\<lambda>tile.
          and_then (tile_cache_insert E (lvl, tile_index) True) (\<lambda>_.
          ret (batch @ [(tile_key lvl tile_index, Tile_to_bytes tile)])))
        else ret batch)))))"

definition precompute_level ::
  "('db, 'nc, 'tc) TreeEnv \<Rightarrow> u64 \<Rightarrow> u64 \<Rightarrow> (u64 \<times> bytes) list \<Rightarrow> u64 \<Rightarrow> u8 \<Rightarrow> WriteBatch
    \<Rightarrow> ('db, 'nc, 'tc, WriteBatch) tree_op" where
  "precompute_level E starting_index tree_size computed_hashes last_precomputed_size lvl batch =
     (let subtree_size = 256 ^ unat lvl;
          full_subtrees = tree_size div subtree_size;
          has_partial = 0 < tree_size mod subtree_size;
          total_positions = full_subtrees + (if has_partial then 1 else 0);
          first_new_position = starting_index div subtree_size;
          last_new_position = (if 0 < tree_size then (tree_size - 1) div subtree_size else 0);
          first_affected_tile = first_new_position div 256;
          last_affected_tile = last_new_position div 256
      in fold_io (process_tile E tree_size computed_hashes lvl)
           (tiles_to_process lvl total_positions last_precomputed_size
              (u64_range_incl first_affected_tile last_affected_tile)) batch)"

definition precompute_tiles_batch ::
  "('db, 'nc, 'tc) TreeEnv \<Rightarrow> WriteBatch \<Rightarrow> u64 \<Rightarrow> u64 \<Rightarrow> (u64 \<times> bytes) list \<Rightarrow> ('db, 'nc, 'tc, WriteBatch) tree_op" where
  "precompute_tiles_batch E batch starting_index tree_size computed_hashes =
     and_then (get_last_precomputed_size E) (\<lambda>last_precomputed_size.
     and_then (fold_io (precompute_level E starting_index tree_size computed_hashes last_precomputed_size)
                 [0, 1, 2, 3, 4, 5] batch) (\<lambda>batch'.
     ret (batch' @ [(LAST_PRECOMPUTED_SIZE_KEY, be64 tree_size)])))"

section \<open>Appending a batch\<close>

text \<open>
  The \<^verbatim>\<open>while cur_idx != root_idx\<close> loops climb at most one level per iteration; a tree has at most 64
  levels, so the bound of 65 iterations is never reached.
\<close>

definition climb_bound :: nat where
  "climb_bound = 65"

definition prefetch_climb :: "u64 \<Rightarrow> u64 \<Rightarrow> (u64 \<times> unit) list \<times> u64 \<Rightarrow> ('db, 'nc, 'tc, (u64 \<times> unit) list \<times> u64) tree_op" where
  "prefetch_climb starting_index tree_size_when_processing =
     while_io climb_bound (\<lambda>(nodes, cur_idx). cur_idx \<noteq> root_idx tree_size_when_processing) (\<lambda>(nodes, cur_idx).
       and_then (of_option (sibling cur_idx tree_size_when_processing)) (\<lambda>sibling_idx.
       let nodes' = (if sibling_idx < starting_index * 2 then btree_insert sibling_idx () nodes else nodes) in
       and_then (of_option (parent cur_idx tree_size_when_processing)) (\<lambda>cur_idx'.
       ret (nodes', cur_idx'))))"

definition nodes_to_prefetch :: "u64 \<Rightarrow> nat \<Rightarrow> ('db, 'nc, 'tc, (u64 \<times> unit) list) tree_op" where
  "nodes_to_prefetch starting_index n =
     fold_io (\<lambda>i nodes.
       let leaf_position = starting_index + of_nat i in
       and_then (of_option (LeafIdx_new leaf_position)) (\<lambda>new_leaf_idx.
       and_then (prefetch_climb starting_index (leaf_position + 1) (nodes, internal_from_leaf new_leaf_idx)) (\<lambda>st.
       ret (fst st)))) [0..<n] []"

definition sibling_hash_for ::
  "('db, 'nc, 'tc) TreeEnv \<Rightarrow> u64 \<Rightarrow> (u64 \<times> bytes) list \<Rightarrow> u64 \<Rightarrow> (u64 \<times> bytes) list \<Rightarrow> u64
    \<Rightarrow> ('db, 'nc, 'tc, bytes) tree_op" where
  "sibling_hash_for E starting_index prefetched_nodes current_num_leaves computed_hashes sibling_idx =
     (case map_of computed_hashes sibling_idx of
        Some h \<Rightarrow> ret h
      | None \<Rightarrow>
          if current_num_leaves * 2 \<le> sibling_idx then ret default_hash
          else case map_of prefetched_nodes sibling_idx of
            Some h \<Rightarrow> ret h
          | None \<Rightarrow> get_node_hash_at_version E sibling_idx starting_index)"

definition push_climb ::
  "('db, 'nc, 'tc) TreeEnv \<Rightarrow> u64 \<Rightarrow> (u64 \<times> bytes) list \<Rightarrow> u64 \<Rightarrow> (u64 \<times> bytes) list \<times> u64 \<times> bytes
    \<Rightarrow> ('db, 'nc, 'tc, (u64 \<times> bytes) list \<times> u64 \<times> bytes) tree_op" where
  "push_climb E starting_index prefetched_nodes current_num_leaves =
     (let new_num_leaves = current_num_leaves + 1 in
      while_io climb_bound (\<lambda>(computed_hashes, cur_idx, cur_hash). cur_idx \<noteq> root_idx new_num_leaves)
        (\<lambda>(computed_hashes, cur_idx, cur_hash).
          and_then (of_option (parent cur_idx new_num_leaves)) (\<lambda>parent_idx.
          and_then (of_option (sibling cur_idx new_num_leaves)) (\<lambda>sibling_idx.
          and_then (sibling_hash_for E starting_index prefetched_nodes current_num_leaves computed_hashes sibling_idx) (\<lambda>sibling_hash.
          and_then (of_option (is_left cur_idx new_num_leaves)) (\<lambda>left.
          let parent_h = combine (digest_of E) left cur_hash sibling_hash in
          ret (btree_insert parent_idx parent_h computed_hashes, parent_idx, parent_h)))))))"

definition push_item ::
  "('db, 'nc, 'tc) TreeEnv \<Rightarrow> u64 \<Rightarrow> (u64 \<times> bytes) list \<Rightarrow> bytes \<Rightarrow> WriteBatch \<times> u64 \<times> (u64 \<times> bytes) list
    \<Rightarrow> ('db, 'nc, 'tc, WriteBatch \<times> u64 \<times> (u64 \<times> bytes) list) tree_op" where
  "push_item E starting_index prefetched_nodes item st =
     (case st of (batch, current_num_leaves, computed_hashes) \<Rightarrow>
      and_then (map_err EncodingError (of_result (to_stdvec E item))) (\<lambda>leaf_bytes.
      let batch' = batch @ [(leaf_key current_num_leaves, leaf_bytes)] in
      and_then (of_option (LeafIdx_new current_num_leaves)) (\<lambda>new_leaf_idx.
      let cur_idx = internal_from_leaf new_leaf_idx;
          h = leaf_hash (digest_of E) item in
      and_then (push_climb E starting_index prefetched_nodes current_num_leaves
                  (btree_insert cur_idx h computed_hashes, cur_idx, h)) (\<lambda>st'.
      ret (batch', current_num_leaves + 1, fst st')))))"

definition node_puts :: "u64 \<Rightarrow> (u64 \<times> bytes) list \<Rightarrow> WriteBatch" where
  "node_puts final_tree_size computed_hashes =
     concat (map (\<lambda>(node_idx, node_hash).
       [(versioned_node_key node_idx final_tree_size, node_hash),
        (node_latest_version_key node_idx, be64 final_tree_size)]) computed_hashes)"

definition batch_push_with_data ::
  "('db, 'nc, 'tc) TreeEnv \<Rightarrow> bytes list \<Rightarrow> (bytes \<times> bytes) list \<Rightarrow> ('db, 'nc, 'tc, u64) tree_op" where
  "batch_push_with_data E items additional_data =
     and_then (tree_len E) (\<lambda>starting_index.
     if items = [] \<and> additional_data = [] then ret starting_index
     else
       and_then (nodes_to_prefetch starting_index (length items)) (\<lambda>nodes.
       and_then (map_io (get_node_hash E) (map fst nodes)) (\<lambda>results.
       let prefetched_nodes = zip (map fst nodes) results in
       and_then (fold_io (push_item E starting_index prefetched_nodes) items ([], starting_index, [])) (\<lambda>st.
       case st of (batch, final_tree_size, computed_hashes) \<Rightarrow>
       let batch1 = batch @ node_puts final_tree_size computed_hashes
             @ [(META_KEY, be64 final_tree_size), (COMMITTED_SIZE_KEY, be64 final_tree_size)]
             @ additional_data in
       and_then (precompute_tiles_batch E batch1 starting_index final_tree_size computed_hashes) (\<lambda>batch2.
       and_then (on_tree_db (rl_write_batch (slate E) batch2)) (\<lambda>_.
       ret starting_index))))))"

end
