(* ===== verification/Slate_Tree_Inv.thy ===== *)
theory Slate_Tree_Inv
  imports Slate_Tree
begin

text \<open>
  The invariant of the stored tree and the correctness of reading from it.

  The abstract state is the list \<open>D\<close> of leaves and the set \<open>P\<close> of published sizes, the tree
  sizes after the batches. The node at level \<open>k\<close> and block \<open>j\<close> covers in the tree of \<open>n\<close> leaves
  the range from \<open>j * 2 ^ k\<close> to \<open>hi_of n k j\<close>. A batch that ends at size \<open>v\<close> writes a node under
  version \<open>v\<close> exactly when its range reaches past the previous size, that is when \<open>v\<close> is the
  first published size that covers the range (\<open>ver P (hi_of v k j) = v\<close>); the latest version of a
  node is the first published size that covers its present range. From this follows that a
  read at any published size, through the fallback to the latest version and through the cache,
  gives the Merkle tree hash of the node's range at that size.
\<close>

section \<open>Nodes of a tree by level and block\<close>

definition hi_of :: "nat \<Rightarrow> nat \<Rightarrow> nat \<Rightarrow> nat" where
  "hi_of n k j = min n (Suc j * 2 ^ k)"

definition node_hash :: "digest_fun \<Rightarrow> bytes list \<Rightarrow> nat \<Rightarrow> nat \<Rightarrow> nat \<Rightarrow> bytes" where
  "node_hash H D n k j = range_hash H D (j * 2 ^ k) (hi_of n k j)"

lemma hi_of_le: "hi_of n k j \<le> n"
  by (simp add: hi_of_def)

lemma in_tree_less_hi: "in_tree n k j \<Longrightarrow> j * 2 ^ k < hi_of n k j"
  by (simp add: in_tree_def hi_of_def)

lemma in_tree_mono: "in_tree m k j \<Longrightarrow> m \<le> n \<Longrightarrow> in_tree n k j"
  by (simp add: in_tree_def)

lemma in_tree_width:
  assumes "in_tree n k j"
  shows "clog2 (hi_of n k j - j * 2 ^ k) = k"
proof (rule clog2_eqI)
  show "hi_of n k j - j * 2 ^ k \<le> 2 ^ k" by (simp add: hi_of_def)
  have "Suc j * 2 ^ k = j * 2 ^ k + 2 ^ k" by simp
  then show "2 ^ k < 2 * (hi_of n k j - j * 2 ^ k)"
    using assms pow2_pos [of k] by (auto simp: in_tree_def hi_of_def min_def)
qed

lemma in_tree_trange:
  assumes "in_tree n k j" "n \<le> 2 ^ 63"
  shows "trange n (j * 2 ^ k) (hi_of n k j)" "node_of (j * 2 ^ k) (hi_of n k j) = node k j"
proof -
  have hi: "hi_of n k j = n \<or> hi_of n k j = j * 2 ^ k + 2 ^ k" by (auto simp: hi_of_def min_def)
  show "trange n (j * 2 ^ k) (hi_of n k j)"
    using assms in_tree_less_hi [OF assms(1)] hi hi_of_le [of n k j]
    by (simp add: trange_def in_tree_width [OF assms(1)])
  show "node_of (j * 2 ^ k) (hi_of n k j) = node k j"
    by (simp add: node_of_def in_tree_width [OF assms(1)])
qed

text \<open>Every range of the tree is a node given by level and block.\<close>

lemma trange_node:
  assumes "trange n lo hi"
  obtains k j where "node_of lo hi = node k j" "in_tree n k j" "slot k j" "j * 2 ^ k = lo" "hi_of n k j = hi"
proof (rule that [of "clog2 (hi - lo)" "lo div 2 ^ clog2 (hi - lo)"])
  let ?k = "clog2 (hi - lo)"
  note d = trangeD [OF assms]
  show "node_of lo hi = node ?k (lo div 2 ^ ?k)" by (simp add: node_of_def)
  show "in_tree n ?k (lo div 2 ^ ?k)" by (rule trange_in_tree [OF assms])
  show "slot ?k (lo div 2 ^ ?k)" by (rule trange_slot [OF assms])
  show "lo div 2 ^ ?k * 2 ^ ?k = lo" by (rule d(6))
  have "hi - lo \<le> 2 ^ ?k" using clog2_bounds [OF d(5)] by simp
  moreover have "Suc (lo div 2 ^ ?k) * 2 ^ ?k = lo + 2 ^ ?k" using d(6) by simp
  ultimately show "hi_of n ?k (lo div 2 ^ ?k) = hi" using d(1,2,7) by (auto simp: hi_of_def min_def)
qed

text \<open>A node whose range ends before the end of a tree keeps that range in every larger tree.\<close>

lemma hi_of_full: "hi_of m k j < m \<Longrightarrow> m \<le> n \<Longrightarrow> hi_of n k j = hi_of m k j"
  by (auto simp: hi_of_def min_def split: if_splits)

lemma hi_of_full': "hi_of n k j \<le> m \<Longrightarrow> m \<le> n \<Longrightarrow> hi_of m k j = hi_of n k j"
  by (auto simp: hi_of_def min_def split: if_splits)

lemma in_tree_back: "in_tree n k j \<Longrightarrow> hi_of n k j \<le> m \<Longrightarrow> in_tree m k j"
proof -
  assume a: "in_tree n k j" "hi_of n k j \<le> m"
  have e: "Suc j * 2 ^ k = j * 2 ^ k + 2 ^ k" by simp
  show ?thesis
  proof (cases "n \<le> Suc j * 2 ^ k")
    case True
    with a show ?thesis by (simp add: in_tree_def hi_of_def)
  next
    case False
    then have "j * 2 ^ k + 2 ^ k \<le> m" using a(2) e by (simp add: hi_of_def)
    then show ?thesis unfolding in_tree_def using pow2_pos [of k] by linarith
  qed
qed

lemma node_hash_append: "n \<le> length D \<Longrightarrow> node_hash H (D @ E) n k j = node_hash H D n k j"
  using hi_of_le [of n k j] by (simp add: node_hash_def range_hash_append)

lemma root_node:
  assumes "0 < n" "n \<le> 2 ^ 63"
  shows "root_idx (of_nat n) = node (clog2 n) 0" "in_tree n (clog2 n) 0" "slot (clog2 n) 0" "hi_of n (clog2 n) 0 = n"
  using assms clog2_bounds [OF assms(1)] clog2_le_63 [OF assms]
  by (simp_all add: root_idx_node in_tree_def slot_def hi_of_def)

section \<open>Published sizes\<close>

definition ver :: "nat set \<Rightarrow> nat \<Rightarrow> nat" where
  "ver P h = Min {v \<in> P. h \<le> v}"

definition sizes_ok :: "nat set \<Rightarrow> nat \<Rightarrow> bool" where
  "sizes_ok P n \<longleftrightarrow> finite P \<and> (\<forall>v \<in> P. 0 < v \<and> v \<le> n) \<and> (n = 0 \<or> n \<in> P)"

lemma ver_props:
  assumes "sizes_ok P n" "h \<le> n" "0 < n"
  shows "ver P h \<in> P" "h \<le> ver P h" "\<And>v. v \<in> P \<Longrightarrow> h \<le> v \<Longrightarrow> ver P h \<le> v"
proof -
  let ?S = "{v \<in> P. h \<le> v}"
  have f: "finite ?S" "n \<in> ?S" using assms by (auto simp: sizes_ok_def)
  then have "Min ?S \<in> ?S" by (intro Min_in) auto
  then show "ver P h \<in> P" "h \<le> ver P h" by (simp_all add: ver_def)
  show "ver P h \<le> v" if "v \<in> P" "h \<le> v" for v
    unfolding ver_def by (rule Min_le) (use f that in auto)
qed

lemma ver_insert:
  assumes "sizes_ok P n" "n < v"
  shows "h \<le> n \<Longrightarrow> 0 < n \<Longrightarrow> ver (insert v P) h = ver P h" "n < h \<Longrightarrow> h \<le> v \<Longrightarrow> ver (insert v P) h = v"
proof -
  show "ver (insert v P) h = ver P h" if "h \<le> n" "0 < n"
  proof -
    note p = ver_props [OF assms(1) that]
    have f: "finite {x \<in> insert v P. h \<le> x}" using assms(1) by (simp add: sizes_ok_def)
    have "ver P h \<le> v" using p(1) assms by (auto simp: sizes_ok_def)
    then show ?thesis
      unfolding ver_def [of "insert v P"] by (intro Min_eqI f) (use p in auto)
  qed
  show "ver (insert v P) h = v" if "n < h" "h \<le> v"
  proof -
    have "{x \<in> insert v P. h \<le> x} = {v}" using assms that by (auto simp: sizes_ok_def)
    then show ?thesis by (simp add: ver_def)
  qed
qed

lemma sizes_ok_insert: "sizes_ok P n \<Longrightarrow> n < v \<Longrightarrow> sizes_ok (insert v P) v"
  by (auto simp: sizes_ok_def)

section \<open>The invariant\<close>

text \<open>The tiles that are full at size \<open>n\<close> and their contents.\<close>

definition tile_full :: "nat \<Rightarrow> nat \<Rightarrow> nat \<Rightarrow> bool" where
  "tile_full n l t \<longleftrightarrow> Suc t * 256 ^ Suc l \<le> n"

definition tile_hashes :: "digest_fun \<Rightarrow> bytes list \<Rightarrow> nat \<Rightarrow> nat \<Rightarrow> bytes list" where
  "tile_hashes H D l t =
     map (\<lambda>i. range_hash H D ((t * 256 + i) * 256 ^ l) ((t * 256 + i + 1) * 256 ^ l)) [0..<256]"

text \<open>The three stored sizes; each may be missing while the tree is empty.\<close>

definition size_at :: "nat \<Rightarrow> bytes option \<Rightarrow> bool" where
  "size_at n r \<longleftrightarrow> (case r of None \<Rightarrow> n = 0 | Some b \<Rightarrow> b = be64 (of_nat n))"

definition sizes_inv :: "nat \<Rightarrow> key_values \<Rightarrow> bool" where
  "sizes_inv n M \<longleftrightarrow>
     size_at n (M META_KEY) \<and> size_at n (M COMMITTED_SIZE_KEY) \<and> size_at n (M LAST_PRECOMPUTED_SIZE_KEY)"

definition nodes_inv :: "digest_fun \<Rightarrow> bytes list \<Rightarrow> nat set \<Rightarrow> key_values \<Rightarrow> bool" where
  "nodes_inv H D P M \<longleftrightarrow>
     (\<forall>k j v. slot k j \<longrightarrow> v \<le> 2 ^ 63 \<longrightarrow>
        M (versioned_node_key (node k j) (of_nat v))
          = (if v \<in> P \<and> in_tree v k j \<and> ver P (hi_of v k j) = v then Some (node_hash H D v k j) else None)) \<and>
     (\<forall>k j. slot k j \<longrightarrow>
        M (node_latest_version_key (node k j))
          = (if in_tree (length D) k j then Some (be64 (of_nat (ver P (hi_of (length D) k j)))) else None))"

definition tiles_inv :: "digest_fun \<Rightarrow> bytes list \<Rightarrow> key_values \<Rightarrow> bool" where
  "tiles_inv H D M \<longleftrightarrow>
     (\<forall>l t. M (tile_key l t)
        = (if unat l \<le> 5 \<and> tile_full (length D) (unat l) (unat t)
           then Some (concat (tile_hashes H D (unat l) (unat t))) else None))"

definition leaves_inv :: "(bytes \<Rightarrow> string + bytes) \<Rightarrow> bytes list \<Rightarrow> key_values \<Rightarrow> bool" where
  "leaves_inv ser D M \<longleftrightarrow> (\<forall>i < length D. \<exists>b. ser (D ! i) = Inr b \<and> M (leaf_key (of_nat i)) = Some b)"

definition store_inv :: "digest_fun \<Rightarrow> (bytes \<Rightarrow> string + bytes) \<Rightarrow> bytes list \<Rightarrow> nat set \<Rightarrow> key_values \<Rightarrow> bool" where
  "store_inv H ser D P M \<longleftrightarrow>
     length D \<le> 2 ^ 63 \<and> sizes_ok P (length D) \<and> sizes_inv (length D) M \<and> nodes_inv H D P M \<and>
     tiles_inv H D M \<and> leaves_inv ser D M"

text \<open>
  What a cached hash under \<open>(node, version)\<close> is: at a published size the node's hash; at a size
  beyond the present one only nodes that are already complete may be cached.
\<close>

definition cache_inv :: "digest_fun \<Rightarrow> bytes list \<Rightarrow> nat set \<Rightarrow> (u64 \<times> u64 \<rightharpoonup> bytes) \<Rightarrow> bool" where
  "cache_inv H D P C \<longleftrightarrow>
     (\<forall>k j v h. slot k j \<longrightarrow> v \<le> 2 ^ 63 \<longrightarrow> in_tree v k j \<longrightarrow> C (node k j, of_nat v) = Some h \<longrightarrow>
        (v \<in> P \<longrightarrow> h = node_hash H D v k j) \<and>
        (length D < v \<longrightarrow> hi_of v k j \<le> length D \<and> h = node_hash H D v k j))"

text \<open>The parameters behave as their documentation says.\<close>

definition env_ok ::
  "('db, 'nc, 'tc) TreeEnv \<Rightarrow> ('db \<Rightarrow> key_values) \<Rightarrow> ('nc \<Rightarrow> u64 \<times> u64 \<rightharpoonup> bytes) \<Rightarrow> SlateDBError set \<Rightarrow> bool" where
  "env_ok E view held F \<longleftrightarrow>
     slatedb_ok (slate E) view F \<and> cache_ok (node_cache_ops E) held \<and> (\<forall>x. length (digest_of E x) = output_size)"

text \<open>The states in which the store holds \<open>M\<close> and the cache is right for \<open>D\<close> and \<open>P\<close>.\<close>

definition tree_at ::
  "('db, 'nc, 'tc) TreeEnv \<Rightarrow> ('db \<Rightarrow> key_values) \<Rightarrow> ('nc \<Rightarrow> u64 \<times> u64 \<rightharpoonup> bytes) \<Rightarrow> bytes list \<Rightarrow> nat set
    \<Rightarrow> key_values \<Rightarrow> ('db, 'nc, 'tc) Tree \<Rightarrow> bool" where
  "tree_at E view held D P M s \<longleftrightarrow>
     rl_contents view (tree_db s) = M \<and> cache_inv (digest_of E) D P (held (node_cache s))"

lemma store_invD:
  assumes "store_inv H ser D P M"
  shows "length D \<le> 2 ^ 63" "sizes_ok P (length D)" "size_at (length D) (M META_KEY)"
    "size_at (length D) (M COMMITTED_SIZE_KEY)" "nodes_inv H D P M" "tiles_inv H D M" "leaves_inv ser D M"
  using assms by (simp_all add: store_inv_def sizes_inv_def)

lemma published_le: "store_inv H ser D P M \<Longrightarrow> v \<in> P \<Longrightarrow> 0 < v \<and> v \<le> length D \<and> v \<le> 2 ^ 63"
  using store_invD(1,2) [of H ser D P M] by (auto simp: sizes_ok_def)

lemma length_node_hash: "env_ok E view held F \<Longrightarrow> length (node_hash (digest_of E) D n k j) = output_size"
  unfolding node_hash_def by (rule length_range_hash) (simp add: env_ok_def)

section \<open>Reading\<close>

lemma triple_db_get:
  assumes "env_ok E view held F"
  shows "triple (tree_at E view held D P M) (db_get E k) (\<lambda>r s. tree_at E view held D P M s \<and> r = M k)
    (\<lambda>e s. tree_at E view held D P M s \<and> e \<in> DbError ` F)"
  unfolding db_get_def on_tree_db_def
proof (rule triple_map_err)
  have ok: "slatedb_ok (slate E) view F" using assms by (simp add: env_ok_def)
  show "triple (tree_at E view held D P M) (zoom tree_db (\<lambda>d s. s\<lparr>tree_db := d\<rparr>) (rl_get (slate E) k))
      (\<lambda>r s. tree_at E view held D P M s \<and> r = M k) (\<lambda>e s. tree_at E view held D P M s \<and> DbError e \<in> DbError ` F)"
    by (rule triple_zoom [OF rl.get_spec [OF ok]]) (auto simp: tree_at_def)
qed

lemma triple_node_cache_get:
  assumes "env_ok E view held F"
  shows "triple (tree_at E view held D P M) (node_cache_get E key)
    (\<lambda>r s. tree_at E view held D P M s \<and> (\<forall>h. r = Some h \<longrightarrow> (\<exists>C. cache_inv (digest_of E) D P C \<and> C key = Some h))) R"
proof (rule tripleI)
  fix s assume s: "tree_at E view held D P M s"
  have ok: "cache_ok (node_cache_ops E) held" using assms by (simp add: env_ok_def)
  let ?g = "cache_get (node_cache_ops E) key (node_cache s)"
  obtain r c where g: "?g = (r, c)" by (cases ?g)
  have "cache_inv (digest_of E) D P (held c)"
    using s cache_okD(2) [OF ok, of key "node_cache s"] g unfolding tree_at_def cache_inv_def
    by (metis snd_conv)
  moreover have "held (node_cache s) key = Some h" if "r = Some h" for h
    using cache_okD(1) [OF ok, of key "node_cache s" h] g that by simp
  ultimately show "case node_cache_get E key s of
      (Inr r, s') \<Rightarrow> tree_at E view held D P M s' \<and> (\<forall>h. r = Some h \<longrightarrow> (\<exists>C. cache_inv (digest_of E) D P C \<and> C key = Some h))
    | (Inl (Err e), s') \<Rightarrow> R e s' | (Inl Panic, s') \<Rightarrow> False"
    using s g by (auto simp: node_cache_get_def tree_at_def)
qed

text \<open>A read at version \<open>v\<close> is covered when \<open>v\<close> is published, or when it is yet to come and the node complete.\<close>

definition readable :: "bytes list \<Rightarrow> nat set \<Rightarrow> nat \<Rightarrow> nat \<Rightarrow> nat \<Rightarrow> bool" where
  "readable D P v k j \<longleftrightarrow>
     slot k j \<and> v \<le> 2 ^ 63 \<and> in_tree v k j \<and> (v \<in> P \<and> v \<le> length D \<or> (length D < v \<and> hi_of v k j \<le> length D))"

lemma triple_node_cache_insert:
  assumes "env_ok E view held F" "readable D P v k j" "h = node_hash (digest_of E) D v k j"
  shows "triple (tree_at E view held D P M) (node_cache_insert E (node k j, of_nat v) h) (\<lambda>_. tree_at E view held D P M) R"
  unfolding node_cache_insert_def
proof (rule triple_modify)
  fix s assume s: "tree_at E view held D P M s"
  have ok: "cache_ok (node_cache_ops E) held" using assms(1) by (simp add: env_ok_def)
  let ?c = "cache_insert (node_cache_ops E) (node k j, of_nat v) h (node_cache s)"
  have "cache_inv (digest_of E) D P (held ?c)"
    unfolding cache_inv_def
  proof (intro allI impI)
    fix k' j' v' h'
    assume a: "slot k' j'" "v' \<le> 2 ^ 63" "in_tree v' k' j'" "held ?c (node k' j', of_nat v') = Some h'"
    show "(v' \<in> P \<longrightarrow> h' = node_hash (digest_of E) D v' k' j') \<and>
        (length D < v' \<longrightarrow> hi_of v' k' j' \<le> length D \<and> h' = node_hash (digest_of E) D v' k' j')"
    proof (cases "(node k' j', of_nat v' :: u64) = (node k j, of_nat v)")
      case True
      then have "k' = k" "j' = j" "v' = v" "h' = h"
        using a assms(2) node_inject [of k' j' k j] of_nat_u64_eq_iff [of v' v] cache_okD(3) [OF ok a(4)]
        by (auto simp: readable_def)
      with assms(2,3) s show ?thesis by (auto simp: readable_def)
    next
      case False
      with cache_okD(3) [OF ok a(4)] have "held (node_cache s) (node k' j', of_nat v') = Some h'" by auto
      with a(1-3) s show ?thesis by (auto simp: tree_at_def cache_inv_def)
    qed
  qed
  with s show "tree_at E view held D P M (s\<lparr>node_cache := ?c\<rparr>)" by (simp add: tree_at_def)
qed

lemma stored_version:
  assumes "store_inv H ser D P M" "in_tree (length D) k j" "u = ver P (hi_of (length D) k j)"
  shows "u \<in> P" "u \<le> length D" "in_tree u k j" "hi_of u k j = hi_of (length D) k j"
    "M (node_latest_version_key (node k j)) = Some (be64 (of_nat u))"
    "M (versioned_node_key (node k j) (of_nat u)) = Some (node_hash H D (length D) k j)"
proof -
  let ?n = "length D"
  note inv = store_invD [OF assms(1)]
  have n: "0 < ?n" using assms(2) by (auto simp: in_tree_def)
  note v = ver_props [OF inv(2) hi_of_le n, of k j, folded assms(3)]
  show u: "u \<in> P" by (rule v(1))
  show un: "u \<le> ?n" using published_le [OF assms(1) u] by simp
  show it: "in_tree u k j" by (rule in_tree_back [OF assms(2) v(2)])
  show hi: "hi_of u k j = hi_of ?n k j" by (rule hi_of_full' [OF v(2) un])
  have sl: "slot k j" by (rule slot_in_tree [OF assms(2) inv(1)])
  show "M (node_latest_version_key (node k j)) = Some (be64 (of_nat u))"
    using inv(5) sl assms(2,3) by (simp add: nodes_inv_def)
  have "u \<le> 2 ^ 63" using un inv(1) by simp
  then show "M (versioned_node_key (node k j) (of_nat u)) = Some (node_hash H D ?n k j)"
    using inv(5) sl u it hi assms(3) by (simp add: nodes_inv_def node_hash_def)
qed

lemma exact_version:
  assumes "store_inv H ser D P M" "readable D P v k j" "M (versioned_node_key (node k j) (of_nat v)) = Some b"
  shows "b = node_hash H D v k j"
  using assms store_invD(5) [OF assms(1)] by (auto simp: nodes_inv_def readable_def split: if_splits)

text \<open>When nothing is stored at the version read, the latest version is older and holds the hash.\<close>

lemma fallback_version:
  assumes "store_inv H ser D P M" "readable D P v k j" "M (versioned_node_key (node k j) (of_nat v)) = None"
  obtains u where "M (node_latest_version_key (node k j)) = Some (be64 (of_nat u))" "u \<le> v"
    "M (versioned_node_key (node k j) (of_nat u)) = Some (node_hash H D v k j)"
proof -
  let ?n = "length D"
  note inv = store_invD [OF assms(1)]
  have r: "slot k j" "v \<le> 2 ^ 63" "in_tree v k j" "v \<in> P \<and> v \<le> ?n \<or> (?n < v \<and> hi_of v k j \<le> ?n)"
    using assms(2) by (simp_all add: readable_def)
  have hn: "hi_of v k j \<le> ?n" using r(4) hi_of_le [of v k j] by auto
  then have it: "in_tree ?n k j" by (rule in_tree_back [OF r(3)])
  then have n: "0 < ?n" by (auto simp: in_tree_def)
  note vp = ver_props [OF inv(2) hn n]
  have "hi_of ?n k j = hi_of v k j \<and> ver P (hi_of v k j) \<le> v"
  proof (cases "v \<in> P")
    case True
    then have "ver P (hi_of v k j) \<noteq> v"
      using assms(3) inv(5) r by (auto simp: nodes_inv_def split: if_splits)
    then have "ver P (hi_of v k j) < v" using vp(3) [OF True hi_of_le] by simp
    moreover from this have "hi_of v k j < v" using vp(2) by simp
    moreover have "v \<le> ?n" using published_le [OF assms(1) True] by simp
    ultimately show ?thesis using hi_of_full [of v k j ?n] by simp
  next
    case False
    with r(4) have "?n < v" "hi_of v k j \<le> ?n" by auto
    moreover have "ver P (hi_of v k j) \<le> ?n" using published_le [OF assms(1) vp(1)] by simp
    ultimately show ?thesis using hi_of_full' [of v k j ?n] by simp
  qed
  then have hi: "hi_of ?n k j = hi_of v k j" and le: "ver P (hi_of ?n k j) \<le> v" by simp_all
  note sv = stored_version [OF assms(1) it refl]
  show ?thesis by (rule that [OF sv(5) le]) (use sv(6) hi in \<open>simp add: node_hash_def\<close>)
qed

lemma triple_get_node_hash_at_version:
  assumes env: "env_ok E view held F" and inv: "store_inv (digest_of E) ser D P M" and rd: "readable D P v k j"
  shows "triple (tree_at E view held D P M) (get_node_hash_at_version E (node k j) (of_nat v))
    (\<lambda>h s. tree_at E view held D P M s \<and> h = node_hash (digest_of E) D v k j)
    (\<lambda>e s. tree_at E view held D P M s \<and> e \<in> DbError ` F)"
    (is "triple ?T _ ?Q ?R")
  unfolding get_node_hash_at_version_def
proof (rule triple_and_then [OF triple_node_cache_get [OF env]], rule triple_if)
  let ?h = "node_hash (digest_of E) D v k j"
  fix entry
  let ?P = "\<lambda>s. ?T s \<and> (\<forall>h. entry = Some h \<longrightarrow> (\<exists>C. cache_inv (digest_of E) D P C \<and> C (node k j, of_nat v) = Some h))"
  assume b: "case entry of None \<Rightarrow> False | Some cached_hash \<Rightarrow> length cached_hash = output_size"
  have "h = ?h" if "cache_inv (digest_of E) D P C" "C (node k j, of_nat v) = Some h" for C h
    using that rd by (auto simp: cache_inv_def readable_def)
  then show "triple ?P (ret (the entry)) ?Q ?R"
    using b by (intro triple_ret) (auto split: option.splits)
next
  let ?h = "node_hash (digest_of E) D v k j" and ?exact = "M (versioned_node_key (node k j) (of_nat v))"
  have len: "length ?h = output_size" by (rule length_node_hash [OF env])
  have store: "triple ?T (and_then (node_cache_insert E (node k j, of_nat v) ?h) (\<lambda>_. ret ?h)) ?Q ?R"
    by (rule triple_and_then [OF triple_node_cache_insert [OF env rd refl]]) (simp add: triple_ret)
  note get = triple_then [OF triple_db_get [OF env]]
  fix entry
  let ?P = "\<lambda>s. ?T s \<and> (\<forall>h. entry = Some h \<longrightarrow> (\<exists>C. cache_inv (digest_of E) D P C \<and> C (node k j, of_nat v) = Some h))"
  let ?G = "\<lambda>exact. case exact of
         Some bytes \<Rightarrow>
           if length bytes = output_size
           then and_then (node_cache_insert E (node k j, of_nat v) bytes) (\<lambda>_. ret bytes)
           else raise (EncodingError ''Invalid hash size'')
       | None \<Rightarrow>
           and_then (db_get E (node_latest_version_key (node k j))) (\<lambda>latest. case latest of
             Some latest_version_bytes \<Rightarrow>
               and_then (ok_or (EncodingError ''Invalid version format'') (read_be64 latest_version_bytes)) (\<lambda>latest_version.
               if of_nat v < latest_version
               then and_then (node_cache_insert E (node k j, of_nat v) default_hash) (\<lambda>_. ret default_hash)
               else
                 and_then (db_get E (versioned_node_key (node k j) latest_version)) (\<lambda>r. case r of
                   Some bytes \<Rightarrow>
                     if length bytes = output_size
                     then and_then (node_cache_insert E (node k j, of_nat v) bytes) (\<lambda>_. ret bytes)
                     else raise (EncodingError ''Invalid hash size'')
                 | None \<Rightarrow> raise (InconsistentState
                     (''Node '' @ dec (node k j) @ '' has latest version '' @ dec latest_version @ '' but no data''))))
           | None \<Rightarrow> and_then (node_cache_insert E (node k j, of_nat v) default_hash) (\<lambda>_. ret default_hash))"
  have "triple ?T (?G ?exact) ?Q ?R"
  proof (cases ?exact)
    case (Some b)
    with exact_version [OF inv rd Some] store len show ?thesis by simp
  next
    case None
    then obtain u where u: "M (node_latest_version_key (node k j)) = Some (be64 (of_nat u))" "u \<le> v"
        "M (versioned_node_key (node k j) (of_nat u)) = Some ?h"
      by (rule fallback_version [OF inv rd])
    have "\<not> (of_nat v :: u64) < of_nat u"
      using of_nat_u64_less_iff [of v u] u(2) rd by (simp add: readable_def)
    then have "triple ?T (?G None) ?Q ?R"
      unfolding option.case
      by (intro get) (simp add: u get len store)
    with None show ?thesis by simp
  qed
  then have "triple ?T (and_then (db_get E (versioned_node_key (node k j) (of_nat v))) ?G) ?Q ?R" by (rule get)
  then show "triple ?P (and_then (db_get E (versioned_node_key (node k j) (of_nat v))) ?G) ?Q ?R"
    by (rule triple_weaken_pre) simp
qed

lemma triple_get_node_hash:
  assumes env: "env_ok E view held F" and inv: "store_inv (digest_of E) ser D P M" and sl: "slot k j"
  shows "triple (tree_at E view held D P M) (get_node_hash E (node k j))
    (\<lambda>h s. tree_at E view held D P M s \<and>
       h = (if in_tree (length D) k j then node_hash (digest_of E) D (length D) k j else default_hash))
    (\<lambda>e s. tree_at E view held D P M s \<and> e \<in> DbError ` F)"
  unfolding get_node_hash_def
proof (rule triple_then [OF triple_db_get [OF env]])
  note get = triple_get_node_hash_at_version [OF env inv]
  show "triple (tree_at E view held D P M) (case M (node_latest_version_key (node k j)) of
      Some version_bytes \<Rightarrow>
         and_then (ok_or (EncodingError ''Invalid version format'') (read_be64 version_bytes)) (\<lambda>latest_version.
         get_node_hash_at_version E (node k j) latest_version)
     | None \<Rightarrow> ret default_hash)
    (\<lambda>h s. tree_at E view held D P M s \<and>
       h = (if in_tree (length D) k j then node_hash (digest_of E) D (length D) k j else default_hash))
    (\<lambda>e s. tree_at E view held D P M s \<and> e \<in> DbError ` F)"
  proof (cases "in_tree (length D) k j")
    case True
    note sv = stored_version [OF inv True refl]
    have "readable D P (ver P (hi_of (length D) k j)) k j"
      using sv sl published_le [OF inv sv(1)] by (simp add: readable_def)
    from get [OF this] True sv show ?thesis by (simp add: node_hash_def)
  next
    case False
    then have "M (node_latest_version_key (node k j)) = None"
      using store_invD(5) [OF inv] sl by (simp add: nodes_inv_def)
    with False show ?thesis by (simp add: triple_ret)
  qed
qed

section \<open>Reading sizes, roots and proofs\<close>

text \<open>\<open>answers T m r X\<close>: from a state in \<open>T\<close>, \<open>m\<close> stays in \<open>T\<close> and gives the result \<open>r\<close>, or one of the errors \<open>X\<close>.\<close>

definition answers :: "('s \<Rightarrow> bool) \<Rightarrow> ('s, 'e, 'a) io \<Rightarrow> 'e + 'a \<Rightarrow> 'e set \<Rightarrow> bool" where
  "answers T m r X \<longleftrightarrow> triple T m (\<lambda>a s. T s \<and> r = Inr a) (\<lambda>e s. T s \<and> (r = Inl e \<or> e \<in> X))"

lemma answersI: "triple T m (\<lambda>a s. T s \<and> a = x) (\<lambda>e s. T s \<and> e \<in> X) \<Longrightarrow> answers T m (Inr x) X"
  unfolding answers_def by (erule triple_conseq) auto

lemma answers_ret: "answers T (ret a) (Inr a) X"
  by (simp add: answers_def triple_ret)

lemma answers_raise: "answers T (raise e) (Inl e) X"
  by (simp add: answers_def triple_raise)

lemma answers_then:
  assumes "answers T m (Inr x) X" "answers T (f x) r X"
  shows "answers T (and_then m f) r X"
  unfolding answers_def
proof (rule triple_then)
  show "triple T m (\<lambda>a s. T s \<and> a = x) (\<lambda>e s. T s \<and> (r = Inl e \<or> e \<in> X))"
    using assms(1) unfolding answers_def by (rule triple_conseq) auto
  show "triple T (f x) (\<lambda>a s. T s \<and> r = Inr a) (\<lambda>e s. T s \<and> (r = Inl e \<or> e \<in> X))"
    using assms(2) unfolding answers_def .
qed

text \<open>\<^verbatim>\<open>?\<close> on results, and what an operation answers when its parts are known by their results.\<close>

definition res_bind :: "'e + 'a \<Rightarrow> ('a \<Rightarrow> 'e + 'b) \<Rightarrow> 'e + 'b" where
  "res_bind r f = (case r of Inl e \<Rightarrow> Inl e | Inr a \<Rightarrow> f a)"

lemma res_bind_simps [simp]: "res_bind (Inl e) f = Inl e" "res_bind (Inr a) f = f a"
  by (simp_all add: res_bind_def)

lemma res_bind_ok: "res_bind r f = Inr b \<longleftrightarrow> (\<exists>a. r = Inr a \<and> f a = Inr b)"
  by (cases r) auto

lemma answers_bind:
  assumes "answers T m r X" "\<And>a. r = Inr a \<Longrightarrow> answers T (f a) (g a) X"
  shows "answers T (and_then m f) (res_bind r g) X"
proof (cases r)
  case (Inl e)
  have "triple T (and_then m f) (\<lambda>a s. T s \<and> res_bind r g = Inr a) (\<lambda>x s. T s \<and> (res_bind r g = Inl x \<or> x \<in> X))"
  proof (rule triple_and_then)
    show "triple T m (\<lambda>a s. False) (\<lambda>x s. T s \<and> (res_bind r g = Inl x \<or> x \<in> X))"
      using assms(1) Inl unfolding answers_def by (elim triple_conseq) auto
    show "triple (\<lambda>s. False) (f a) (\<lambda>a s. T s \<and> res_bind r g = Inr a) (\<lambda>x s. T s \<and> (res_bind r g = Inl x \<or> x \<in> X))" for a
      by (simp add: triple_def)
  qed
  then show ?thesis by (simp add: answers_def)
next
  case (Inr a)
  with assms show ?thesis by (simp add: answers_then)
qed

lemma answers_of_result: "answers T (of_result r) r X"
  by (cases r) (simp_all add: answers_ret answers_raise)

lemma answers_if: "(b \<Longrightarrow> answers T m r X) \<Longrightarrow> (\<not> b \<Longrightarrow> answers T n q X) \<Longrightarrow> answers T (if b then m else n) (if b then r else q) X"
  by simp

lemma answers_map_err: "answers T m r X \<Longrightarrow> answers T (map_err g m) (map_sum g id r) (g ` X)"
  unfolding answers_def by (rule triple_map_err) (erule triple_conseq, auto)

lemma answers_map_io:
  assumes "\<And>x. x \<in> set xs \<Longrightarrow> answers T (f x) (Inr (g x)) X"
  shows "answers T (map_io f xs) (Inr (map g xs)) X"
proof (rule answersI, rule triple_map_io)
  show "triple T (f x) (\<lambda>a s. T s \<and> a = g x) (\<lambda>e s. T s \<and> e \<in> X)" if "x \<in> set xs" for x
    using assms [OF that] unfolding answers_def by (rule triple_conseq) auto
qed

lemma answers_join:
  assumes "answers T m (Inr x) X" "answers T n (Inr y) X"
  shows "answers T (join_io m n) (Inr (x, y)) X"
proof -
  have "triple T m (\<lambda>a s. T s \<and> a = x) (\<lambda>e s. T s \<and> e \<in> X)" "triple T n (\<lambda>a s. T s \<and> a = y) (\<lambda>e s. T s \<and> e \<in> X)"
    using assms unfolding answers_def by (auto elim: triple_conseq)
  from triple_join_io [OF this] show ?thesis unfolding answers_def by (rule triple_conseq) auto
qed

text \<open>A store that does not fail gives the answer.\<close>

lemma answers_valueD: "answers T m (Inr a) {} \<Longrightarrow> T s \<Longrightarrow> \<exists>s'. m s = (Inr a, s') \<and> T s'"
  unfolding answers_def by (auto dest!: tripleD)

lemma answers_errorD: "answers T m (Inl e) {} \<Longrightarrow> T s \<Longrightarrow> \<exists>s'. m s = (Inl (Err e), s') \<and> T s'"
  unfolding answers_def by (auto dest!: tripleD)

lemma answers_db_get:
  "env_ok E view held F \<Longrightarrow> answers (tree_at E view held D P M) (db_get E k) (Inr (M k)) (DbError ` F)"
  by (rule answersI) (rule triple_db_get)

lemma answers_sizes:
  assumes "env_ok E view held F" "store_inv H ser D P M"
  shows "answers (tree_at E view held D P M) (get_num_leaves E) (Inr (map_option (\<lambda>_. of_nat (length D)) (M META_KEY))) (DbError ` F)"
    "answers (tree_at E view held D P M) (tree_len E) (Inr (of_nat (length D))) (DbError ` F)"
    "answers (tree_at E view held D P M) (get_committed_size E) (Inr (of_nat (length D))) (DbError ` F)"
proof -
  note inv = store_invD [OF assms(2)]
  show n: "answers (tree_at E view held D P M) (get_num_leaves E) (Inr (map_option (\<lambda>_. of_nat (length D)) (M META_KEY))) (DbError ` F)"
    unfolding get_num_leaves_def
    by (rule answers_then [OF answers_db_get [OF assms(1)]])
      (use inv(3) in \<open>cases "M META_KEY"; simp add: size_at_def answers_ret\<close>)
  show "answers (tree_at E view held D P M) (tree_len E) (Inr (of_nat (length D))) (DbError ` F)"
    unfolding tree_len_def
    by (rule answers_then [OF n]) (use inv(3) answers_ret in \<open>cases "M META_KEY"; force simp: size_at_def\<close>)
  show "answers (tree_at E view held D P M) (get_committed_size E) (Inr (of_nat (length D))) (DbError ` F)"
    unfolding get_committed_size_def
    by (rule answers_then [OF answers_db_get [OF assms(1)]])
      (use inv(4) answers_ret in \<open>cases "M COMMITTED_SIZE_KEY"; force simp: size_at_def\<close>)
qed

lemma answers_range_hash:
  assumes "env_ok E view held F" "store_inv (digest_of E) ser D P M" "v \<in> P" "trange v lo hi"
  shows "answers (tree_at E view held D P M) (get_node_hash_at_version E (node_of lo hi) (of_nat v))
    (Inr (range_hash (digest_of E) D lo hi)) (DbError ` F)"
proof -
  obtain k j where n: "node_of lo hi = node k j" "in_tree v k j" "slot k j" "j * 2 ^ k = lo" "hi_of v k j = hi"
    by (rule trange_node [OF assms(4)])
  have "readable D P v k j" using n published_le [OF assms(2,3)] assms(3) by (simp add: readable_def)
  from triple_get_node_hash_at_version [OF assms(1,2) this] show ?thesis
    using n by (intro answersI) (simp add: node_hash_def)
qed

lemma root_stored_iff:
  assumes "store_inv H ser D P M" "0 < v" "v \<le> 2 ^ 63"
  shows "M (versioned_node_key (root_idx (of_nat v)) (of_nat v)) \<noteq> None \<longleftrightarrow> v \<in> P"
proof -
  note r = root_node [OF assms(2,3)] and inv = store_invD [OF assms(1)]
  have "ver P v = v" if v: "v \<in> P"
  proof -
    have n: "v \<le> length D" "0 < length D" using published_le [OF assms(1) v] by auto
    show ?thesis using ver_props [OF inv(2) n] v by force
  qed
  with inv(5) r assms(3) show ?thesis by (simp add: nodes_inv_def)
qed

section \<open>What the tree promises\<close>

text \<open>
  The contract of the read operations over the abstract state: at a published size they answer with
  the Merkle tree hash, audit path and consistency proof of RFC 6962 of the prefix of that size, and
  otherwise with the error the code gives.
\<close>

definition spec_root :: "digest_fun \<Rightarrow> bytes list \<Rightarrow> nat set \<Rightarrow> u64 \<Rightarrow> SlateDbTreeError + RootHash" where
  "spec_root H D P w =
     (if w = 0 then Inr \<lparr>root_hash = mth H [], num_leaves = 0\<rparr>
      else if length D < unat w then Inl (InconsistentState
        (''Requested tree size '' @ dec w @ '' exceeds current committed tree size '' @ dec (of_nat (length D) :: u64)))
      else if unat w \<notin> P then Inl (InconsistentState (''Tree size '' @ dec w @ '' is not a published STH boundary''))
      else Inr \<lparr>root_hash = mth H (take (unat w) D), num_leaves = w\<rparr>)"

definition spec_inclusion :: "digest_fun \<Rightarrow> bytes list \<Rightarrow> nat set \<Rightarrow> u64 \<Rightarrow> u64 \<Rightarrow> SlateDbTreeError + InclusionProof" where
  "spec_inclusion H D P i w =
     (if length D < unat w then Inl (InconsistentState
        (''Requested tree size '' @ dec w @ '' exceeds current committed tree size '' @ dec (of_nat (length D) :: u64)))
      else if unat w \<le> unat i then Inl (InconsistentState
        (''Index '' @ dec i @ '' out of bounds for requested tree size '' @ dec w))
      else if unat w \<notin> P then Inl (InconsistentState (''Tree size '' @ dec w @ '' is not a published STH boundary''))
      else Inr (inclusion_from_digests (path H (unat i) (take (unat w) D))))"

definition spec_consistency :: "digest_fun \<Rightarrow> bytes list \<Rightarrow> nat set \<Rightarrow> u64 \<Rightarrow> u64 \<Rightarrow> SlateDbTreeError + ConsistencyProof" where
  "spec_consistency H D P a b =
     (if a = 0 then Inl (InconsistentState ''Cannot create consistency proof from empty tree'')
      else if unat b < unat a then Inl (InconsistentState
        (''Old size '' @ dec a @ '' must be less than or equal to new size '' @ dec b))
      else if a = b then Inr (consistency_from_digests [])
      else if length D < unat b then Inl (InconsistentState
        (''New size '' @ dec b @ '' exceeds current committed tree size '' @ dec (of_nat (length D) :: u64)))
      else if unat a \<notin> P then Inl (InconsistentState (''Old tree size '' @ dec a @ '' is not a published STH boundary''))
      else if unat b \<notin> P then Inl (InconsistentState (''New tree size '' @ dec b @ '' is not a published STH boundary''))
      else Inr (consistency_from_digests (rfc_proof H (unat a) (take (unat b) D))))"

lemma range_hash_take: "hi \<le> v \<Longrightarrow> range_hash H (take v D) lo hi = range_hash H D lo hi"
  by (simp add: range_hash_def seg_def drop_take min_def)

lemma committed_less: "length D \<le> 2 ^ 63 \<Longrightarrow> (of_nat (length D) :: u64) < w \<longleftrightarrow> length D < unat w"
  by (simp add: word_less_nat_alt unat_of_nat)

lemma answers_ranges:
  assumes "env_ok E view held F" "store_inv (digest_of E) ser D P M" "v \<in> P"
    and "\<And>r. r \<in> set rs \<Longrightarrow> trange v (fst r) (snd r)"
  shows "answers (tree_at E view held D P M) (map_io (\<lambda>idx. get_node_hash_at_version E idx (of_nat v)) (map node_pair rs))
    (Inr (map (range_pair (digest_of E) (take v D)) rs)) (DbError ` F)"
proof -
  have "answers (tree_at E view held D P M) (map_io (\<lambda>r. get_node_hash_at_version E (node_pair r) (of_nat v)) rs)
      (Inr (map (range_pair (digest_of E) (take v D)) rs)) (DbError ` F)"
  proof (rule answers_map_io)
    fix r assume "r \<in> set rs"
    note t = assms(4) [OF this]
    show "answers (tree_at E view held D P M) (get_node_hash_at_version E (node_pair r) (of_nat v))
        (Inr (range_pair (digest_of E) (take v D) r)) (DbError ` F)"
      using answers_range_hash [OF assms(1-3) t] trangeD(2) [OF t] by (simp add: range_hash_take)
  qed
  then show ?thesis by (simp add: map_io_map)
qed

lemma root_at_size_answers:
  assumes env: "env_ok E view held F" and inv: "store_inv (digest_of E) ser D P M"
  shows "answers (tree_at E view held D P M) (root_at_size E w) (spec_root (digest_of E) D P w) (DbError ` F)"
proof -
  note n63 = store_invD(1) [OF inv]
  let ?v = "unat w"
  show ?thesis
  proof (cases "w = 0 \<or> length D < ?v")
    case True
    then show ?thesis
      unfolding root_at_size_def spec_root_def
      by (auto simp: mth.simps [of _ "[]"] committed_less [OF n63] answers_raise
          intro!: answers_ret answers_then [OF answers_sizes(3) [OF env inv]])
  next
    case False
    then have w: "w \<noteq> 0" "?v \<le> length D" "0 < ?v" "?v \<le> 2 ^ 63" "(of_nat ?v :: u64) = w"
      using n63 by (auto simp: unat_gt_0)
    note stored = root_stored_iff [OF inv w(3,4), unfolded w(5)]
    have hash: "answers (tree_at E view held D P M) (get_node_hash_at_version E (root_idx w) w)
        (Inr (mth (digest_of E) (take ?v D))) (DbError ` F)" if "?v \<in> P"
      using answers_range_hash [OF env inv that trange_root [OF w(3,4)]] root_idx_node_of [OF w(3,4)] w(2,5)
      by (simp add: range_hash_def seg_def)
    note answers_then [OF hash answers_ret, of "\<lambda>hash. \<lparr>root_hash = hash, num_leaves = w\<rparr>"]
    with w False stored show ?thesis
      unfolding root_at_size_def spec_root_def
      by (auto simp: committed_less [OF n63] answers_raise intro!:
          answers_then [OF answers_sizes(3) [OF env inv]] answers_then [OF answers_db_get [OF env]])
  qed
qed

lemma prove_inclusion_answers:
  assumes env: "env_ok E view held F" and inv: "store_inv (digest_of E) ser D P M"
  shows "answers (tree_at E view held D P M) (prove_inclusion_at_size E i w) (spec_inclusion (digest_of E) D P i w) (DbError ` F)"
  unfolding prove_inclusion_at_size_def
proof (rule answers_then [OF answers_sizes(3) [OF env inv]])
  note n63 = store_invD(1) [OF inv]
  let ?v = "unat w" and ?i = "unat i"
  consider (large) "length D < ?v" | (bound) "?v \<le> length D" "?v \<le> ?i" | (ok) "?v \<le> length D" "?i < ?v" by linarith
  then show "answers (tree_at E view held D P M)
     (if of_nat (length D) < w then raise (InconsistentState
       (''Requested tree size '' @ dec w @ '' exceeds current committed tree size '' @ dec (of_nat (length D) :: u64)))
     else if w \<le> i then raise (InconsistentState
       (''Index '' @ dec i @ '' out of bounds for requested tree size '' @ dec w))
     else
       and_then (db_get E (versioned_node_key (root_idx w) w)) (\<lambda>r. case r of
         Some _ \<Rightarrow>
           and_then (of_option (indices_for_inclusion_proof w i)) (\<lambda>idxs.
           and_then (map_io (\<lambda>node_idx. get_node_hash_at_version E node_idx w) idxs) (\<lambda>sibling_hashes.
           ret (inclusion_from_digests sibling_hashes)))
       | None \<Rightarrow> raise (InconsistentState (''Tree size '' @ dec w @ '' is not a published STH boundary''))))
     (spec_inclusion (digest_of E) D P i w) (DbError ` F)"
  proof cases
    case large
    then show ?thesis by (simp add: spec_inclusion_def committed_less [OF n63] answers_raise)
  next
    case bound
    then show ?thesis by (simp add: spec_inclusion_def committed_less [OF n63] word_le_nat_alt answers_raise)
  next
    case ok
    then have w: "0 < ?v" "?v \<le> 2 ^ 63" "(of_nat ?v :: u64) = w" "(of_nat ?i :: u64) = i" using n63 by simp_all
    note stored = root_stored_iff [OF inv w(1,2), unfolded w(3)]
    have idx: "indices_for_inclusion_proof w i = Some (map node_pair (path_ranges ?i 0 ?v))"
      using indices_for_inclusion_proof_eq [OF ok(2) w(2)] w(3,4) by simp
    have tr: "trange ?v (fst r) (snd r)" if "r \<in> set (path_ranges ?i 0 ?v)" for r
      by (rule path_ranges_trange [OF trange_root [OF w(1,2)] that])
    have "answers (tree_at E view held D P M) (map_io (\<lambda>idx. get_node_hash_at_version E idx w) (map node_pair (path_ranges ?i 0 ?v)))
        (Inr (path (digest_of E) ?i (take ?v D))) (DbError ` F)" if "?v \<in> P"
      using answers_ranges [OF env inv that tr] ok(1) w(3) by (simp add: path_ranges_hashes)
    with ok stored show ?thesis
      by (auto simp: spec_inclusion_def committed_less [OF n63] word_le_nat_alt idx answers_raise
          intro!: answers_then [OF answers_db_get [OF env]] answers_ret intro: answers_then)
  qed
qed

lemma prove_consistency_answers:
  assumes env: "env_ok E view held F" and inv: "store_inv (digest_of E) ser D P M"
  shows "answers (tree_at E view held D P M) (prove_consistency_between E a b) (spec_consistency (digest_of E) D P a b) (DbError ` F)"
proof (cases "a = 0 \<or> unat b \<le> unat a")
  case True
  then show ?thesis
    by (auto simp: prove_consistency_between_def spec_consistency_def word_less_nat_alt answers_raise answers_ret
        simp flip: word_unat_eq_iff dest: le_antisym)
next
  case False
  note n63 = store_invD(1) [OF inv]
  let ?a = "unat a" and ?b = "unat b"
  from False have ab: "a \<noteq> 0" "0 < ?a" "?a < ?b" "\<not> b < a" "a \<noteq> b"
    by (auto simp: word_less_nat_alt unat_gt_0)
  show ?thesis
  proof (cases "length D < ?b")
    case True
    with ab show ?thesis
      by (simp add: prove_consistency_between_def spec_consistency_def committed_less [OF n63] answers_raise
          answers_then [OF answers_sizes(3) [OF env inv]])
  next
    case F: False
    then have w: "?a \<le> 2 ^ 63" "?b \<le> 2 ^ 63" "?a \<le> ?b" "0 < ?b" using n63 ab by simp_all
    note stored = root_stored_iff [OF inv ab(2) w(1), simplified] root_stored_iff [OF inv w(4,2), simplified]
    have idx: "indices_for_consistency_proof a (b - a) = Some (map node_pair (sub_ranges ?a ?b True 0))"
      using indices_for_consistency_proof_le [OF ab(2) w(3,2)] by simp
    have tr: "trange ?b (fst r) (snd r)" if "r \<in> set (sub_ranges ?a ?b True 0)" for r
      by (rule sub_ranges_trange [of ?b 0 ?b ?a r True]) (use trange_root [OF w(4,2)] ab w that in simp_all)
    have pr: "answers (tree_at E view held D P M) (map_io (\<lambda>idx. get_node_hash_at_version E idx b) (map node_pair (sub_ranges ?a ?b True 0)))
        (Inr (rfc_proof (digest_of E) ?a (take ?b D))) (DbError ` F)" if "?b \<in> P"
      using answers_ranges [OF env inv that tr] F by (simp add: rfc_proof_hashes)
    note pr' = answers_then [OF pr answers_ret, of consistency_from_digests]
    note steps = answers_then [OF answers_sizes(3) [OF env inv]]
      answers_then [OF answers_join [OF answers_db_get [OF env] answers_db_get [OF env]]]
    consider "?a \<notin> P" | "?a \<in> P" "?b \<notin> P" | "?a \<in> P" "?b \<in> P" by blast
    then show ?thesis
    proof cases
      case 1
      with ab F stored(1) show ?thesis
        by (simp add: prove_consistency_between_def spec_consistency_def) (intro steps; simp add: committed_less [OF n63] answers_raise steps)
    next
      case 2
      with ab F stored show ?thesis
        by (simp add: prove_consistency_between_def spec_consistency_def)
          (intro steps; auto simp: committed_less [OF n63] answers_raise intro!: steps)
    next
      case 3
      with ab F stored pr' idx show ?thesis
        by (simp add: prove_consistency_between_def spec_consistency_def)
          (intro steps; auto simp: committed_less [OF n63] answers_raise intro!: steps)
    qed
  qed
qed

end
