(* ===== verification/Slate_Tree_Append.thy ===== *)
theory Slate_Tree_Append
  imports Slate_Tree_Inv
begin

text \<open>
  Appending a batch keeps the invariant. The new leaves are the last ones of the growing tree, so
  each climbs along the right edge of the tree; the theory describes that edge, the set of nodes
  that are prefetched, the hashes computed on the way, and the tiles completed by the batch.
\<close>

section \<open>The right edge of a tree\<close>

lemma edge_gap:
  assumes lo: "trange N lo N" "1 < N - lo" and t: "trange N t N" "lo < t"
  shows "lo + split_point (N - lo) \<le> t"
proof (rule ccontr)
  assume less: "\<not> lo + split_point (N - lo) \<le> t"
  let ?k = "clog2 (N - lo)" and ?r = "clog2 (N - t)"
  have k: "0 < ?k" "2 ^ ?k dvd lo" "split_point (N - lo) = 2 ^ (?k - 1)"
    using lo clog2_pos by (auto simp: trange_def split_point_def)
  have r: "2 ^ ?r dvd t" "N - t \<le> 2 ^ ?r"
    using t clog2_bounds [of "N - t"] by (auto simp: trange_def)
  let ?m = "lo + split_point (N - lo)"
  have mN: "?m < N" "t < ?m" using split_point_bounds(2) [OF lo(2)] less by simp_all
  have dlo: "2 ^ (?k - 1) dvd lo" using k(2) by (rule power_le_dvd) simp
  then have dm: "2 ^ (?k - 1) dvd ?m" unfolding k(3) by simp
  show False
  proof (cases "?k - 1 \<le> ?r")
    case True
    then have "2 ^ (?k - 1) dvd t" using r(1) by (metis power_le_dvd)
    then have "2 ^ (?k - 1) dvd t - lo" using dlo by simp
    then have "2 ^ (?k - 1) \<le> t - lo" using t(2) by (simp add: dvd_imp_le)
    then show False using mN(2) t(2) unfolding k(3) by linarith
  next
    case False
    then have "2 ^ ?r dvd ?m" using dm by (metis power_le_dvd nat_le_linear)
    then have "2 ^ ?r dvd ?m - t" using r(1) by simp
    then have "2 ^ ?r \<le> ?m - t" using mN(2) by (simp add: dvd_imp_le)
    then show False using r(2) mN by linarith
  qed
qed

lemma edge_parent_exists:
  assumes "trange N s N" "0 < s"
  obtains lo where "edge_parent N s lo"
proof -
  have "\<exists>lo'. edge_parent N s lo'" if "trange N lo N" "lo < s" for lo
    using that
  proof (induction "N - lo" arbitrary: lo rule: less_induct)
    case less
    have sN: "s < N" using trangeD(1) [OF assms(1)] .
    then have w: "1 < N - lo" using less.prems(2) by simp
    let ?m = "lo + split_point (N - lo)"
    have "?m \<le> s" by (rule edge_gap [OF less.prems(1) w assms(1) less.prems(2)])
    then consider "?m = s" | "?m < s" by linarith
    then show ?case
    proof cases
      case 1
      with less.prems w show ?thesis by (auto simp: edge_parent_def)
    next
      case 2
      have "N - ?m < N - lo" using split_arith(2) [of N lo] w by simp
      then show ?thesis using less.hyps [OF _ trange_right [OF less.prems(1) w] 2] by simp
    qed
  qed
  moreover have "trange N 0 N" using trangeD [OF assms(1)] by (intro trange_root) simp_all
  ultimately show ?thesis using assms(2) that by blast
qed

lemma level_node_of: "trange N lo hi \<Longrightarrow> level (node_of lo hi) = clog2 (hi - lo)"
  using trange_slot [of N lo hi] by (simp add: node_of_def level_node slot_def)

lemma edge_level:
  assumes "edge_parent N s lo"
  shows "level (node_of s N) < level (node_of lo N)" "level (node_of lo N) \<le> 63"
proof -
  have e: "trange N lo N" "1 < N - lo" "lo + split_point (N - lo) = s" using assms by (simp_all add: edge_parent_def)
  have "trange N s N" using trange_right [OF e(1,2)] e(3) by simp
  moreover have "clog2 (N - s) < clog2 (N - lo)" using split_facts(1,7) [OF e(1,2)] e(3) by simp
  ultimately show "level (node_of s N) < level (node_of lo N)" using level_node_of e(1) by simp
  show "level (node_of lo N) \<le> 63" using level_node_of [OF e(1)] trange_slot [OF e(1)] by (simp add: slot_def)
qed

lemma edge_steps:
  assumes "edge_parent N s lo"
  shows "parent (node_of s N) (of_nat N) = Some (node_of lo N)"
    "sibling (node_of s N) (of_nat N) = Some (node_of lo s)"
    "is_left (node_of s N) (of_nat N) = Some False" "trange N lo s" "trange N lo N" "trange N s N" "lo < s"
proof -
  have e: "trange N lo N" "1 < N - lo" "lo + split_point (N - lo) = s" using assms by (simp_all add: edge_parent_def)
  show "parent (node_of s N) (of_nat N) = Some (node_of lo N)" "sibling (node_of s N) (of_nat N) = Some (node_of lo s)"
    "is_left (node_of s N) (of_nat N) = Some False" "trange N lo s" "trange N lo N" "trange N s N" "lo < s"
    using parent_right [OF e(1,2)] sibling_right [OF e(1,2)] is_left_right [OF e(1,2)] trange_left [OF e(1,2)]
      trange_right [OF e(1,2)] e split_point_bounds(1) [OF e(2)] by simp_all
qed

text \<open>The loops that climb from the last leaf to the root end, and their invariant moves along the edge.\<close>

lemma triple_edge_climb:
  assumes N: "0 < N" "N \<le> 2 ^ 63"
    and step: "\<And>s lo x. edge_parent N s lo \<Longrightarrow> cur x = node_of s N \<Longrightarrow>
      triple (I s x) (f x) (\<lambda>x' \<sigma>. cur x' = node_of lo N \<and> I lo x' \<sigma>) R"
    and x0: "cur x0 = node_of (N - 1) N"
  shows "triple (I (N - 1) x0) (while_io climb_bound (\<lambda>x. cur x \<noteq> root_idx (of_nat N)) f x0) (I 0) R"
proof -
  let ?J = "\<lambda>x \<sigma>. \<exists>s. trange N s N \<and> cur x = node_of s N \<and> I s x \<sigma>"
  have root: "node_of s N = root_idx (of_nat N) \<longleftrightarrow> s = 0" if "trange N s N" for s
    using node_of_root_iff [OF that] by simp
  have J: "triple (?J x0) (while_io climb_bound (\<lambda>x. cur x \<noteq> root_idx (of_nat N)) f x0) (I 0) R"
  proof (rule triple_while_io)
    fix x assume nr: "cur x \<noteq> root_idx (of_nat N)"
    show "triple (?J x) (f x) (\<lambda>x' \<sigma>. ?J x' \<sigma> \<and> 64 - level (cur x') < 64 - level (cur x)) R"
    proof (rule tripleI)
      fix \<sigma> assume "?J x \<sigma>"
      then obtain s where s: "trange N s N" "cur x = node_of s N" "I s x \<sigma>" by blast
      then have "0 < s" using nr root [OF s(1)] by auto
      then obtain lo where e: "edge_parent N s lo" by (rule edge_parent_exists [OF s(1)])
      note lv = edge_level [OF e] and st = edge_steps(5) [OF e]
      have dec: "64 - level (node_of lo N) < 64 - level (node_of s N)" using lv by linarith
      from tripleD [OF step [OF e s(2)] s(3)] show "case f x \<sigma> of
          (Inr x', \<sigma>') \<Rightarrow> ?J x' \<sigma>' \<and> 64 - level (cur x') < 64 - level (cur x)
        | (Inl (Err e), \<sigma>') \<Rightarrow> R e \<sigma>' | (Inl Panic, \<sigma>') \<Rightarrow> False"
        using dec s(2) st by force
    qed
  next
    fix x \<sigma> assume "?J x \<sigma>" "\<not> cur x \<noteq> root_idx (of_nat N)"
    then show "I 0 x \<sigma>" using root by force
  qed (simp add: climb_bound_def)
  have "trange N (N - 1) N" using trange_leaf [of "N - 1" N] N by simp
  with x0 show ?thesis by (intro triple_weaken_pre [OF J]) blast
qed

section \<open>Prefetching\<close>

lemma edge_parent_unique:
  assumes "edge_parent N s t" "edge_parent N hi lo" "t \<le> lo" "lo < s"
  shows "lo = t \<and> hi = s"
proof -
  have "lo = t"
  proof (rule ccontr)
    assume "lo \<noteq> t"
    then have "t < lo" using assms(3) by simp
    then have "s \<le> lo" using edge_gap [of N t lo] assms(1,2) by (auto simp: edge_parent_def)
    then show False using assms(4) by simp
  qed
  with assms(1,2) show ?thesis by (simp add: edge_parent_def)
qed

definition node_keys :: "(u64 \<times> 'v) list \<Rightarrow> bool" where
  "node_keys m \<longleftrightarrow> btree m \<and> (\<forall>idx \<in> fst ` set m. \<exists>k j. slot k j \<and> idx = node k j)"

lemma node_keys_Nil [simp]: "node_keys []"
  by (simp add: node_keys_def)

lemma node_keys_insert: "node_keys m \<Longrightarrow> slot k j \<Longrightarrow> node_keys (btree_insert (node k j) v m)"
  unfolding node_keys_def by (auto simp: set_btree_insert)

lemma node_keys_insert_of: "node_keys m \<Longrightarrow> trange n lo hi \<Longrightarrow> node_keys (btree_insert (node_of lo hi) v m)"
  unfolding node_of_def by (rule node_keys_insert [OF _ trange_slot])

text \<open>The siblings below the old size that the climb in the tree of \<open>N\<close> leaves needs.\<close>

definition prefetched_from :: "nat \<Rightarrow> nat \<Rightarrow> nat \<Rightarrow> (u64 \<times> unit) list \<Rightarrow> bool" where
  "prefetched_from s N t nodes \<longleftrightarrow>
     (\<forall>lo hi. edge_parent N hi lo \<longrightarrow> t \<le> lo \<longrightarrow> node_of lo hi < of_nat s * 2 \<longrightarrow> node_of lo hi \<in> fst ` set nodes)"

lemma prefetched_from_mono: "prefetched_from s N t nodes \<Longrightarrow> fst ` set nodes \<subseteq> fst ` set nodes' \<Longrightarrow> prefetched_from s N t nodes'"
  unfolding prefetched_from_def by blast

lemma triple_prefetch_climb:
  assumes N: "0 < N" "N \<le> 2 ^ 63" and keys: "node_keys nodes0"
  shows "triple T (prefetch_climb (of_nat s) (of_nat N) (nodes0, node_of (N - 1) N))
    (\<lambda>x \<sigma>. T \<sigma> \<and> node_keys (fst x) \<and> fst ` set nodes0 \<subseteq> fst ` set (fst x) \<and> prefetched_from s N 0 (fst x)) R"
proof -
  let ?I = "\<lambda>t x \<sigma>. T \<sigma> \<and> node_keys (fst x) \<and> fst ` set nodes0 \<subseteq> fst ` set (fst x) \<and> prefetched_from s N t (fst x)"
  let ?f = "\<lambda>(nodes, cur_idx).
       and_then (of_option (sibling cur_idx (of_nat N))) (\<lambda>sibling_idx.
       let nodes' = (if sibling_idx < of_nat s * 2 then btree_insert sibling_idx () nodes else nodes) in
       and_then (of_option (parent cur_idx (of_nat N))) (\<lambda>cur_idx'.
       ret (nodes', cur_idx')))"
  have climb: "triple (?I (N - 1) (nodes0, node_of (N - 1) N))
      (while_io climb_bound (\<lambda>x. snd x \<noteq> root_idx (of_nat N)) ?f (nodes0, node_of (N - 1) N)) (?I 0) R"
  proof (rule triple_edge_climb [OF N, where cur = snd])
    fix t lo and x :: "(u64 \<times> unit) list \<times> u64" assume e: "edge_parent N t lo" and c: "snd x = node_of t N"
    note st = edge_steps [OF e]
    obtain nodes where x: "x = (nodes, node_of t N)" using c by (cases x) simp
    let ?nodes = "if node_of lo t < of_nat s * 2 then btree_insert (node_of lo t) () nodes else nodes"
    have "prefetched_from s N lo ?nodes" if p: "prefetched_from s N t nodes"
      unfolding prefetched_from_def
    proof (intro allI impI)
      fix lo' hi' assume a: "edge_parent N hi' lo'" "lo \<le> lo'" "node_of lo' hi' < of_nat s * 2"
      show "node_of lo' hi' \<in> fst ` set ?nodes"
      proof (cases "t \<le> lo'")
        case True
        with p a have "node_of lo' hi' \<in> fst ` set nodes" unfolding prefetched_from_def by blast
        then show ?thesis by (simp add: set_btree_insert)
      next
        case False
        then have "lo' = lo \<and> hi' = t" using edge_parent_unique [OF e a(1,2)] by simp
        with a(3) show ?thesis by (simp add: set_btree_insert)
      qed
    qed
    moreover have "fst ` set nodes \<subseteq> fst ` set ?nodes" by (simp add: set_btree_insert subset_insertI)
    moreover have "node_keys nodes \<Longrightarrow> node_keys ?nodes" using node_keys_insert_of [OF _ st(4), of nodes "()"] by simp
    ultimately have "triple (?I t x) (ret (?nodes, node_of lo N)) (\<lambda>x' \<sigma>. snd x' = node_of lo N \<and> ?I lo x' \<sigma>) R"
      unfolding x fst_conv snd_conv by (intro triple_ret) (unfold fst_conv snd_conv, blast)
    then show "triple (?I t x) (?f x) (\<lambda>x' \<sigma>. snd x' = node_of lo N \<and> ?I lo x' \<sigma>) R"
      by (simp add: x st)
  qed simp
  have cond: "(\<lambda>(nodes :: (u64 \<times> unit) list, cur_idx). cur_idx \<noteq> r) = (\<lambda>x. snd x \<noteq> r)" for r :: u64
    by auto
  show ?thesis
    unfolding prefetch_climb_def cond
    by (rule triple_weaken_pre [OF climb]) (use keys in \<open>auto simp: prefetched_from_def edge_parent_def\<close>)
qed

lemma triple_nodes_to_prefetch:
  assumes "s + n \<le> 2 ^ 63"
  shows "triple T (nodes_to_prefetch (of_nat s) n)
    (\<lambda>nodes \<sigma>. T \<sigma> \<and> node_keys nodes \<and> (\<forall>p. s \<le> p \<longrightarrow> p < s + n \<longrightarrow> prefetched_from s (Suc p) 0 nodes)) R"
proof -
  let ?I = "\<lambda>i nodes \<sigma>. T \<sigma> \<and> node_keys nodes \<and> (\<forall>p. s \<le> p \<longrightarrow> p < s + i \<longrightarrow> prefetched_from s (Suc p) 0 nodes)"
  let ?f = "\<lambda>i nodes. let leaf_position = of_nat s + of_nat i in
       and_then (of_option (LeafIdx_new leaf_position)) (\<lambda>new_leaf_idx.
       and_then (prefetch_climb (of_nat s) (leaf_position + 1) (nodes, internal_from_leaf new_leaf_idx)) (\<lambda>st.
       ret (fst st)))"
  have "triple (?I 0 []) (fold_io ?f [0..<n] []) (?I (length [0..<n])) R"
  proof (rule triple_fold_io)
    fix i nodes assume "i < length [0..<n]"
    then have i: "i < n" "[0..<n] ! i = i" by simp_all
    then have p: "s + i < 2 ^ 63" "0 < Suc (s + i)" "Suc (s + i) \<le> 2 ^ 63" using assms by simp_all
    have leaf: "LeafIdx_new (of_nat s + of_nat i) = Some (of_nat (s + i))" "(of_nat s :: u64) + of_nat i + 1 = of_nat (Suc (s + i))"
      using LeafIdx_new_of_nat [OF p(1)] by (simp_all add: algebra_simps)
    have idx: "internal_from_leaf (of_nat (s + i)) = node_of (Suc (s + i) - 1) (Suc (s + i))"
      using node_of_leaf [of "s + i"] by (simp add: internal_from_leaf_def)
    show "triple (?I i nodes) (?f ([0..<n] ! i) nodes) (?I (Suc i)) R"
    proof (cases "node_keys nodes")
      case True
      note climb = triple_prefetch_climb [OF p(2,3) True, of "?I i nodes" s]
      show ?thesis
        unfolding i(2) Let_def leaf pure_ops and_then_ret idx
        by (rule triple_and_then [OF climb], rule triple_ret)
          (auto simp: less_Suc_eq intro: prefetched_from_mono)
    qed (simp add: triple_def)
  qed
  then show ?thesis unfolding nodes_to_prefetch_def by (rule triple_conseq) auto
qed

section \<open>Computed hashes\<close>

text \<open>
  After leaf \<open>n - 1\<close> of a batch that started at size \<open>s\<close>: exactly the nodes of the tree of \<open>n\<close>
  leaves that reach past \<open>s\<close> have been computed, and each with its hash in that tree.
\<close>

definition comp_at :: "digest_fun \<Rightarrow> bytes list \<Rightarrow> nat \<Rightarrow> nat \<Rightarrow> (u64 \<times> bytes) list \<Rightarrow> bool" where
  "comp_at H D s n computed \<longleftrightarrow> node_keys computed \<and>
     (\<forall>k j. slot k j \<longrightarrow> map_of computed (node k j)
        = (if in_tree n k j \<and> s < hi_of n k j then Some (node_hash H D n k j) else None))"

lemma comp_at_lookup:
  assumes "comp_at H D s n computed" "slot k j"
  shows "map_of computed (node k j) = (if in_tree n k j \<and> s < hi_of n k j then Some (node_hash H D n k j) else None)"
  using assms unfolding comp_at_def by blast

definition pre_ok :: "digest_fun \<Rightarrow> bytes list \<Rightarrow> nat \<Rightarrow> nat \<Rightarrow> (u64 \<times> bytes) list \<Rightarrow> bool" where
  "pre_ok H D s N pre \<longleftrightarrow>
     (\<forall>lo hi. edge_parent N hi lo \<longrightarrow> hi \<le> s \<longrightarrow> map_of pre (node_of lo hi) = Some (range_hash H D lo hi))"

lemma comp_at_start: "comp_at H D s s []"
proof -
  have "\<not> s < hi_of s k j" for k j using hi_of_le [of s k j] by simp
  then show ?thesis by (simp add: comp_at_def)
qed

text \<open>While leaf \<open>N - 1\<close> climbs and stands at the edge node that starts at \<open>t\<close>.\<close>

definition comp_climb :: "digest_fun \<Rightarrow> bytes list \<Rightarrow> nat \<Rightarrow> (u64 \<times> bytes) list \<Rightarrow> nat \<Rightarrow> (u64 \<times> bytes) list \<Rightarrow> bool" where
  "comp_climb H D N computed t cm \<longleftrightarrow> node_keys cm \<and>
     (\<forall>k j. slot k j \<longrightarrow> map_of cm (node k j)
        = (if in_tree N k j \<and> hi_of N k j = N \<and> t \<le> j * 2 ^ k then Some (node_hash H D N k j)
           else map_of computed (node k j)))"

lemma comp_climb_insert:
  assumes "N \<le> 2 ^ 63" "trange N lo N"
    and "comp_climb H D N computed t cm \<or> (cm = computed \<and> node_keys cm \<and> t = N)"
    and "\<And>u. trange N u N \<Longrightarrow> lo \<le> u \<Longrightarrow> u = lo \<or> t \<le> u" "lo < t"
  shows "comp_climb H D N computed lo (btree_insert (node_of lo N) (range_hash H D lo N) cm)"
proof -
  obtain k0 j0 where n: "node_of lo N = node k0 j0" "in_tree N k0 j0" "slot k0 j0" "j0 * 2 ^ k0 = lo" "hi_of N k0 j0 = N"
    by (rule trange_node [OF assms(2)])
  have keys: "node_keys cm" using assms(3) by (auto simp: comp_climb_def)
  show ?thesis
    unfolding comp_climb_def
  proof (intro conjI allI impI)
    show "node_keys (btree_insert (node_of lo N) (range_hash H D lo N) cm)"
      by (rule node_keys_insert_of [OF keys assms(2)])
    fix k j assume sl: "slot k j"
    show "map_of (btree_insert (node_of lo N) (range_hash H D lo N) cm) (node k j)
        = (if in_tree N k j \<and> hi_of N k j = N \<and> lo \<le> j * 2 ^ k then Some (node_hash H D N k j)
           else map_of computed (node k j))"
    proof (cases "k = k0 \<and> j = j0")
      case True
      with n show ?thesis by (simp add: node_hash_def)
    next
      case False
      then have ne: "node k j \<noteq> node_of lo N" using node_inject [OF sl n(3)] n(1) by auto
      have "u = lo \<longrightarrow> False" if "in_tree N k j" "hi_of N k j = N" "u = j * 2 ^ k" for u
        using in_tree_trange(2) [OF that(1) assms(1)] that ne by auto
      moreover have "j * 2 ^ k = lo \<or> t \<le> j * 2 ^ k" if "in_tree N k j" "hi_of N k j = N" "lo \<le> j * 2 ^ k"
        using assms(4) [of "j * 2 ^ k"] in_tree_trange(1) [OF that(1) assms(1)] that by simp
      ultimately have iff: "in_tree N k j \<and> hi_of N k j = N \<and> lo \<le> j * 2 ^ k \<longleftrightarrow> in_tree N k j \<and> hi_of N k j = N \<and> t \<le> j * 2 ^ k"
        using assms(5) by auto
      have "\<not> N \<le> j * 2 ^ k" if "in_tree N k j" using in_tree_less_hi [OF that] hi_of_le [of N k j] by simp
      then have "map_of cm (node k j) = (if in_tree N k j \<and> hi_of N k j = N \<and> t \<le> j * 2 ^ k then Some (node_hash H D N k j)
           else map_of computed (node k j))"
        using assms(3) sl by (auto simp: comp_climb_def)
      with ne iff show ?thesis by simp
    qed
  qed
qed

lemma comp_climb_leaf:
  assumes "N \<le> 2 ^ 63" "0 < N" "node_keys computed" "N \<le> length D"
  shows "comp_climb H D N computed (N - 1) (btree_insert (node_of (N - 1) N) (leaf_hash H (D ! (N - 1))) computed)"
proof -
  have t: "trange N (N - 1) N" using trange_leaf [of "N - 1" N] assms by simp
  have "comp_climb H D N computed (N - 1) (btree_insert (node_of (N - 1) N) (range_hash H D (N - 1) N) computed)"
    by (rule comp_climb_insert [OF assms(1) t]) (use assms trangeD(1) in force)+
  then show ?thesis using range_hash_leaf [of "N - 1" D H] assms by simp
qed

lemma comp_climb_root:
  assumes "comp_climb H D (Suc p) computed 0 cm" "comp_at H D s p computed" "s \<le> p"
  shows "comp_at H D s (Suc p) cm"
proof -
  have "map_of cm (node k j) = (if in_tree (Suc p) k j \<and> s < hi_of (Suc p) k j then Some (node_hash H D (Suc p) k j) else None)"
    if sl: "slot k j" for k j
  proof (cases "in_tree (Suc p) k j \<and> hi_of (Suc p) k j = Suc p")
    case True
    with assms sl show ?thesis by (simp add: comp_climb_def)
  next
    case False
    then have c: "map_of cm (node k j) = (if in_tree p k j \<and> s < hi_of p k j then Some (node_hash H D p k j) else None)"
      using assms sl by (auto simp: comp_climb_def comp_at_def)
    show ?thesis
    proof (cases "in_tree (Suc p) k j")
      case True
      then have le: "hi_of (Suc p) k j \<le> p" using False hi_of_le [of "Suc p" k j] by simp
      then have "hi_of p k j = hi_of (Suc p) k j" by (intro hi_of_full') simp_all
      moreover have "in_tree p k j" by (rule in_tree_back [OF True le])
      ultimately show ?thesis using c True by (simp add: node_hash_def)
    next
      case F: False
      then show ?thesis using c in_tree_mono [of p k j "Suc p"] by auto
    qed
  qed
  then show ?thesis using assms(1) by (simp add: comp_at_def comp_climb_def)
qed

text \<open>The hash used for a sibling: computed in this batch or prefetched, and then right.\<close>

lemma sibling_hash_for_eq:
  assumes "comp_climb H D (Suc p) computed t cm" "comp_at H D s p computed" "pre_ok H D s (Suc p) pre"
    and "edge_parent (Suc p) t lo" "Suc p \<le> 2 ^ 63"
  shows "sibling_hash_for E (of_nat s) pre (of_nat p) cm (node_of lo t) = ret (range_hash H D lo t)"
proof -
  note st = edge_steps [OF assms(4)]
  obtain k j where n: "node_of lo t = node k j" "in_tree (Suc p) k j" "slot k j" "j * 2 ^ k = lo" "hi_of (Suc p) k j = t"
    by (rule trange_node [OF st(4)])
  have tp: "t \<le> p" using trangeD(1) [OF st(6)] by simp
  then have hp: "in_tree p k j" "hi_of p k j = t"
    using in_tree_back [OF n(2), of p] hi_of_full' [of "Suc p" k j p] n(5) by simp_all
  then have c: "map_of cm (node k j) = (if s < t then Some (range_hash H D lo t) else None)"
    using assms(1,2) n tp by (auto simp: comp_climb_def comp_at_def node_hash_def)
  show ?thesis
  proof (cases "s < t")
    case True
    with c n(1) show ?thesis by (simp add: sibling_hash_for_def)
  next
    case False
    have p63: "p < 2 ^ 63" "0 < p" using assms(5) hp(1) by (auto simp: in_tree_def)
    have u: "unat (of_nat p * 2 :: u64) = p * 2"
      using unat_of_nat_u64 [of "p * 2"] p63 by simp
    have "unat (node k j) < p * 2" using hp(1) unat_node [OF n(3)] by (simp add: in_tree_def)
    then have "\<not> of_nat p * 2 \<le> node k j" using u by (simp add: word_le_nat_alt)
    moreover have "map_of pre (node k j) = Some (range_hash H D lo t)"
      using assms(3,4) False unfolding pre_ok_def n(1) [symmetric] by simp
    ultimately show ?thesis using c False n(1) by (simp add: sibling_hash_for_def)
  qed
qed

lemma triple_push_climb:
  assumes p: "Suc p \<le> 2 ^ 63" "s \<le> p" "p < length D"
    and comp: "comp_at (digest_of E) D s p computed" and pre: "pre_ok (digest_of E) D s (Suc p) pre"
  shows "triple T (push_climb E (of_nat s) pre (of_nat p)
      (btree_insert (node_of p (Suc p)) (leaf_hash (digest_of E) (D ! p)) computed, node_of p (Suc p), leaf_hash (digest_of E) (D ! p)))
    (\<lambda>x \<sigma>. T \<sigma> \<and> comp_at (digest_of E) D s (Suc p) (fst x)) R"
proof -
  let ?H = "digest_of E" and ?N = "Suc p"
  let ?x0 = "(btree_insert (node_of p ?N) (leaf_hash ?H (D ! p)) computed, node_of p ?N, leaf_hash ?H (D ! p))"
  let ?I = "\<lambda>t x \<sigma>. T \<sigma> \<and> comp_climb ?H D ?N computed t (fst x) \<and> snd (snd x) = range_hash ?H D t ?N"
  let ?f = "\<lambda>(computed_hashes, cur_idx, cur_hash).
          and_then (of_option (parent cur_idx (of_nat ?N))) (\<lambda>parent_idx.
          and_then (of_option (sibling cur_idx (of_nat ?N))) (\<lambda>sibling_idx.
          and_then (sibling_hash_for E (of_nat s) pre (of_nat p) computed_hashes sibling_idx) (\<lambda>sibling_hash.
          and_then (of_option (is_left cur_idx (of_nat ?N))) (\<lambda>left.
          let parent_h = combine ?H left cur_hash sibling_hash in
          ret (btree_insert parent_idx parent_h computed_hashes, parent_idx, parent_h)))))"
  have climb: "triple (?I (?N - 1) ?x0) (while_io climb_bound (\<lambda>x. fst (snd x) \<noteq> root_idx (of_nat ?N)) ?f ?x0) (?I 0) R"
  proof (rule triple_edge_climb [where cur = "\<lambda>x. fst (snd x)"])
    fix t lo and x :: "(u64 \<times> bytes) list \<times> u64 \<times> bytes"
    assume e: "edge_parent ?N t lo" and c: "fst (snd x) = node_of t ?N"
    note st = edge_steps [OF e]
    obtain cm h where x: "x = (cm, node_of t ?N, h)" using c by (cases x) auto
    let ?h = "range_hash ?H D lo ?N"
    have "triple (?I t x) (?f x) (\<lambda>x' \<sigma>. fst (snd x') = node_of lo ?N \<and> ?I lo x' \<sigma>) R"
      if cc: "comp_climb ?H D ?N computed t cm" "h = range_hash ?H D t ?N"
    proof -
      note sib = sibling_hash_for_eq [OF cc(1) comp pre e p(1), of E]
      have "1 < ?N - lo" "lo + split_point (?N - lo) = t" using e by (simp_all add: edge_parent_def)
      then have par: "combine ?H False h (range_hash ?H D lo t) = ?h"
        using range_hash_split [of ?N lo D ?H] p(3) cc(2) by (simp add: combine_def)
      have "comp_climb ?H D ?N computed lo (btree_insert (node_of lo ?N) ?h cm)"
      proof (rule comp_climb_insert [OF p(1) st(5) disjI1 [OF cc(1)] _ st(7)])
        show "u = lo \<or> t \<le> u" if "trange ?N u ?N" "lo \<le> u" for u
          using edge_gap [of ?N lo u] e that by (cases "u = lo") (auto simp: edge_parent_def)
      qed
      then have "triple (?I t x) (ret (btree_insert (node_of lo ?N) ?h cm, node_of lo ?N, ?h))
          (\<lambda>x' \<sigma>. fst (snd x') = node_of lo ?N \<and> ?I lo x' \<sigma>) R"
        by (intro triple_ret) simp
      then show ?thesis by (simp add: x st sib par Let_def del: of_nat_Suc)
    qed
    note step = this
    show "triple (?I t x) (?f x) (\<lambda>x' \<sigma>. fst (snd x') = node_of lo ?N \<and> ?I lo x' \<sigma>) R"
    proof (rule triple_pre)
      show "triple (?I t x) (?f x) (\<lambda>x' \<sigma>. fst (snd x') = node_of lo ?N \<and> ?I lo x' \<sigma>) R"
        if "comp_climb ?H D ?N computed t cm \<and> h = range_hash ?H D t ?N" using step that by blast
    qed (simp add: x)
  qed (use p in simp_all)
  have init: "?I (?N - 1) ?x0 \<sigma>" if "T \<sigma>" for \<sigma>
    using that comp_climb_leaf [of ?N computed D ?H] p comp range_hash_leaf [of p D ?H]
    by (simp add: comp_at_def)
  have "triple T (while_io climb_bound (\<lambda>x. fst (snd x) \<noteq> root_idx (of_nat ?N)) ?f ?x0)
      (\<lambda>x \<sigma>. T \<sigma> \<and> comp_at ?H D s ?N (fst x)) R"
    by (rule triple_conseq [OF climb], erule init) (use comp_climb_root [OF _ comp p(2)] in auto)
  moreover have "(\<lambda>(cm :: (u64 \<times> bytes) list, cur_idx, h :: bytes). cur_idx \<noteq> r) = (\<lambda>x. fst (snd x) \<noteq> r)" for r :: u64
    by auto
  moreover have "(of_nat p :: u64) + 1 = of_nat ?N" by simp
  ultimately show ?thesis by (simp only: push_climb_def Let_def)
qed

definition leaf_puts :: "(bytes \<Rightarrow> string + bytes) \<Rightarrow> nat \<Rightarrow> bytes list \<Rightarrow> WriteBatch" where
  "leaf_puts ser s items = map (\<lambda>i. (leaf_key (of_nat (s + i)), projr (ser (items ! i)))) [0..<length items]"

lemma triple_push_items:
  assumes len: "s = length D" "length D + length items \<le> 2 ^ 63"
    and pre: "\<And>p. s \<le> p \<Longrightarrow> p < s + length items \<Longrightarrow> pre_ok (digest_of E) (D @ items) s (Suc p) pre"
  shows "triple T (fold_io (push_item E (of_nat s) pre) items ([], of_nat s, []))
    (\<lambda>st \<sigma>. T \<sigma> \<and> (\<forall>x \<in> set items. \<exists>b. to_stdvec E x = Inr b) \<and>
       (\<exists>computed. st = (leaf_puts (to_stdvec E) s items, of_nat (s + length items), computed) \<and>
          comp_at (digest_of E) (D @ items) s (s + length items) computed))
    (\<lambda>e \<sigma>. T \<sigma> \<and> (\<exists>x \<in> set items. \<exists>m. to_stdvec E x = Inl m \<and> e = EncodingError m))"
proof -
  let ?D = "D @ items" and ?H = "digest_of E" and ?ser = "to_stdvec E"
  let ?R = "\<lambda>e \<sigma>. T \<sigma> \<and> (\<exists>x \<in> set items. \<exists>m. to_stdvec E x = Inl m \<and> e = EncodingError m)"
  let ?I = "\<lambda>i st \<sigma>. T \<sigma> \<and> (\<forall>x \<in> set (take i items). \<exists>b. to_stdvec E x = Inr b) \<and>
       (\<exists>computed. st = (take i (leaf_puts ?ser s items), of_nat (s + i) :: u64, computed) \<and> comp_at ?H ?D s (s + i) computed)"
  have "triple (?I 0 ([], of_nat s, [])) (fold_io (push_item E (of_nat s) pre) items ([], of_nat s, [])) (?I (length items)) ?R"
  proof (rule triple_fold_io)
    fix i st assume i: "i < length items"
    let ?x = "items ! i" and ?p = "s + i"
    have x: "?D ! ?p = ?x" "?x \<in> set items" using i len by (simp_all add: nth_append)
    have p: "Suc ?p \<le> 2 ^ 63" "s \<le> ?p" "?p < length ?D" "?p < 2 ^ 63" using i len by simp_all
    have leaf: "LeafIdx_new (of_nat ?p) = Some (of_nat ?p)" "internal_from_leaf (of_nat ?p) = node_of ?p (Suc ?p)"
      using LeafIdx_new_of_nat [OF p(4)] by (simp_all add: node_of_leaf internal_from_leaf_def)
    have tk: "take (Suc i) (leaf_puts ?ser s items) = take i (leaf_puts ?ser s items) @ [(leaf_key (of_nat ?p), projr (?ser ?x))]"
      using i by (simp add: leaf_puts_def take_Suc_conv_app_nth)
    have "triple (?I i st) (push_item E (of_nat s) pre ?x st) (?I (Suc i)) ?R"
      if st: "st = (take i (leaf_puts ?ser s items), of_nat ?p, computed)" and comp: "comp_at ?H ?D s ?p computed" for computed
    proof (cases "?ser ?x")
      case (Inl m)
      with x(2) show ?thesis by (auto simp: push_item_def st intro!: triple_raise)
    next
      case (Inr b)
      note climb = triple_push_climb [OF p(1-3) comp pre [OF p(2)], of "?I i st", unfolded x(1)]
      show ?thesis
        unfolding push_item_def st prod.case Inr pure_ops map_err_pure and_then_ret leaf Let_def
        by (rule triple_and_then [OF climb [unfolded st]], use i in simp, rule triple_ret)
          (use Inr i tk in \<open>auto simp: take_Suc_conv_app_nth algebra_simps\<close>)
    qed
    note step = this
    show "triple (?I i st) (push_item E (of_nat s) pre ?x st) (?I (Suc i)) ?R"
    proof (rule triple_pre)
      show "triple (?I i st) (push_item E (of_nat s) pre ?x st) (?I (Suc i)) ?R"
        if "\<exists>computed. st = (take i (leaf_puts ?ser s items), of_nat ?p, computed) \<and> comp_at ?H ?D s ?p computed"
        using step that by blast
    qed simp
  qed
  then show ?thesis by (rule triple_conseq) (auto simp: leaf_puts_def comp_at_start)
qed

end
