(* ===== verification/Slate_Tree_Tiles.thy ===== *)
theory Slate_Tree_Tiles
  imports Slate_Tree_Append
begin

text \<open>
  The tiles precomputed by a batch: for every level up to 5 exactly the tiles that become full
  are written, each with the 256 hashes of its subtrees.
\<close>

section \<open>Arithmetic\<close>

lemma of_nat_u64_div: "a < 2 ^ 64 \<Longrightarrow> b < 2 ^ 64 \<Longrightarrow> (of_nat a :: u64) div of_nat b = of_nat (a div b)"
proof -
  assume ab: "a < 2 ^ 64" "b < 2 ^ 64"
  then have "a div b < 2 ^ 64" using div_le_dividend [of a b] by linarith
  with ab show ?thesis unfolding word_unat_eq_iff unat_div by (simp only: unat_of_nat_u64)
qed

lemma of_nat_u64_mod: "a < 2 ^ 64 \<Longrightarrow> b < 2 ^ 64 \<Longrightarrow> (of_nat a :: u64) mod of_nat b = of_nat (a mod b)"
proof -
  assume ab: "a < 2 ^ 64" "b < 2 ^ 64"
  then have "a mod b < 2 ^ 64" using mod_less_eq_dividend [of a b] by linarith
  with ab show ?thesis unfolding word_unat_eq_iff unat_mod by (simp only: unat_of_nat_u64)
qed

lemma of_nat_u64_min: "a < 2 ^ 64 \<Longrightarrow> b < 2 ^ 64 \<Longrightarrow> min (of_nat a :: u64) (of_nat b) = of_nat (min a b)"
  by (simp add: min_def of_nat_u64_le_iff)

text \<open>The size of the subtrees of a level, as a power of two and as a machine word.\<close>

definition width :: "nat \<Rightarrow> nat" where
  "width l = 256 ^ l"

lemma width_pow2: "width l = 2 ^ (8 * l)"
  by (simp add: width_def power_mult)

lemma width_Suc: "width (Suc l) = 256 * width l"
  by (simp add: width_def)

lemma width_bound:
  assumes "l \<le> 5"
  shows "0 < width l" "width l \<le> 2 ^ 40"
proof -
  show "0 < width l" by (simp add: width_def)
  have "width l \<le> 256 ^ 5" unfolding width_def using assms by (intro power_increasing) simp_all
  then show "width l \<le> 2 ^ 40" by simp
qed

lemma width_word: "(256 :: u64) ^ l = of_nat (width l)"
  by (simp add: width_def)

lemma tile_full_width: "tile_full n l t \<longleftrightarrow> Suc t * (256 * width l) \<le> n"
  by (simp add: tile_full_def width_def)

text \<open>Tile \<open>t\<close> of level \<open>l\<close> in a tree of \<open>V\<close> leaves, for the tiles that are iterated over.\<close>

definition tile_range :: "nat \<Rightarrow> nat \<Rightarrow> nat \<Rightarrow> bool" where
  "tile_range V l t \<longleftrightarrow> 0 < V \<and> V \<le> 2 ^ 63 \<and> l \<le> 5 \<and> t \<le> (V - 1) div (256 * width l)"

lemma tile_range_bound:
  assumes "tile_range V l t"
  shows "t * (256 * width l) < V" "Suc t * (256 * width l) < 2 ^ 64" "Suc t * 256 < 2 ^ 64"
proof -
  have a: "0 < V" "V \<le> 2 ^ 63" "l \<le> 5" "t \<le> (V - 1) div (256 * width l)" using assms by (simp_all add: tile_range_def)
  have w: "0 < width l" "width l \<le> 2 ^ 40" using width_bound [OF a(3)] by simp_all
  have "t * (256 * width l) \<le> (V - 1) div (256 * width l) * (256 * width l)" using a(4) by simp
  also have "\<dots> \<le> V - 1" by simp
  finally show t: "t * (256 * width l) < V" using a(1) by linarith
  have "Suc t * (256 * width l) = t * (256 * width l) + 256 * width l" by simp
  also have "\<dots> < 2 ^ 63 + 256 * 2 ^ 40" using t a(2) w(2) by linarith
  also have "\<dots> < (2 ^ 64 :: nat)" by simp
  finally show full: "Suc t * (256 * width l) < 2 ^ 64" .
  have "Suc t * 256 \<le> Suc t * (256 * width l)" using w(1) by (intro mult_le_mono2) simp
  then show "Suc t * 256 < 2 ^ 64" using full by linarith
qed

lemma is_tile_full_eq:
  assumes "unat lvl = l" "Suc t * (256 * width l) < 2 ^ 64" "n < 2 ^ 64"
  shows "is_tile_full_at_size lvl (of_nat t) (of_nat n) \<longleftrightarrow> tile_full n l t"
proof -
  have "((of_nat t :: u64) * 256 + 256) * 256 ^ unat lvl = of_nat (Suc t * (256 * width l))"
    unfolding assms(1) width_word by (simp add: algebra_simps)
  then show ?thesis
    unfolding is_tile_full_at_size_def Let_def tile_full_width
    using of_nat_u64_le_iff [OF assms(2,3)] by simp
qed

section \<open>Which tiles are processed\<close>

definition positions :: "nat \<Rightarrow> nat \<Rightarrow> nat" where
  "positions V l = V div width l + (if 0 < V mod width l then 1 else 0)"

lemma positions_less: "q < positions V l \<longleftrightarrow> q * width l < V"
proof -
  have w: "0 < width l" by (simp add: width_def)
  have e: "V = V div width l * width l + V mod width l" by simp
  show ?thesis
  proof
    assume "q < positions V l"
    then consider "q < V div width l" | "q = V div width l" "0 < V mod width l"
      by (force simp: positions_def less_Suc_eq split: if_splits)
    then show "q * width l < V"
    proof cases
      case 1
      then have "q * width l < V div width l * width l" using w by simp
      then show ?thesis using e by linarith
    next
      case 2
      show ?thesis unfolding 2(1) using 2(2) e by linarith
    qed
  next
    assume "q * width l < V"
    then have le: "q \<le> V div width l" using w by (simp add: less_eq_div_iff_mult_less_eq)
    show "q < positions V l"
    proof (cases "0 < V mod width l")
      case True
      with le show ?thesis by (simp add: positions_def)
    next
      case False
      then have "V = V div width l * width l" using e by simp
      then have "q * width l < V div width l * width l" using \<open>q * width l < V\<close> by linarith
      then show ?thesis using w by (simp add: positions_def)
    qed
  qed
qed

lemma positions_le: "positions V l \<le> V"
proof (rule ccontr)
  assume "\<not> positions V l \<le> V"
  then have "V * width l < V" using positions_less [of V V l] by simp
  moreover have "V * 1 \<le> V * width l" by (intro mult_le_mono2) (simp add: width_def Suc_leI)
  ultimately show False by simp
qed

lemma tiles_to_process_eq:
  assumes "\<And>t. t \<in> set ts \<Longrightarrow> \<not> tot \<le> t * 256"
  shows "tiles_to_process lvl tot lps ts =
    map (\<lambda>t. (t, t * 256, min (t * 256 + 256) tot))
      (filter (\<lambda>t. \<not> min (t * 256 + 256) tot - t * 256 < 256 \<and> \<not> is_tile_full_at_size lvl t lps) ts)"
  using assms by (induction ts) (simp_all add: Let_def)

section \<open>The subtrees of a tile\<close>

definition tile_lo :: "nat \<Rightarrow> nat \<Rightarrow> nat \<Rightarrow> nat" where
  "tile_lo l t i = (t * 256 + i) * width l"

definition tile_hi :: "nat \<Rightarrow> nat \<Rightarrow> nat \<Rightarrow> nat \<Rightarrow> nat" where
  "tile_hi V l t i = min (tile_lo l t i + width l) V"

lemma tile_trange:
  assumes "V \<le> 2 ^ 63" "tile_lo l t i < V"
  shows "trange V (tile_lo l t i) (tile_hi V l t i)"
proof -
  let ?lo = "tile_lo l t i" and ?hi = "tile_hi V l t i"
  have w: "0 < width l" by (simp add: width_def)
  then have lh: "?lo < ?hi" "?hi \<le> V" "?hi - ?lo \<le> 2 ^ (8 * l)" using assms(2) by (simp_all add: tile_hi_def width_pow2)
  have c: "clog2 (?hi - ?lo) \<le> 8 * l" using clog2_mono [of "?hi - ?lo" "2 ^ (8 * l)"] lh by simp
  have "2 ^ (8 * l) dvd ?lo" by (simp add: tile_lo_def width_pow2)
  then have "2 ^ clog2 (?hi - ?lo) dvd ?lo" using c by (metis power_le_dvd)
  moreover have "?hi = V \<or> ?hi = ?lo + 2 ^ clog2 (?hi - ?lo)"
  proof (cases "?lo + width l \<le> V")
    case True
    then have "?hi - ?lo = 2 ^ (8 * l)" by (simp add: tile_hi_def width_pow2)
    moreover have "?hi = ?lo + (?hi - ?lo)" using lh(1) by simp
    ultimately show ?thesis by simp
  qed (simp add: tile_hi_def)
  ultimately show ?thesis using lh assms(1) by (simp add: trange_def)
qed

lemma tile_lo_less:
  assumes "Suc t * 256 \<le> positions V l" "i < 256"
  shows "tile_lo l t i < V"
  unfolding tile_lo_def positions_less [symmetric] using assms by simp

lemma those_map_Some: "(\<And>x. x \<in> set xs \<Longrightarrow> f x = Some (g x)) \<Longrightarrow> those (map f xs) = Some (map g xs)"
  by (induction xs) simp_all

lemma u64_range_256:
  assumes "Suc t * 256 < 2 ^ 64"
  shows "u64_range (of_nat (t * 256)) (of_nat (Suc t * 256)) = map (\<lambda>i. of_nat (t * 256 + i)) [0..<256]"
proof -
  have u: "unat (of_nat (t * 256) :: u64) = t * 256" by (rule unat_of_nat_u64) (use assms in simp)
  have u': "unat (of_nat (Suc t * 256) :: u64) = Suc t * 256" by (rule unat_of_nat_u64 [OF assms])
  have "[t * 256..<Suc t * 256] = map (\<lambda>i. i + t * 256) [0..<256]"
    using map_add_upt [of "t * 256" 256] by (simp add: add.commute)
  then show ?thesis by (simp only: u64_range_def u u' map_map) (simp add: add.commute)
qed

lemma tile_subtree_roots_eq:
  assumes r: "tile_range V l t" and p: "Suc t * 256 \<le> positions V l"
  shows "tile_subtree_roots (of_nat (width l)) (of_nat V) (of_nat (t * 256)) (of_nat (Suc t * 256))
    = Some (map (\<lambda>i. node_of (tile_lo l t i) (tile_hi V l t i)) [0..<256])"
proof -
  have V: "V \<le> 2 ^ 63" "l \<le> 5" using r by (simp_all add: tile_range_def)
  note b = tile_range_bound [OF r]
  let ?c = "\<lambda>position. compute_subtree_root (position * of_nat (width l)) (min (position * of_nat (width l) + of_nat (width l)) (of_nat V))"
  let ?q = "\<lambda>i. of_nat (t * 256 + i) :: u64"
  have lo: "?q i * of_nat (width l) = of_nat (tile_lo l t i)" for i by (simp add: tile_lo_def)
  have lt: "tile_lo l t i < V" "tile_lo l t i + width l < 2 ^ 64" if "i < 256" for i
  proof -
    show "tile_lo l t i < V" by (rule tile_lo_less [OF p that])
    then show "tile_lo l t i + width l < 2 ^ 64" using V width_bound(2) [OF V(2)] by simp
  qed
  have V64: "V < 2 ^ 64" using V by simp
  have all: "takeWhile (\<lambda>position. position * of_nat (width l) < of_nat V) (map ?q [0..<256]) = map ?q [0..<256]"
  proof (rule takeWhile_eq_all_conv [THEN iffD2], rule ballI)
    fix x assume "x \<in> set (map ?q [0..<256])"
    then obtain i where i: "i < 256" "x = ?q i" by auto
    show "x * of_nat (width l) < of_nat V"
      unfolding i(2) lo using of_nat_u64_less_iff [of "tile_lo l t i" V] lt [OF i(1)] V64 by simp
  qed
  have "?c (?q i) = Some (node_of (tile_lo l t i) (tile_hi V l t i))" if "i < 256" for i
  proof -
    have "min (?q i * of_nat (width l) + of_nat (width l)) (of_nat V) = (of_nat (tile_hi V l t i) :: u64)"
      unfolding lo tile_hi_def using of_nat_u64_min [OF lt(2) [OF that] V64] by simp
    then show ?thesis unfolding lo using compute_subtree_root_eq [OF tile_trange [OF V(1) lt(1) [OF that]]] by simp
  qed
  then show ?thesis
    unfolding tile_subtree_roots_def u64_range_256 [OF b(3)] all map_map
    by (intro those_map_Some) simp
qed

lemma assemble_hashes_eq:
  assumes "\<And>idx. idx \<in> set idxs \<Longrightarrow> length (g idx) = output_size"
    and "\<And>idx h. idx \<in> set idxs \<Longrightarrow> map_of computed idx = Some h \<Longrightarrow> h = g idx"
  shows "assemble_hashes computed idxs (map g (filter (\<lambda>idx. map_of computed idx = None) idxs)) = Some (map g idxs)"
  using assms by (induction idxs) (force split: option.splits)+

text \<open>The hash of a node in the tree of \<open>V\<close> leaves, by its index.\<close>

definition node_val :: "digest_fun \<Rightarrow> bytes list \<Rightarrow> nat \<Rightarrow> u64 \<Rightarrow> bytes" where
  "node_val H D V idx = node_hash H D V (level idx) (unat idx div 2 ^ Suc (level idx))"

lemma node_val_node:
  assumes "slot k j"
  shows "node_val H D V (node k j) = node_hash H D V k j"
proof -
  have "level (node k j) = k" using assms by (simp add: level_node slot_def)
  moreover have "(2 * (j * 2 ^ k) + 2 ^ k - 1) div 2 ^ Suc k = j"
  proof (rule div_nat_eqI)
    have e: "2 ^ Suc k * j = 2 * (j * 2 ^ k)" "2 ^ Suc k * Suc j = 2 * (j * 2 ^ k) + 2 * 2 ^ k" by simp_all
    show "2 ^ Suc k * j \<le> 2 * (j * 2 ^ k) + 2 ^ k - 1" unfolding e using pow2_pos [of k] by linarith
    show "2 * (j * 2 ^ k) + 2 ^ k - 1 < 2 ^ Suc k * Suc j" unfolding e using pow2_pos [of k] by linarith
  qed
  ultimately show ?thesis by (simp add: node_val_def unat_node [OF assms])
qed

lemma node_val_range: "trange V lo hi \<Longrightarrow> node_val H D V (node_of lo hi) = range_hash H D lo hi"
  by (erule trange_node) (simp add: node_val_node node_hash_def)

section \<open>Processing one tile\<close>

definition tile_put :: "digest_fun \<Rightarrow> bytes list \<Rightarrow> nat \<Rightarrow> key_values \<Rightarrow> u8 \<Rightarrow> nat \<Rightarrow> WriteBatch" where
  "tile_put H D V M lvl t =
     (if M (tile_key lvl (of_nat t)) = None \<and> tile_full V (unat lvl) t
      then [(tile_key lvl (of_nat t), concat (tile_hashes H D (unat lvl) t))] else [])"

lemma length_tile_hashes [simp]: "length (tile_hashes H D l t) = 256"
  by (simp add: tile_hashes_def)

lemma tile_hashes_full:
  assumes "tile_full V l t"
  shows "map (\<lambda>i. range_hash H D (tile_lo l t i) (tile_hi V l t i)) [0..<256] = tile_hashes H D l t"
  unfolding tile_hashes_def
proof (rule map_cong [OF refl])
  fix i assume "i \<in> set [0..<256]"
  then have i: "i < 256" by simp
  have e: "tile_lo l t i + width l = (t * 256 + i + 1) * width l" by (simp add: tile_lo_def)
  also have "\<dots> \<le> Suc t * 256 * width l" using i by (intro mult_le_mono1) simp
  also have "\<dots> \<le> V" using assms unfolding tile_full_width mult.assoc .
  finally have "tile_hi V l t i = (t * 256 + i + 1) * 256 ^ l" using e by (simp add: tile_hi_def width_def)
  then show "range_hash H D (tile_lo l t i) (tile_hi V l t i)
      = range_hash H D ((t * 256 + i) * 256 ^ l) ((t * 256 + i + 1) * 256 ^ l)"
    by (simp add: tile_lo_def width_def)
qed

text \<open>The guard before storing is that the tile is full.\<close>

lemma store_guard_eq:
  assumes r: "tile_range V (unat lvl) t" and p: "Suc t * 256 \<le> positions V (unat lvl)"
  shows "(lvl = 0 \<or> is_tile_full_at_size (lvl - 1) ((of_nat t + 1) * 256 - 1) (of_nat V)) \<longleftrightarrow> tile_full V (unat lvl) t"
proof (cases "lvl = 0")
  case True
  have "t * 256 + 255 < positions V 0" using p True by simp
  then have "tile_full V 0 t" by (simp add: positions_less tile_full_width width_def)
  with True show ?thesis by simp
next
  case False
  then have "0 < unat lvl" by (simp add: unat_gt_0)
  then obtain l where l: "unat lvl = Suc l" by (cases "unat lvl") simp_all
  have lv: "unat (lvl - 1) = l" using False l by (simp add: unat_minus_one)
  note b = tile_range_bound [OF r]
  let ?c = "Suc t * 256 - 1"
  have c: "((of_nat t :: u64) + 1) * 256 - 1 = of_nat ?c" by (simp add: algebra_simps)
  have S: "Suc ?c * (256 * width l) = Suc t * (256 * width (unat lvl))"
    unfolding l width_Suc by (simp add: algebra_simps)
  have V: "V < 2 ^ 64" using r by (simp add: tile_range_def)
  have "is_tile_full_at_size (lvl - 1) (of_nat ?c) (of_nat V) \<longleftrightarrow> tile_full V l ?c"
    by (rule is_tile_full_eq [OF lv _ V]) (use b(2) S in simp)
  also have "\<dots> \<longleftrightarrow> tile_full V (unat lvl) t" unfolding tile_full_width S ..
  finally show ?thesis using False c by simp
qed

lemma triple_tile_cache_insert:
  "triple (tree_at E view held D P M) (tile_cache_insert E key b) (\<lambda>_. tree_at E view held D P M) R"
  unfolding tile_cache_insert_def by (rule triple_modify) (simp add: tree_at_def)

text \<open>
  Nodes that the batch has not touched are read at the coming version; they are complete and
  their hash is that of the new tree.
\<close>

lemma triple_untouched:
  assumes env: "env_ok E view held F" and inv: "store_inv (digest_of E) ser D P M"
    and comp: "comp_at (digest_of E) (D @ items) (length D) (length D + length items) computed"
    and V: "V = length D + length items" "V \<le> 2 ^ 63" and t: "trange V lo hi" "map_of computed (node_of lo hi) = None"
  shows "triple (tree_at E view held D P M) (get_node_hash_at_version E (node_of lo hi) (of_nat V))
    (\<lambda>h s. tree_at E view held D P M s \<and> h = node_val (digest_of E) (D @ items) V (node_of lo hi))
    (\<lambda>e s. tree_at E view held D P M s \<and> e \<in> DbError ` F)"
proof -
  obtain k j where n: "node_of lo hi = node k j" "in_tree V k j" "slot k j" "j * 2 ^ k = lo" "hi_of V k j = hi"
    by (rule trange_node [OF t(1)])
  have hi: "hi \<le> length D"
    using comp t(2) n V by (auto simp: comp_at_def split: if_splits)
  have "V \<in> P" if "V = length D"
    using that store_invD(2) [OF inv] n(2) by (auto simp: sizes_ok_def in_tree_def)
  then have "readable D P V k j" using n V hi by (auto simp: readable_def)
  from triple_get_node_hash_at_version [OF env inv this] hi n show ?thesis
    by (simp add: node_val_node node_hash_def range_hash_append)
qed

lemma triple_process_tile:
  assumes env: "env_ok E view held F" and inv: "store_inv (digest_of E) ser D P M"
    and comp: "comp_at (digest_of E) (D @ items) (length D) (length D + length items) computed"
    and V: "V = length D + length items" and r: "tile_range V (unat lvl) t" and p: "Suc t * 256 \<le> positions V (unat lvl)"
  shows "triple (tree_at E view held D P M)
    (process_tile E (of_nat V) computed lvl (of_nat t, of_nat (t * 256), of_nat (Suc t * 256)) batch)
    (\<lambda>b s. tree_at E view held D P M s \<and> b = batch @ tile_put (digest_of E) (D @ items) V M lvl t)
    (\<lambda>e s. tree_at E view held D P M s \<and> e \<in> DbError ` F)"
    (is "triple ?T _ ?Q ?R")
proof -
  let ?l = "unat lvl" and ?H = "digest_of E" and ?D = "D @ items"
  let ?roots = "map (\<lambda>i. node_of (tile_lo ?l t i) (tile_hi V ?l t i)) [0..<256]"
  let ?key = "tile_key lvl (of_nat t)" and ?g = "node_val ?H ?D V"
  have V63: "V \<le> 2 ^ 63" using r by (simp add: tile_range_def)
  have roots: "tile_subtree_roots (256 ^ ?l) (of_nat V) (of_nat (t * 256)) (of_nat (Suc t * 256)) = Some ?roots"
    using tile_subtree_roots_eq [OF r p] by (simp only: width_word)
  have tr: "\<exists>lo hi. idx = node_of lo hi \<and> trange V lo hi" if a: "idx \<in> set ?roots" for idx
  proof -
    obtain i where "i < 256" "idx = node_of (tile_lo ?l t i) (tile_hi V ?l t i)" using a by auto
    then show ?thesis using tile_trange [OF V63 tile_lo_less [OF p]] by blast
  qed
  have vals: "map ?g ?roots = map (\<lambda>i. range_hash ?H ?D (tile_lo ?l t i) (tile_hi V ?l t i)) [0..<256]"
    using node_val_range [OF tile_trange [OF V63 tile_lo_less [OF p]]] by simp
  have fetch: "triple ?T (map_io (\<lambda>idx. get_node_hash_at_version E idx (of_nat V)) (filter (\<lambda>idx. map_of computed idx = None) ?roots))
      (\<lambda>hs s. ?T s \<and> hs = map ?g (filter (\<lambda>idx. map_of computed idx = None) ?roots)) ?R"
    by (rule triple_map_io) (use tr triple_untouched [OF env inv comp V V63] in force)
  have asm: "assemble_hashes computed ?roots (map ?g (filter (\<lambda>idx. map_of computed idx = None) ?roots)) = Some (map ?g ?roots)"
  proof (rule assemble_hashes_eq)
    fix idx assume "idx \<in> set ?roots"
    then obtain lo hi where i: "idx = node_of lo hi" "trange V lo hi" using tr by blast
    show "length (?g idx) = output_size"
      unfolding i(1) node_val_range [OF i(2)] using env length_range_hash [of ?H] by (simp add: env_ok_def)
    show "h = ?g idx" if "map_of computed idx = Some h" for h
      using comp_at_lookup [OF comp] that i(2) unfolding i(1)
      by (auto elim!: trange_node simp: V node_val_node split: if_splits)
  qed
  have "triple ?T (if length (map ?g ?roots) = 256 \<and> (lvl = 0 \<or> is_tile_full_at_size (lvl - 1) ((of_nat t + 1) * 256 - 1) (of_nat V))
      then and_then (of_option (Tile_new (map ?g ?roots))) (\<lambda>tile.
          and_then (tile_cache_insert E (lvl, of_nat t) True) (\<lambda>_. ret (batch @ [(?key, Tile_to_bytes tile)])))
      else ret batch) ?Q ?R" if "M ?key = None"
  proof (cases "tile_full V ?l t")
    case True
    note vals' = vals [unfolded tile_hashes_full [OF True]]
    show ?thesis
      using True that store_guard_eq [OF r p]
      by (simp add: Tile_new_256 Tile_to_bytes_def vals' [simplified] tile_put_def triple_ret
          triple_and_then [OF triple_tile_cache_insert])
  next
    case False
    with store_guard_eq [OF r p] show ?thesis by (simp add: tile_put_def triple_ret)
  qed
  note store = this
  show ?thesis
    unfolding process_tile_def prod.case
  proof (rule triple_then [OF triple_db_get [OF env]], rule triple_if)
    assume "M ?key \<noteq> None"
    then show "triple ?T (and_then (tile_cache_insert E (lvl, of_nat t) True) (\<lambda>_. ret batch)) ?Q ?R"
      by (intro triple_and_then [OF triple_tile_cache_insert] triple_ret) (simp add: tile_put_def)
  next
    assume "\<not> M ?key \<noteq> None"
    then have "M ?key = None" by simp
    note store' = store [OF this]
    show "triple ?T (let subtree_size = 256 ^ unat lvl in
        and_then (of_option (tile_subtree_roots subtree_size (of_nat V) (of_nat (t * 256)) (of_nat (Suc t * 256)))) (\<lambda>roots.
        and_then (map_io (\<lambda>idx. get_node_hash_at_version E idx (of_nat V))
                    (filter (\<lambda>idx. map_of computed idx = None) roots)) (\<lambda>fetched_hashes.
        and_then (of_option (assemble_hashes computed roots fetched_hashes)) (\<lambda>hashes.
        if length hashes = 256 \<and>
           (lvl = 0 \<or> is_tile_full_at_size (lvl - 1) ((of_nat t + 1) * 256 - 1) (of_nat V))
        then
          and_then (of_option (Tile_new hashes)) (\<lambda>tile.
          and_then (tile_cache_insert E (lvl, of_nat t) True) (\<lambda>_.
          ret (batch @ [(?key, Tile_to_bytes tile)])))
        else ret batch)))) ?Q ?R"
      using store'
      by (simp only: Let_def roots pure_ops and_then_ret) (rule triple_then [OF fetch], simp only: asm pure_ops and_then_ret)
  qed
qed

section \<open>Processing the levels\<close>

definition level_tiles :: "nat \<Rightarrow> nat \<Rightarrow> nat \<Rightarrow> nat list" where
  "level_tiles V s l =
     filter (\<lambda>t. Suc t * 256 \<le> positions V l \<and> \<not> tile_full s l t)
       [s div width l div 256..<Suc ((V - 1) div width l div 256)]"

lemma level_tiles_range:
  assumes "V \<le> 2 ^ 63" "l \<le> 5" "t \<in> set (level_tiles V s l)"
  shows "tile_range V l t" "Suc t * 256 \<le> positions V l"
proof -
  show p: "Suc t * 256 \<le> positions V l" using assms(3) by (auto simp: level_tiles_def)
  then have "0 < V" using positions_le [of V l] by simp
  moreover have "t \<le> (V - 1) div (256 * width l)"
    using assms(3) by (auto simp: level_tiles_def div_mult2_eq mult.commute [of 256])
  ultimately show "tile_range V l t" using assms by (simp add: tile_range_def)
qed

lemma level_tiles_complete:
  assumes "tile_full V l t" "\<not> tile_full s l t"
  shows "t \<in> set (level_tiles V s l)"
proof -
  let ?w = "width l * 256"
  have w: "0 < width l" by (simp add: width_def)
  have f: "Suc t * ?w \<le> V" "s < Suc t * ?w" using assms by (simp_all add: tile_full_width mult.commute)
  have "s div ?w < Suc t" using f(2) w by (simp add: less_mult_imp_div_less)
  moreover have "t \<le> (V - 1) div ?w"
  proof -
    have "t * ?w \<le> V - 1" using f(1) w by (simp add: algebra_simps)
    then show ?thesis using w by (simp add: less_eq_div_iff_mult_less_eq)
  qed
  moreover have "Suc t * 256 \<le> positions V l"
  proof -
    have "Suc t * 256 * width l \<le> V" using f(1) by (simp add: algebra_simps)
    then have "(Suc t * 256 - 1) * width l < V" using w by (simp add: algebra_simps)
    then have "Suc t * 256 - 1 < positions V l" by (simp only: positions_less)
    then show ?thesis by simp
  qed
  ultimately show ?thesis using assms(2) by (auto simp: level_tiles_def div_mult2_eq simp del: upt_Suc)
qed

lemma of_nat_positions:
  assumes "V \<le> 2 ^ 63" "l \<le> 5"
  shows "(of_nat V div of_nat (width l) + (if 0 < (of_nat V :: u64) mod of_nat (width l) then 1 else 0) :: u64) = of_nat (positions V l)"
proof -
  have b: "V < 2 ^ 64" "width l < 2 ^ 64" using assms width_bound(2) [of l] by simp_all
  have m: "V mod width l < 2 ^ 64" using b(1) mod_less_eq_dividend [of V "width l"] by linarith
  have "(0 :: u64) < of_nat (V mod width l) \<longleftrightarrow> 0 < V mod width l" using of_nat_u64_less_iff [of 0 "V mod width l"] m by simp
  then show ?thesis by (simp add: positions_def of_nat_u64_div [OF b] of_nat_u64_mod [OF b])
qed

lemma tiles_to_process_level:
  assumes V: "V \<le> 2 ^ 63" "s \<le> V" and l: "unat lvl = l" "l \<le> 5"
  shows "tiles_to_process lvl (of_nat (positions V l)) (of_nat s)
      (map of_nat [s div width l div 256..<Suc ((V - 1) div width l div 256)])
    = map (\<lambda>t. (of_nat t, of_nat (t * 256), of_nat (Suc t * 256))) (level_tiles V s l)"
proof (cases "V = 0")
  case True
  then show ?thesis using V by (simp add: positions_def level_tiles_def Let_def)
next
  case False
  let ?ts = "[s div width l div 256..<Suc ((V - 1) div width l div 256)]"
  let ?tot = "of_nat (positions V l) :: u64"
  have pb: "positions V l < 2 ^ 64" "positions V l \<le> 2 ^ 63" using positions_le [of V l] V by simp_all
  have r: "tile_range V l t" if "t \<in> set ?ts" for t
    using that False V l by (auto simp: tile_range_def div_mult2_eq mult.commute [of 256])
  have facts: "\<not> ?tot \<le> of_nat t * 256" "min (of_nat t * 256 + 256) ?tot - of_nat t * 256 < 256 \<longleftrightarrow> \<not> Suc t * 256 \<le> positions V l"
    "is_tile_full_at_size lvl (of_nat t) (of_nat s) \<longleftrightarrow> tile_full s l t"
    "Suc t * 256 \<le> positions V l \<Longrightarrow> min (of_nat t * 256 + 256) ?tot = of_nat (Suc t * 256)"
    if "t \<in> set ?ts" for t
  proof -
    note b = tile_range_bound [OF r [OF that]]
    have t256: "t * 256 < positions V l" unfolding positions_less using b(1) by (simp add: mult.assoc)
    have e: "(of_nat t :: u64) * 256 = of_nat (t * 256)" "(of_nat t :: u64) * 256 + 256 = of_nat (Suc t * 256)" by simp_all
    show "\<not> ?tot \<le> of_nat t * 256"
      unfolding e using of_nat_u64_le_iff [OF pb(1), of "t * 256"] t256 pb by simp
    have mn: "min (of_nat t * 256 + 256) ?tot = of_nat (min (Suc t * 256) (positions V l))"
      unfolding e(2) by (rule of_nat_u64_min [OF b(3) pb(1)])
    show "min (of_nat t * 256 + 256) ?tot - of_nat t * 256 < 256 \<longleftrightarrow> \<not> Suc t * 256 \<le> positions V l"
    proof -
      have "min (of_nat t * 256 + 256) ?tot - of_nat t * 256 = of_nat (min (Suc t * 256) (positions V l) - t * 256)"
        unfolding mn unfolding e(1) by (rule of_nat_u64_diff) (use t256 in simp)
      moreover have "(of_nat (min (Suc t * 256) (positions V l) - t * 256) :: u64) < of_nat 256
          \<longleftrightarrow> min (Suc t * 256) (positions V l) - t * 256 < 256"
        by (rule of_nat_u64_less_iff) (use pb in simp_all)
      ultimately show ?thesis using t256 by (auto simp: min_def)
    qed
    show "is_tile_full_at_size lvl (of_nat t) (of_nat s) \<longleftrightarrow> tile_full s l t"
      by (rule is_tile_full_eq [OF l(1) b(2)]) (use V in simp)
    show "min (of_nat t * 256 + 256) ?tot = of_nat (Suc t * 256)" if "Suc t * 256 \<le> positions V l"
      unfolding mn using that by (simp add: min_def)
  qed
  have "tiles_to_process lvl ?tot (of_nat s) (map of_nat ?ts) =
    map (\<lambda>t. (t, t * 256, min (t * 256 + 256) ?tot))
      (filter (\<lambda>t. \<not> min (t * 256 + 256) ?tot - t * 256 < 256 \<and> \<not> is_tile_full_at_size lvl t (of_nat s)) (map of_nat ?ts))"
    by (rule tiles_to_process_eq) (use facts(1) in auto)
  also have "\<dots> = map (\<lambda>t. (of_nat t, of_nat t * 256, min (of_nat t * 256 + 256) ?tot)) (level_tiles V s l)"
    unfolding filter_map map_map level_tiles_def comp_def
    by (rule arg_cong [where f = "map _"], rule filter_cong [OF refl]) (use facts(2,3) in simp)
  also have "\<dots> = map (\<lambda>t. (of_nat t, of_nat (t * 256), of_nat (Suc t * 256))) (level_tiles V s l)"
    by (rule map_cong [OF refl]) (use facts(4) in \<open>auto simp: level_tiles_def\<close>)
  finally show ?thesis .
qed

lemma triple_precompute_level:
  assumes env: "env_ok E view held F" and inv: "store_inv (digest_of E) ser D P M"
    and comp: "comp_at (digest_of E) (D @ items) (length D) (length D + length items) computed"
    and V: "V = length D + length items" "V \<le> 2 ^ 63" and l: "unat lvl \<le> 5"
  shows "triple (tree_at E view held D P M)
    (precompute_level E (of_nat (length D)) (of_nat V) computed (of_nat (length D)) lvl batch)
    (\<lambda>b s. tree_at E view held D P M s \<and>
       b = batch @ concat (map (tile_put (digest_of E) (D @ items) V M lvl) (level_tiles V (length D) (unat lvl))))
    (\<lambda>e s. tree_at E view held D P M s \<and> e \<in> DbError ` F)"
    (is "triple ?T _ ?Q ?R")
proof -
  let ?l = "unat lvl" and ?s = "length D"
  let ?f = "\<lambda>t. (of_nat t, of_nat (t * 256), of_nat (Suc t * 256)) :: u64 \<times> u64 \<times> u64"
  have b: "V < 2 ^ 64" "?s < 2 ^ 64" "width ?l < 2 ^ 64" "(256::nat) < 2 ^ 64" using V l width_bound(2) [of ?l] by simp_all
  have sd: "?s div width ?l < 2 ^ 64" "(V - 1) div width ?l < 2 ^ 64" "V - 1 < 2 ^ 64"
    using b(1,2) div_le_dividend [of ?s "width ?l"] div_le_dividend [of "V - 1" "width ?l"] by linarith+
  have first: "(of_nat ?s :: u64) div of_nat (width ?l) div 256 = of_nat (?s div width ?l div 256)"
    using of_nat_u64_div [OF b(2,3)] of_nat_u64_div [OF sd(1) b(4)] by simp
  have lst: "(if 0 < (of_nat V :: u64) then ((of_nat V :: u64) - 1) div of_nat (width ?l) else 0) div 256 = of_nat ((V - 1) div width ?l div 256)"
  proof (cases "V = 0")
    case False
    then have "0 < (of_nat V :: u64)" "(of_nat V :: u64) - 1 = of_nat (V - 1)"
      using of_nat_u64_less_iff [of 0 V] b(1) by simp_all
    then show ?thesis using of_nat_u64_div [OF sd(3) b(3)] of_nat_u64_div [OF sd(2) b(4)] by simp
  qed simp
  have rng: "u64_range_incl (of_nat (?s div width ?l div 256)) (of_nat ((V - 1) div width ?l div 256))
      = map of_nat [?s div width ?l div 256..<Suc ((V - 1) div width ?l div 256)]"
  proof -
    have "?s div width ?l div 256 < 2 ^ 64" "(V - 1) div width ?l div 256 < 2 ^ 64"
      using sd(1,2) div_le_dividend [of "?s div width ?l" 256] div_le_dividend [of "(V - 1) div width ?l" 256] by linarith+
    then show ?thesis by (simp only: u64_range_incl_def unat_of_nat_u64)
  qed
  have "triple ?T (fold_io (process_tile E (of_nat V) computed lvl) (map ?f (level_tiles V ?s ?l)) batch)
      (\<lambda>b s. ?T s \<and> b = batch @ concat (map (\<lambda>x. tile_put (digest_of E) (D @ items) V M lvl (unat (fst x))) (map ?f (level_tiles V ?s ?l)))) ?R"
  proof (rule triple_fold_append)
    fix x b assume "x \<in> set (map ?f (level_tiles V ?s ?l))"
    then obtain t where t: "t \<in> set (level_tiles V ?s ?l)" "x = ?f t" by auto
    note r = level_tiles_range [OF V(2) l t(1)]
    have "unat (of_nat t :: u64) = t" using tile_range_bound(3) [OF r(1)] by (intro unat_of_nat_u64) simp
    then show "triple ?T (process_tile E (of_nat V) computed lvl x b)
        (\<lambda>b' s. ?T s \<and> b' = b @ tile_put (digest_of E) (D @ items) V M lvl (unat (fst x))) ?R"
      using triple_process_tile [OF env inv comp V(1) r] t(2) by simp
  qed
  moreover have "map (\<lambda>x. tile_put (digest_of E) (D @ items) V M lvl (unat (fst x))) (map ?f (level_tiles V ?s ?l))
      = map (tile_put (digest_of E) (D @ items) V M lvl) (level_tiles V ?s ?l)"
    unfolding map_map
  proof (rule map_cong [OF refl])
    fix t assume "t \<in> set (level_tiles V ?s ?l)"
    note r = level_tiles_range [OF V(2) l this]
    have "unat (of_nat t :: u64) = t" using tile_range_bound(3) [OF r(1)] by (intro unat_of_nat_u64) simp
    then show "((\<lambda>x. tile_put (digest_of E) (D @ items) V M lvl (unat (fst x))) \<circ> ?f) t = tile_put (digest_of E) (D @ items) V M lvl t"
      by simp
  qed
  moreover have "?s \<le> V" using V by simp
  ultimately show ?thesis
    unfolding precompute_level_def Let_def width_word
    by (simp only: of_nat_positions [OF V(2) l] first lst rng tiles_to_process_level [OF V(2) _ refl l])
qed

lemma triple_precompute_tiles:
  assumes env: "env_ok E view held F" and inv: "store_inv (digest_of E) ser D P M"
    and comp: "comp_at (digest_of E) (D @ items) (length D) (length D + length items) computed"
    and V: "V = length D + length items" "V \<le> 2 ^ 63"
  shows "triple (tree_at E view held D P M)
    (precompute_tiles_batch E batch (of_nat (length D)) (of_nat V) computed)
    (\<lambda>b s. tree_at E view held D P M s \<and>
       b = batch @ concat (map (\<lambda>lvl. concat (map (tile_put (digest_of E) (D @ items) V M lvl)
             (level_tiles V (length D) (unat lvl)))) [0, 1, 2, 3, 4, 5])
           @ [(LAST_PRECOMPUTED_SIZE_KEY, be64 (of_nat V))])
    (\<lambda>e s. tree_at E view held D P M s \<and> e \<in> DbError ` F)"
  unfolding precompute_tiles_batch_def
proof (rule triple_then)
  have "M LAST_PRECOMPUTED_SIZE_KEY = None \<and> length D = 0 \<or> M LAST_PRECOMPUTED_SIZE_KEY = Some (be64 (of_nat (length D)))"
    using inv by (auto simp: store_inv_def sizes_inv_def size_at_def split: option.splits)
  then show "triple (tree_at E view held D P M) (get_last_precomputed_size E)
      (\<lambda>r s. tree_at E view held D P M s \<and> r = of_nat (length D)) (\<lambda>e s. tree_at E view held D P M s \<and> e \<in> DbError ` F)"
    unfolding get_last_precomputed_size_def
    by (intro triple_then [OF triple_db_get [OF env]]) (auto intro!: triple_ret)
  have l: "unat lvl \<le> 5" if "lvl \<in> set [0, 1, 2, 3, 4, 5 :: u8]" for lvl using that by auto
  note fold = triple_fold_append [where f = "precompute_level E (of_nat (length D)) (of_nat V) computed (of_nat (length D))"
      and xs = "[0, 1, 2, 3, 4, 5]", OF triple_precompute_level [OF env inv comp V l]]
  show "triple (tree_at E view held D P M)
     (and_then (fold_io (precompute_level E (of_nat (length D)) (of_nat V) computed (of_nat (length D)))
                 [0, 1, 2, 3, 4, 5] batch) (\<lambda>batch'.
     ret (batch' @ [(LAST_PRECOMPUTED_SIZE_KEY, be64 (of_nat V))])))
    (\<lambda>b s. tree_at E view held D P M s \<and>
       b = batch @ concat (map (\<lambda>lvl. concat (map (tile_put (digest_of E) (D @ items) V M lvl)
             (level_tiles V (length D) (unat lvl)))) [0, 1, 2, 3, 4, 5])
           @ [(LAST_PRECOMPUTED_SIZE_KEY, be64 (of_nat V))])
    (\<lambda>e s. tree_at E view held D P M s \<and> e \<in> DbError ` F)"
    by (rule triple_and_then [OF fold], assumption, rule triple_ret) (simp only: append_assoc)
qed

end
