(* ===== verification/Slate_Tree_Batch.thy ===== *)
theory Slate_Tree_Batch
  imports Slate_Tree_Tiles
begin

text \<open>
  The effect of \<^const>\<open>batch_push_with_data\<close> on the store: the new leaves are appended, the new size is
  published, the invariant holds again, and nothing is left half-written when the store fails.
\<close>

section \<open>The batch that is written\<close>

definition tile_levels :: "u8 list" where
  "tile_levels = [0, 1, 2, 3, 4, 5]"

lemma tile_levels_iff: "l \<in> set tile_levels \<longleftrightarrow> unat l \<le> 5"
  unfolding tile_levels_def by (simp add: word_unat_eq_iff) presburger

definition tile_puts :: "digest_fun \<Rightarrow> bytes list \<Rightarrow> nat \<Rightarrow> key_values \<Rightarrow> nat \<Rightarrow> WriteBatch" where
  "tile_puts H D V M s =
     concat (map (\<lambda>lvl. concat (map (tile_put H D V M lvl) (level_tiles V s (unat lvl)))) tile_levels)"

definition full_batch ::
  "digest_fun \<Rightarrow> (bytes \<Rightarrow> string + bytes) \<Rightarrow> bytes list \<Rightarrow> bytes list \<Rightarrow> (bytes \<times> bytes) list \<Rightarrow> key_values \<Rightarrow> (u64 \<times> bytes) list \<Rightarrow> WriteBatch" where
  "full_batch H ser D items add M computed =
     (let V = length D + length items; w = (of_nat V :: u64) in
      leaf_puts ser (length D) items @ node_puts w computed @ [(META_KEY, be64 w), (COMMITTED_SIZE_KEY, be64 w)] @ add
        @ tile_puts H (D @ items) V M (length D) @ [(LAST_PRECOMPUTED_SIZE_KEY, be64 w)])"

definition published :: "nat set \<Rightarrow> bytes list \<Rightarrow> bytes list \<Rightarrow> nat set" where
  "published P D items = (if items = [] then P else insert (length D + length items) P)"

section \<open>Lookups after the batch\<close>

lemma keys_leaf_puts: "fst ` set (leaf_puts ser s items) \<subseteq> range leaf_key"
  by (auto simp: leaf_puts_def)

lemma keys_node_puts: "fst ` set (node_puts w computed) \<subseteq> range (\<lambda>i. versioned_node_key i w) \<union> range node_latest_version_key"
  by (auto simp: node_puts_def)

lemma keys_tile_puts: "fst ` set (tile_puts H D V M s) \<subseteq> {k. \<exists>l t. k = tile_key l t}"
  by (auto simp: tile_puts_def tile_put_def split: if_splits)

lemma map_of_node_puts:
  "map_of (node_puts w computed) (versioned_node_key i v) = (if v = w then map_of computed i else None)"
  "map_of (node_puts w computed) (node_latest_version_key i) = map_option (\<lambda>_. be64 w) (map_of computed i)"
  by (induction computed) (auto simp: node_puts_def)

lemma distinct_node_puts: "node_keys computed \<Longrightarrow> distinct (map fst (node_puts w computed))"
proof -
  assume "node_keys computed"
  then have "distinct (map fst computed)" by (simp add: node_keys_def btree_distinct)
  then show ?thesis by (induction computed) (force simp: node_puts_def)+
qed

lemma apply_batch_const:
  assumes "k \<in> fst ` set b" "\<And>v. (k, v) \<in> set b \<Longrightarrow> v = x"
  shows "apply_batch b M k = Some x"
proof -
  obtain v where v: "map_of (rev b) k = Some v" using assms(1) by (metis domIff dom_map_of_conv_image_fst image_set list.set_map not_None_eq set_rev)
  then have "(k, v) \<in> set b" using map_of_SomeD by fastforce
  with assms(2) v show ?thesis by (simp add: apply_batch_def)
qed

lemma full_batch_lookup:
  fixes D items :: "bytes list" and M :: key_values and H :: digest_fun and ser :: "bytes \<Rightarrow> string + bytes"
  assumes "node_keys computed" "\<And>k. k \<in> fst ` set add \<Longrightarrow> foreign_key k"
  defines "w \<equiv> of_nat (length D + length items) :: u64"
  defines "M' \<equiv> apply_batch (full_batch H ser D items add M computed) M"
  shows "M' META_KEY = Some (be64 w)" "M' COMMITTED_SIZE_KEY = Some (be64 w)" "M' LAST_PRECOMPUTED_SIZE_KEY = Some (be64 w)"
    "M' (leaf_key i) = apply_batch (leaf_puts ser (length D) items) M (leaf_key i)"
    "M' (versioned_node_key j v) = (case (if v = w then map_of computed j else None) of Some h \<Rightarrow> Some h | None \<Rightarrow> M (versioned_node_key j v))"
    "M' (node_latest_version_key j) = (case map_of computed j of Some h \<Rightarrow> Some (be64 w) | None \<Rightarrow> M (node_latest_version_key j))"
    "M' (tile_key l t) = apply_batch (tile_puts H (D @ items) (length D + length items) M (length D)) M (tile_key l t)"
proof -
  let ?lp = "leaf_puts ser (length D) items" and ?np = "node_puts w computed"
  let ?tp = "tile_puts H (D @ items) (length D + length items) M (length D)"
  let ?M1 = "apply_batch ?lp M" and ?add = "apply_batch add"
  let ?M2 = "apply_batch ?np ?M1"
  let ?M3 = "?M2(META_KEY \<mapsto> be64 w, COMMITTED_SIZE_KEY \<mapsto> be64 w)"
  have M': "M' = (apply_batch ?tp (?add ?M3))(LAST_PRECOMPUTED_SIZE_KEY \<mapsto> be64 w)"
    by (simp add: M'_def full_batch_def Let_def apply_batch_append apply_batch_Cons w_def)
  have tp: "apply_batch ?tp N k = N k" if "\<And>l t. k \<noteq> tile_key l t" for N k
    by (rule apply_batch_other) (use keys_tile_puts [of H "D @ items"] that in blast)
  have ad: "?add N k = N k" if "\<not> foreign_key k" for N k
    by (rule apply_batch_other) (use assms(2) that in blast)
  have np: "apply_batch ?np N k = N k" if "\<And>i v. k \<noteq> versioned_node_key i v" "\<And>i. k \<noteq> node_latest_version_key i" for N k
    by (rule apply_batch_other) (use keys_node_puts [of w computed] that in blast)
  have lp: "?M1 k = M k" if "\<And>i. k \<noteq> leaf_key i" for k
    by (rule apply_batch_other) (use keys_leaf_puts [of ser "length D" items] that in blast)
  have tree: "\<not> foreign_key META_KEY" "\<not> foreign_key COMMITTED_SIZE_KEY" "\<not> foreign_key (leaf_key i)"
    "\<not> foreign_key (versioned_node_key j v)" "\<not> foreign_key (node_latest_version_key j)" "\<not> foreign_key (tile_key l t)" for i j v l t
    using foreign_distinct by blast+
  show "M' META_KEY = Some (be64 w)" "M' COMMITTED_SIZE_KEY = Some (be64 w)" "M' LAST_PRECOMPUTED_SIZE_KEY = Some (be64 w)"
    by (simp_all add: M' tp ad tree)
  show "M' (leaf_key i) = ?M1 (leaf_key i)" by (simp add: M' tp ad tree np)
  show "M' (versioned_node_key j v) = (case (if v = w then map_of computed j else None) of Some h \<Rightarrow> Some h | None \<Rightarrow> M (versioned_node_key j v))"
    by (simp add: M' tp ad tree apply_batch_distinct [OF distinct_node_puts [OF assms(1)]] map_of_node_puts lp split: option.split)
  show "M' (node_latest_version_key j) = (case map_of computed j of Some h \<Rightarrow> Some (be64 w) | None \<Rightarrow> M (node_latest_version_key j))"
    by (simp add: M' tp ad tree apply_batch_distinct [OF distinct_node_puts [OF assms(1)]] map_of_node_puts lp split: option.split)
  have eq: "?add ?M3 (tile_key l t) = M (tile_key l t)" by (simp add: ad tree np lp)
  have "apply_batch ?tp N (tile_key l t) = apply_batch ?tp N' (tile_key l t)" if "N (tile_key l t) = N' (tile_key l t)" for N N'
    using that by (simp add: apply_batch_def map_add_def split: option.split)
  from this [of "?add ?M3" M, OF eq] show "M' (tile_key l t) = apply_batch ?tp M (tile_key l t)" by (simp add: M')
qed

section \<open>The invariant after the batch\<close>

lemma published_ok: "sizes_ok P (length D) \<Longrightarrow> sizes_ok (published P D items) (length D + length items)"
  using sizes_ok_insert [of P "length D" "length D + length items"] by (cases items) (auto simp: published_def)

lemma ver_published:
  assumes "sizes_ok P (length D)" "0 < h" "h \<le> length D + length items"
  shows "ver (published P D items) h = (if h \<le> length D then ver P h else length D + length items)"
proof (cases "items = []")
  case False
  then have lt: "length D < length D + length items" by simp
  show ?thesis
  proof (cases "h \<le> length D")
    case True
    then have "0 < length D" using assms(2) by linarith
    with True False ver_insert(1) [OF assms(1) lt True] show ?thesis by (simp add: published_def)
  next
    case F: False
    with False ver_insert(2) [OF assms(1) lt] assms(3) show ?thesis by (simp add: published_def)
  qed
qed (use assms in \<open>simp add: published_def\<close>)

lemma in_tree_hi_pos: "in_tree n k j \<Longrightarrow> 0 < hi_of n k j"
  using in_tree_less_hi [of n k j] by simp

lemma published_member: "v \<in> published P D items \<Longrightarrow> sizes_ok P (length D) \<Longrightarrow> v \<le> length D \<Longrightarrow> v \<in> P"
  by (auto simp: published_def sizes_ok_def split: if_splits)

lemma nodes_inv_batch:
  assumes inv: "store_inv H ser D P M" and V: "V = length D + length items" "V \<le> 2 ^ 63"
    and comp: "comp_at H (D @ items) (length D) V computed"
    and look: "\<And>j v. M' (versioned_node_key j v) = (case (if v = of_nat V then map_of computed j else None) of Some h \<Rightarrow> Some h | None \<Rightarrow> M (versioned_node_key j v))"
      "\<And>j. M' (node_latest_version_key j) = (case map_of computed j of Some h \<Rightarrow> Some (be64 (of_nat V)) | None \<Rightarrow> M (node_latest_version_key j))"
  shows "nodes_inv H (D @ items) (published P D items) M'"
  unfolding nodes_inv_def
proof (intro conjI allI impI)
  let ?P = "published P D items" and ?s = "length D"
  note so = store_invD(2) [OF inv] and ni = store_invD(5) [OF inv, unfolded nodes_inv_def]
  note vp = ver_published [OF so, of _ items, folded V(1)]
  have sV: "?s \<le> V" using V by simp
  {
    fix k j v :: nat assume sl: "slot k j" and v: "v \<le> 2 ^ 63"
    have vw: "(of_nat v :: u64) = of_nat V \<longleftrightarrow> v = V" using of_nat_u64_eq_iff [of v V] v V by simp
    have old: "M (versioned_node_key (node k j) (of_nat v)) = (if v \<in> P \<and> in_tree v k j \<and> ver P (hi_of v k j) = v then Some (node_hash H D v k j) else None)"
      using ni sl v by blast
    show "M' (versioned_node_key (node k j) (of_nat v))
        = (if v \<in> ?P \<and> in_tree v k j \<and> ver ?P (hi_of v k j) = v then Some (node_hash H (D @ items) v k j) else None)"
    proof (cases "v = V")
      case True
      show ?thesis
      proof (cases "in_tree V k j")
        case it: True
        note hp = in_tree_hi_pos [OF it]
        have vv: "ver ?P (hi_of V k j) = (if hi_of V k j \<le> ?s then ver P (hi_of V k j) else V)" by (rule vp [OF hp hi_of_le])
        have "V \<in> ?P" if "?s < V" using that V by (auto simp: published_def)
        moreover have "hi_of V k j \<le> ?s \<Longrightarrow> V \<in> P \<Longrightarrow> node_hash H D V k j = node_hash H (D @ items) V k j \<and> V = ?s"
          using published_le [OF inv, of V] sV by (simp add: node_hash_append)
        moreover have "V \<in> ?P \<longleftrightarrow> V \<in> P" if "V = ?s" using that V by (auto simp: published_def)
        moreover have "V \<in> P \<Longrightarrow> V = ?s" using published_le [OF inv, of V] sV by simp
        moreover have "V \<noteq> ver P (hi_of V k j)" if "hi_of V k j \<le> ?s" "?s < V"
        proof -
          have "0 < ?s" using hp that(1) by linarith
          then have "ver P (hi_of V k j) \<in> P" by (rule ver_props(1) [OF so that(1)])
          then show ?thesis using published_le [OF inv] that(2) by fastforce
        qed
        ultimately show ?thesis
          using True it vv old look(1) comp_at_lookup [OF comp sl] hi_of_le [of V k j] sV
          by (cases "?s < hi_of V k j"; cases "?s < V") auto
      next
        case False
        with True old look(1) comp_at_lookup [OF comp sl] show ?thesis by simp
      qed
    next
      case False
      then have M': "M' (versioned_node_key (node k j) (of_nat v)) = M (versioned_node_key (node k j) (of_nat v))"
        using look(1) vw by simp
      have "v \<in> ?P \<longleftrightarrow> v \<in> P" using False V by (auto simp: published_def)
      moreover have "ver ?P (hi_of v k j) = ver P (hi_of v k j)" "node_hash H (D @ items) v k j = node_hash H D v k j"
        if "v \<in> P" "in_tree v k j"
        using vp [OF in_tree_hi_pos [OF that(2)]] hi_of_le [of v k j] published_le [OF inv that(1)] sV
        by (auto simp: node_hash_append)
      ultimately show ?thesis unfolding M' old by auto
    qed
  }
  fix k j assume sl: "slot k j"
  have old: "M (node_latest_version_key (node k j)) = (if in_tree ?s k j then Some (be64 (of_nat (ver P (hi_of ?s k j)))) else None)"
    using ni sl by blast
  show "M' (node_latest_version_key (node k j))
      = (if in_tree (length (D @ items)) k j then Some (be64 (of_nat (ver ?P (hi_of (length (D @ items)) k j)))) else None)"
  proof (cases "in_tree V k j")
    case it: True
    note hp = in_tree_hi_pos [OF it]
    have vv: "ver ?P (hi_of V k j) = (if hi_of V k j \<le> ?s then ver P (hi_of V k j) else V)" by (rule vp [OF hp hi_of_le])
    show ?thesis
    proof (cases "?s < hi_of V k j")
      case True
      with it vv look(2) comp_at_lookup [OF comp sl] V(1) show ?thesis by simp
    next
      case False
      then have "in_tree ?s k j" "hi_of ?s k j = hi_of V k j"
        using in_tree_back [OF it] hi_of_full' [of V k j ?s] sV by simp_all
      with False it vv old look(2) comp_at_lookup [OF comp sl] V(1) show ?thesis by simp
    qed
  next
    case False
    then have "\<not> in_tree ?s k j" using in_tree_mono [OF _ sV] by blast
    with False old look(2) comp_at_lookup [OF comp sl] V(1) show ?thesis by simp
  qed
qed

lemma tile_puts_member:
  assumes "V \<le> 2 ^ 63" "(tile_key l t, v) \<in> set (tile_puts H D V M s)"
  shows "unat l \<le> 5" "tile_full V (unat l) (unat t)" "v = concat (tile_hashes H D (unat l) (unat t))" "M (tile_key l t) = None"
proof -
  obtain lvl n where m: "lvl \<in> set tile_levels" "n \<in> set (level_tiles V s (unat lvl))"
    "(tile_key l t, v) \<in> set (tile_put H D V M lvl n)"
    using assms(2) unfolding tile_puts_def by auto
  have l5: "unat lvl \<le> 5" using m(1) by (simp add: tile_levels_iff)
  have k: "l = lvl" "t = of_nat n" "v = concat (tile_hashes H D (unat lvl) n)" "M (tile_key l t) = None" "tile_full V (unat lvl) n"
    using m(3) by (auto simp: tile_put_def split: if_splits)
  have "unat t = n"
    unfolding k(2) using tile_range_bound(3) [OF level_tiles_range(1) [OF assms(1) l5 m(2)]] by (intro unat_of_nat_u64) simp
  with k l5 show "unat l \<le> 5" "tile_full V (unat l) (unat t)" "v = concat (tile_hashes H D (unat l) (unat t))" "M (tile_key l t) = None"
    by simp_all
qed

lemma tile_puts_complete:
  assumes "unat l \<le> 5" "tile_full V (unat l) (unat t)" "\<not> tile_full s (unat l) (unat t)" "M (tile_key l t) = None"
  shows "tile_key l t \<in> fst ` set (tile_puts H D V M s)"
proof -
  have "l \<in> set tile_levels" using assms(1) by (simp add: tile_levels_iff)
  moreover have "unat t \<in> set (level_tiles V s (unat l))" by (rule level_tiles_complete [OF assms(2,3)])
  moreover have "tile_key l t \<in> fst ` set (tile_put H D V M l (unat t))" using assms by (simp add: tile_put_def)
  ultimately show ?thesis unfolding tile_puts_def by force
qed

lemma tile_hashes_append: "tile_full (length D) l t \<Longrightarrow> tile_hashes H (D @ E) l t = tile_hashes H D l t"
  unfolding tile_hashes_def
proof (rule map_cong [OF refl])
  fix i assume f: "tile_full (length D) l t" and "i \<in> set [0..<256]"
  then have "(t * 256 + i + 1) * width l \<le> Suc t * 256 * width l" by (intro mult_le_mono1) simp
  also have "\<dots> \<le> length D" using f unfolding tile_full_width mult.assoc .
  finally show "range_hash H (D @ E) ((t * 256 + i) * 256 ^ l) ((t * 256 + i + 1) * 256 ^ l)
      = range_hash H D ((t * 256 + i) * 256 ^ l) ((t * 256 + i + 1) * 256 ^ l)"
    unfolding width_def by (rule range_hash_append)
qed

lemma tiles_inv_batch:
  assumes inv: "tiles_inv H D M" and V: "V = length D + length items" "V \<le> 2 ^ 63"
    and look: "\<And>l t. M' (tile_key l t) = apply_batch (tile_puts H (D @ items) V M (length D)) M (tile_key l t)"
  shows "tiles_inv H (D @ items) M'"
  unfolding tiles_inv_def
proof (intro allI)
  fix l :: u8 and t :: u64
  let ?full = "\<lambda>n. unat l \<le> 5 \<and> tile_full n (unat l) (unat t)"
  have old: "M (tile_key l t) = (if ?full (length D) then Some (concat (tile_hashes H D (unat l) (unat t))) else None)"
    using inv by (simp add: tiles_inv_def)
  have mono: "?full V" if "?full (length D)" using that V by (auto simp: tile_full_def)
  note mem = tile_puts_member [OF V(2), of l t _ H "D @ items" M "length D"]
  consider "?full (length D)" | "\<not> ?full (length D)" "?full V" | "\<not> ?full V" using mono by blast
  then show "M' (tile_key l t) = (if ?full (length (D @ items)) then Some (concat (tile_hashes H (D @ items) (unat l) (unat t))) else None)"
  proof cases
    case 1
    then have "tile_key l t \<notin> fst ` set (tile_puts H (D @ items) V M (length D))" using mem(4) old by fastforce
    then have "M' (tile_key l t) = M (tile_key l t)" unfolding look by (rule apply_batch_other)
    with 1 old mono V(1) show ?thesis by (simp add: tile_hashes_append)
  next
    case 2
    then have "M (tile_key l t) = None" using old by simp
    with 2 have "tile_key l t \<in> fst ` set (tile_puts H (D @ items) V M (length D))" by (intro tile_puts_complete) auto
    then have "M' (tile_key l t) = Some (concat (tile_hashes H (D @ items) (unat l) (unat t)))"
      unfolding look by (rule apply_batch_const) (rule mem(3))
    with 2 V(1) show ?thesis by simp
  next
    case 3
    then have "tile_key l t \<notin> fst ` set (tile_puts H (D @ items) V M (length D))" using mem(1,2) by fastforce
    then have "M' (tile_key l t) = M (tile_key l t)" unfolding look by (rule apply_batch_other)
    with 3 old mono V(1) show ?thesis by auto
  qed
qed

lemma leaves_inv_batch:
  assumes inv: "leaves_inv ser D M" and V: "length D + length items \<le> 2 ^ 63" and ser: "\<forall>x \<in> set items. \<exists>b. ser x = Inr b"
    and look: "\<And>i. M' (leaf_key i) = apply_batch (leaf_puts ser (length D) items) M (leaf_key i)"
  shows "leaves_inv ser (D @ items) M'"
  unfolding leaves_inv_def
proof (intro allI impI)
  fix i assume i: "i < length (D @ items)"
  let ?lp = "leaf_puts ser (length D) items"
  have inj: "(of_nat a :: u64) = of_nat b \<longleftrightarrow> a = b" if "a < length (D @ items)" "b < length (D @ items)" for a b
    by (rule of_nat_u64_eq_iff) (use that V in simp_all)
  have key: "(leaf_key (of_nat i), v) \<in> set ?lp \<longleftrightarrow> length D \<le> i \<and> v = projr (ser (items ! (i - length D)))" for v
  proof -
    have "(leaf_key (of_nat i), v) \<in> set ?lp \<longleftrightarrow> (\<exists>a < length items. i = length D + a \<and> v = projr (ser (items ! a)))"
      using inj [of i "length D + _"] i by (auto simp: leaf_puts_def image_iff simp del: of_nat_add)
    then show ?thesis using i by (auto simp: le_iff_add)
  qed
  show "\<exists>b. ser ((D @ items) ! i) = Inr b \<and> M' (leaf_key (of_nat i)) = Some b"
  proof (cases "i < length D")
    case True
    then have "leaf_key (of_nat i) \<notin> fst ` set ?lp" using key by auto
    then have "M' (leaf_key (of_nat i)) = M (leaf_key (of_nat i))" unfolding look by (rule apply_batch_other)
    with True inv show ?thesis by (simp add: leaves_inv_def nth_append)
  next
    case False
    then have "items ! (i - length D) \<in> set items" using i by simp
    then obtain b where b: "ser (items ! (i - length D)) = Inr b" using ser by blast
    have "M' (leaf_key (of_nat i)) = Some b"
      unfolding look
    proof (rule apply_batch_const)
      show "leaf_key (of_nat i) \<in> fst ` set ?lp" using key [of b] False b by force
      show "v = b" if "(leaf_key (of_nat i), v) \<in> set ?lp" for v using that key [of v] b by simp
    qed
    with False b i show ?thesis by (simp add: nth_append)
  qed
qed

lemma store_inv_batch:
  assumes inv: "store_inv H ser D P M" and V: "length D + length items \<le> 2 ^ 63"
    and comp: "comp_at H (D @ items) (length D) (length D + length items) computed"
    and ser: "\<forall>x \<in> set items. \<exists>b. ser x = Inr b" and add: "\<And>k. k \<in> fst ` set add \<Longrightarrow> foreign_key k"
  shows "store_inv H ser (D @ items) (published P D items) (apply_batch (full_batch H ser D items add M computed) M)"
proof -
  have keys: "node_keys computed" using comp by (simp add: comp_at_def)
  note look = full_batch_lookup [OF keys add, where D = D and items = items and M = M and H = H and ser = ser]
  note i = store_invD [OF inv]
  show ?thesis
    unfolding store_inv_def sizes_inv_def size_at_def
    using V published_ok [OF i(2)] look(1-3) nodes_inv_batch [OF inv refl V comp look(5,6)]
      tiles_inv_batch [OF i(6) refl V look(7)] leaves_inv_batch [OF i(7) V ser look(4)]
    by simp
qed

lemma node_hash_complete: "hi_of n k j \<le> length D \<Longrightarrow> node_hash H (D @ E) n k j = node_hash H D n k j"
  by (simp add: node_hash_def range_hash_append)

lemma cache_inv_batch:
  assumes "cache_inv H D P C" "sizes_ok P (length D)"
  shows "cache_inv H (D @ items) (published P D items) C"
  unfolding cache_inv_def
proof (intro allI impI)
  fix k j v h
  assume a: "slot k j" "v \<le> 2 ^ 63" "in_tree v k j" "C (node k j, of_nat v) = Some h"
  have old: "v \<in> P \<Longrightarrow> h = node_hash H D v k j" "length D < v \<Longrightarrow> hi_of v k j \<le> length D \<and> h = node_hash H D v k j"
    using assms(1) a unfolding cache_inv_def by blast+
  have le: "v \<le> length D" if "v \<in> P" using assms(2) that by (simp add: sizes_ok_def)
  show "(v \<in> published P D items \<longrightarrow> h = node_hash H (D @ items) v k j) \<and>
      (length (D @ items) < v \<longrightarrow> hi_of v k j \<le> length (D @ items) \<and> h = node_hash H (D @ items) v k j)"
  proof (cases "v \<in> P")
    case True
    with old(1) le [OF True] show ?thesis by (simp add: node_hash_append)
  next
    case False
    then have "length D < v" if "v \<in> published P D items" using that by (auto simp: published_def split: if_splits)
    with old(2) show ?thesis by (auto simp: node_hash_complete)
  qed
qed

section \<open>Appending\<close>

lemma list_all2_map_of_zip:
  "list_all2 Q xs ys \<Longrightarrow> x \<in> set xs \<Longrightarrow> \<exists>y. map_of (zip xs ys) x = Some y \<and> Q x y"
  by (induction rule: list_all2_induct) auto

lemma prefetched_pre_ok:
  assumes inv: "store_inv H ser D P M" and nodes: "node_keys nodes" "prefetched_from (length D) (Suc p) 0 nodes"
    and p: "Suc p \<le> 2 ^ 63" "length D \<le> p"
    and res: "list_all2 (\<lambda>idx h. \<forall>k j. slot k j \<longrightarrow> idx = node k j \<longrightarrow>
        h = (if in_tree (length D) k j then node_hash H D (length D) k j else default_hash)) (map fst nodes) results"
  shows "pre_ok H (D @ items) (length D) (Suc p) (zip (map fst nodes) results)"
  unfolding pre_ok_def
proof (intro allI impI)
  let ?s = "length D"
  fix lo hi assume e: "edge_parent (Suc p) hi lo" and hi: "hi \<le> ?s"
  obtain k j where n: "node_of lo hi = node k j" "in_tree (Suc p) k j" "slot k j" "j * 2 ^ k = lo" "hi_of (Suc p) k j = hi"
    by (rule trange_node [OF edge_steps(4) [OF e]])
  have s: "in_tree ?s k j" "hi_of ?s k j = hi"
    using in_tree_back [OF n(2), of ?s] hi_of_full' [of "Suc p" k j ?s] n(5) hi p(2) by simp_all
  have "unat (node k j) < 2 * ?s" using s(1) unat_node [OF n(3)] by (simp add: in_tree_def)
  moreover have "unat (of_nat ?s * 2 :: u64) = 2 * ?s"
    using unat_of_nat_u64 [of "?s * 2"] p by simp
  ultimately have "node_of lo hi < of_nat ?s * 2" unfolding n(1) word_less_nat_alt by simp
  then have "node_of lo hi \<in> set (map fst nodes)" using nodes(2) e by (simp add: prefetched_from_def)
  from list_all2_map_of_zip [OF res this] obtain h where
    "map_of (zip (map fst nodes) results) (node_of lo hi) = Some h" "h = node_hash H D ?s k j"
    using n(1,3) s(1) by auto
  then show "map_of (zip (map fst nodes) results) (node_of lo hi) = Some (range_hash H (D @ items) lo hi)"
    using s(2) n(4) hi by (simp add: node_hash_def range_hash_append)
qed

definition push_done ::
  "('db, 'nc, 'tc) TreeEnv \<Rightarrow> ('db \<Rightarrow> key_values) \<Rightarrow> ('nc \<Rightarrow> u64 \<times> u64 \<rightharpoonup> bytes) \<Rightarrow> bytes list \<Rightarrow> nat set \<Rightarrow> key_values
    \<Rightarrow> bytes list \<Rightarrow> (bytes \<times> bytes) list \<Rightarrow> ('db, 'nc, 'tc) Tree \<Rightarrow> bool" where
  "push_done E view held D P M items add s \<longleftrightarrow>
     (\<exists>M'. tree_at E view held (D @ items) (published P D items) M' s \<and>
        store_inv (digest_of E) (to_stdvec E) (D @ items) (published P D items) M' \<and>
        (\<forall>k. foreign_key k \<longrightarrow> M' k = apply_batch add M k))"

lemma push_done_unchanged:
  assumes "tree_at E view held D P M s" "store_inv (digest_of E) (to_stdvec E) D P M"
  shows "push_done E view held D P M [] [] s"
  using assms by (auto simp: push_done_def published_def)

lemma full_batch_foreign:
  assumes "foreign_key k"
  shows "apply_batch (full_batch H ser D items add M computed) M k = apply_batch add M k"
proof -
  note f = foreign_distinct [OF assms]
  have ne1: "k \<notin> fst ` set (leaf_puts ser s items)" for s using keys_leaf_puts [of ser s items] f(1) by auto
  have ne2: "k \<notin> fst ` set (node_puts w computed)" for w using keys_node_puts [of w computed] f(3,5) by auto
  have ne3: "k \<notin> fst ` set (tile_puts H D' V M s)" for D' V s using keys_tile_puts [of H D' V M s] f(6) by auto
  have other: "apply_batch add N k = apply_batch add N' k" if "N k = N' k" for N N'
    using that by (simp add: apply_batch_def map_add_def split: option.split)
  show ?thesis
    unfolding full_batch_def Let_def apply_batch_append apply_batch_Cons
    by (simp add: f(7) apply_batch_other [OF ne3])
      (rule other, simp add: f(2,4) apply_batch_other [OF ne2] apply_batch_other [OF ne1])
qed

lemma triple_write:
  assumes env: "env_ok E view held F" and inv: "store_inv (digest_of E) (to_stdvec E) D P M"
    and V: "length D + length items \<le> 2 ^ 63" and comp: "comp_at (digest_of E) (D @ items) (length D) (length D + length items) computed"
    and ser: "\<forall>x \<in> set items. \<exists>b. to_stdvec E x = Inr b" and add: "\<And>k. k \<in> fst ` set add \<Longrightarrow> foreign_key k"
  shows "triple (tree_at E view held D P M)
    (on_tree_db (rl_write_batch (slate E) (full_batch (digest_of E) (to_stdvec E) D items add M computed)))
    (\<lambda>_. push_done E view held D P M items add)
    (\<lambda>e s. (tree_at E view held D P M s \<or> push_done E view held D P M items add s) \<and> e \<in> DbError ` F)"
  unfolding on_tree_db_def
proof (rule triple_map_err)
  let ?b = "full_batch (digest_of E) (to_stdvec E) D items add M computed"
  have ok: "slatedb_ok (slate E) view F" using env by (simp add: env_ok_def)
  have si: "store_inv (digest_of E) (to_stdvec E) (D @ items) (published P D items) (apply_batch ?b M)"
    by (rule store_inv_batch [OF inv V comp ser add])
  have dn: "push_done E view held D P M items add (s\<lparr>tree_db := d\<rparr>)"
    if "tree_at E view held D P M s" "rl_contents view d = apply_batch ?b M" for s d
    unfolding push_done_def
    by (rule exI [of _ "apply_batch ?b M"])
      (use that si cache_inv_batch [OF _ store_invD(2) [OF inv]] full_batch_foreign in \<open>auto simp: tree_at_def\<close>)
  show "triple (tree_at E view held D P M) (zoom tree_db (\<lambda>d s. s\<lparr>tree_db := d\<rparr>) (rl_write_batch (slate E) ?b))
    (\<lambda>_. push_done E view held D P M items add)
    (\<lambda>e s. (tree_at E view held D P M s \<or> push_done E view held D P M items add s) \<and> DbError e \<in> DbError ` F)"
  proof (rule triple_zoom [OF rl.write_batch_spec [OF ok, of M ?b]])
    show "rl_contents view (tree_db s) = M" if "tree_at E view held D P M s" for s using that by (simp add: tree_at_def)
    show "push_done E view held D P M items add (s\<lparr>tree_db := d\<rparr>)"
      if "tree_at E view held D P M s" "rl_contents view d = apply_batch ?b M" for s d by (rule dn [OF that])
    show "(tree_at E view held D P M (s\<lparr>tree_db := d\<rparr>) \<or> push_done E view held D P M items add (s\<lparr>tree_db := d\<rparr>)) \<and> DbError e \<in> DbError ` F"
      if t: "tree_at E view held D P M s" and "rl_contents view d \<in> {M, apply_batch ?b M} \<and> e \<in> F" for s d e
    proof (cases "rl_contents view d = M")
      case True
      with that show ?thesis by (simp add: tree_at_def)
    next
      case False
      with that dn [OF t, of d] show ?thesis by simp
    qed
  qed
qed

lemma triple_batch_push_with_data:
  assumes env: "env_ok E view held F" and inv: "store_inv (digest_of E) (to_stdvec E) D P M"
    and V: "length D + length items \<le> 2 ^ 63" and add: "\<And>k. k \<in> fst ` set add \<Longrightarrow> foreign_key k"
  shows "triple (tree_at E view held D P M) (batch_push_with_data E items add)
    (\<lambda>r s. r = of_nat (length D) \<and> push_done E view held D P M items add s)
    (\<lambda>e s. (tree_at E view held D P M s \<or> push_done E view held D P M items add s) \<and>
       (e \<in> DbError ` F \<or> (\<exists>x \<in> set items. \<exists>m. to_stdvec E x = Inl m \<and> e = EncodingError m)))"
    (is "triple ?T _ ?Q ?R")
  unfolding batch_push_with_data_def
proof (rule triple_then)
  let ?H = "digest_of E" and ?ser = "to_stdvec E" and ?s = "length D" and ?V = "length D + length items"
  show "triple ?T (tree_len E) (\<lambda>r s. ?T s \<and> r = of_nat ?s) ?R"
    using answers_sizes(2) [OF env inv] unfolding answers_def by (rule triple_conseq) auto
  let ?rest = "\<lambda>st :: WriteBatch \<times> u64 \<times> (u64 \<times> bytes) list.
       case st of (batch, final_tree_size, computed_hashes) \<Rightarrow>
       let batch1 = batch @ node_puts final_tree_size computed_hashes
             @ [(META_KEY, be64 final_tree_size), (COMMITTED_SIZE_KEY, be64 final_tree_size)]
             @ add in
       and_then (precompute_tiles_batch E batch1 (of_nat ?s) final_tree_size computed_hashes) (\<lambda>batch2.
       and_then (on_tree_db (rl_write_batch (slate E) batch2)) (\<lambda>_.
       ret (of_nat ?s)))"
  let ?A = "\<lambda>nodes. node_keys nodes \<and> (\<forall>p. ?s \<le> p \<longrightarrow> p < ?V \<longrightarrow> prefetched_from ?s (Suc p) 0 nodes)"
  let ?rel = "\<lambda>idx h. \<forall>k j. slot k j \<longrightarrow> idx = node k j \<longrightarrow> h = (if in_tree ?s k j then node_hash ?H D ?s k j else default_hash)"
  have prefetch: "triple ?T (map_io (get_node_hash E) (map fst nodes)) (\<lambda>rs s. ?T s \<and> list_all2 ?rel (map fst nodes) rs) ?R"
    if A: "?A nodes" for nodes :: "(u64 \<times> unit) list"
  proof (rule triple_map_io_rel)
    fix idx assume "idx \<in> set (map fst nodes)"
    with A obtain k j where n: "slot k j" "idx = node k j" by (auto simp: node_keys_def)
    show "triple ?T (get_node_hash E idx) (\<lambda>h s. ?T s \<and> ?rel idx h) ?R"
      unfolding n(2) by (rule triple_conseq [OF triple_get_node_hash [OF env inv n(1)]]) (auto simp: node_inject [OF n(1)])
  qed
  have finish: "triple ?T (and_then (precompute_tiles_batch E (leaf_puts ?ser ?s items @ node_puts (of_nat ?V) computed
             @ [(META_KEY, be64 (of_nat ?V)), (COMMITTED_SIZE_KEY, be64 (of_nat ?V))] @ add) (of_nat ?s) (of_nat ?V) computed)
       (\<lambda>batch2. and_then (on_tree_db (rl_write_batch (slate E) batch2)) (\<lambda>_. ret (of_nat ?s)))) ?Q ?R"
    if comp: "comp_at ?H (D @ items) ?s ?V computed" and ser: "\<forall>x \<in> set items. \<exists>b. ?ser x = Inr b" for computed
  proof (rule triple_then [where x = "full_batch ?H ?ser D items add M computed"])
    show "triple ?T (precompute_tiles_batch E (leaf_puts ?ser ?s items @ node_puts (of_nat ?V) computed
             @ [(META_KEY, be64 (of_nat ?V)), (COMMITTED_SIZE_KEY, be64 (of_nat ?V))] @ add) (of_nat ?s) (of_nat ?V) computed)
        (\<lambda>b s. ?T s \<and> b = full_batch ?H ?ser D items add M computed) ?R"
      by (rule triple_conseq [OF triple_precompute_tiles [OF env inv comp refl V]])
        (auto simp: full_batch_def tile_puts_def tile_levels_def Let_def)
    show "triple ?T (and_then (on_tree_db (rl_write_batch (slate E) (full_batch ?H ?ser D items add M computed))) (\<lambda>_. ret (of_nat ?s))) ?Q ?R"
      by (rule triple_and_then [where M = "\<lambda>_. push_done E view held D P M items add"], rule triple_conseq [OF triple_write [OF env inv V comp ser add]])
        (auto intro!: triple_ret)
  qed
  have push: "triple ?T (and_then (fold_io (push_item E (of_nat ?s) pre) items ([], of_nat ?s, [])) ?rest) ?Q ?R"
    if pre: "\<And>p. ?s \<le> p \<Longrightarrow> p < ?V \<Longrightarrow> pre_ok ?H (D @ items) ?s (Suc p) pre" for pre
  proof -
    have tp: "triple ?T (fold_io (push_item E (of_nat ?s) pre) items ([], of_nat ?s, []))
      (\<lambda>st s. ?T s \<and> (\<forall>x \<in> set items. \<exists>b. ?ser x = Inr b) \<and> (\<exists>computed. st = (leaf_puts ?ser ?s items, of_nat ?V, computed) \<and>
        comp_at ?H (D @ items) ?s ?V computed)) ?R"
      by (rule triple_conseq [OF triple_push_items [OF refl V pre, where T = ?T]]) auto
    show ?thesis
  proof (rule triple_and_then [OF tp])
    fix st :: "WriteBatch \<times> u64 \<times> (u64 \<times> bytes) list"
    let ?B = "(\<forall>x \<in> set items. \<exists>b. ?ser x = Inr b) \<and> (\<exists>computed. st = (leaf_puts ?ser ?s items, of_nat ?V, computed) \<and>
      comp_at ?H (D @ items) ?s ?V computed)"
    show "triple (\<lambda>s. ?T s \<and> ?B) (?rest st) ?Q ?R"
    proof (rule triple_pre [where B = ?B], simp)
      assume ?B
      then obtain computed where c: "st = (leaf_puts ?ser ?s items, of_nat ?V, computed)" "comp_at ?H (D @ items) ?s ?V computed"
        "\<forall>x \<in> set items. \<exists>b. ?ser x = Inr b" by blast
      show "triple (\<lambda>s. ?T s \<and> ?B) (?rest st) ?Q ?R"
        unfolding c(1) prod.case Let_def by (rule triple_weaken_pre [OF finish [OF c(2,3)]]) simp
    qed
  qed
  qed
  show "triple ?T (if items = [] \<and> add = [] then ret (of_nat ?s)
     else
       and_then (nodes_to_prefetch (of_nat ?s) (length items)) (\<lambda>nodes.
       and_then (map_io (get_node_hash E) (map fst nodes)) (\<lambda>results.
       let prefetched_nodes = zip (map fst nodes) results in
       and_then (fold_io (push_item E (of_nat ?s) prefetched_nodes) items ([], of_nat ?s, [])) ?rest))) ?Q ?R"
  proof (rule triple_if)
    assume "items = [] \<and> add = []"
    then show "triple ?T (ret (of_nat ?s)) ?Q ?R" using push_done_unchanged [OF _ inv] by (intro triple_ret) simp
  next
    have body: "triple (\<lambda>s. ?T s \<and> ?A nodes) (and_then (map_io (get_node_hash E) (map fst nodes)) G) ?Q ?R"
      if G: "\<And>results. list_all2 ?rel (map fst nodes) results \<Longrightarrow> ?A nodes \<Longrightarrow> triple ?T (G results) ?Q ?R"
      for nodes :: "(u64 \<times> unit) list" and G
    proof (rule triple_pre [where B = "?A nodes"], simp)
      assume A: "?A nodes"
      show "triple (\<lambda>s. ?T s \<and> ?A nodes) (and_then (map_io (get_node_hash E) (map fst nodes)) G) ?Q ?R"
      proof (rule triple_weaken_pre [OF triple_and_then [OF prefetch [OF A]]])
        show "triple (\<lambda>s. ?T s \<and> list_all2 ?rel (map fst nodes) results) (G results) ?Q ?R" for results
          by (rule triple_pre [where B = "list_all2 ?rel (map fst nodes) results"]) (auto intro: triple_weaken_pre [OF G [OF _ A]])
      qed simp
    qed
    show "triple ?T (and_then (nodes_to_prefetch (of_nat ?s) (length items)) (\<lambda>nodes.
       and_then (map_io (get_node_hash E) (map fst nodes)) (\<lambda>results.
       let prefetched_nodes = zip (map fst nodes) results in
       and_then (fold_io (push_item E (of_nat ?s) prefetched_nodes) items ([], of_nat ?s, [])) ?rest))) ?Q ?R"
      unfolding Let_def
      by (rule triple_and_then [OF triple_nodes_to_prefetch [OF V]], rule body)
        (rule push [unfolded Let_def], rule prefetched_pre_ok [OF inv], use V in auto)
  qed
qed

end
