(* ===== verification/Slate_Tree_Props.thy ===== *)
theory Slate_Tree_Props
  imports Slate_Tree_Batch
begin

text \<open>
  What the stored tree promises to its clients. \<open>tree_holds\<close> is the abstraction: the tree in state \<open>s\<close>
  holds the leaves \<open>D\<close> and has published the sizes \<open>P\<close>. The locale \<open>proof_source\<close> is the
  interface of everything that serves proofs from such a state, \<open>merkle_log\<close> extends it by the root
  and by appending; its lemmas are the end-to-end facts (a served proof is accepted by the
  verifier, what was published stays). \<^verbatim>\<open>SlateDbBackedTree\<close> is interpreted as a \<open>merkle_log\<close>.
\<close>

section \<open>The abstraction\<close>

definition tree_holds ::
  "('db, 'nc, 'tc) TreeEnv \<Rightarrow> ('db \<Rightarrow> key_values) \<Rightarrow> ('nc \<Rightarrow> u64 \<times> u64 \<rightharpoonup> bytes) \<Rightarrow> bytes list \<Rightarrow> nat set
    \<Rightarrow> ('db, 'nc, 'tc) Tree \<Rightarrow> bool" where
  "tree_holds E view held D P s \<longleftrightarrow>
     (\<exists>M. store_inv (digest_of E) (to_stdvec E) D P M \<and> tree_at E view held D P M s)"

definition serializable :: "('db, 'nc, 'tc) TreeEnv \<Rightarrow> bytes \<Rightarrow> bool" where
  "serializable E x \<longleftrightarrow> (\<exists>b. to_stdvec E x = Inr b)"

definition tree_contents :: "('db \<Rightarrow> key_values) \<Rightarrow> ('db, 'nc, 'tc) Tree \<Rightarrow> key_values" where
  "tree_contents view s = rl_contents view (tree_db s)"

lemma tree_holds_bounds: "tree_holds E view held D P s \<Longrightarrow> length D \<le> 2 ^ 63 \<and> sizes_ok P (length D)"
  by (auto simp: tree_holds_def store_inv_def)

lemma answers_outcome:
  assumes "answers T m r X" "T s"
  shows "\<exists>s'. (m s = (map_sum Err id r, s') \<or> (\<exists>e \<in> X. m s = (Inl (Err e), s'))) \<and> T s'"
  using tripleD [OF assms(1) [unfolded answers_def] assms(2)] by (cases r) fastforce+

text \<open>The answer of a read operation, as an equation.\<close>

lemma holds_answers:
  assumes "\<And>M. store_inv (digest_of E) (to_stdvec E) D P M \<Longrightarrow> answers (tree_at E view held D P M) m r (DbError ` F)"
    and "tree_holds E view held D P s"
  shows "\<exists>s'. (m s = (map_sum Err id r, s') \<or> (\<exists>e \<in> F. m s = (Inl (Err (DbError e)), s'))) \<and> tree_holds E view held D P s'"
proof -
  from assms(2) obtain M where M: "store_inv (digest_of E) (to_stdvec E) D P M" "tree_at E view held D P M s"
    by (auto simp: tree_holds_def)
  from answers_outcome [OF assms(1) [OF M(1)] M(2)] show ?thesis
    using M(1) by (auto simp: tree_holds_def)
qed

lemma push_done_holds:
  assumes "push_done E view held D P M items add s"
  shows "tree_holds E view held (D @ items) (published P D items) s"
    "foreign_key k \<Longrightarrow> tree_contents view s k = apply_batch add M k"
  using assms by (auto simp: push_done_def tree_holds_def tree_contents_def tree_at_def)

lemma holds_push:
  assumes "env_ok E view held F" "tree_holds E view held D P s" "length D + length items \<le> 2 ^ 63"
    and "\<forall>k \<in> fst ` set add. foreign_key k"
  obtains (pushed) s' where "batch_push_with_data E items add s = (Inr (of_nat (length D)), s')"
      "tree_holds E view held (D @ items) (published P D items) s'"
      "\<forall>k. foreign_key k \<longrightarrow> tree_contents view s' k = apply_batch add (tree_contents view s) k"
    | (failed) e s' where "batch_push_with_data E items add s = (Inl (Err e), s')"
      "e \<in> DbError ` F \<or> (\<exists>x \<in> set items. \<exists>m. to_stdvec E x = Inl m \<and> e = EncodingError m)"
      "tree_holds E view held D P s' \<and> tree_contents view s' = tree_contents view s \<or>
       tree_holds E view held (D @ items) (published P D items) s' \<and>
         (\<forall>k. foreign_key k \<longrightarrow> tree_contents view s' k = apply_batch add (tree_contents view s) k)"
proof -
  obtain M where M: "store_inv (digest_of E) (to_stdvec E) D P M" "tree_at E view held D P M s"
    using assms(2) by (auto simp: tree_holds_def)
  have c: "tree_contents view s = M" using M(2) by (simp add: tree_contents_def tree_at_def)
  let ?why = "\<lambda>e. e \<in> DbError ` F \<or> (\<exists>x \<in> set items. \<exists>m. to_stdvec E x = Inl m \<and> e = EncodingError m)"
  have trip: "triple (tree_at E view held D P M) (batch_push_with_data E items add)
    (\<lambda>r s. r = of_nat (length D) \<and> push_done E view held D P M items add s)
    (\<lambda>e s. (tree_at E view held D P M s \<or> push_done E view held D P M items add s) \<and> ?why e)"
    by (rule triple_batch_push_with_data [OF assms(1) M(1) assms(3)]) (rule bspec [OF assms(4)])
  consider s' where "batch_push_with_data E items add s = (Inr (of_nat (length D)), s')" "push_done E view held D P M items add s'"
    | e s' where "batch_push_with_data E items add s = (Inl (Err e), s')" "tree_at E view held D P M s'" "?why e"
    | e s' where "batch_push_with_data E items add s = (Inl (Err e), s')" "push_done E view held D P M items add s'" "?why e"
    using tripleD [OF trip M(2)] by (elim disjE exE conjE) simp_all
  then show thesis
  proof cases
    case 1
    with push_done_holds [OF 1(2)] c show thesis by (intro pushed) auto
  next
    case 2
    show thesis
      by (rule failed [OF 2(1,3)]) (use 2(2) M(1) c in \<open>auto simp: tree_holds_def tree_contents_def tree_at_def\<close>)
  next
    case 3
    show thesis by (rule failed [OF 3(1,3)]) (use push_done_holds [OF 3(2)] c in auto)
  qed
qed

text \<open>The read operations refine their specifications.\<close>

lemma holds_reads:
  assumes "env_ok E view held F" "tree_holds E view held D P s"
  shows "\<exists>s'. (root_at_size E w s = (map_sum Err id (spec_root (digest_of E) D P w), s') \<or>
      (\<exists>e \<in> F. root_at_size E w s = (Inl (Err (DbError e)), s'))) \<and> tree_holds E view held D P s'"
    "\<exists>s'. (prove_inclusion_at_size E i w s = (map_sum Err id (spec_inclusion (digest_of E) D P i w), s') \<or>
      (\<exists>e \<in> F. prove_inclusion_at_size E i w s = (Inl (Err (DbError e)), s'))) \<and> tree_holds E view held D P s'"
    "\<exists>s'. (prove_consistency_between E a b s = (map_sum Err id (spec_consistency (digest_of E) D P a b), s') \<or>
      (\<exists>e \<in> F. prove_consistency_between E a b s = (Inl (Err (DbError e)), s'))) \<and> tree_holds E view held D P s'"
    "\<exists>s'. (tree_len E s = (Inr (of_nat (length D)), s') \<or>
      (\<exists>e \<in> F. tree_len E s = (Inl (Err (DbError e)), s'))) \<and> tree_holds E view held D P s'"
    "\<exists>s'. (get_committed_size E s = (Inr (of_nat (length D)), s') \<or>
      (\<exists>e \<in> F. get_committed_size E s = (Inl (Err (DbError e)), s'))) \<and> tree_holds E view held D P s'"
  using holds_answers [OF root_at_size_answers [OF assms(1)] assms(2)]
    holds_answers [OF prove_inclusion_answers [OF assms(1)] assms(2)]
    holds_answers [OF prove_consistency_answers [OF assms(1)] assms(2)]
    holds_answers [OF answers_sizes(2) [OF assms(1)] assms(2)] holds_answers [OF answers_sizes(3) [OF assms(1)] assms(2)]
  by simp_all

text \<open>The verifiers accept the RFC 6962 proofs of a prefix.\<close>

lemma inclusion_verify_complete_take:
  assumes "\<And>x. length (H x) = output_size" "i < v" "v \<le> length D" "v \<le> 2 ^ 63"
  shows "inclusion_verify H (inclusion_from_digests (path H i (take v D))) (D ! i) (of_nat i)
    \<lparr>root_hash = mth H (take v D), num_leaves = of_nat v\<rparr> = Some (Inr ())"
  using inclusion_verify_accepts [of H i "take v D"] assms by (simp add: min_absorb2)

lemma consistency_verify_complete_take:
  assumes "\<And>x. length (H x) = output_size" "0 < m" "m \<le> v" "v \<le> length D" "v \<le> 2 ^ 63"
  shows "consistency_verify H (consistency_from_digests (rfc_proof H m (take v D)))
    \<lparr>root_hash = mth H (take m D), num_leaves = of_nat m\<rparr> \<lparr>root_hash = mth H (take v D), num_leaves = of_nat v\<rparr>
      = Some (Inr ())"
  using consistency_verify_accepts [of H m "take v D"] assms by (simp add: min_absorb1 min_absorb2)

section \<open>The interface\<close>

locale proof_source =
  fixes good :: "'e \<Rightarrow> bool"
    and holds :: "'e \<Rightarrow> bytes list \<Rightarrow> nat set \<Rightarrow> 's \<Rightarrow> bool"
    and digest :: "'e \<Rightarrow> digest_fun"
    and incl :: "'e \<Rightarrow> u64 \<Rightarrow> u64 \<Rightarrow> ('s, 'x, InclusionProof) io"
    and cons :: "'e \<Rightarrow> u64 \<Rightarrow> u64 \<Rightarrow> ('s, 'x, ConsistencyProof) io"
  assumes digest_length: "good e \<Longrightarrow> length (digest e x) = output_size"
    and holds_bounds: "good e \<Longrightarrow> holds e D P s \<Longrightarrow> length D \<le> 2 ^ 63 \<and> sizes_ok P (length D)"
    and incl_law: "good e \<Longrightarrow> holds e D P s \<Longrightarrow> v \<in> P \<Longrightarrow> i < v \<Longrightarrow>
      \<exists>s'. incl e (of_nat i) (of_nat v) s = (Inr (inclusion_from_digests (path (digest e) i (take v D))), s') \<and> holds e D P s'"
    and cons_law: "good e \<Longrightarrow> holds e D P s \<Longrightarrow> v \<in> P \<Longrightarrow> m \<in> P \<Longrightarrow> m \<le> v \<Longrightarrow>
      \<exists>s'. cons e (of_nat m) (of_nat v) s = (Inr (consistency_from_digests (rfc_proof (digest e) m (take v D))), s') \<and> holds e D P s'"
begin

lemma published_bounds:
  assumes "good e" "holds e D P s" "v \<in> P"
  shows "0 < v" "v \<le> length D" "v \<le> 2 ^ 63" "length (take v D) = v"
  using holds_bounds [OF assms(1,2)] assms(3) by (auto simp: sizes_ok_def)

text \<open>A served inclusion proof is accepted against the root of the prefix.\<close>

lemma incl_accepted:
  assumes "good e" "holds e D P s" "v \<in> P" "i < v"
  shows "\<exists>prf s'. incl e (of_nat i) (of_nat v) s = (Inr prf, s') \<and> holds e D P s' \<and>
    inclusion_verify (digest e) prf (D ! i) (of_nat i) \<lparr>root_hash = mth (digest e) (take v D), num_leaves = of_nat v\<rparr>
      = Some (Inr ())"
proof -
  note b = published_bounds [OF assms(1-3)]
  show ?thesis
    using incl_law [OF assms] inclusion_verify_complete_take [of "digest e", OF digest_length [OF assms(1)] assms(4) b(2,3)] by blast
qed

lemma cons_accepted:
  assumes "good e" "holds e D P s" "v \<in> P" "m \<in> P" "m \<le> v"
  shows "\<exists>prf s'. cons e (of_nat m) (of_nat v) s = (Inr prf, s') \<and> holds e D P s' \<and>
    consistency_verify (digest e) prf \<lparr>root_hash = mth (digest e) (take m D), num_leaves = of_nat m\<rparr>
      \<lparr>root_hash = mth (digest e) (take v D), num_leaves = of_nat v\<rparr> = Some (Inr ())"
proof -
  note b = published_bounds [OF assms(1-3)] published_bounds(1) [OF assms(1,2,4)]
  show ?thesis
    using cons_law [OF assms] consistency_verify_complete_take [of "digest e", OF digest_length [OF assms(1)] b(5) assms(5) b(2,3)] by blast
qed

end

text \<open>A log: proofs, the root at a published size, and appending a batch.\<close>

locale merkle_log = proof_source good holds digest incl cons
  for good :: "'e \<Rightarrow> bool" and holds :: "'e \<Rightarrow> bytes list \<Rightarrow> nat set \<Rightarrow> 's \<Rightarrow> bool" and digest :: "'e \<Rightarrow> digest_fun"
    and incl :: "'e \<Rightarrow> u64 \<Rightarrow> u64 \<Rightarrow> ('s, 'x, InclusionProof) io"
    and cons :: "'e \<Rightarrow> u64 \<Rightarrow> u64 \<Rightarrow> ('s, 'x, ConsistencyProof) io" +
  fixes root :: "'e \<Rightarrow> u64 \<Rightarrow> ('s, 'x, RootHash) io"
    and push :: "'e \<Rightarrow> bytes list \<Rightarrow> (bytes \<times> bytes) list \<Rightarrow> ('s, 'x, u64) io"
    and storable :: "'e \<Rightarrow> bytes \<Rightarrow> bool"
  assumes root_law: "good e \<Longrightarrow> holds e D P s \<Longrightarrow> v \<in> P \<Longrightarrow>
      \<exists>s'. root e (of_nat v) s = (Inr \<lparr>root_hash = mth (digest e) (take v D), num_leaves = of_nat v\<rparr>, s') \<and> holds e D P s'"
    and push_law: "good e \<Longrightarrow> holds e D P s \<Longrightarrow> length D + length items \<le> 2 ^ 63 \<Longrightarrow> list_all (storable e) items \<Longrightarrow>
      list_all (\<lambda>p. foreign_key (fst p)) add \<Longrightarrow>
      \<exists>s'. push e items add s = (Inr (of_nat (length D)), s') \<and> holds e (D @ items) (published P D items) s'"
begin

text \<open>A sequence of batches: what is held, and the index each batch starts at.\<close>

lemma push_batches:
  assumes "good e" "holds e D P s" "length D + length (concat (map fst bs)) \<le> 2 ^ 63"
    and "\<forall>b \<in> set bs. list_all (storable e) (fst b) \<and> list_all (\<lambda>p. foreign_key (fst p)) (snd b)"
  shows "\<exists>s' P'. map_io (\<lambda>b. push e (fst b) (snd b)) bs s
      = (Inr (map (\<lambda>i. of_nat (length D + length (concat (map fst (take i bs))))) [0..<length bs]), s') \<and>
    P \<subseteq> P' \<and> holds e (D @ concat (map fst bs)) P' s'"
  using assms(2-4)
proof (induction bs arbitrary: D P s)
  case Nil
  then show ?case by (auto simp: ret_def)
next
  case (Cons b bs)
  have b: "list_all (storable e) (fst b)" "list_all (\<lambda>p. foreign_key (fst p)) (snd b)" "length D + length (fst b) \<le> 2 ^ 63"
    using Cons.prems by auto
  obtain s1 where s1: "push e (fst b) (snd b) s = (Inr (of_nat (length D)), s1)"
    "holds e (D @ fst b) (published P D (fst b)) s1"
    using push_law [OF assms(1) Cons.prems(1) b(3,1,2)] by blast
  have "length (D @ fst b) + length (concat (map fst bs)) \<le> 2 ^ 63" using Cons.prems(2) by simp
  from Cons.IH [OF s1(2) this] Cons.prems(3) obtain s2 P2 where s2:
    "map_io (\<lambda>b. push e (fst b) (snd b)) bs s1
      = (Inr (map (\<lambda>i. of_nat (length (D @ fst b) + length (concat (map fst (take i bs))))) [0..<length bs]), s2)"
    "published P D (fst b) \<subseteq> P2" "holds e ((D @ fst b) @ concat (map fst bs)) P2 s2"
    by auto
  have upt: "[0..<length (b # bs)] = 0 # map Suc [0..<length bs]" by (simp add: map_Suc_upt upt_conv_Cons del: upt_Suc)
  have "P \<subseteq> P2" using s2(2) by (auto simp: published_def split: if_splits)
  moreover have "map_io (\<lambda>b. push e (fst b) (snd b)) (b # bs) s
      = (Inr (map (\<lambda>i. of_nat (length D + length (concat (map fst (take i (b # bs)))))) [0..<length (b # bs)]), s2)"
    unfolding upt using s1(1) s2(1) by (simp add: and_then_def ret_def add.assoc o_def del: of_nat_add)
  ultimately show ?case using s2(3) by auto
qed

text \<open>Appending never changes what is served for a size that was published before.\<close>

lemma published_stable:
  assumes "good e" "holds e D P s" "v \<in> P" "i < v" "length D + length (concat (map fst bs)) \<le> 2 ^ 63"
    and "\<forall>b \<in> set bs. list_all (storable e) (fst b) \<and> list_all (\<lambda>p. foreign_key (fst p)) (snd b)"
  shows "\<exists>r prf s' s''. root e (of_nat v) s = (Inr r, s') \<and> incl e (of_nat i) (of_nat v) s' = (Inr prf, s'') \<and>
     (\<exists>t t' t''. map_io (\<lambda>b. push e (fst b) (snd b)) bs s'' = (Inr (map (\<lambda>j. of_nat (length D + length (concat (map fst (take j bs))))) [0..<length bs]), t) \<and>
        root e (of_nat v) t = (Inr r, t') \<and> incl e (of_nat i) (of_nat v) t' = (Inr prf, t''))"
proof -
  note b = published_bounds [OF assms(1-3)]
  obtain s' where r: "root e (of_nat v) s = (Inr \<lparr>root_hash = mth (digest e) (take v D), num_leaves = of_nat v\<rparr>, s')" "holds e D P s'"
    using root_law [OF assms(1-3)] by blast
  obtain s'' where p: "incl e (of_nat i) (of_nat v) s' = (Inr (inclusion_from_digests (path (digest e) i (take v D))), s'')" "holds e D P s''"
    using incl_law [OF assms(1) r(2) assms(3,4)] by blast
  let ?D = "D @ concat (map fst bs)"
  obtain t P' where t: "map_io (\<lambda>b. push e (fst b) (snd b)) bs s''
      = (Inr (map (\<lambda>j. of_nat (length D + length (concat (map fst (take j bs))))) [0..<length bs]), t)" "P \<subseteq> P'" "holds e ?D P' t"
    using push_batches [OF assms(1) p(2) assms(5,6)] by blast
  have v: "v \<in> P'" "take v ?D = take v D" using t(2) assms(3) b(2) by auto
  obtain t' where r': "root e (of_nat v) t = (Inr \<lparr>root_hash = mth (digest e) (take v D), num_leaves = of_nat v\<rparr>, t')" "holds e ?D P' t'"
    using root_law [OF assms(1) t(3) v(1), unfolded v(2)] by blast
  obtain t'' where "incl e (of_nat i) (of_nat v) t' = (Inr (inclusion_from_digests (path (digest e) i (take v D))), t'')"
    using incl_law [OF assms(1) r'(2) v(1) assms(4), unfolded v(2)] by blast
  with r p t r' show ?thesis by blast
qed

end

section \<open>The stored tree as a log\<close>

text \<open>A store that does not fail, with the abstraction functions of its parts.\<close>

type_synonym ('db, 'nc, 'tc) live =
  "('db, 'nc, 'tc) TreeEnv \<times> ('db \<Rightarrow> key_values) \<times> ('nc \<Rightarrow> u64 \<times> u64 \<rightharpoonup> bytes)"

abbreviation live_ok :: "('db, 'nc, 'tc) live \<Rightarrow> bool" where
  "live_ok e \<equiv> env_ok (fst e) (fst (snd e)) (snd (snd e)) {}"

abbreviation live_holds :: "('db, 'nc, 'tc) live \<Rightarrow> bytes list \<Rightarrow> nat set \<Rightarrow> ('db, 'nc, 'tc) Tree \<Rightarrow> bool" where
  "live_holds e \<equiv> tree_holds (fst e) (fst (snd e)) (snd (snd e))"

lemma holds_published:
  assumes "tree_holds E view held D P s" "v \<in> P"
  shows "0 < v" "v \<le> length D" "unat (of_nat v :: u64) = v" "v \<le> 2 ^ 63"
  using tree_holds_bounds [OF assms(1)] assms(2) by (auto simp: sizes_ok_def unat_of_nat)

lemma rfc_proof_self: "D \<noteq> [] \<Longrightarrow> rfc_proof H (length D) D = []"
  by (simp add: rfc_proof_def rfc_subproof.simps)

interpretation st: merkle_log live_ok live_holds "\<lambda>e. digest_of (fst e)" "\<lambda>e. prove_inclusion_at_size (fst e)"
  "\<lambda>e. prove_consistency_between (fst e)" "\<lambda>e. root_at_size (fst e)" "\<lambda>e. batch_push_with_data (fst e)"
  "\<lambda>e. serializable (fst e)"
proof unfold_locales
  fix e :: "('a, 'b, 'c) live" and D P and s :: "('a, 'b, 'c) Tree" and v m i :: nat and x items add
  assume e: "live_ok e"
  show "length (digest_of (fst e) x) = output_size" using e by (simp add: env_ok_def)
  assume h: "live_holds e D P s"
  show "length D \<le> 2 ^ 63 \<and> sizes_ok P (length D)" by (rule tree_holds_bounds [OF h])
  note b = holds_published [OF h]
  show "\<exists>s'. root_at_size (fst e) (of_nat v) s
      = (Inr \<lparr>root_hash = mth (digest_of (fst e)) (take v D), num_leaves = of_nat v\<rparr>, s') \<and> live_holds e D P s'" if "v \<in> P"
    using holds_reads(1) [OF e h, of "of_nat v"] b [OF that] that
    by (auto simp: spec_root_def)
  show "\<exists>s'. prove_inclusion_at_size (fst e) (of_nat i) (of_nat v) s
      = (Inr (inclusion_from_digests (path (digest_of (fst e)) i (take v D))), s') \<and> live_holds e D P s'" if "v \<in> P" "i < v"
  proof -
    have "unat (of_nat i :: u64) = i" using b(4) [OF that(1)] that(2) by (simp add: unat_of_nat)
    then show ?thesis
      using holds_reads(2) [OF e h, of "of_nat i" "of_nat v"] b [OF that(1)] that
      by (auto simp: spec_inclusion_def)
  qed
  show "\<exists>s'. prove_consistency_between (fst e) (of_nat m) (of_nat v) s
      = (Inr (consistency_from_digests (rfc_proof (digest_of (fst e)) m (take v D))), s') \<and> live_holds e D P s'"
    if "v \<in> P" "m \<in> P" "m \<le> v"
  proof -
    have "rfc_proof (digest_of (fst e)) v (take v D) = []"
      using rfc_proof_self [of "take v D" "digest_of (fst e)"] b(1,2) [OF that(1)] by (cases "D = []") (auto simp: min_absorb2)
    moreover have "(of_nat m :: u64) = of_nat v \<longleftrightarrow> m = v" using of_nat_u64_eq_iff [of m v] b(4) [OF that(1)] b(4) [OF that(2)] by simp
    moreover have "(of_nat m :: u64) \<noteq> 0" using of_nat_u64_eq_iff [of m 0] b(1,4) [OF that(2)] by simp
    ultimately show ?thesis
      using holds_reads(3) [OF e h, of "of_nat m" "of_nat v"] b [OF that(1)] b [OF that(2)] that
      by (auto simp: spec_consistency_def)
  qed
  show "\<exists>s'. batch_push_with_data (fst e) items add s = (Inr (of_nat (length D)), s') \<and>
      live_holds e (D @ items) (published P D items) s'"
    if l: "length D + length items \<le> 2 ^ 63" and ser: "list_all (serializable (fst e)) items"
      and f: "list_all (\<lambda>p. foreign_key (fst p)) add"
  proof -
    have "\<forall>k \<in> fst ` set add. foreign_key k" using f by (auto simp: list_all_iff)
    from holds_push [OF e h l this] show ?thesis
      by cases (use ser in \<open>auto simp: list_all_iff serializable_def\<close>)
  qed
qed


section \<open>Opening the tree\<close>

text \<open>A store without any key of the tree holds the empty tree.\<close>

definition fresh_store :: "key_values \<Rightarrow> bool" where
  "fresh_store M \<longleftrightarrow> (\<forall>k. \<not> foreign_key k \<longrightarrow> M k = None)"

lemma tree_keys_not_foreign:
  "\<not> foreign_key (leaf_key i)" "\<not> foreign_key META_KEY" "\<not> foreign_key (versioned_node_key i w)" "\<not> foreign_key COMMITTED_SIZE_KEY"
  "\<not> foreign_key (node_latest_version_key i)" "\<not> foreign_key (tile_key l i)" "\<not> foreign_key LAST_PRECOMPUTED_SIZE_KEY"
  by (simp_all add: foreign_key_def tree_tags_def key_tags)

lemma not_tile_full_0 [simp]: "\<not> tile_full 0 l t"
  by (simp add: tile_full_def)

lemma not_in_tree_0 [simp]: "\<not> in_tree 0 k j"
  by (simp add: in_tree_def)

lemma fresh_store_inv: "fresh_store M \<Longrightarrow> store_inv H ser [] {} M"
  by (simp add: fresh_store_def store_inv_def sizes_ok_def sizes_inv_def size_at_def nodes_inv_def tiles_inv_def
      leaves_inv_def tree_keys_not_foreign)

text \<open>Writing a size of 0 where none is stored.\<close>

lemma store_inv_size_0:
  assumes "store_inv H ser D P M" "D = []" "k \<in> {META_KEY, COMMITTED_SIZE_KEY}"
  shows "store_inv H ser D P (M(k \<mapsto> be64 0))"
  using assms by (auto simp: store_inv_def sizes_inv_def size_at_def nodes_inv_def tiles_inv_def leaves_inv_def)

lemma tree_put_size_0:
  assumes "env_ok E view held F" "k \<in> {META_KEY, COMMITTED_SIZE_KEY}" "D = []"
  shows "triple (tree_holds E view held D P) (on_tree_db (rl_put (slate E) k (be64 0)))
    (\<lambda>_. tree_holds E view held D P) (\<lambda>e s. tree_holds E view held D P s \<and> e \<in> DbError ` F)"
proof (rule tripleI)
  fix s assume "tree_holds E view held D P s"
  then obtain M where M: "store_inv (digest_of E) (to_stdvec E) D P M" "tree_at E view held D P M s"
    by (auto simp: tree_holds_def)
  have ok: "slatedb_ok (slate E) view F" using assms(1) by (simp add: env_ok_def)
  have db: "rl_contents view (tree_db s) = M" using M(2) by (simp add: tree_at_def)
  have holds: "tree_holds E view held D P (s\<lparr>tree_db := d\<rparr>)" if "rl_contents view d \<in> {M, M(k \<mapsto> be64 0)}" for d
    using that M store_inv_size_0 [OF M(1) assms(3,2)] by (auto simp: tree_holds_def tree_at_def)
  from tripleD [OF rl.put_spec [OF ok, of M k "be64 0"] db]
  show "case on_tree_db (rl_put (slate E) k (be64 0)) s of (Inr a, s') \<Rightarrow> tree_holds E view held D P s'
      | (Inl (Err e), s') \<Rightarrow> tree_holds E view held D P s' \<and> e \<in> DbError ` F | (Inl Panic, s') \<Rightarrow> False"
    using holds by (auto simp: on_tree_db_def map_err_def zoom_def)
qed

lemma triple_tree_new:
  assumes "env_ok E view held F"
  shows "triple (tree_holds E view held D P) (tree_new E) (\<lambda>_. tree_holds E view held D P)
    (\<lambda>e s. tree_holds E view held D P s \<and> e \<in> DbError ` F)"
  unfolding tree_new_def
proof (rule triple_and_then [where M = "\<lambda>r s. tree_holds E view held D P s \<and> (r = None \<longrightarrow> D = [])"])
  show "triple (tree_holds E view held D P) (get_num_leaves E) (\<lambda>r s. tree_holds E view held D P s \<and> (r = None \<longrightarrow> D = []))
      (\<lambda>e s. tree_holds E view held D P s \<and> e \<in> DbError ` F)"
  proof (rule tripleI)
    fix s assume "tree_holds E view held D P s"
    then obtain M where M: "store_inv (digest_of E) (to_stdvec E) D P M" "tree_at E view held D P M s"
      by (auto simp: tree_holds_def)
    have holds: "tree_holds E view held D P t" if "tree_at E view held D P M t" for t
      using that M(1) by (auto simp: tree_holds_def)
    have "M META_KEY = None \<Longrightarrow> D = []" using store_invD(3) [OF M(1)] by (simp add: size_at_def)
    with tripleD [OF answers_sizes(1) [OF assms M(1), unfolded answers_def] M(2)] holds
    show "case get_num_leaves E s of (Inr r, s') \<Rightarrow> tree_holds E view held D P s' \<and> (r = None \<longrightarrow> D = [])
      | (Inl (Err e), s') \<Rightarrow> tree_holds E view held D P s' \<and> e \<in> DbError ` F | (Inl Panic, s') \<Rightarrow> False"
      by auto
  qed
next
  fix r :: "u64 option"
  let ?T = "tree_holds E view held D P" and ?R = "\<lambda>e s. tree_holds E view held D P s \<and> e \<in> DbError ` F"
  have "triple ?T (and_then (set_num_leaves E 0) (\<lambda>_. on_tree_db (rl_put (slate E) COMMITTED_SIZE_KEY (be64 0)))) (\<lambda>_. ?T) ?R"
    if "D = []"
    unfolding set_num_leaves_def
    by (rule triple_and_then [OF tree_put_size_0 [OF assms _ that] tree_put_size_0 [OF assms _ that]]) simp_all
  then show "triple (\<lambda>s. ?T s \<and> (r = None \<longrightarrow> D = [])) (if r = None
      then and_then (set_num_leaves E 0) (\<lambda>_. on_tree_db (rl_put (slate E) COMMITTED_SIZE_KEY (be64 0))) else ret ()) (\<lambda>_. ?T) ?R"
    by (cases r; cases "D = []") (auto intro!: triple_ret simp: triple_def [of "\<lambda>s. False"])
qed

lemma get_tile_answers:
  assumes "env_ok E view held F" "store_inv (digest_of E) ser D P M"
  shows "answers (tree_at E view held D P M) (get_tile E l t)
    (Inr (if unat l \<le> 5 \<and> tile_full (length D) (unat l) (unat t)
          then Some (concat (tile_hashes (digest_of E) D (unat l) (unat t))) else None)) (DbError ` F)"
  using answers_db_get [OF assms(1), of D P M "tile_key l t"] store_invD(6) [OF assms(2)]
  by (simp add: get_tile_def tiles_inv_def)


section \<open>An instance\<close>

text \<open>A store and a cache in memory, on which the theorems below are exercised.\<close>

definition mem_slate :: "key_values SlateDb" where
  "mem_slate = \<lparr>slate_get = (\<lambda>k s. (Inr (s k), s)), slate_put = (\<lambda>k v s. (Inr (), s(k \<mapsto> v))),
     slate_write = (\<lambda>b s. (Inr (), apply_batch b s)), slate_flush = (\<lambda>s. (Inr (), s))\<rparr>"

text \<open>The same store with writes that report an error after having been applied.\<close>

definition late_slate :: "key_values SlateDb" where
  "late_slate = mem_slate\<lparr>slate_write := (\<lambda>b s. (Inl ''timeout'', apply_batch b s))\<rparr>"

definition mem_cache :: "('k \<rightharpoonup> 'v, 'k, 'v) CacheOps" where
  "mem_cache = \<lparr>cache_get = (\<lambda>k c. (c k, c)), cache_insert = (\<lambda>k v c. c(k \<mapsto> v))\<rparr>"

type_synonym mem_env = "(key_values, u64 \<times> u64 \<rightharpoonup> bytes, u8 \<times> u64 \<rightharpoonup> bool) TreeEnv"
type_synonym mem_tree = "(key_values, u64 \<times> u64 \<rightharpoonup> bytes, u8 \<times> u64 \<rightharpoonup> bool) Tree"

definition mem_env_of :: "key_values SlateDb \<Rightarrow> mem_env" where
  "mem_env_of S = \<lparr>slate = S, node_cache_ops = mem_cache, tile_cache_ops = mem_cache, digest_of = toy_hash, to_stdvec = Inr\<rparr>"

definition mem_env :: mem_env where
  "mem_env = mem_env_of mem_slate"

definition late_env :: mem_env where
  "late_env = mem_env_of late_slate"

definition mem_empty :: mem_tree where
  "mem_empty = \<lparr>tree_db = RateLimitedDb_new Map.empty, node_cache = Map.empty, tile_cache = Map.empty\<rparr>"

text \<open>Two leaves in one batch, a third in a second one.\<close>

definition mem_two :: mem_tree where
  "mem_two = snd (batch_push_with_data mem_env [[1], [2]] [] mem_empty)"

definition mem_three :: mem_tree where
  "mem_three = snd (batch_push_with_data mem_env [[3]] [] mem_two)"

lemma mem_cache_ok: "cache_ok mem_cache id"
  by (simp add: cache_ok_def mem_cache_def)

lemma mem_env_ok: "env_ok mem_env id id F" "env_ok late_env id id {''timeout''}"
  by (simp_all add: env_ok_def mem_env_def late_env_def mem_env_of_def mem_cache_ok slatedb_ok_def mem_slate_def late_slate_def)

lemma mem_ser [simp]: "serializable mem_env x" "serializable late_env x"
  "digest_of mem_env = toy_hash" "digest_of late_env = toy_hash" "to_stdvec mem_env = Inr" "to_stdvec late_env = Inr"
  by (simp_all add: serializable_def mem_env_def late_env_def mem_env_of_def)

lemma mem_empty_holds: "tree_holds (mem_env_of S) id id [] {} mem_empty"
  unfolding tree_holds_def
  by (rule exI [of _ Map.empty])
    (simp add: fresh_store_inv fresh_store_def tree_at_def rl_contents_def mem_empty_def RateLimitedDb_new_def cache_inv_def)

lemmas mem_empty_holds' = mem_empty_holds [of mem_slate, folded mem_env_def] mem_empty_holds [of late_slate, folded late_env_def]

lemma mem_push:
  assumes "tree_holds mem_env id id D P s" "length D + length items \<le> 2 ^ 63"
  shows "tree_holds mem_env id id (D @ items) (published P D items) (snd (batch_push_with_data mem_env items [] s))"
  using st.push_law [of "(mem_env, id, id)" D P s items "[]"] assms mem_env_ok(1) by (auto simp: list_all_iff)

lemma mem_two_holds: "tree_holds mem_env id id [[1], [2]] {2} mem_two"
  using mem_push [OF mem_empty_holds'(1), of "[[1], [2]]"] by (simp add: mem_two_def published_def flip: numeral_2_eq_2)

lemma mem_three_holds: "tree_holds mem_env id id [[1], [2], [3]] {3, 2} mem_three"
  using mem_push [OF mem_two_holds, of "[[3]]"] by (simp add: mem_three_def published_def numeral_3_eq_3)


section \<open>Properties\<close>

text \<open>C3: appending a batch. On a store that does not fail, \<open>batch_push_with_data\<close> returns the index of
  the first new leaf, the tree then holds the old leaves followed by the new ones, with the invariant
  of the stored nodes, tiles and sizes restored, the new size is published beside all earlier ones,
  and the additional data, under keys that are not the tree's, is stored in the same write.\<close>

theorem append_batch:
  assumes "env_ok E view held {}" "tree_holds E view held D P s" "length D + length items \<le> 2 ^ 63"
    and "\<forall>x \<in> set items. serializable E x" "\<forall>k \<in> fst ` set add. foreign_key k"
  shows "\<exists>s'. batch_push_with_data E items add s = (Inr (of_nat (length D)), s') \<and>
    tree_holds E view held (D @ items) (published P D items) s' \<and>
    (\<forall>k. foreign_key k \<longrightarrow> tree_contents view s' k = apply_batch add (tree_contents view s) k)"
  using assms(1,2,3,5) by (rule holds_push) (use assms(4) in \<open>auto simp: serializable_def\<close>)

theorem append_batch_witness:
  "\<exists>s'. batch_push_with_data mem_env [[3], [4]] [(ascii ''entry:7'', [9])] mem_two = (Inr (of_nat (length [[1], [2::u8]])), s') \<and>
    tree_holds mem_env id id ([[1], [2]] @ [[3], [4]]) (published {2} [[1], [2]] [[3], [4]]) s' \<and>
    (\<forall>k. foreign_key k \<longrightarrow> tree_contents id s' k = apply_batch [(ascii ''entry:7'', [9])] (tree_contents id mem_two) k)"
  by (rule append_batch [OF mem_env_ok(1) mem_two_holds])
    (simp_all add: foreign_key_def tree_tags_def ascii_def of_char_def)

text \<open>C4: a failing append is atomic. Whatever the store and the serializer do, \<open>batch_push_with_data\<close> does not
  panic, and when it returns an error the tree holds either exactly what it held, with the store
  unchanged, or the complete batch; the error is one of the store or of the serializer.\<close>

theorem append_batch_atomic:
  assumes "env_ok E view held F" "tree_holds E view held D P s" "length D + length items \<le> 2 ^ 63"
    and "\<forall>k \<in> fst ` set add. foreign_key k"
  shows "\<exists>r s'. batch_push_with_data E items add s = (r, s') \<and>
    (r = Inr (of_nat (length D)) \<and> tree_holds E view held (D @ items) (published P D items) s' \<or>
     (\<exists>e. r = Inl (Err e) \<and> (e \<in> DbError ` F \<or> (\<exists>x \<in> set items. \<exists>m. to_stdvec E x = Inl m \<and> e = EncodingError m)) \<and>
        (tree_holds E view held D P s' \<and> tree_contents view s' = tree_contents view s \<or>
         tree_holds E view held (D @ items) (published P D items) s')))"
  using assms by (rule holds_push) auto

theorem append_batch_atomic_witness:
  "\<exists>r s'. batch_push_with_data late_env [[1], [2]] [] mem_empty = (r, s') \<and>
    (r = Inr (of_nat (length ([] :: bytes list))) \<and> tree_holds late_env id id ([] @ [[1], [2]]) (published {} [] [[1], [2]]) s' \<or>
     (\<exists>e. r = Inl (Err e) \<and> (e \<in> DbError ` {''timeout''} \<or> (\<exists>x \<in> set [[1], [2]]. \<exists>m. to_stdvec late_env x = Inl m \<and> e = EncodingError m)) \<and>
        (tree_holds late_env id id [] {} s' \<and> tree_contents id s' = tree_contents id mem_empty \<or>
         tree_holds late_env id id ([] @ [[1], [2]]) (published {} [] [[1], [2]]) s')))"
  by (rule append_batch_atomic [OF mem_env_ok(2) mem_empty_holds'(2)]) simp_all

text \<open>C9: \<open>root_at_size\<close> refines its specification: at a published size the RFC 6962 Merkle tree hash of
  the prefix of that size, at size 0 the hash of the empty tree, otherwise the error that names the size
  beyond the tree or the size that is not a boundary; the only other outcome is an error of the
  store, and nothing but the cache and the read counters changes.\<close>

theorem root_at_size_refines:
  assumes "env_ok E view held F" "tree_holds E view held D P s"
  shows "\<exists>s'. (root_at_size E w s = (map_sum Err id (spec_root (digest_of E) D P w), s') \<or>
      (\<exists>e \<in> F. root_at_size E w s = (Inl (Err (DbError e)), s'))) \<and> tree_holds E view held D P s'"
  using assms by (rule holds_reads(1))

theorem root_at_size_refines_witness:
  "\<exists>s'. (root_at_size mem_env 2 mem_three = (map_sum Err id (spec_root toy_hash [[1], [2], [3]] {3, 2} 2), s') \<or>
      (\<exists>e \<in> {}. root_at_size mem_env 2 mem_three = (Inl (Err (DbError e)), s'))) \<and>
    tree_holds mem_env id id [[1], [2], [3]] {3, 2} s'"
  using root_at_size_refines [OF mem_env_ok(1) mem_three_holds, of 2 "{}"] unfolding mem_ser .

text \<open>C10: \<open>prove_inclusion_at_size\<close> refines its specification: the RFC 6962 audit path of the leaf in the
  prefix of a published size, and otherwise the error for the size or the index asked for.\<close>

theorem prove_inclusion_refines:
  assumes "env_ok E view held F" "tree_holds E view held D P s"
  shows "\<exists>s'. (prove_inclusion_at_size E i w s = (map_sum Err id (spec_inclusion (digest_of E) D P i w), s') \<or>
      (\<exists>e \<in> F. prove_inclusion_at_size E i w s = (Inl (Err (DbError e)), s'))) \<and> tree_holds E view held D P s'"
  using assms by (rule holds_reads(2))

theorem prove_inclusion_refines_witness:
  "\<exists>s'. (prove_inclusion_at_size mem_env 1 2 mem_three = (map_sum Err id (spec_inclusion toy_hash [[1], [2], [3]] {3, 2} 1 2), s') \<or>
      (\<exists>e \<in> {}. prove_inclusion_at_size mem_env 1 2 mem_three = (Inl (Err (DbError e)), s'))) \<and>
    tree_holds mem_env id id [[1], [2], [3]] {3, 2} s'"
  using prove_inclusion_refines [OF mem_env_ok(1) mem_three_holds, of 1 2 "{}"] unfolding mem_ser .

text \<open>C11: \<open>prove_consistency_between\<close> refines its specification: the RFC 6962 consistency proof between two
  published sizes, the empty proof for equal sizes, and otherwise the error for the sizes asked for.\<close>

theorem prove_consistency_refines:
  assumes "env_ok E view held F" "tree_holds E view held D P s"
  shows "\<exists>s'. (prove_consistency_between E a b s = (map_sum Err id (spec_consistency (digest_of E) D P a b), s') \<or>
      (\<exists>e \<in> F. prove_consistency_between E a b s = (Inl (Err (DbError e)), s'))) \<and> tree_holds E view held D P s'"
  using assms by (rule holds_reads(3))

theorem prove_consistency_refines_witness:
  "\<exists>s'. (prove_consistency_between mem_env 2 3 mem_three = (map_sum Err id (spec_consistency toy_hash [[1], [2], [3]] {3, 2} 2 3), s') \<or>
      (\<exists>e \<in> {}. prove_consistency_between mem_env 2 3 mem_three = (Inl (Err (DbError e)), s'))) \<and>
    tree_holds mem_env id id [[1], [2], [3]] {3, 2} s'"
  using prove_consistency_refines [OF mem_env_ok(1) mem_three_holds, of 2 3 "{}"] unfolding mem_ser .

text \<open>C12: what was published stays. The root and every inclusion proof served at a published size are the same
  after any sequence of further batches, each of which starts where the previous one ended.\<close>

theorem published_answers_stable:
  assumes "env_ok E view held {}" "tree_holds E view held D P s" "v \<in> P" "i < v"
    and "length D + length (concat (map fst batches)) \<le> 2 ^ 63"
    and "\<forall>b \<in> set batches. list_all (serializable E) (fst b) \<and> list_all (\<lambda>p. foreign_key (fst p)) (snd b)"
  shows "\<exists>r prf s' s''. root_at_size E (of_nat v) s = (Inr r, s') \<and>
     prove_inclusion_at_size E (of_nat i) (of_nat v) s' = (Inr prf, s'') \<and>
     (\<exists>t t' t''. map_io (\<lambda>b. batch_push_with_data E (fst b) (snd b)) batches s''
          = (Inr (map (\<lambda>j. of_nat (length D + length (concat (map fst (take j batches))))) [0..<length batches]), t) \<and>
        root_at_size E (of_nat v) t = (Inr r, t') \<and>
        prove_inclusion_at_size E (of_nat i) (of_nat v) t' = (Inr prf, t''))"
  using st.published_stable [of "(E, view, held)" D P s v i batches] assms by simp

theorem published_answers_stable_witness:
  "\<exists>r prf s' s''. root_at_size mem_env (of_nat 2) mem_two = (Inr r, s') \<and>
     prove_inclusion_at_size mem_env (of_nat 1) (of_nat 2) s' = (Inr prf, s'') \<and>
     (\<exists>t t' t''. map_io (\<lambda>b. batch_push_with_data mem_env (fst b) (snd b)) [([[3]], []), ([[4], [5]], [])] s'' = (Inr [of_nat 2, of_nat 3], t) \<and>
        root_at_size mem_env (of_nat 2) t = (Inr r, t') \<and>
        prove_inclusion_at_size mem_env (of_nat 1) (of_nat 2) t' = (Inr prf, t''))"
  using published_answers_stable [OF mem_env_ok(1) mem_two_holds, of 2 1 "[([[3]], []), ([[4], [5]], [])]"]
  by (simp add: upt_rec)

text \<open>An inclusion proof served by the tree at a published size is accepted by \<open>InclusionProof::verify\<close>
  against the root that \<open>root_at_size\<close> serves for that size.\<close>

lemma served_inclusion_accepted:
  assumes "env_ok E view held {}" "tree_holds E view held D P s" "v \<in> P" "i < v"
  shows "\<exists>r prf s' s''. root_at_size E (of_nat v) s = (Inr r, s') \<and>
    prove_inclusion_at_size E (of_nat i) (of_nat v) s' = (Inr prf, s'') \<and>
    inclusion_verify (digest_of E) prf (D ! i) (of_nat i) r = Some (Inr ())"
proof -
  obtain r s' where r: "root_at_size E (of_nat v) s = (Inr r, s')" "tree_holds E view held D P s'"
    "r = \<lparr>root_hash = mth (digest_of E) (take v D), num_leaves = of_nat v\<rparr>"
    using st.root_law [of "(E, view, held)" D P s v] assms by auto
  from st.incl_accepted [of "(E, view, held)" D P s' v i] assms r show ?thesis by fastforce
qed

text \<open>A consistency proof served between two published sizes is accepted by \<open>ConsistencyProof::verify\<close>
  against the roots that \<open>root_at_size\<close> serves for them.\<close>

lemma served_consistency_accepted:
  assumes "env_ok E view held {}" "tree_holds E view held D P s" "m \<in> P" "v \<in> P" "m \<le> v"
  shows "\<exists>r r' prf s1 s2 s3. root_at_size E (of_nat m) s = (Inr r, s1) \<and> root_at_size E (of_nat v) s1 = (Inr r', s2) \<and>
    prove_consistency_between E (of_nat m) (of_nat v) s2 = (Inr prf, s3) \<and>
    consistency_verify (digest_of E) prf r r' = Some (Inr ())"
proof -
  obtain r s1 where r: "root_at_size E (of_nat m) s = (Inr r, s1)" "tree_holds E view held D P s1"
    "r = \<lparr>root_hash = mth (digest_of E) (take m D), num_leaves = of_nat m\<rparr>"
    using st.root_law [of "(E, view, held)" D P s m] assms by auto
  obtain r' s2 where r': "root_at_size E (of_nat v) s1 = (Inr r', s2)" "tree_holds E view held D P s2"
    "r' = \<lparr>root_hash = mth (digest_of E) (take v D), num_leaves = of_nat v\<rparr>"
    using st.root_law [of "(E, view, held)" D P s1 v] assms r by auto
  from st.cons_accepted [of "(E, view, held)" D P s2 v m] assms r r' show ?thesis by fastforce
qed

text \<open>A precomputed tile is served exactly when it is full: for the levels 0 to 5 \<open>get_tile\<close> returns the 256
  subtree hashes of the tile as soon as the tree covers it, and nothing before.\<close>

lemma get_tile_serves_full_tiles:
  assumes "env_ok E view held {}" "tree_holds E view held D P s"
  shows "\<exists>s'. get_tile E l t s = (Inr (if unat l \<le> 5 \<and> tile_full (length D) (unat l) (unat t)
          then Some (concat (tile_hashes (digest_of E) D (unat l) (unat t))) else None), s') \<and> tree_holds E view held D P s'"
  using holds_answers [OF get_tile_answers [OF assms(1), where l = l and t = t] assms(2)] by simp

text \<open>Opening the tree on a store without any tree key gives the empty tree, and opening it on an
  existing tree keeps every leaf and every published size, also when the store fails on the way.\<close>

lemma tree_new_opens:
  assumes "env_ok E view held F"
    and "tree_holds E view held D P s \<or>
      fresh_store (tree_contents view s) \<and> held (node_cache s) = Map.empty \<and> D = [] \<and> P = {}"
  shows "\<exists>r s'. tree_new E s = (r, s') \<and> tree_holds E view held D P s' \<and> (r = Inr () \<or> (\<exists>e \<in> F. r = Inl (Err (DbError e))))"
proof -
  have "tree_holds E view held D P s"
    using assms(2) fresh_store_inv [of "tree_contents view s" "digest_of E" "to_stdvec E"]
    by (auto simp: tree_holds_def tree_at_def tree_contents_def cache_inv_def)
  from tripleD [OF triple_tree_new [OF assms(1)] this] show ?thesis by auto
qed

end
