(* ===== verification/Slate_Tree_Single.thy ===== *)
theory Slate_Tree_Single
  imports Slate_Tree_Props
begin

text \<open>
  The second implementation of appending in \<^verbatim>\<open>src/src/merkle_tree/slatedb_backed_tree.rs\<close>, which adds one leaf at a time and which its tests use
  as the reference, with the readers of the current tree beside it. Appending leaf by leaf and as a batch give the same tree.
  \<open>de\<close> is \<^verbatim>\<open>postcard::from_bytes\<close>.
\<close>

section \<open>The code\<close>

definition tree_is_empty :: "('db, 'nc, 'tc) TreeEnv \<Rightarrow> ('db, 'nc, 'tc, bool) tree_op" where
  "tree_is_empty E = and_then (tree_len E) (\<lambda>n. ret (n = 0))"

definition path_step ::
  "('db, 'nc, 'tc) TreeEnv \<Rightarrow> u64 \<Rightarrow> (u64 \<times> bytes) list \<times> u64 \<Rightarrow> ('db, 'nc, 'tc, (u64 \<times> bytes) list \<times> u64) tree_op" where
  "path_step E new_size st =
     (case st of (computed_hashes, cur_idx) \<Rightarrow>
      and_then (of_option (parent cur_idx new_size)) (\<lambda>parent_idx.
      and_then (of_option (sibling cur_idx new_size)) (\<lambda>sibling_idx.
      and_then (ok_or (InconsistentState (''Missing computed hash for node '' @ dec cur_idx)) (map_of computed_hashes cur_idx)) (\<lambda>cur_node.
      and_then (case map_of computed_hashes sibling_idx of
          Some h \<Rightarrow> ret h
        | None \<Rightarrow> get_node_hash_at_version E sibling_idx (new_size - 1)) (\<lambda>sibling_hash.
      and_then (of_option (is_left cur_idx new_size)) (\<lambda>left.
      ret (btree_insert parent_idx (combine (digest_of E) left cur_node sibling_hash) computed_hashes, parent_idx)))))))"

definition recalculate_path_batch ::
  "('db, 'nc, 'tc) TreeEnv \<Rightarrow> WriteBatch \<Rightarrow> u64 \<Rightarrow> bytes \<Rightarrow> u64 \<Rightarrow> ('db, 'nc, 'tc, WriteBatch \<times> (u64 \<times> bytes) list) tree_op" where
  "recalculate_path_batch E batch leaf_idx leaf_val new_size =
     (let cur_idx = internal_from_leaf leaf_idx in
      and_then (while_io climb_bound (\<lambda>(computed_hashes, cur_idx). cur_idx \<noteq> root_idx new_size) (path_step E new_size)
        (btree_insert cur_idx (leaf_hash (digest_of E) leaf_val) [], cur_idx)) (\<lambda>(computed_hashes, _).
      ret (batch @ node_puts new_size computed_hashes, computed_hashes)))"

definition tree_push :: "('db, 'nc, 'tc) TreeEnv \<Rightarrow> bytes \<Rightarrow> ('db, 'nc, 'tc, unit) tree_op" where
  "tree_push E new_val =
     and_then (tree_len E) (\<lambda>n.
     if (- 1) div 2 \<le> n then raise (InconsistentState ''Tree is full'')
     else
       and_then (map_err EncodingError (of_result (to_stdvec E new_val))) (\<lambda>leaf_bytes.
       let batch = [(leaf_key n, leaf_bytes)] in
       and_then (of_option (LeafIdx_new n)) (\<lambda>new_leaf_idx.
       and_then (recalculate_path_batch E batch new_leaf_idx new_val (n + 1)) (\<lambda>(batch1, computed_hashes).
       let batch2 = batch1 @ [(META_KEY, be64 (n + 1)), (COMMITTED_SIZE_KEY, be64 (n + 1))] in
       and_then (precompute_tiles_batch E batch2 n (n + 1) computed_hashes) (\<lambda>batch3.
       on_tree_db (rl_write_batch (slate E) batch3))))))"

definition tree_root :: "('db, 'nc, 'tc) TreeEnv \<Rightarrow> ('db, 'nc, 'tc, RootHash) tree_op" where
  "tree_root E =
     and_then (get_committed_size E) (\<lambda>n.
     and_then (if n = 0 then ret (digest_of E []) else get_node_hash_at_version E (root_idx n) n) (\<lambda>h.
     ret \<lparr>root_hash = h, num_leaves = n\<rparr>))"

definition tree_get :: "('db, 'nc, 'tc) TreeEnv \<Rightarrow> (bytes \<Rightarrow> string + bytes) \<Rightarrow> u64 \<Rightarrow> ('db, 'nc, 'tc, bytes option) tree_op" where
  "tree_get E de idx =
     and_then (db_get E (leaf_key idx)) (\<lambda>r. case r of
       Some bytes \<Rightarrow> and_then (map_err EncodingError (of_result (de bytes))) (\<lambda>leaf. ret (Some leaf))
     | None \<Rightarrow> ret None)"

definition tree_prove_inclusion :: "('db, 'nc, 'tc) TreeEnv \<Rightarrow> u64 \<Rightarrow> ('db, 'nc, 'tc, InclusionProof) tree_op" where
  "tree_prove_inclusion E idx =
     and_then (get_committed_size E) (\<lambda>n.
     if n \<le> idx then raise (InconsistentState (''Index '' @ dec idx @ '' out of bounds (tree has '' @ dec n @ '' leaves)''))
     else prove_inclusion_at_size E idx n)"

definition tree_prove_consistency :: "('db, 'nc, 'tc) TreeEnv \<Rightarrow> u64 \<Rightarrow> ('db, 'nc, 'tc, ConsistencyProof) tree_op" where
  "tree_prove_consistency E old_size =
     and_then (get_committed_size E) (\<lambda>new_size.
     if old_size = 0 then raise (InconsistentState ''Cannot create consistency proof from empty tree'')
     else prove_consistency_between E old_size new_size)"

section \<open>The climb\<close>

lemma triple_path:
  assumes env: "env_ok E view held F" and inv: "store_inv (digest_of E) ser D P M" and len: "Suc (length D) \<le> 2 ^ 63"
  shows "triple (tree_at E view held D P M)
    (while_io climb_bound (\<lambda>x. snd x \<noteq> root_idx (of_nat (Suc (length D)))) (path_step E (of_nat (Suc (length D))))
      (btree_insert (node_of (length D) (Suc (length D))) (leaf_hash (digest_of E) x) [], node_of (length D) (Suc (length D))))
    (\<lambda>y s. tree_at E view held D P M s \<and> comp_at (digest_of E) (D @ [x]) (length D) (Suc (length D)) (fst y))
    (\<lambda>e s. tree_at E view held D P M s \<and> e \<in> DbError ` F)"
proof -
  let ?p = "length D" and ?N = "Suc (length D)" and ?D = "D @ [x]" and ?H = "digest_of E" and ?T = "tree_at E view held D P M"
  let ?R = "\<lambda>e s. ?T s \<and> e \<in> DbError ` F"
  let ?x0 = "(btree_insert (node_of ?p ?N) (leaf_hash ?H x) [], node_of ?p ?N)"
  let ?I = "\<lambda>t y s. ?T s \<and> comp_climb ?H ?D ?N [] t (fst y)"
  have climb: "triple (?I (?N - 1) ?x0) (while_io climb_bound (\<lambda>y. snd y \<noteq> root_idx (of_nat ?N)) (path_step E (of_nat ?N)) ?x0) (?I 0) ?R"
  proof (rule triple_edge_climb [where cur = snd])
    fix t lo and y :: "(u64 \<times> bytes) list \<times> u64"
    assume e: "edge_parent ?N t lo" and c: "snd y = node_of t ?N"
    note st = edge_steps [OF e]
    obtain cm where y: "y = (cm, node_of t ?N)" using c by (cases y) auto
    show "triple (?I t y) (path_step E (of_nat ?N) y) (\<lambda>y' s. snd y' = node_of lo ?N \<and> ?I lo y' s) ?R"
    proof (rule triple_pre [where B = "comp_climb ?H ?D ?N [] t cm"], simp add: y)
      assume cc: "comp_climb ?H ?D ?N [] t cm"
      obtain k j where n: "node_of t ?N = node k j" "in_tree ?N k j" "slot k j" "j * 2 ^ k = t" "hi_of ?N k j = ?N" by (rule trange_node [OF st(6)])
      have cur: "map_of cm (node_of t ?N) = Some (range_hash ?H ?D t ?N)"
        using cc n by (auto simp: comp_climb_def node_hash_def)
      obtain k' j' where m: "node_of lo t = node k' j'" "in_tree ?N k' j'" "slot k' j'" "j' * 2 ^ k' = lo" "hi_of ?N k' j' = t"
        by (rule trange_node [OF st(4)])
      have tp: "t \<le> ?p" using trangeD(1) [OF st(6)] by simp
      have sib: "map_of cm (node_of lo t) = None" using cc m tp by (auto simp: comp_climb_def)
      have hp: "in_tree ?p k' j'" "hi_of ?p k' j' = t"
        using in_tree_back [OF m(2), of ?p] hi_of_full' [of ?N k' j' ?p] m(5) tp by simp_all
      have tr: "trange ?p lo t" using in_tree_trange(1) [OF hp(1)] len m(4) hp(2) by simp
      have "0 < ?p" using hp(1) by (auto simp: in_tree_def)
      then have P: "?p \<in> P" using store_invD(2) [OF inv] by (auto simp: sizes_ok_def)
      have read: "triple ?T (get_node_hash_at_version E (node_of lo t) (of_nat ?p)) (\<lambda>h s. ?T s \<and> h = range_hash ?H ?D lo t) ?R"
        using answers_range_hash [OF env inv P tr] range_hash_append [OF tp, of ?H "[x]" lo]
        unfolding answers_def by (auto elim!: triple_conseq)
      have "1 < ?N - lo" "lo + split_point (?N - lo) = t" using e by (simp_all add: edge_parent_def)
      then have par: "combine ?H False (range_hash ?H ?D t ?N) (range_hash ?H ?D lo t) = range_hash ?H ?D lo ?N"
        using range_hash_split [of ?N lo ?D ?H] by (simp add: combine_def)
      have filled: "comp_climb ?H ?D ?N [] lo (btree_insert (node_of lo ?N) (range_hash ?H ?D lo ?N) cm)"
      proof (rule comp_climb_insert [OF len st(5) disjI1 [OF cc] _ st(7)])
        show "u = lo \<or> t \<le> u" if "trange ?N u ?N" "lo \<le> u" for u
          using edge_gap [of ?N lo u] e that by (cases "u = lo") (auto simp: edge_parent_def)
      qed
      have "(of_nat ?N :: u64) - 1 = of_nat ?p" by simp
      then have step: "path_step E (of_nat ?N) y = and_then (get_node_hash_at_version E (node_of lo t) (of_nat ?p)) (\<lambda>h.
          ret (btree_insert (node_of lo ?N) (combine ?H False (range_hash ?H ?D t ?N) h) cm, node_of lo ?N))"
        by (simp only: path_step_def y prod.case st cur sib option.case pure_ops and_then_ret)
      show "triple (?I t y) (path_step E (of_nat ?N) y) (\<lambda>y' s. snd y' = node_of lo ?N \<and> ?I lo y' s) ?R"
        unfolding step
        by (rule triple_weaken_pre [OF triple_then [OF read]], rule triple_ret) (simp_all add: par filled)
    qed
  qed (use len in simp_all)
  show ?thesis
    by (rule triple_conseq [OF climb])
      (use comp_climb_leaf [of ?N "[]" ?D ?H] len comp_climb_root [OF _ comp_at_start] in auto)
qed

section \<open>Appending one leaf\<close>

lemma u64_half: "(- 1 :: u64) div 2 = 2 ^ 63 - 1"
  by code_simp

lemma encoded: "to_stdvec E x = Inr b \<Longrightarrow> map_err EncodingError (of_result (to_stdvec E x)) = ret b"
  by simp

lemma triple_tree_push:
  assumes env: "env_ok E view held F" and inv: "store_inv (digest_of E) (to_stdvec E) D P M" and len: "length D < 2 ^ 63 - 1"
  shows "triple (tree_at E view held D P M) (tree_push E x) (\<lambda>_. push_done E view held D P M [x] [])
    (\<lambda>e s. (tree_at E view held D P M s \<or> push_done E view held D P M [x] [] s) \<and>
       (e \<in> DbError ` F \<or> (\<exists>m. to_stdvec E x = Inl m \<and> e = EncodingError m)))"
    (is "triple ?T _ ?Q ?R")
  unfolding tree_push_def
proof (rule triple_then)
  let ?H = "digest_of E" and ?ser = "to_stdvec E" and ?p = "length D" and ?N = "Suc (length D)"
  show "triple ?T (tree_len E) (\<lambda>r s. ?T s \<and> r = of_nat ?p) ?R"
    using answers_sizes(2) [OF env inv] unfolding answers_def by (rule triple_conseq) auto
  have notfull: "\<not> (- 1) div 2 \<le> (of_nat ?p :: u64)" using len unfolding u64_half by (simp add: word_le_nat_alt unat_of_nat_u64)
  have N: "(of_nat ?p :: u64) + 1 = of_nat ?N" by simp
  have leaf: "LeafIdx_new (of_nat ?p) = Some (of_nat ?p)" "internal_from_leaf (of_nat ?p) = node_of ?p ?N"
    using LeafIdx_new_of_nat [of ?p] len by (simp_all add: node_of_leaf internal_from_leaf_def)
  have V: "length D + length [x] \<le> 2 ^ 63" "Suc (length D) \<le> 2 ^ 63" using len by simp_all
  have stored: "triple ?T (and_then (precompute_tiles_batch E ((leaf_key (of_nat ?p), b) # node_puts (of_nat ?N) computed
        @ [(META_KEY, be64 (of_nat ?N)), (COMMITTED_SIZE_KEY, be64 (of_nat ?N))]) (of_nat ?p) (of_nat ?N) computed)
      (\<lambda>batch3. on_tree_db (rl_write_batch (slate E) batch3))) ?Q ?R"
    if ser: "?ser x = Inr b" and comp: "comp_at ?H (D @ [x]) ?p (length D + length [x]) computed" for b computed
  proof (rule triple_then [where x = "full_batch ?H ?ser D [x] [] M computed"])
    have pre: "triple ?T (precompute_tiles_batch E batch (of_nat ?p) (of_nat ?N) computed)
        (\<lambda>b s. ?T s \<and> b = batch @ tile_puts ?H (D @ [x]) ?N M ?p @ [(LAST_PRECOMPUTED_SIZE_KEY, be64 (of_nat ?N))]) ?R" for batch
      by (rule triple_conseq [OF triple_precompute_tiles [OF env inv comp refl V(1), unfolded One_nat_def length_Cons list.size add_Suc_right add_0_right]])
        (auto simp: tile_puts_def tile_levels_def)
    show "triple ?T (precompute_tiles_batch E ((leaf_key (of_nat ?p), b) # node_puts (of_nat ?N) computed
        @ [(META_KEY, be64 (of_nat ?N)), (COMMITTED_SIZE_KEY, be64 (of_nat ?N))]) (of_nat ?p) (of_nat ?N) computed)
        (\<lambda>b s. ?T s \<and> b = full_batch ?H ?ser D [x] [] M computed) ?R"
      by (rule triple_conseq [OF pre]) (auto simp: full_batch_def leaf_puts_def ser Let_def)
    have "\<forall>y \<in> set [x]. \<exists>b. ?ser y = Inr b" using ser by simp
    then show "triple ?T (on_tree_db (rl_write_batch (slate E) (full_batch ?H ?ser D [x] [] M computed))) ?Q ?R"
      by (intro triple_conseq [OF triple_write [OF env inv V(1) comp]]) auto
  qed
  have path: "triple ?T (recalculate_path_batch E [(leaf_key (of_nat ?p), b)] (of_nat ?p) x (of_nat ?N))
      (\<lambda>y s. ?T s \<and> (\<exists>computed. y = ((leaf_key (of_nat ?p), b) # node_puts (of_nat ?N) computed, computed) \<and>
        comp_at ?H (D @ [x]) ?p (length D + length [x]) computed)) ?R" for b
  proof -
    have eq: "(\<lambda>(computed_hashes :: (u64 \<times> bytes) list, cur_idx). cur_idx \<noteq> r) = (\<lambda>y. snd y \<noteq> r)" for r :: u64 by auto
    have climb: "triple ?T (while_io climb_bound (\<lambda>y. snd y \<noteq> root_idx (of_nat ?N)) (path_step E (of_nat ?N))
        (btree_insert (node_of ?p ?N) (leaf_hash ?H x) [], node_of ?p ?N))
        (\<lambda>y s. ?T s \<and> comp_at ?H (D @ [x]) ?p (length D + length [x]) (fst y)) ?R"
      by (rule triple_conseq [OF triple_path [OF env inv V(2), of x]]) simp_all
    show ?thesis
      unfolding recalculate_path_batch_def Let_def leaf eq
      by (rule triple_and_then [OF climb]) (auto intro!: triple_ret)
  qed
  show "triple ?T (if (- 1) div 2 \<le> (of_nat ?p :: u64) then raise (InconsistentState ''Tree is full'')
     else
       and_then (map_err EncodingError (of_result (?ser x))) (\<lambda>leaf_bytes.
       let batch = [(leaf_key (of_nat ?p), leaf_bytes)] in
       and_then (of_option (LeafIdx_new (of_nat ?p))) (\<lambda>new_leaf_idx.
       and_then (recalculate_path_batch E batch new_leaf_idx x (of_nat ?p + 1)) (\<lambda>(batch1, computed_hashes).
       let batch2 = batch1 @ [(META_KEY, be64 (of_nat ?p + 1)), (COMMITTED_SIZE_KEY, be64 (of_nat ?p + 1))] in
       and_then (precompute_tiles_batch E batch2 (of_nat ?p) (of_nat ?p + 1) computed_hashes) (\<lambda>batch3.
       on_tree_db (rl_write_batch (slate E) batch3)))))) ?Q ?R"
  proof (cases "?ser x")
    case (Inl m)
    with notfull show ?thesis by (auto intro!: triple_raise)
  next
    case (Inr b)
    let ?found = "\<lambda>y. \<exists>computed. y = ((leaf_key (of_nat ?p), b) # node_puts (of_nat ?N) computed, computed) \<and>
        comp_at ?H (D @ [x]) ?p (length D + length [x]) computed"
    let ?finish = "\<lambda>(batch1, computed_hashes). and_then (precompute_tiles_batch E
        (batch1 @ [(META_KEY, be64 (of_nat ?N)), (COMMITTED_SIZE_KEY, be64 (of_nat ?N))]) (of_nat ?p) (of_nat ?N) computed_hashes)
        (\<lambda>batch3. on_tree_db (rl_write_batch (slate E) batch3))"
    have "triple (\<lambda>s. ?T s \<and> ?found y) (?finish y) ?Q ?R" for y
    proof (rule triple_pre [where B = "?found y"], simp)
      assume "?found y"
      then obtain computed where y: "y = ((leaf_key (of_nat ?p), b) # node_puts (of_nat ?N) computed, computed)"
        "comp_at ?H (D @ [x]) ?p (length D + length [x]) computed" by blast
      show "triple (\<lambda>s. ?T s \<and> ?found y) (?finish y) ?Q ?R"
        unfolding y(1) prod.case append_Cons by (rule triple_weaken_pre [OF stored [OF Inr y(2)]]) simp
    qed
    from triple_and_then [OF path this]
    have "triple ?T (and_then (recalculate_path_batch E [(leaf_key (of_nat ?p), b)] (of_nat ?p) x (of_nat ?N)) ?finish) ?Q ?R" .
    then show ?thesis using notfull by (simp only: encoded [OF Inr] N leaf(1) Let_def if_False pure_ops and_then_ret)
  qed
qed

lemma holds_tree_push:
  assumes "env_ok E view held {}" "tree_holds E view held D P s" "length D < 2 ^ 63 - 1" "serializable E x"
  shows "\<exists>s'. tree_push E x s = (Inr (), s') \<and> tree_holds E view held (D @ [x]) (insert (Suc (length D)) P) s'"
proof -
  obtain M where M: "store_inv (digest_of E) (to_stdvec E) D P M" "tree_at E view held D P M s" using assms(2) by (auto simp: tree_holds_def)
  obtain b where b: "to_stdvec E x = Inr b" using assms(4) by (auto simp: serializable_def)
  have "triple (tree_at E view held D P M) (tree_push E x) (\<lambda>_. push_done E view held D P M [x] []) (\<lambda>_ _. False)"
    by (rule triple_conseq [OF triple_tree_push [OF assms(1) M(1) assms(3)]]) (simp_all add: b)
  from triple_valueD [OF this M(2)] obtain s' where "tree_push E x s = (Inr (), s')" "push_done E view held D P M [x] [] s'" by auto
  with push_done_holds(1) [of E view held D P M "[x]" "[]" s'] show ?thesis by (auto simp: published_def)
qed

text \<open>Appending leaf after leaf publishes every size in between.\<close>

lemma holds_tree_pushes:
  assumes "env_ok E view held {}" "tree_holds E view held D P s" "length D + length items < 2 ^ 63" "\<forall>x \<in> set items. serializable E x"
  shows "\<exists>s'. fold_io (\<lambda>x _. tree_push E x) items () s = (Inr (), s') \<and>
    tree_holds E view held (D @ items) (P \<union> {length D<..length D + length items}) s'"
  using assms(2-4)
proof (induction items arbitrary: D P s)
  case Nil
  then show ?case by (simp add: ret_def)
next
  case (Cons x items)
  obtain s1 where s1: "tree_push E x s = (Inr (), s1)" "tree_holds E view held (D @ [x]) (insert (Suc (length D)) P) s1"
    using holds_tree_push [OF assms(1) Cons.prems(1)] Cons.prems(2,3) by fastforce
  obtain s2 where s2: "fold_io (\<lambda>x _. tree_push E x) items () s1 = (Inr (), s2)"
      "tree_holds E view held ((D @ [x]) @ items) (insert (Suc (length D)) P \<union> {length (D @ [x])<..length (D @ [x]) + length items}) s2"
    using Cons.IH [OF s1(2)] Cons.prems(2,3) by auto
  have "insert (Suc (length D)) P \<union> {length (D @ [x])<..length (D @ [x]) + length items} = P \<union> {length D<..length D + length (x # items)}" by auto
  then show ?case using s1(1) s2 by (simp add: and_then_def)
qed

section \<open>The readers of the current tree\<close>

lemma tree_reader_answers:
  assumes env: "env_ok E view held F" and inv: "store_inv (digest_of E) (to_stdvec E) D P M"
  shows "answers (tree_at E view held D P M) (tree_is_empty E) (Inr (D = [])) (DbError ` F)"
    "answers (tree_at E view held D P M) (tree_root E) (Inr \<lparr>root_hash = mth (digest_of E) D, num_leaves = of_nat (length D)\<rparr>) (DbError ` F)"
    "answers (tree_at E view held D P M) (tree_prove_inclusion E i)
      (if length D \<le> unat i then Inl (InconsistentState (''Index '' @ dec i @ '' out of bounds (tree has '' @ dec (of_nat (length D) :: u64) @ '' leaves)''))
       else spec_inclusion (digest_of E) D P i (of_nat (length D))) (DbError ` F)"
    "answers (tree_at E view held D P M) (tree_prove_consistency E a)
      (spec_consistency (digest_of E) D P a (of_nat (length D))) (DbError ` F)"
    "(\<And>x b. to_stdvec E x = Inr b \<Longrightarrow> de b = Inr x) \<Longrightarrow> unat i < length D \<Longrightarrow>
      answers (tree_at E view held D P M) (tree_get E de i) (Inr (Some (D ! unat i))) (DbError ` F)"
proof -
  let ?n = "length D" and ?T = "tree_at E view held D P M"
  have n: "?n \<le> 2 ^ 63" by (rule store_invD(1) [OF inv])
  have u: "unat (of_nat ?n :: u64) = ?n" using n by (intro unat_of_nat_u64) simp
  have z: "(of_nat ?n :: u64) = 0 \<longleftrightarrow> D = []" using u unat_eq_0 [of "of_nat ?n :: u64"] by simp
  show "answers ?T (tree_is_empty E) (Inr (D = [])) (DbError ` F)"
    unfolding tree_is_empty_def by (rule answers_then [OF answers_sizes(2) [OF env inv]]) (simp add: z answers_ret)
  show "answers ?T (tree_root E) (Inr \<lparr>root_hash = mth (digest_of E) D, num_leaves = of_nat ?n\<rparr>) (DbError ` F)"
    unfolding tree_root_def
  proof (rule answers_then [OF answers_sizes(3) [OF env inv]])
    show "answers ?T (and_then (if (of_nat ?n :: u64) = 0 then ret (digest_of E []) else get_node_hash_at_version E (root_idx (of_nat ?n)) (of_nat ?n)) (\<lambda>h.
        ret \<lparr>root_hash = h, num_leaves = of_nat ?n\<rparr>)) (Inr \<lparr>root_hash = mth (digest_of E) D, num_leaves = of_nat ?n\<rparr>) (DbError ` F)"
    proof (cases "D = []")
      case True
      then show ?thesis by (simp add: z mth.simps answers_ret)
    next
      case False
      have P: "?n \<in> P" using store_invD(2) [OF inv] False by (auto simp: sizes_ok_def)
      have tr: "trange ?n 0 ?n" and r: "node_of 0 ?n = root_idx (of_nat ?n)"
        using False n node_of_root_iff [of ?n 0] by (simp_all add: trange_root)
      have "range_hash (digest_of E) D 0 ?n = mth (digest_of E) D" by (simp add: range_hash_def seg_def)
      with answers_range_hash [OF env inv P tr] False show ?thesis
        unfolding r z by (simp only: if_False) (rule answers_then, assumption, simp add: answers_ret)
    qed
  qed
  have le: "(of_nat ?n :: u64) \<le> i \<longleftrightarrow> ?n \<le> unat i" using u by (simp add: word_le_nat_alt)
  show "answers ?T (tree_prove_inclusion E i)
      (if ?n \<le> unat i then Inl (InconsistentState (''Index '' @ dec i @ '' out of bounds (tree has '' @ dec (of_nat ?n :: u64) @ '' leaves)''))
       else spec_inclusion (digest_of E) D P i (of_nat ?n)) (DbError ` F)"
    unfolding tree_prove_inclusion_def
    by (rule answers_then [OF answers_sizes(3) [OF env inv]], unfold le, rule answers_if [OF answers_raise prove_inclusion_answers [OF env inv]])
  show "answers ?T (tree_prove_consistency E a) (spec_consistency (digest_of E) D P a (of_nat ?n)) (DbError ` F)"
    unfolding tree_prove_consistency_def
  proof (rule answers_then [OF answers_sizes(3) [OF env inv]], cases "a = 0")
    case True
    then show "answers ?T (if a = 0 then raise (InconsistentState ''Cannot create consistency proof from empty tree'')
        else prove_consistency_between E a (of_nat ?n)) (spec_consistency (digest_of E) D P a (of_nat ?n)) (DbError ` F)"
      by (simp add: spec_consistency_def answers_raise)
  next
    case False
    then show "answers ?T (if a = 0 then raise (InconsistentState ''Cannot create consistency proof from empty tree'')
        else prove_consistency_between E a (of_nat ?n)) (spec_consistency (digest_of E) D P a (of_nat ?n)) (DbError ` F)"
      using prove_consistency_answers [OF env inv, of a "of_nat ?n"] by (simp only: if_False)
  qed
  assume de: "\<And>x b. to_stdvec E x = Inr b \<Longrightarrow> de b = Inr x" and i: "unat i < ?n"
  obtain b where b: "to_stdvec E (D ! unat i) = Inr b" "M (leaf_key i) = Some b"
    using store_invD(7) [OF inv] i unfolding leaves_inv_def by (metis of_nat_unat ucast_id)
  show "answers ?T (tree_get E de i) (Inr (Some (D ! unat i))) (DbError ` F)"
    unfolding tree_get_def by (rule answers_then [OF answers_db_get [OF env]]) (simp add: b de [OF b(1)] answers_ret)
qed

section \<open>Equivalence\<close>

text \<open>C31: Appending leaf by leaf is appending the batch. From the same tree, on a store that does not fail, pushing the leaves one after the other and pushing
  them as one batch both succeed, hold the same leaves, have the root of RFC 6962 as their current root, and serve the
  same root, and for every leaf and every size published before the same audit path and consistency proof, at the size after the batch.
  The single pushes publish every size in between, the batch only the last.\<close>

theorem single_pushes_equal_batch:
  assumes "env_ok E view held {}" "tree_holds E view held D P s" "length D + length items < 2 ^ 63" "\<forall>x \<in> set items. serializable E x" "items \<noteq> []"
  shows "\<exists>s1 s2. fold_io (\<lambda>x _. tree_push E x) items () s = (Inr (), s1) \<and> batch_push_with_data E items [] s = (Inr (of_nat (length D)), s2) \<and>
    tree_holds E view held (D @ items) (P \<union> {length D<..length D + length items}) s1 \<and>
    tree_holds E view held (D @ items) (insert (length D + length items) P) s2 \<and>
    fst (tree_root E s1) = Inr \<lparr>root_hash = mth (digest_of E) (D @ items), num_leaves = of_nat (length D + length items)\<rparr> \<and>
    fst (tree_root E s2) = fst (tree_root E s1) \<and>
    fst (root_at_size E (of_nat (length D + length items)) s2) = fst (root_at_size E (of_nat (length D + length items)) s1) \<and>
    (\<forall>i. fst (prove_inclusion_at_size E i (of_nat (length D + length items)) s2) = fst (prove_inclusion_at_size E i (of_nat (length D + length items)) s1)) \<and>
    (\<forall>a. unat a \<in> P \<longrightarrow> fst (prove_consistency_between E a (of_nat (length D + length items)) s2)
       = fst (prove_consistency_between E a (of_nat (length D + length items)) s1))"
proof -
  let ?n = "length D + length items" and ?D = "D @ items" and ?P1 = "P \<union> {length D<..length D + length items}" and ?P2 = "insert (length D + length items) P"
  let ?H = "digest_of E" and ?w = "of_nat (length D + length items) :: u64"
  obtain s1 where s1: "fold_io (\<lambda>x _. tree_push E x) items () s = (Inr (), s1)" "tree_holds E view held ?D ?P1 s1"
    using holds_tree_pushes [OF assms(1-4)] by blast
  have "?n \<le> 2 ^ 63" using assms(3) by simp
  from st.push_law [of "(E, view, held)" D P s items "[]"] assms this
  obtain s2 where s2: "batch_push_with_data E items [] s = (Inr (of_nat (length D)), s2)" "tree_holds E view held ?D ?P2 s2"
    by (auto simp: list_all_iff published_def)
  have u: "unat ?w = ?n" using assms(3) by (intro unat_of_nat_u64) simp
  have n: "?n \<in> ?P1" using assms(5) by simp
  have root: "fst (tree_root E t) = Inr \<lparr>root_hash = mth ?H ?D, num_leaves = ?w\<rparr>" if "tree_holds E view held ?D Q t" for Q t
    using holds_answers [OF tree_reader_answers(2) [OF assms(1)] that] by auto
  have reads: "fst (root_at_size E ?w t) = map_sum Err id (spec_root ?H ?D Q ?w)"
    "fst (prove_inclusion_at_size E i ?w t) = map_sum Err id (spec_inclusion ?H ?D Q i ?w)"
    "fst (prove_consistency_between E a ?w t) = map_sum Err id (spec_consistency ?H ?D Q a ?w)" if "tree_holds E view held ?D Q t" for Q t i a
    using holds_reads(1) [OF assms(1) that, of ?w] holds_reads(2) [OF assms(1) that, of i ?w] holds_reads(3) [OF assms(1) that, of a ?w] by auto
  have specs: "spec_root ?H ?D ?P2 ?w = spec_root ?H ?D ?P1 ?w" "spec_inclusion ?H ?D ?P2 i ?w = spec_inclusion ?H ?D ?P1 i ?w"
    "unat a \<in> P \<Longrightarrow> spec_consistency ?H ?D ?P2 a ?w = spec_consistency ?H ?D ?P1 a ?w" for i a
    using n by (simp_all only: spec_root_def spec_inclusion_def spec_consistency_def u insert_iff Un_iff simp_thms)
  have same: "fst (root_at_size E ?w s2) = fst (root_at_size E ?w s1)"
    "\<forall>i. fst (prove_inclusion_at_size E i ?w s2) = fst (prove_inclusion_at_size E i ?w s1)"
    "\<forall>a. unat a \<in> P \<longrightarrow> fst (prove_consistency_between E a ?w s2) = fst (prove_consistency_between E a ?w s1)"
    unfolding reads [OF s1(2)] reads [OF s2(2)] using specs by auto
  have "fst (tree_root E s2) = fst (tree_root E s1)" unfolding root [OF s1(2)] root [OF s2(2)] ..
  with s1 s2 root [OF s1(2)] same show ?thesis by blast
qed

theorem single_pushes_equal_batch_witness:
  "\<exists>s1 s2. fold_io (\<lambda>x _. tree_push mem_env x) [[3], [4]] () mem_two = (Inr (), s1) \<and>
    batch_push_with_data mem_env [[3], [4]] [] mem_two = (Inr (of_nat (length [[1], [2 :: u8]])), s2) \<and>
    fst (tree_root mem_env s1) = Inr \<lparr>root_hash = mth (digest_of mem_env) ([[1], [2]] @ [[3], [4]]), num_leaves = of_nat (length [[1], [2 :: u8]] + length [[3], [4 :: u8]])\<rparr> \<and>
    fst (tree_root mem_env s2) = fst (tree_root mem_env s1)"
proof -
  have "\<forall>x \<in> set [[3], [4]]. serializable mem_env x" "length [[1], [2 :: u8]] + length [[3], [4 :: u8]] < 2 ^ 63" "[[3], [4 :: u8]] \<noteq> []" by simp_all
  from single_pushes_equal_batch [OF mem_env_ok(1) mem_two_holds this(2,1,3)] show ?thesis by blast
qed

end
