(* ===== verification/Ct_Error.thy ===== *)
theory Ct_Error
  imports Slate_Tree
begin

text \<open>
  The error types above the tree: \<^verbatim>\<open>StorageError\<close> of \<^verbatim>\<open>src/src/storage/mod.rs\<close> and \<^verbatim>\<open>CtError\<close> of
  \<^verbatim>\<open>src/src/types/mod.rs\<close>, with their \<^verbatim>\<open>Display\<close> and derived \<^verbatim>\<open>Debug\<close> renderings. The code classifies errors by
  searching the \<^verbatim>\<open>Debug\<close> text, so the text matters. A \<^verbatim>\<open>SlateDBError\<close> is its \<^verbatim>\<open>Display\<close> text; its
  \<^verbatim>\<open>Debug\<close> text is the parameter \<open>dbg\<close>.
\<close>

datatype StorageError = SlateDbFailure SlateDBError | InvalidFormat string | QueueFull

datatype CtError = InvalidCertificate string | Storage StorageError | BadRequest string | Internal string

text \<open>\<^verbatim>\<open>impl Clone for StorageError\<close>.\<close>

fun StorageError_clone :: "StorageError \<Rightarrow> StorageError" where
  "StorageError_clone (SlateDbFailure _) = InvalidFormat ''SlateDB error during batch processing''"
| "StorageError_clone (InvalidFormat s) = InvalidFormat s"
| "StorageError_clone QueueFull = QueueFull"

fun storage_error_display :: "StorageError \<Rightarrow> string" where
  "storage_error_display (SlateDbFailure e) = ''SlateDB error: '' @ e"
| "storage_error_display (InvalidFormat s) = ''Invalid data format: '' @ s"
| "storage_error_display QueueFull = ''Queue full - system at capacity''"

fun ct_error_display :: "CtError \<Rightarrow> string" where
  "ct_error_display (InvalidCertificate s) = ''Invalid certificate format: '' @ s"
| "ct_error_display (Storage e) = ''Storage error: '' @ storage_error_display e"
| "ct_error_display (BadRequest s) = ''Bad request: '' @ s"
| "ct_error_display (Internal s) = ''Internal error: '' @ s"

section \<open>Debug renderings\<close>

text \<open>
  \<^verbatim>\<open>Debug for str\<close>: quotes, backslashes and control characters are escaped. Bytes from 128 on belong to
  printable characters here.
\<close>

definition hex_digit :: "nat \<Rightarrow> char" where
  "hex_digit d = char_of (if d < 10 then 48 + d else 87 + d)"

definition escape_char :: "char \<Rightarrow> string" where
  "escape_char c =
     (let n = of_char c :: nat in
      if n = 0 then [char_of (92::nat), CHR ''0'']
      else if n = 9 then [char_of (92::nat), CHR ''t'']
      else if n = 10 then [char_of (92::nat), CHR ''n'']
      else if n = 13 then [char_of (92::nat), CHR ''r'']
      else if n = 34 \<or> n = 92 then [char_of (92::nat), c]
      else if n < 32 \<or> n = 127
        then char_of (92::nat) # ''u{'' @ (if n < 16 then [hex_digit n] else [hex_digit (n div 16), hex_digit (n mod 16)]) @ ''}''
      else [c])"

definition debug_str :: "string \<Rightarrow> string" where
  "debug_str s = char_of (34::nat) # concat (map escape_char s) @ [char_of (34::nat)]"

fun tree_error_debug :: "(SlateDBError \<Rightarrow> string) \<Rightarrow> SlateDbTreeError \<Rightarrow> string" where
  "tree_error_debug dbg (DbError e) = ''DbError('' @ dbg e @ '')''"
| "tree_error_debug dbg (EncodingError s) = ''EncodingError('' @ debug_str s @ '')''"
| "tree_error_debug dbg (InconsistentState s) = ''InconsistentState('' @ debug_str s @ '')''"

fun storage_error_debug :: "(SlateDBError \<Rightarrow> string) \<Rightarrow> StorageError \<Rightarrow> string" where
  "storage_error_debug dbg (SlateDbFailure e) = ''SlateDb('' @ dbg e @ '')''"
| "storage_error_debug dbg (InvalidFormat s) = ''InvalidFormat('' @ debug_str s @ '')''"
| "storage_error_debug dbg QueueFull = ''QueueFull''"

fun ct_error_debug :: "(SlateDBError \<Rightarrow> string) \<Rightarrow> CtError \<Rightarrow> string" where
  "ct_error_debug dbg (InvalidCertificate s) = ''InvalidCertificate('' @ debug_str s @ '')''"
| "ct_error_debug dbg (Storage e) = ''Storage('' @ storage_error_debug dbg e @ '')''"
| "ct_error_debug dbg (BadRequest s) = ''BadRequest('' @ debug_str s @ '')''"
| "ct_error_debug dbg (Internal s) = ''Internal('' @ debug_str s @ '')''"

text \<open>\<^verbatim>\<open>str::contains\<close>.\<close>

fun str_contains :: "string \<Rightarrow> string \<Rightarrow> bool" where
  "str_contains [] p = (p = [])"
| "str_contains (c # cs) p = (take (length p) (c # cs) = p \<or> str_contains cs p)"

lemma str_contains_append: "str_contains s p \<Longrightarrow> str_contains (a @ s) p"
  by (induction a) auto

lemma str_contains_prefix: "str_contains (p @ s) p"
  by (cases "p @ s") (auto, metis append_Cons append_eq_conv_conj)

lemma str_contains_mid: "str_contains (a @ p @ b) p"
  by (rule str_contains_append) (rule str_contains_prefix)

text \<open>Text without quotes, backslashes and control characters is rendered as it is.\<close>

definition plain_char :: "char \<Rightarrow> bool" where
  "plain_char c = (let n = of_char c :: nat in 32 \<le> n \<and> n \<noteq> 34 \<and> n \<noteq> 92 \<and> n \<noteq> 127)"

lemma escape_plain: "list_all plain_char s \<Longrightarrow> concat (map escape_char s) = s"
  by (induction s) (auto simp: plain_char_def escape_char_def Let_def)

lemma escape_append: "concat (map escape_char (a @ b)) = concat (map escape_char a) @ concat (map escape_char b)"
  by simp

end
