(* ===== verification/Merkle_Storage.thy ===== *)
theory Merkle_Storage
  imports Ct_Error Slate_Tree_Props
begin

text \<open>
  \<^verbatim>\<open>src/src/merkle_storage.rs\<close>: the tree as the storage layer and the API use it. Every operation wraps one of the
  tree and turns its errors into \<^verbatim>\<open>CtError\<close>: most become a storage error that carries the \<^verbatim>\<open>Debug\<close> text, while
  a request for a size that is not published is recognised by its text and becomes a bad request.
  The metrics gauge that is set after a push is not modelled; the read of the size for it is.
\<close>

section \<open>Operations\<close>

type_synonym ('db, 'nc, 'tc, 'a) ct_op = "(('db, 'nc, 'tc) Tree, CtError, 'a) io"

definition storage_failure :: "(SlateDBError \<Rightarrow> string) \<Rightarrow> string \<Rightarrow> SlateDbTreeError \<Rightarrow> CtError" where
  "storage_failure dbg context_text e = Storage (InvalidFormat (context_text @ tree_error_debug dbg e))"

definition ms_new :: "(SlateDBError \<Rightarrow> string) \<Rightarrow> ('db, 'nc, 'tc) TreeEnv \<Rightarrow> ('db, 'nc, 'tc, unit) ct_op" where
  "ms_new dbg E = map_err (storage_failure dbg ''Failed to create SlateDbBackedTree: '') (tree_new E)"

definition ms_size :: "(SlateDBError \<Rightarrow> string) \<Rightarrow> ('db, 'nc, 'tc) TreeEnv \<Rightarrow> ('db, 'nc, 'tc, u64) ct_op" where
  "ms_size dbg E = map_err (storage_failure dbg ''Failed to get tree size: '') (tree_len E)"

definition ms_committed_size :: "(SlateDBError \<Rightarrow> string) \<Rightarrow> ('db, 'nc, 'tc) TreeEnv \<Rightarrow> ('db, 'nc, 'tc, u64) ct_op" where
  "ms_committed_size dbg E = map_err (storage_failure dbg ''Failed to get committed tree size: '') (get_committed_size E)"

definition ms_get_tile ::
  "(SlateDBError \<Rightarrow> string) \<Rightarrow> ('db, 'nc, 'tc) TreeEnv \<Rightarrow> u8 \<Rightarrow> u64 \<Rightarrow> ('db, 'nc, 'tc, bytes option) ct_op" where
  "ms_get_tile dbg E lvl index = map_err (storage_failure dbg ''Failed to get tile: '') (get_tile E lvl index)"

definition ms_batch_push_with_data ::
  "(SlateDBError \<Rightarrow> string) \<Rightarrow> ('db, 'nc, 'tc) TreeEnv \<Rightarrow> bytes list \<Rightarrow> (bytes \<times> bytes) list \<Rightarrow> ('db, 'nc, 'tc, u64) ct_op" where
  "ms_batch_push_with_data dbg E cert_data_vec additional_data =
     and_then (map_err (storage_failure dbg ''Failed to batch push with data: '')
                 (batch_push_with_data E cert_data_vec additional_data)) (\<lambda>result.
     and_then (attempt (ms_size dbg E)) (\<lambda>_.
     ret result))"

definition ms_committed_root :: "(SlateDBError \<Rightarrow> string) \<Rightarrow> ('db, 'nc, 'tc) TreeEnv \<Rightarrow> ('db, 'nc, 'tc, RootHash) ct_op" where
  "ms_committed_root dbg E =
     and_then (ms_committed_size dbg E) (\<lambda>committed_size.
     map_err (storage_failure dbg ''Failed to get root at committed size: '') (root_at_size E committed_size))"

definition boundary_text :: string where
  "boundary_text = ''not a published STH boundary''"

definition prove_inclusion_efficient ::
  "(SlateDBError \<Rightarrow> string) \<Rightarrow> ('db, 'nc, 'tc) TreeEnv \<Rightarrow> u64 \<Rightarrow> u64 \<Rightarrow> ('db, 'nc, 'tc, InclusionProof) ct_op" where
  "prove_inclusion_efficient dbg E tree_size leaf_index =
     (if tree_size \<le> leaf_index
      then raise (BadRequest ''Leaf index out of bounds for requested tree size'')
      else
        and_then (ms_size dbg E) (\<lambda>current_tree_size.
        if current_tree_size < tree_size
        then raise (BadRequest (''Requested tree size '' @ dec tree_size @ '' exceeds current tree size '' @ dec current_tree_size))
        else
          map_err (\<lambda>e.
            if str_contains (tree_error_debug dbg e) boundary_text
            then BadRequest (''Tree size '' @ dec tree_size @ '' is not a published STH boundary'')
            else storage_failure dbg ''Failed to prove inclusion: '' e)
            (prove_inclusion_at_size E leaf_index tree_size)))"

definition consistency_proof_between_sizes ::
  "(SlateDBError \<Rightarrow> string) \<Rightarrow> ('db, 'nc, 'tc) TreeEnv \<Rightarrow> u64 \<Rightarrow> u64 \<Rightarrow> ('db, 'nc, 'tc, ConsistencyProof) ct_op" where
  "consistency_proof_between_sizes dbg E old_tree_size new_tree_size =
     (if new_tree_size < old_tree_size
      then raise (BadRequest ''Old tree size cannot be larger than new tree size'')
      else if old_tree_size = new_tree_size then ret (consistency_from_digests [])
      else if old_tree_size = 0
      then raise (BadRequest ''Cannot produce consistency proof starting from empty tree'')
      else
        and_then (ms_size dbg E) (\<lambda>current_tree_size.
        if current_tree_size < old_tree_size
        then raise (BadRequest (''Old tree size '' @ dec old_tree_size @ '' exceeds current tree size '' @ dec current_tree_size))
        else if current_tree_size < new_tree_size
        then raise (BadRequest (''New tree size '' @ dec new_tree_size @ '' exceeds current tree size '' @ dec current_tree_size))
        else
          map_err (\<lambda>e.
            if str_contains (tree_error_debug dbg e) boundary_text
            then BadRequest (tree_error_debug dbg e)
            else storage_failure dbg ''Failed to prove consistency: '' e)
            (prove_consistency_between E old_tree_size new_tree_size)))"

definition ms_check_keys_exist ::
  "(SlateDBError \<Rightarrow> string) \<Rightarrow> ('db, 'nc, 'tc) TreeEnv \<Rightarrow> bytes list \<Rightarrow> ('db, 'nc, 'tc, bool list) ct_op" where
  "ms_check_keys_exist dbg E keys = map_err (storage_failure dbg ''Failed to check keys: '') (check_keys_exist E keys)"

definition ms_get_node_hash_at_version ::
  "(SlateDBError \<Rightarrow> string) \<Rightarrow> ('db, 'nc, 'tc) TreeEnv \<Rightarrow> u64 \<Rightarrow> u64 \<Rightarrow> ('db, 'nc, 'tc, bytes) ct_op" where
  "ms_get_node_hash_at_version dbg E node_index version =
     map_err (storage_failure dbg ''Failed to get node hash at version: '') (get_node_hash_at_version E node_index version)"

section \<open>Proofs as text\<close>

text \<open>\<open>b64\<close> is \<^verbatim>\<open>base64::STANDARD.encode\<close>.\<close>

definition inclusion_proof_to_audit_path :: "(bytes \<Rightarrow> string) \<Rightarrow> InclusionProof \<Rightarrow> string list" where
  "inclusion_proof_to_audit_path b64 prf = map b64 (chunks 32 (inclusion_bytes prf))"

definition consistency_proof_to_path :: "(bytes \<Rightarrow> string) \<Rightarrow> ConsistencyProof \<Rightarrow> string list" where
  "consistency_proof_to_path b64 prf = map b64 (chunks 32 (consistency_bytes prf))"

section \<open>What the wrapper promises\<close>

definition spec_ms_inclusion :: "digest_fun \<Rightarrow> bytes list \<Rightarrow> nat set \<Rightarrow> u64 \<Rightarrow> u64 \<Rightarrow> CtError + InclusionProof" where
  "spec_ms_inclusion H D P w i =
     (if w \<le> i then Inl (BadRequest ''Leaf index out of bounds for requested tree size'')
      else if length D < unat w then Inl (BadRequest
        (''Requested tree size '' @ dec w @ '' exceeds current tree size '' @ dec (of_nat (length D) :: u64)))
      else if unat w \<notin> P then Inl (BadRequest (''Tree size '' @ dec w @ '' is not a published STH boundary''))
      else Inr (inclusion_from_digests (path H (unat i) (take (unat w) D))))"

definition spec_ms_consistency :: "digest_fun \<Rightarrow> bytes list \<Rightarrow> nat set \<Rightarrow> u64 \<Rightarrow> u64 \<Rightarrow> CtError + ConsistencyProof" where
  "spec_ms_consistency H D P a b =
     (if b < a then Inl (BadRequest ''Old tree size cannot be larger than new tree size'')
      else if a = b then Inr (consistency_from_digests [])
      else if a = 0 then Inl (BadRequest ''Cannot produce consistency proof starting from empty tree'')
      else if length D < unat a then Inl (BadRequest
        (''Old tree size '' @ dec a @ '' exceeds current tree size '' @ dec (of_nat (length D) :: u64)))
      else if length D < unat b then Inl (BadRequest
        (''New tree size '' @ dec b @ '' exceeds current tree size '' @ dec (of_nat (length D) :: u64)))
      else if unat a \<notin> P then Inl (BadRequest
        (''InconsistentState('' @ debug_str (''Old tree size '' @ dec a @ '' is not a published STH boundary'') @ '')''))
      else if unat b \<notin> P then Inl (BadRequest
        (''InconsistentState('' @ debug_str (''New tree size '' @ dec b @ '' is not a published STH boundary'') @ '')''))
      else Inr (consistency_from_digests (rfc_proof H (unat a) (take (unat b) D))))"

lemma boundary_recognised:
  "str_contains (tree_error_debug dbg (InconsistentState (a @ '' is not a published STH boundary''))) boundary_text"
proof -
  have "concat (map escape_char ('' is '' @ boundary_text)) = '' is '' @ boundary_text"
    by (rule escape_plain) (simp add: boundary_text_def plain_char_def)
  moreover have "'' is not a published STH boundary'' = '' is '' @ boundary_text" by (simp add: boundary_text_def)
  ultimately show ?thesis
    by (simp only: tree_error_debug.simps debug_str_def escape_append append.assoc append_Cons [symmetric])
      (rule str_contains_append, rule str_contains_append, rule str_contains_append, rule str_contains_prefix)
qed

text \<open>What the reads answer on a store that does not fail.\<close>

lemma ms_answers:
  assumes "env_ok E view held {}" "store_inv (digest_of E) ser D P M"
  shows "answers (tree_at E view held D P M) (ms_size dbg E) (Inr (of_nat (length D))) {}"
    "answers (tree_at E view held D P M) (ms_committed_size dbg E) (Inr (of_nat (length D))) {}"
    "answers (tree_at E view held D P M) (ms_get_tile dbg E l t)
      (Inr (if unat l \<le> 5 \<and> tile_full (length D) (unat l) (unat t)
            then Some (concat (tile_hashes (digest_of E) D (unat l) (unat t))) else None)) {}"
  using answers_map_err [OF answers_sizes(2) [OF assms], of "storage_failure dbg ''Failed to get tree size: ''"]
    answers_map_err [OF answers_sizes(3) [OF assms], of "storage_failure dbg ''Failed to get committed tree size: ''"]
    answers_map_err [OF get_tile_answers [OF assms, of l t], of "storage_failure dbg ''Failed to get tile: ''"]
  by (simp_all add: ms_size_def ms_committed_size_def ms_get_tile_def)

lemma ms_inclusion_answers:
  assumes "env_ok E view held {}" "store_inv (digest_of E) ser D P M"
  shows "answers (tree_at E view held D P M) (prove_inclusion_efficient dbg E w i) (spec_ms_inclusion (digest_of E) D P w i) {}"
proof (cases "w \<le> i")
  case True
  then show ?thesis by (simp add: prove_inclusion_efficient_def spec_ms_inclusion_def answers_raise)
next
  case False
  let ?T = "tree_at E view held D P M"
  let ?g = "\<lambda>e. if str_contains (tree_error_debug dbg e) boundary_text
            then BadRequest (''Tree size '' @ dec w @ '' is not a published STH boundary'')
            else storage_failure dbg ''Failed to prove inclusion: '' e"
  have p: "answers ?T (map_err ?g (prove_inclusion_at_size E i w)) (map_sum ?g id (spec_inclusion (digest_of E) D P i w)) {}"
    using answers_map_err [OF prove_inclusion_answers [OF assms], of ?g i w] by (simp add: image_image)
  have "map_sum ?g id (spec_inclusion (digest_of E) D P i w) = spec_ms_inclusion (digest_of E) D P w i" if "\<not> length D < unat w"
    using False that boundary_recognised [of dbg "''Tree size '' @ dec w"]
    by (simp add: spec_inclusion_def spec_ms_inclusion_def word_le_nat_alt del: tree_error_debug.simps)
  with p False show ?thesis
    unfolding prove_inclusion_efficient_def
    by (auto simp: spec_ms_inclusion_def committed_less [OF store_invD(1) [OF assms(2)]] answers_raise
        intro!: answers_then [OF ms_answers(1) [OF assms]])
qed

lemma ms_consistency_answers:
  assumes "env_ok E view held {}" "store_inv (digest_of E) ser D P M"
  shows "answers (tree_at E view held D P M) (consistency_proof_between_sizes dbg E a b) (spec_ms_consistency (digest_of E) D P a b) {}"
proof (cases "b < a \<or> a = b \<or> a = 0")
  case True
  then show ?thesis
    by (auto simp: consistency_proof_between_sizes_def spec_ms_consistency_def answers_raise answers_ret)
next
  case False
  let ?T = "tree_at E view held D P M"
  let ?g = "\<lambda>e. if str_contains (tree_error_debug dbg e) boundary_text then BadRequest (tree_error_debug dbg e)
            else storage_failure dbg ''Failed to prove consistency: '' e"
  have p: "answers ?T (map_err ?g (prove_consistency_between E a b)) (map_sum ?g id (spec_consistency (digest_of E) D P a b)) {}"
    using answers_map_err [OF prove_consistency_answers [OF assms], of ?g a b] by (simp add: image_image)
  have "map_sum ?g id (spec_consistency (digest_of E) D P a b) = spec_ms_consistency (digest_of E) D P a b"
    if "\<not> length D < unat a" "\<not> length D < unat b"
    using False that boundary_recognised [of dbg "''Old tree size '' @ dec a"] boundary_recognised [of dbg "''New tree size '' @ dec b"]
    by (simp add: spec_consistency_def spec_ms_consistency_def word_less_nat_alt)
  with p False show ?thesis
    unfolding consistency_proof_between_sizes_def
    by (auto simp: spec_ms_consistency_def committed_less [OF store_invD(1) [OF assms(2)]] answers_raise
        intro!: answers_then [OF ms_answers(1) [OF assms]])
qed

text \<open>The committed root is the root of everything the tree holds.\<close>

lemma ms_root_answers:
  assumes "env_ok E view held {}" "store_inv (digest_of E) ser D P M"
  shows "answers (tree_at E view held D P M) (ms_committed_root dbg E)
    (Inr \<lparr>root_hash = mth (digest_of E) D, num_leaves = of_nat (length D)\<rparr>) {}"
proof -
  note inv = store_invD [OF assms(2)]
  have "spec_root (digest_of E) D P (of_nat (length D)) = Inr \<lparr>root_hash = mth (digest_of E) D, num_leaves = of_nat (length D)\<rparr>"
    using inv(1,2) of_nat_u64_eq_iff [of "length D" 0] by (auto simp: spec_root_def sizes_ok_def unat_of_nat)
  then show ?thesis
    using answers_map_err [OF root_at_size_answers [OF assms], of "storage_failure dbg ''Failed to get root at committed size: ''" "of_nat (length D)"]
    unfolding ms_committed_root_def by (intro answers_then [OF ms_answers(2) [OF assms]]) simp
qed

text \<open>The same as equations.\<close>

lemma ms_holds:
  assumes "\<And>M. store_inv (digest_of E) (to_stdvec E) D P M \<Longrightarrow> answers (tree_at E view held D P M) m r {}"
    and "tree_holds E view held D P s"
  shows "\<exists>s'. m s = (map_sum Err id r, s') \<and> tree_holds E view held D P s'"
proof -
  obtain M where M: "store_inv (digest_of E) (to_stdvec E) D P M" "tree_at E view held D P M s"
    using assms(2) by (auto simp: tree_holds_def)
  from answers_outcome [OF assms(1) [OF M(1)] M(2)] M(1) show ?thesis by (auto simp: tree_holds_def)
qed

lemma ms_inclusion_refines:
  assumes "env_ok E view held {}" "tree_holds E view held D P s"
  shows "\<exists>s'. prove_inclusion_efficient dbg E w i s = (map_sum Err id (spec_ms_inclusion (digest_of E) D P w i), s') \<and>
    tree_holds E view held D P s'"
  by (rule ms_holds [OF ms_inclusion_answers [OF assms(1)] assms(2)])

lemma ms_consistency_refines:
  assumes "env_ok E view held {}" "tree_holds E view held D P s"
  shows "\<exists>s'. consistency_proof_between_sizes dbg E a b s = (map_sum Err id (spec_ms_consistency (digest_of E) D P a b), s') \<and>
    tree_holds E view held D P s'"
  by (rule ms_holds [OF ms_consistency_answers [OF assms(1)] assms(2)])

lemma ms_committed_root_value:
  assumes "env_ok E view held {}" "tree_holds E view held D P s"
  shows "\<exists>s'. ms_committed_root dbg E s
      = (Inr \<lparr>root_hash = mth (digest_of E) D, num_leaves = of_nat (length D)\<rparr>, s') \<and> tree_holds E view held D P s'"
  using ms_holds [OF ms_root_answers [OF assms(1)] assms(2)] by simp

lemma ms_push:
  assumes "env_ok E view held {}" "tree_holds E view held D P s" "length D + length items \<le> 2 ^ 63"
    and "\<forall>x \<in> set items. serializable E x" "\<forall>k \<in> fst ` set add. foreign_key k"
  shows "\<exists>s'. ms_batch_push_with_data dbg E items add s = (Inr (of_nat (length D)), s') \<and>
    tree_holds E view held (D @ items) (published P D items) s' \<and>
    (\<forall>k. foreign_key k \<longrightarrow> tree_contents view s' k = apply_batch add (tree_contents view s) k)"
  using assms(1-3,5)
proof (rule holds_push)
  fix s1
  assume p: "batch_push_with_data E items add s = (Inr (of_nat (length D)), s1)"
    "tree_holds E view held (D @ items) (published P D items) s1"
    "\<forall>k. foreign_key k \<longrightarrow> tree_contents view s1 k = apply_batch add (tree_contents view s) k"
  obtain M where M: "store_inv (digest_of E) (to_stdvec E) (D @ items) (published P D items) M"
    "tree_at E view held (D @ items) (published P D items) M s1" using p(2) by (auto simp: tree_holds_def)
  obtain s2 where s2: "tree_len E s1 = (Inr (of_nat (length (D @ items))), s2)"
    "tree_at E view held (D @ items) (published P D items) M s2"
    using answers_valueD [OF answers_sizes(2) [OF assms(1) M(1), simplified] M(2)] by auto
  have "tree_contents view s2 = tree_contents view s1" "tree_holds E view held (D @ items) (published P D items) s2"
    using M s2(2) by (auto simp: tree_contents_def tree_at_def tree_holds_def)
  then show ?thesis
    using p s2(1) by (auto simp: ms_batch_push_with_data_def ms_size_def and_then_def map_err_def attempt_def ret_def)
qed (use assms(4) in \<open>auto simp: serializable_def\<close>)

section \<open>The wrapper as a source of proofs\<close>

lemma rfc_proof_take_self: "0 < v \<Longrightarrow> v \<le> length D \<Longrightarrow> rfc_proof H v (take v D) = []"
  using rfc_proof_self [of "take v D" H] by (cases "D = []") (auto simp: min_absorb2)

interpretation ms: proof_source "\<lambda>e. live_ok (snd e)" "\<lambda>e. live_holds (snd e)" "\<lambda>e. digest_of (fst (snd e))"
  "\<lambda>e i v. prove_inclusion_efficient (fst e) (fst (snd e)) v i"
  "\<lambda>e. consistency_proof_between_sizes (fst e) (fst (snd e))"
proof unfold_locales
  fix e :: "(SlateDBError \<Rightarrow> string) \<times> ('a, 'b, 'c) live" and D P and s :: "('a, 'b, 'c) Tree" and v m i :: nat and x
  assume e: "live_ok (snd e)"
  show "length (digest_of (fst (snd e)) x) = output_size" using e by (simp add: env_ok_def)
  assume h: "live_holds (snd e) D P s"
  show "length D \<le> 2 ^ 63 \<and> sizes_ok P (length D)" by (rule tree_holds_bounds [OF h])
  note b = holds_published [OF h]
  show "\<exists>s'. prove_inclusion_efficient (fst e) (fst (snd e)) (of_nat v) (of_nat i) s
      = (Inr (inclusion_from_digests (path (digest_of (fst (snd e))) i (take v D))), s') \<and> live_holds (snd e) D P s'"
    if "v \<in> P" "i < v"
  proof -
    have "unat (of_nat i :: u64) = i" using b(4) [OF that(1)] that(2) by (simp add: unat_of_nat)
    then show ?thesis
      using ms_inclusion_refines [OF e h, of "fst e" "of_nat v" "of_nat i"] b [OF that(1)] that
      by (auto simp: spec_ms_inclusion_def word_le_nat_alt)
  qed
  show "\<exists>s'. consistency_proof_between_sizes (fst e) (fst (snd e)) (of_nat m) (of_nat v) s
      = (Inr (consistency_from_digests (rfc_proof (digest_of (fst (snd e))) m (take v D))), s') \<and> live_holds (snd e) D P s'"
    if "v \<in> P" "m \<in> P" "m \<le> v"
  proof -
    have "(of_nat m :: u64) = of_nat v \<longleftrightarrow> m = v" using of_nat_u64_eq_iff [of m v] b(4) [OF that(1)] b(4) [OF that(2)] by simp
    moreover have "(of_nat m :: u64) \<noteq> 0" using of_nat_u64_eq_iff [of m 0] b(1,4) [OF that(2)] by simp
    ultimately show ?thesis
      using ms_consistency_refines [OF e h, of "fst e" "of_nat m" "of_nat v"] b [OF that(1)] b [OF that(2)] that
        rfc_proof_take_self [of v D "digest_of (fst (snd e))"]
      by (auto simp: spec_ms_consistency_def word_less_nat_alt)
  qed
qed

text \<open>A stand-in for base64 on which the properties are exercised: one character per byte.\<close>

definition toy_b64 :: "bytes \<Rightarrow> string" where
  "toy_b64 bs = map (\<lambda>b. char_of (unat b)) bs"

definition toy_b64_decode :: "string \<Rightarrow> bytes option" where
  "toy_b64_decode t = Some (map (\<lambda>c. of_nat (of_char c)) t)"

lemma toy_b64_inverse [simp]: "toy_b64_decode (toy_b64 bs) = Some bs"
proof -
  have "of_nat (unat b mod 256) = b" for b :: u8
    using unsigned_less [of b, where 'a = nat] by simp
  then show ?thesis by (simp add: toy_b64_decode_def toy_b64_def o_def)
qed

section \<open>Properties\<close>

text \<open>\<open>prove_inclusion_efficient\<close> refines its specification: for a published size and an index below it the RFC
  6962 audit path; an index out of bounds, a size beyond the tree and a size that is not a published
  boundary are each answered by the bad request that names them, the last one recognised through
  the text of the tree's error.\<close>

lemma inclusion_requests_answered:
  assumes "env_ok E view held {}" "tree_holds E view held D P s"
  shows "\<exists>s'. prove_inclusion_efficient dbg E w i s = (map_sum Err id (spec_ms_inclusion (digest_of E) D P w i), s') \<and>
    tree_holds E view held D P s'"
  using assms by (rule ms_inclusion_refines)

text \<open>\<open>consistency_proof_between_sizes\<close> refines its specification: between published sizes the RFC 6962
  consistency proof, for equal sizes the empty one, and a bad request for sizes in the wrong order,
  an empty old tree, sizes beyond the tree and sizes that are not published.\<close>

lemma consistency_requests_answered:
  assumes "env_ok E view held {}" "tree_holds E view held D P s"
  shows "\<exists>s'. consistency_proof_between_sizes dbg E a b s = (map_sum Err id (spec_ms_consistency (digest_of E) D P a b), s') \<and>
    tree_holds E view held D P s'"
  using assms by (rule ms_consistency_refines)

text \<open>The tree head that is signed is the head of what was logged: after a batch is pushed through the
  wrapper, \<open>committed_root\<close> returns the Merkle tree hash and the size of all leaves including the new ones, and
  an audit path served for it, sent as base64 text, decodes to the RFC 6962 path.\<close>

lemma pushed_batch_is_in_committed_root:
  assumes "env_ok E view held {}" "tree_holds E view held D P s" "length D + length items \<le> 2 ^ 63"
    and "\<forall>x \<in> set items. serializable E x" "\<forall>k \<in> fst ` set add. foreign_key k" "i < length D + length items" "items \<noteq> []"
    and "\<And>b. b64_decode (b64 b) = Some b"
  shows "\<exists>s1 s2 s3 prf. ms_batch_push_with_data dbg E items add s = (Inr (of_nat (length D)), s1) \<and>
    ms_committed_root dbg E s1 = (Inr \<lparr>root_hash = mth (digest_of E) (D @ items), num_leaves = of_nat (length (D @ items))\<rparr>, s2) \<and>
    prove_inclusion_efficient dbg E (of_nat (length (D @ items))) (of_nat i) s2 = (Inr prf, s3) \<and>
    map b64_decode (inclusion_proof_to_audit_path b64 prf) = map Some (path (digest_of E) i (D @ items))"
proof -
  let ?D = "D @ items"
  obtain s1 where s1: "ms_batch_push_with_data dbg E items add s = (Inr (of_nat (length D)), s1)"
    "tree_holds E view held ?D (published P D items) s1"
    using ms_push [OF assms(1-5)] by blast
  obtain s2 where s2: "ms_committed_root dbg E s1 = (Inr \<lparr>root_hash = mth (digest_of E) ?D, num_leaves = of_nat (length ?D)\<rparr>, s2)"
    "tree_holds E view held ?D (published P D items) s2"
    using ms_committed_root_value [OF assms(1) s1(2)] by blast
  have v: "length ?D \<in> published P D items" using assms(7) by (simp add: published_def)
  obtain s3 where s3: "prove_inclusion_efficient dbg E (of_nat (length ?D)) (of_nat i) s2
      = (Inr (inclusion_from_digests (path (digest_of E) i (take (length ?D) ?D))), s3)"
    using ms.incl_law [of "(dbg, E, view, held)" ?D _ s2 "length ?D" i] assms(1,6) s2(2) v by auto
  have "digests_ok (path (digest_of E) i ?D)"
    using digests_ok_ranges [of "digest_of E" ?D] assms(1) by (simp add: path_ranges_hashes env_ok_def)
  from chunks_concat [OF this] have "map b64_decode (inclusion_proof_to_audit_path b64 (inclusion_from_digests (path (digest_of E) i ?D)))
      = map Some (path (digest_of E) i ?D)"
    by (simp add: inclusion_proof_to_audit_path_def inclusion_from_digests_def output_size_def assms(8))
  with s1 s2 s3 show ?thesis by simp
qed

end
