(* ===== verification/Sct_Extensions.thy ===== *)
theory Sct_Extensions
  imports CT_Prelude
begin

text \<open>
  \<^verbatim>\<open>src/src/types/sct_extensions.rs\<close>: the extensions of the Static CT API, of which there is one, the
  40-bit leaf index. The decoders are compiled for the tests only; they are what the encoders
  are measured against here.
\<close>

section \<open>Leaf index\<close>

datatype ExtensionType = LeafIndexExtension

fun extension_type_byte :: "ExtensionType \<Rightarrow> u8" where
  "extension_type_byte LeafIndexExtension = 0"

record Extension =
  extension_type :: ExtensionType
  extension_data :: bytes

datatype LeafIndex = LeafIndex (leaf_index_value: u64)

definition LeafIndex_new :: "u64 \<Rightarrow> string + LeafIndex" where
  "LeafIndex_new index =
     (if 0xFFFFFFFFFF < index then Inl ''Index exceeds 40-bit range'' else Inr (LeafIndex index))"

fun LeafIndex_as_bytes :: "LeafIndex \<Rightarrow> bytes" where
  "LeafIndex_as_bytes (LeafIndex i) =
     [ucast (drop_bit 32 i AND 0xFF), ucast (drop_bit 24 i AND 0xFF), ucast (drop_bit 16 i AND 0xFF),
      ucast (drop_bit 8 i AND 0xFF), ucast (i AND 0xFF)]"

definition LeafIndex_from_bytes :: "bytes \<Rightarrow> string + LeafIndex" where
  "LeafIndex_from_bytes bs =
     (if length bs \<noteq> 5 then Inl ''LeafIndex must be exactly 5 bytes''
      else LeafIndex_new
        (push_bit 32 (ucast (bs ! 0)) OR push_bit 24 (ucast (bs ! 1)) OR push_bit 16 (ucast (bs ! 2))
          OR push_bit 8 (ucast (bs ! 3)) OR ucast (bs ! 4)))"

section \<open>Extensions\<close>

definition Extension_leaf_index :: "u64 \<Rightarrow> string + Extension" where
  "Extension_leaf_index index =
     (case LeafIndex_new index of
        Inl e \<Rightarrow> Inl e
      | Inr leaf_index \<Rightarrow> Inr \<lparr>extension_type = LeafIndexExtension, extension_data = LeafIndex_as_bytes leaf_index\<rparr>)"

definition Extension_encode :: "Extension \<Rightarrow> bytes" where
  "Extension_encode self =
     extension_type_byte (extension_type self) # be_bytes 2 (of_nat (length (extension_data self)) :: u16)
       @ extension_data self"

definition Extension_decode :: "bytes \<Rightarrow> string + (Extension \<times> nat)" where
  "Extension_decode bs =
     (if length bs < 3 then Inl ''Extension too short''
      else
        let ext_type = bs ! 0;
            data_len = unat (be_val [bs ! 1, bs ! 2] :: u16)
        in if length bs < 3 + data_len then Inl ''Extension data truncated''
           else if ext_type \<noteq> 0 then Inl ''Unknown extension type''
           else Inr (\<lparr>extension_type = LeafIndexExtension, extension_data = take data_len (drop 3 bs)\<rparr>, 3 + data_len))"

definition CtExtensions_encode :: "Extension list \<Rightarrow> bytes" where
  "CtExtensions_encode extensions =
     be_bytes 2 (of_nat (sum_list (map (\<lambda>ext. length (Extension_encode ext)) extensions)) :: u16)
       @ concat (map Extension_encode extensions)"

definition with_leaf_index :: "u64 \<Rightarrow> string + bytes" where
  "with_leaf_index index =
     (case Extension_leaf_index index of Inl e \<Rightarrow> Inl e | Inr leaf_ext \<Rightarrow> Inr (CtExtensions_encode [leaf_ext]))"

text \<open>The loop over the remaining bytes; an extension consumes at least three.\<close>

lemma Extension_decode_consumes: "Extension_decode bs = Inr (ext, n) \<Longrightarrow> 3 \<le> n \<and> n \<le> length bs"
  by (auto simp: Extension_decode_def Let_def split: if_splits)

function (sequential) decode_extensions :: "bytes \<Rightarrow> string + Extension list" where
  "decode_extensions bs =
     (if bs = [] then Inr []
      else case Extension_decode bs of
          Inl e \<Rightarrow> Inl e
        | Inr (ext, consumed) \<Rightarrow>
            (case decode_extensions (drop consumed bs) of Inl e \<Rightarrow> Inl e | Inr exts \<Rightarrow> Inr (ext # exts)))"
  by pat_completeness auto
termination
  by (relation "measure length") (auto dest: Extension_decode_consumes)

declare decode_extensions.simps [simp del]

definition CtExtensions_decode :: "bytes \<Rightarrow> string + Extension list" where
  "CtExtensions_decode bs =
     (if length bs < 2 then Inl ''CtExtensions too short''
      else
        let total_len = unat (be_val [bs ! 0, bs ! 1] :: u16)
        in if length bs \<noteq> 2 + total_len then Inl ''CtExtensions length mismatch''
           else decode_extensions (drop 2 bs))"

section \<open>Round trips\<close>

lemma ucast_and_FF: "ucast (w AND 0xFF) = (ucast w :: u8)" for w :: u64
proof -
  have "(0xFF :: u64) = mask 8" by (simp add: mask_eq_exp_minus_1)
  then have "w AND 0xFF = take_bit 8 w" by (simp add: take_bit_eq_mask)
  then show ?thesis by (simp only:) (rule bit_word_eqI, simp add: bit_simps)
qed

lemma LeafIndex_as_bytes_be: "LeafIndex_as_bytes (LeafIndex i) = be_bytes 5 i"
  by (simp add: ucast_and_FF eval_nat_numeral)

lemma be_val_5: "be_val [a, b, c, d, e] =
    (push_bit 32 (ucast a) OR push_bit 24 (ucast b) OR push_bit 16 (ucast c) OR push_bit 8 (ucast d) OR ucast e :: u64)"
  by (simp add: be_val_def push_bit_or ac_simps)

lemma LeafIndex_from_bytes_be: "length bs = 5 \<Longrightarrow> LeafIndex_from_bytes bs = LeafIndex_new (be_val bs)"
  by (auto simp: LeafIndex_from_bytes_def be_val_5 length_Suc_conv eval_nat_numeral)

lemma LeafIndex_new_iff: "LeafIndex_new i = Inr x \<longleftrightarrow> x = LeafIndex i \<and> unat i < 2 ^ 40"
  by (auto simp: LeafIndex_new_def word_less_nat_alt)

lemma LeafIndex_roundtrip:
  assumes "LeafIndex_new i = Inr x"
  shows "LeafIndex_from_bytes (LeafIndex_as_bytes x) = Inr (LeafIndex i)"
proof -
  have x: "x = LeafIndex i" and i: "unat i < 2 ^ 40" using assms by (simp_all add: LeafIndex_new_iff)
  have "take_bit 40 i = i"
    using i by (simp add: word_unat_eq_iff unsigned_take_bit_eq take_bit_nat_eq_self)
  then show ?thesis
    using assms x by (simp add: LeafIndex_as_bytes_be LeafIndex_from_bytes_be be_val_be_bytes del: LeafIndex_as_bytes.simps)
qed

lemma Extension_decode_encode:
  assumes "length (extension_data ext) < 2 ^ 16"
  shows "Extension_decode (Extension_encode ext @ rest) = Inr (ext, length (Extension_encode ext))"
proof -
  let ?d = "extension_data ext"
  have "be_bytes 2 (of_nat (length ?d) :: u16) = [ucast (drop_bit 8 (of_nat (length ?d) :: u16)), ucast (of_nat (length ?d) :: u16)]"
    by (rule be_bytes_2)
  moreover have "unat (be_val (be_bytes 2 (of_nat (length ?d) :: u16)) :: u16) = length ?d"
    using assms by (simp add: be_val_be_bytes unsigned_take_bit_eq unat_of_nat take_bit_nat_eq_self)
  moreover have "extension_type_byte (extension_type ext) = 0" by (cases "extension_type ext") simp
  ultimately show ?thesis
    by (cases ext; cases "extension_type ext") (simp add: Extension_decode_def Extension_encode_def)
qed

lemma decode_extensions_encode:
  assumes "\<forall>ext \<in> set exts. length (extension_data ext) < 2 ^ 16"
  shows "decode_extensions (concat (map Extension_encode exts)) = Inr exts"
  using assms
proof (induction exts)
  case Nil
  show ?case by (simp add: decode_extensions.simps)
next
  case (Cons ext exts)
  let ?r = "concat (map Extension_encode exts)"
  have "Extension_encode ext \<noteq> []" by (simp add: Extension_encode_def)
  moreover have "Extension_decode (Extension_encode ext @ ?r) = Inr (ext, length (Extension_encode ext))"
    by (rule Extension_decode_encode) (use Cons.prems in simp)
  ultimately show ?case using Cons by (simp add: decode_extensions.simps [of "Extension_encode ext @ ?r"])
qed

lemma CtExtensions_decode_encode:
  assumes "\<forall>ext \<in> set exts. length (extension_data ext) < 2 ^ 16" "length (concat (map Extension_encode exts)) < 2 ^ 16"
  shows "CtExtensions_decode (CtExtensions_encode exts) = Inr exts"
proof -
  let ?l = "length (concat (map Extension_encode exts))"
  have len: "sum_list (map (\<lambda>ext. length (Extension_encode ext)) exts) = ?l" by (simp add: length_concat o_def)
  have "be_bytes 2 (of_nat ?l :: u16) = [ucast (drop_bit 8 (of_nat ?l :: u16)), ucast (of_nat ?l :: u16)]"
    by (rule be_bytes_2)
  moreover have "unat (be_val (be_bytes 2 (of_nat ?l :: u16)) :: u16) = ?l"
    using assms(2) by (simp add: be_val_be_bytes unsigned_take_bit_eq unat_of_nat take_bit_nat_eq_self)
  ultimately show ?thesis
    using decode_extensions_encode [OF assms(1)]
    by (simp only: CtExtensions_decode_def CtExtensions_encode_def len) (simp add: Let_def)
qed

text \<open>The encoding of a leaf index, and when there is one.\<close>

lemma Extension_leaf_index_eq:
  "Extension_leaf_index i = (if unat i < 2 ^ 40 then Inr \<lparr>extension_type = LeafIndexExtension, extension_data = be_bytes 5 i\<rparr>
     else Inl ''Index exceeds 40-bit range'')"
  by (auto simp: Extension_leaf_index_def LeafIndex_new_def word_less_nat_alt LeafIndex_as_bytes_be simp del: LeafIndex_as_bytes.simps)

definition leaf_index_extension :: "u64 \<Rightarrow> bytes" where
  "leaf_index_extension i = [0, 0, 5] @ be_bytes 5 i"

lemma Extension_leaf_index_encode:
  "Extension_encode \<lparr>extension_type = LeafIndexExtension, extension_data = be_bytes 5 i\<rparr> = leaf_index_extension i"
  by (simp add: Extension_encode_def leaf_index_extension_def be_bytes_2)

lemma length_leaf_index_extension [simp]: "length (leaf_index_extension i) = 8"
  by (simp add: leaf_index_extension_def)

lemma with_leaf_index_eq:
  "with_leaf_index i = (if unat i < 2 ^ 40 then Inr (be_bytes 2 (8 :: u16) @ leaf_index_extension i) else Inl ''Index exceeds 40-bit range'')"
  by (simp add: with_leaf_index_def Extension_leaf_index_eq CtExtensions_encode_def Extension_leaf_index_encode)

section \<open>Properties\<close>

text \<open>Decoding an encoded list of extensions gives the list back, for all lists whose encoding fits the
  16-bit length in front of it.\<close>

lemma ct_extensions_roundtrip:
  assumes "length (concat (map Extension_encode exts)) < 2 ^ 16"
  shows "CtExtensions_decode (CtExtensions_encode exts) = Inr exts"
proof (rule CtExtensions_decode_encode [OF ballI assms])
  fix ext assume "ext \<in> set exts"
  then have "length (Extension_encode ext) \<le> length (concat (map Extension_encode exts))"
    by (auto simp: length_concat intro!: member_le_sum_list)
  then show "length (extension_data ext) < 2 ^ 16" using assms by (simp add: Extension_encode_def)
qed

text \<open>C38: the leaf index extension. An index of up to 40 bits is encoded in ten bytes from which the extension and
  the index are read back; a larger index is refused.\<close>

theorem leaf_index_extension_roundtrip:
  "(if unat i < 2 ^ 40
    then \<exists>b ext. with_leaf_index i = Inr b \<and> length b = 10 \<and> CtExtensions_decode b = Inr [ext] \<and>
           LeafIndex_from_bytes (extension_data ext) = Inr (LeafIndex i)
    else with_leaf_index i = Inl ''Index exceeds 40-bit range'')"
proof (cases "unat i < 2 ^ 40")
  case True
  let ?ext = "\<lparr>extension_type = LeafIndexExtension, extension_data = be_bytes 5 i\<rparr>"
  have "with_leaf_index i = Inr (CtExtensions_encode [?ext])"
    using True by (simp add: with_leaf_index_def Extension_leaf_index_eq)
  moreover have "length (CtExtensions_encode [?ext]) = 10" by (simp add: CtExtensions_encode_def Extension_encode_def)
  moreover have "CtExtensions_decode (CtExtensions_encode [?ext]) = Inr [?ext]"
    by (rule CtExtensions_decode_encode) (simp_all add: Extension_encode_def)
  moreover have "LeafIndex_from_bytes (be_bytes 5 i) = Inr (LeafIndex i)"
    using LeafIndex_roundtrip [of i "LeafIndex i"] True
    by (simp add: LeafIndex_new_iff LeafIndex_as_bytes_be del: LeafIndex_as_bytes.simps)
  ultimately show ?thesis using True by auto
qed (simp add: with_leaf_index_eq)

end
