(* ===== verification/Log_Entry.thy ===== *)
theory Log_Entry
  imports Ct_Error Sct_Extensions
begin

text \<open>
  \<^verbatim>\<open>src/src/types/mod.rs\<close>: log entries, their deduplicated form and the MerkleTreeLeaf they are logged as. SHA-256 is
  the parameter \<open>H\<close>. A pure function
  that may panic returns an option; one that may also fail returns an \<open>exc\<close>.

  \<open>parse_merkle_tree_leaf\<close> is a reader of the RFC 6962 structure, written from the RFC: the theorem that it
  inverts the writer shows that leaves are well-formed and that no two entries share a leaf.
\<close>

section \<open>Data\<close>

datatype LogEntryType = X509Entry | PrecertEntry

datatype LogId = LogId bytes

text \<open>
  \<^verbatim>\<open>DateTime<Utc>\<close>: the milliseconds since the epoch that \<^verbatim>\<open>timestamp_millis()\<close> reads, as an \<^verbatim>\<open>i64\<close>, and the
  nanoseconds beyond them, which only the comparison of two times sees.
\<close>

record DateTime =
  timestamp_millis :: "64 word"
  sub_millis_nanos :: u32

definition datetime_less :: "DateTime \<Rightarrow> DateTime \<Rightarrow> bool" where
  "datetime_less a b =
     (sint (timestamp_millis a) < sint (timestamp_millis b) \<or>
      timestamp_millis a = timestamp_millis b \<and> sub_millis_nanos a < sub_millis_nanos b)"

record LogEntry =
  entry_index :: u64
  entry_timestamp :: DateTime
  entry_type :: LogEntryType
  certificate :: bytes
  chain :: "bytes list option"
  issuer_key_hash :: "bytes option"
  original_precert :: "bytes option"
  leaf_data :: bytes

record DeduplicatedLogEntry =
  dedup_index :: u64
  dedup_timestamp :: DateTime
  dedup_entry_type :: LogEntryType
  certificate_hash :: bytes
  chain_hashes :: "bytes list option"
  dedup_issuer_key_hash :: "bytes option"
  original_precert_hash :: "bytes option"
  dedup_leaf_data :: bytes

definition LogId_new :: "digest_fun \<Rightarrow> bytes \<Rightarrow> LogId" where
  "LogId_new H public_key_der = LogId (H public_key_der)"

fun LogId_to_bytes :: "LogId \<Rightarrow> bytes" where
  "LogId_to_bytes (LogId b) = b"

section \<open>Deduplication\<close>

definition hash_certificate :: "digest_fun \<Rightarrow> bytes \<Rightarrow> bytes" where
  "hash_certificate H cert = H cert"

text \<open>
  The expectation of an original pre-certificate and the slice of an issuer key hash shorter than 32
  bytes panic.
\<close>

definition from_log_entry :: "digest_fun \<Rightarrow> LogEntry \<Rightarrow> DeduplicatedLogEntry option" where
  "from_log_entry H entry = do {
     (cert_hash, precert_hash) \<leftarrow>
       (if entry_type entry = PrecertEntry
        then map_option (\<lambda>precert. (H precert, Some (H precert))) (original_precert entry)
        else Some (H (certificate entry), None));
     key_hash \<leftarrow>
       (case issuer_key_hash entry of
          None \<Rightarrow> Some None
        | Some h \<Rightarrow> if 32 \<le> length h then Some (Some (take 32 h)) else None);
     Some \<lparr>dedup_index = entry_index entry, dedup_timestamp = entry_timestamp entry, dedup_entry_type = entry_type entry,
       certificate_hash = cert_hash, chain_hashes = map_option (map H) (chain entry),
       dedup_issuer_key_hash = key_hash, original_precert_hash = precert_hash, dedup_leaf_data = leaf_data entry\<rparr> }"

section \<open>The Merkle tree leaf\<close>

definition serialize_merkle_tree_leaf ::
  "bytes \<Rightarrow> LogEntryType \<Rightarrow> bytes option \<Rightarrow> DateTime \<Rightarrow> u64 option \<Rightarrow> bytes option" where
  "serialize_merkle_tree_leaf cert ty kh timestamp index =
     map_option (\<lambda>extensions.
       [0x00] @ [0x00] @ be64 (timestamp_millis timestamp)
       @ (case ty of
            X509Entry \<Rightarrow>
              [0x00, 0x00] @ be_bytes 3 (of_nat (length cert) :: u32) @ cert
          | PrecertEntry \<Rightarrow>
              [0x00, 0x01] @ (case kh of Some key_hash \<Rightarrow> key_hash | None \<Rightarrow> replicate 32 0)
                @ be_bytes 3 (of_nat (length cert) :: u32) @ cert)
       @ extensions)
     (case index of
        Some idx \<Rightarrow>
          (case Extension_leaf_index idx of
             Inl _ \<Rightarrow> None
           | Inr leaf_ext \<Rightarrow>
               let ext_data = Extension_encode leaf_ext
               in Some (be_bytes 2 (of_nat (length ext_data) :: u16) @ ext_data))
      | None \<Rightarrow> Some [0x00, 0x00])"

definition compute_leaf_data :: "bytes \<Rightarrow> LogEntryType \<Rightarrow> bytes option \<Rightarrow> DateTime \<Rightarrow> bytes option" where
  "compute_leaf_data cert ty kh timestamp =
     serialize_merkle_tree_leaf cert ty kh timestamp None"

definition compute_leaf_data_with_index ::
  "bytes \<Rightarrow> LogEntryType \<Rightarrow> bytes option \<Rightarrow> DateTime \<Rightarrow> u64 \<Rightarrow> bytes option" where
  "compute_leaf_data_with_index cert ty kh timestamp index =
     serialize_merkle_tree_leaf cert ty kh timestamp (Some index)"

definition new_with_timestamp :: "u64 \<Rightarrow> bytes \<Rightarrow> bytes list option \<Rightarrow> DateTime \<Rightarrow> LogEntry option" where
  "new_with_timestamp index cert chn timestamp = do {
     data \<leftarrow> compute_leaf_data cert X509Entry None timestamp;
     Some \<lparr>entry_index = index, entry_timestamp = timestamp, entry_type = X509Entry, certificate = cert, chain = chn,
       issuer_key_hash = None, original_precert = None, leaf_data = data\<rparr> }"

definition new_precert_with_timestamp ::
  "u64 \<Rightarrow> bytes \<Rightarrow> bytes list option \<Rightarrow> bytes \<Rightarrow> bytes \<Rightarrow> DateTime \<Rightarrow> LogEntry option" where
  "new_precert_with_timestamp index cert chn key_hash precert timestamp = do {
     data \<leftarrow> compute_leaf_data cert PrecertEntry (Some key_hash) timestamp;
     Some \<lparr>entry_index = index, entry_timestamp = timestamp, entry_type = PrecertEntry, certificate = cert, chain = chn,
       issuer_key_hash = Some key_hash, original_precert = Some precert, leaf_data = data\<rparr> }"

definition LogEntry_serialize :: "LogEntry \<Rightarrow> CtError exc + bytes" where
  "LogEntry_serialize self =
     (let write = (\<lambda>key_hash.
            case serialize_merkle_tree_leaf (certificate self) (entry_type self) key_hash (entry_timestamp self)
                   (Some (entry_index self)) of
              None \<Rightarrow> Inl Panic
            | Some data \<Rightarrow> Inr data)
      in case entry_type self of
           X509Entry \<Rightarrow> write None
         | PrecertEntry \<Rightarrow>
             (case issuer_key_hash self of
                Some key_hash \<Rightarrow> write (Some key_hash)
              | None \<Rightarrow> Inl (Err (InvalidCertificate ''Pre-certificate entry missing issuer key hash''))))"

section \<open>Reading a leaf\<close>

record ParsedLeaf =
  parsed_timestamp :: u64
  parsed_entry_type :: LogEntryType
  parsed_key_hash :: "bytes option"
  parsed_certificate :: bytes
  parsed_extensions :: bytes

definition parse_timestamped_entry :: "bytes \<Rightarrow> (ParsedLeaf \<times> bytes) option" where
  "parse_timestamped_entry bs = do {
     (ts, r1) \<leftarrow> read_n 8 bs;
     (ty, r2) \<leftarrow> read_n 2 r1;
     (kh, r3) \<leftarrow> (if ty = [0, 0] then Some (None, r2)
                  else if ty = [0, 1] then map_option (\<lambda>(k, r). (Some k, r)) (read_n 32 r2) else None);
     (cert, r4) \<leftarrow> read_vec 3 r3;
     (ext, r5) \<leftarrow> read_vec 2 r4;
     Some (\<lparr>parsed_timestamp = be_val ts, parsed_entry_type = (if kh = None then X509Entry else PrecertEntry),
       parsed_key_hash = kh, parsed_certificate = cert, parsed_extensions = ext\<rparr>, r5) }"

definition parse_merkle_tree_leaf :: "bytes \<Rightarrow> ParsedLeaf option" where
  "parse_merkle_tree_leaf bs = do {
     (hd, r) \<leftarrow> read_n 2 bs;
     if hd = [0, 0] then do { (p, r') \<leftarrow> parse_timestamped_entry r; if r' = [] then Some p else None } else None }"

text \<open>What is signed and logged is well-formed when the key hash is present exactly for a pre-certificate.\<close>

definition key_hash_ok :: "LogEntryType \<Rightarrow> bytes option \<Rightarrow> bool" where
  "key_hash_ok ty kh = (case ty of X509Entry \<Rightarrow> kh = None | PrecertEntry \<Rightarrow> (case kh of None \<Rightarrow> False | Some h \<Rightarrow> length h = 32))"

definition index_extension :: "u64 option \<Rightarrow> bytes" where
  "index_extension i = (case i of None \<Rightarrow> [] | Some idx \<Rightarrow> leaf_index_extension idx)"

definition entry_bytes :: "bytes \<Rightarrow> LogEntryType \<Rightarrow> bytes option \<Rightarrow> u64 \<Rightarrow> bytes \<Rightarrow> bytes" where
  "entry_bytes cert ty kh ms ext =
     be64 ms @ (case ty of X509Entry \<Rightarrow> [0, 0] | PrecertEntry \<Rightarrow> [0, 1] @ (case kh of Some h \<Rightarrow> h | None \<Rightarrow> replicate 32 0))
       @ vec24 cert @ vec16 ext"

lemma serialize_eq:
  "serialize_merkle_tree_leaf cert ty kh ts i =
    (if (case i of None \<Rightarrow> True | Some idx \<Rightarrow> unat idx < 2 ^ 40)
     then Some ([0, 0] @ entry_bytes cert ty kh (timestamp_millis ts) (index_extension i)) else None)"
  by (cases i; cases ty)
    (simp_all add: serialize_merkle_tree_leaf_def entry_bytes_def index_extension_def vec16_def vec24_def be_bytes_2
      Extension_leaf_index_eq Extension_leaf_index_encode)

lemma parse_entry_bytes:
  assumes "key_hash_ok ty kh" "length cert < 2 ^ 24" "length ext < 2 ^ 16"
  shows "parse_timestamped_entry (entry_bytes cert ty kh ms ext @ rest)
    = Some (\<lparr>parsed_timestamp = ms, parsed_entry_type = ty, parsed_key_hash = kh, parsed_certificate = cert, parsed_extensions = ext\<rparr>, rest)"
proof -
  show ?thesis
    using assms by (cases ty) (auto simp: parse_timestamped_entry_def entry_bytes_def key_hash_ok_def split: option.splits)
qed

lemma parse_leaf:
  assumes "serialize_merkle_tree_leaf cert ty kh ts i = Some d" "key_hash_ok ty kh" "length cert < 2 ^ 24"
  shows "parse_merkle_tree_leaf d = Some \<lparr>parsed_timestamp = timestamp_millis ts, parsed_entry_type = ty,
    parsed_key_hash = kh, parsed_certificate = cert, parsed_extensions = index_extension i\<rparr>"
proof -
  let ?e = "entry_bytes cert ty kh (timestamp_millis ts) (index_extension i)"
  have d: "d = [0, 0] @ ?e" using assms(1) by (simp add: serialize_eq split: if_splits)
  have "length (index_extension i) < 2 ^ 16" by (cases i) (simp_all add: index_extension_def)
  from parse_entry_bytes [OF assms(2,3) this, of "timestamp_millis ts" "[]"] show ?thesis
    by (simp add: d parse_merkle_tree_leaf_def)
qed

lemma leaf_index_extension_inject [simp]:
  assumes "unat i < 2 ^ 40" "unat j < 2 ^ 40"
  shows "leaf_index_extension i = leaf_index_extension j \<longleftrightarrow> i = j"
proof
  assume "leaf_index_extension i = leaf_index_extension j"
  then have "be_bytes 5 i = be_bytes 5 j" by (simp add: leaf_index_extension_def)
  then have "take_bit 40 i = take_bit 40 j" using be_val_be_bytes [of 5 i] be_val_be_bytes [of 5 j] by simp
  moreover have "take_bit 40 w = w" if "unat w < 2 ^ 40" for w :: u64
    using that by (simp add: word_unat_eq_iff unsigned_take_bit_eq take_bit_nat_eq_self)
  ultimately show "i = j" using assms by simp
qed simp

section \<open>Properties\<close>

text \<open>C35: the MerkleTreeLeaf round trip. A reader of the RFC 6962 structure gets back from the bytes written for an
  entry its timestamp, type, key hash, certificate and index extension, for certificates below
  \<open>2 ^ 24\<close> bytes and indices of at most 40 bits; a larger index makes the writer panic.\<close>

theorem merkle_tree_leaf_roundtrip:
  assumes "key_hash_ok ty kh" "length cert < 2 ^ 24"
  shows "(case compute_leaf_data_with_index cert ty kh ts i of
      None \<Rightarrow> 2 ^ 40 \<le> unat i
    | Some d \<Rightarrow> unat i < 2 ^ 40 \<and>
        parse_merkle_tree_leaf d = Some \<lparr>parsed_timestamp = timestamp_millis ts, parsed_entry_type = ty,
          parsed_key_hash = kh, parsed_certificate = cert, parsed_extensions = leaf_index_extension i\<rparr>)"
proof (cases "compute_leaf_data_with_index cert ty kh ts i")
  case None
  then show ?thesis by (simp add: compute_leaf_data_with_index_def serialize_eq split: if_splits)
next
  case (Some d)
  then show ?thesis
    using parse_leaf [OF Some [unfolded compute_leaf_data_with_index_def] assms]
    by (simp add: compute_leaf_data_with_index_def serialize_eq index_extension_def split: if_splits)
qed

theorem merkle_tree_leaf_roundtrip_witness:
  "(case compute_leaf_data_with_index [48, 3, 2, 1, 5] PrecertEntry (Some (replicate 32 7)) \<lparr>timestamp_millis = 1234567890000, sub_millis_nanos = 0\<rparr> 54321 of
      None \<Rightarrow> 2 ^ 40 \<le> unat (54321 :: u64)
    | Some d \<Rightarrow> unat (54321 :: u64) < 2 ^ 40 \<and>
        parse_merkle_tree_leaf d = Some \<lparr>parsed_timestamp = timestamp_millis \<lparr>timestamp_millis = 1234567890000, sub_millis_nanos = 0\<rparr>, parsed_entry_type = PrecertEntry,
          parsed_key_hash = Some (replicate 32 7), parsed_certificate = [48, 3, 2, 1, 5], parsed_extensions = leaf_index_extension 54321\<rparr>)"
  by (rule merkle_tree_leaf_roundtrip) (simp_all add: key_hash_ok_def)

text \<open>Distinct positions have distinct leaves: two entries with the same leaf bytes agree in index, timestamp,
  type, key hash and certificate, so that a leaf commits to everything that was submitted.\<close>

lemma leaf_determines_entry:
  assumes "compute_leaf_data_with_index cert ty kh ts i = Some d" "compute_leaf_data_with_index cert' ty' kh' ts' i' = Some d"
    and "key_hash_ok ty kh" "key_hash_ok ty' kh'" "length cert < 2 ^ 24" "length cert' < 2 ^ 24"
  shows "i = i' \<and> timestamp_millis ts = timestamp_millis ts' \<and> ty = ty' \<and> kh = kh' \<and> cert = cert'"
proof -
  note a = assms(1,2) [unfolded compute_leaf_data_with_index_def]
  have "unat i < 2 ^ 40" "unat i' < 2 ^ 40" using a by (auto simp: serialize_eq split: if_splits)
  then show ?thesis
    using parse_leaf [OF a(1) assms(3,5)] parse_leaf [OF a(2) assms(4,6)] by (simp add: index_extension_def)
qed

end
