(* ===== verification/Sct.thy ===== *)
theory Sct
  imports Log_Entry
begin

text \<open>
  \<^verbatim>\<open>src/src/types/sct.rs\<close>: signed certificate timestamps. The signing key and ECDSA are parameters: \<open>from_slice\<close>
  makes a key of bytes, \<open>sign\<close> gives the DER bytes of a signature.
\<close>

datatype SctVersion = V1

fun sct_version_byte :: "SctVersion \<Rightarrow> u8" where
  "sct_version_byte V1 = 0"

record SignedCertificateTimestamp =
  sct_version :: SctVersion
  sct_log_id :: LogId
  sct_timestamp :: u64
  sct_extensions :: bytes
  sct_signature :: bytes

definition Sct_new :: "LogId \<Rightarrow> u64 \<Rightarrow> SignedCertificateTimestamp" where
  "Sct_new log_id timestamp =
     \<lparr>sct_version = V1, sct_log_id = log_id, sct_timestamp = timestamp, sct_extensions = [], sct_signature = []\<rparr>"

definition sct_signature_input ::
  "SignedCertificateTimestamp \<Rightarrow> bytes \<Rightarrow> LogEntryType \<Rightarrow> bytes option \<Rightarrow> bytes" where
  "sct_signature_input self cert ty kh =
     [sct_version_byte (sct_version self)] @ [0] @ be64 (sct_timestamp self)
     @ (case ty of
          X509Entry \<Rightarrow> [0, 0] @ be_bytes 3 (of_nat (length cert) :: u32) @ cert
        | PrecertEntry \<Rightarrow>
            [0, 1] @ (case kh of Some key_hash \<Rightarrow> key_hash | None \<Rightarrow> replicate 32 0)
              @ be_bytes 3 (of_nat (length cert) :: u32) @ cert)
     @ be_bytes 2 (of_nat (length (sct_extensions self)) :: u16) @ sct_extensions self"

record 'k SctBuilder =
  builder_log_id :: LogId
  signing_key :: 'k

definition from_private_key_bytes :: "(bytes \<Rightarrow> 'k option) \<Rightarrow> LogId \<Rightarrow> bytes \<Rightarrow> CtError + 'k SctBuilder" where
  "from_private_key_bytes from_slice log_id private_key_bytes =
     (case from_slice private_key_bytes of
        None \<Rightarrow> Inl (InvalidCertificate ''Invalid private key'')
      | Some key \<Rightarrow> Inr \<lparr>builder_log_id = log_id, signing_key = key\<rparr>)"

definition create_sct_with_timestamp_and_index ::
  "('k \<Rightarrow> bytes \<Rightarrow> bytes) \<Rightarrow> 'k SctBuilder \<Rightarrow> bytes \<Rightarrow> LogEntryType \<Rightarrow> bytes option \<Rightarrow> u64 \<Rightarrow> u64 option
    \<Rightarrow> CtError + SignedCertificateTimestamp" where
  "create_sct_with_timestamp_and_index sign self cert ty kh timestamp index =
     (let finish = (\<lambda>sct.
            let signature_input = sct_signature_input sct cert ty kh;
                sig_bytes = sign (signing_key self) signature_input;
                tls_signature = [4] @ [3] @ be_bytes 2 (of_nat (length sig_bytes) :: u16) @ sig_bytes
            in Inr (sct\<lparr>sct_signature := tls_signature\<rparr>));
          sct = Sct_new (builder_log_id self) timestamp
      in case index of
           None \<Rightarrow> finish sct
         | Some idx \<Rightarrow>
             (case with_leaf_index idx of
                Inl e \<Rightarrow> Inl (Internal (''Failed to create leaf_index extension: '' @ e))
              | Inr full_extensions \<Rightarrow> finish (sct\<lparr>sct_extensions := drop 2 full_extensions\<rparr>)))"

text \<open>The test-only constructor without an index.\<close>

definition create_sct_with_timestamp ::
  "('k \<Rightarrow> bytes \<Rightarrow> bytes) \<Rightarrow> 'k SctBuilder \<Rightarrow> bytes \<Rightarrow> LogEntryType \<Rightarrow> bytes option \<Rightarrow> u64
    \<Rightarrow> CtError + SignedCertificateTimestamp" where
  "create_sct_with_timestamp sign self cert ty kh timestamp =
     create_sct_with_timestamp_and_index sign self cert ty kh timestamp None"

section \<open>Properties\<close>

lemma sct_signature_input_eq:
  "sct_signature_input sct cert ty kh = [0, 0] @ entry_bytes cert ty kh (sct_timestamp sct) (sct_extensions sct)"
  by (cases "sct_version sct"; cases ty) (simp_all add: sct_signature_input_def entry_bytes_def vec16_def vec24_def)

lemma create_sct_eq:
  "create_sct_with_timestamp_and_index sign b cert ty kh t (Some i) =
    (if unat i < 2 ^ 40 then
       Inr \<lparr>sct_version = V1, sct_log_id = builder_log_id b, sct_timestamp = t, sct_extensions = leaf_index_extension i,
            sct_signature = [4, 3] @ vec16 (sign (signing_key b) ([0, 0] @ entry_bytes cert ty kh t (leaf_index_extension i)))\<rparr>
     else Inl (Internal ''Failed to create leaf_index extension: Index exceeds 40-bit range''))"
  by (simp add: create_sct_with_timestamp_and_index_def with_leaf_index_eq Sct_new_def sct_signature_input_eq vec16_def Let_def)

text \<open>An SCT signs exactly the leaf that is logged. For an entry with the same certificate, type, key hash,
  timestamp and index, the bytes signed in the SCT are the MerkleTreeLeaf bytes, so that whoever holds
  the certificate and the SCT can compute the leaf hash to ask a proof for; a failing builder is one for
  an index beyond 40 bits.\<close>

lemma sct_signs_the_logged_leaf:
  "(case create_sct_with_timestamp_and_index sign b cert ty kh (timestamp_millis ts) (Some i) of
      Inl e \<Rightarrow> compute_leaf_data_with_index cert ty kh ts i = None
    | Inr sct \<Rightarrow>
        compute_leaf_data_with_index cert ty kh ts i = Some (sct_signature_input sct cert ty kh) \<and>
        sct_signature sct = [4, 3] @ vec16 (sign (signing_key b) (sct_signature_input sct cert ty kh)) \<and>
        sct_log_id sct = builder_log_id b)"
  by (simp add: create_sct_eq sct_signature_input_eq compute_leaf_data_with_index_def serialize_eq index_extension_def)

end
