(* ===== verification/Tbs_Extractor.thy ===== *)
theory Tbs_Extractor
  imports Log_Entry
begin

text \<open>
  Certificates as the code sees them, \<^verbatim>\<open>src/src/oids.rs\<close>, \<^verbatim>\<open>src/src/validation/tbs_extractor.rs\<close> and
  \<^verbatim>\<open>src/src/validation/issuer_key_hash.rs\<close>.

  The DER decoder and encoder and the extension types of the x509-cert and der crates are parameters
  (\<open>X509Ops\<close>), and a parsed certificate is a record of the fields the code reads or changes; names and keys
  stand for themselves as byte strings, and what is never looked at is in \<open>tbs_rest\<close> and \<open>cert_rest\<close>.
\<close>

section \<open>Certificates\<close>

type_synonym oid = string

record X509Extension =
  extn_id :: oid
  critical :: bool
  extn_value :: bytes

record TbsCertificate =
  issuer :: bytes
  subject :: bytes
  not_after :: DateTime
  subject_public_key_info :: bytes
  tbs_extensions :: "X509Extension list option"
  tbs_rest :: bytes

record Certificate =
  tbs_certificate :: TbsCertificate
  signature_algorithm :: oid
  cert_rest :: bytes

text \<open>
  \<open>basic_constraints\<close> gives the \<^verbatim>\<open>ca\<close> flag, \<open>ext_key_usage\<close> the usages, \<open>subject_key_identifier\<close> the key
  identifier, each when the value parses; \<open>akid_to_der\<close> encodes an AuthorityKeyIdentifier with only a key identifier.
\<close>

record X509Ops =
  cert_from_der :: "bytes \<Rightarrow> string + Certificate"
  cert_to_der :: "Certificate \<Rightarrow> string + bytes"
  tbs_to_der :: "TbsCertificate \<Rightarrow> string + bytes"
  spki_to_der :: "bytes \<Rightarrow> string + bytes"
  basic_constraints :: "bytes \<Rightarrow> bool option"
  ext_key_usage :: "bytes \<Rightarrow> oid list option"
  subject_key_identifier :: "bytes \<Rightarrow> bytes option"
  octet_string :: "bytes \<Rightarrow> string + bytes"
  akid_to_der :: "bytes \<Rightarrow> string + bytes"

definition CT_POISON_EXTENSION_OID :: oid where "CT_POISON_EXTENSION_OID = ''1.3.6.1.4.1.11129.2.4.3''"
definition CT_EKU_OID :: oid where "CT_EKU_OID = ''1.3.6.1.4.1.11129.2.4.4''"
definition AUTHORITY_KEY_IDENTIFIER_OID :: oid where "AUTHORITY_KEY_IDENTIFIER_OID = ''2.5.29.35''"
definition SUBJECT_KEY_IDENTIFIER_OID :: oid where "SUBJECT_KEY_IDENTIFIER_OID = ''2.5.29.14''"
definition BASIC_CONSTRAINTS_OID :: oid where "BASIC_CONSTRAINTS_OID = ''2.5.29.19''"
definition EXTENDED_KEY_USAGE_OID :: oid where "EXTENDED_KEY_USAGE_OID = ''2.5.29.37''"
definition ECDSA_WITH_SHA256_OID :: oid where "ECDSA_WITH_SHA256_OID = ''1.2.840.10045.4.3.2''"
definition ECDSA_WITH_SHA384_OID :: oid where "ECDSA_WITH_SHA384_OID = ''1.2.840.10045.4.3.3''"
definition ECDSA_WITH_SHA512_OID :: oid where "ECDSA_WITH_SHA512_OID = ''1.2.840.10045.4.3.4''"
definition SHA256_WITH_RSA_ENCRYPTION_OID :: oid where "SHA256_WITH_RSA_ENCRYPTION_OID = ''1.2.840.113549.1.1.11''"
definition SHA384_WITH_RSA_ENCRYPTION_OID :: oid where "SHA384_WITH_RSA_ENCRYPTION_OID = ''1.2.840.113549.1.1.12''"
definition SHA512_WITH_RSA_ENCRYPTION_OID :: oid where "SHA512_WITH_RSA_ENCRYPTION_OID = ''1.2.840.113549.1.1.13''"
definition SHA1_WITH_RSA_ENCRYPTION_OID :: oid where "SHA1_WITH_RSA_ENCRYPTION_OID = ''1.2.840.113549.1.1.5''"
definition ASN1_NULL :: bytes where "ASN1_NULL = [0x05, 0x00]"

lemmas oid_defs = CT_POISON_EXTENSION_OID_def CT_EKU_OID_def AUTHORITY_KEY_IDENTIFIER_OID_def SUBJECT_KEY_IDENTIFIER_OID_def
  BASIC_CONSTRAINTS_OID_def EXTENDED_KEY_USAGE_OID_def

text \<open>The extensions, none when the field is absent.\<close>

definition exts_of :: "Certificate \<Rightarrow> X509Extension list" where
  "exts_of cert = (case tbs_extensions (tbs_certificate cert) of Some exts \<Rightarrow> exts | None \<Rightarrow> [])"

text \<open>\<^verbatim>\<open>LogEntry::is_precertificate\<close> of \<^verbatim>\<open>src/src/types/mod.rs\<close>.\<close>

definition LogEntry_is_precertificate :: "X509Ops \<Rightarrow> bytes \<Rightarrow> CtError + bool" where
  "LogEntry_is_precertificate X certificate_der =
     (case cert_from_der X certificate_der of
        Inl e \<Rightarrow> Inl (InvalidCertificate (''Failed to parse certificate: '' @ e))
      | Inr cert \<Rightarrow> Inr (\<exists>ext \<in> set (exts_of cert). extn_id ext = CT_POISON_EXTENSION_OID))"

section \<open>Extracting the TBSCertificate\<close>

text \<open>The loop returns at the first poison extension.\<close>

fun find_poison :: "X509Extension list \<Rightarrow> CtError + bool" where
  "find_poison [] = Inr False"
| "find_poison (ext # exts) =
     (if extn_id ext = CT_POISON_EXTENSION_OID
      then if \<not> critical ext then Inl (BadRequest ''Poison extension must be critical'')
           else if extn_value ext \<noteq> ASN1_NULL then Inl (BadRequest ''Poison extension must contain ASN.1 NULL'')
           else Inr True
      else find_poison exts)"

definition has_poison_extension :: "Certificate \<Rightarrow> CtError + bool" where
  "has_poison_extension cert = find_poison (exts_of cert)"

text \<open>The last basic constraints that parse decide; one extended key usage with the CT usage is enough.\<close>

definition signing_flags :: "X509Ops \<Rightarrow> X509Extension \<Rightarrow> bool \<times> bool \<Rightarrow> bool \<times> bool" where
  "signing_flags X ext st =
     (case st of (has_ca_true, has_ct_eku) \<Rightarrow>
        ((if extn_id ext = BASIC_CONSTRAINTS_OID
          then case basic_constraints X (extn_value ext) of Some ca \<Rightarrow> ca | None \<Rightarrow> has_ca_true
          else has_ca_true),
         (if extn_id ext = EXTENDED_KEY_USAGE_OID
          then case ext_key_usage X (extn_value ext) of
              Some eku \<Rightarrow> if CT_EKU_OID \<in> set eku then True else has_ct_eku
            | None \<Rightarrow> has_ct_eku
          else has_ct_eku)))"

definition is_precert_signing_cert :: "X509Ops \<Rightarrow> Certificate \<Rightarrow> bool" where
  "is_precert_signing_cert X cert =
     (case fold (signing_flags X) (exts_of cert) (False, False) of (has_ca_true, has_ct_eku) \<Rightarrow> has_ca_true \<and> has_ct_eku)"

fun find_key_identifier :: "X509Ops \<Rightarrow> X509Extension list \<Rightarrow> bytes option" where
  "find_key_identifier X [] = None"
| "find_key_identifier X (ext # exts) =
     (if extn_id ext = SUBJECT_KEY_IDENTIFIER_OID
      then case subject_key_identifier X (extn_value ext) of Some ski \<Rightarrow> Some ski | None \<Rightarrow> find_key_identifier X exts
      else find_key_identifier X exts)"

definition extract_subject_key_identifier :: "X509Ops \<Rightarrow> Certificate \<Rightarrow> bytes option" where
  "extract_subject_key_identifier X cert = find_key_identifier X (exts_of cert)"

definition check_transform_needed :: "X509Ops \<Rightarrow> bytes list \<Rightarrow> CtError + (bytes \<times> bytes option) option" where
  "check_transform_needed X chn =
     (case chn of
        [] \<Rightarrow> Inr None
      | first # rest \<Rightarrow>
          (case cert_from_der X first of
             Inl e \<Rightarrow> Inl (InvalidCertificate (''Failed to parse immediate issuer: '' @ e))
           | Inr immediate_issuer \<Rightarrow>
               if \<not> is_precert_signing_cert X immediate_issuer then Inr None
               else case rest of
                   [] \<Rightarrow> Inl (BadRequest ''Precertificate signed by signing cert requires real issuer in chain'')
                 | second # _ \<Rightarrow>
                     (case cert_from_der X second of
                        Inl e \<Rightarrow> Inl (InvalidCertificate (''Failed to parse real issuer: '' @ e))
                      | Inr real_issuer \<Rightarrow>
                          Inr (Some (subject (tbs_certificate real_issuer), extract_subject_key_identifier X real_issuer)))))"

text \<open>The replacement of an authority key identifier, when there is one to put in its place.\<close>

definition new_akid_value :: "X509Ops \<Rightarrow> bytes \<Rightarrow> CtError + bytes" where
  "new_akid_value X key_id =
     (case octet_string X key_id of
        Inl e \<Rightarrow> Inl (InvalidCertificate (''Failed to create OctetString for key identifier: '' @ e))
      | Inr key_identifier \<Rightarrow>
          (case akid_to_der X key_identifier of
             Inl e \<Rightarrow> Inl (InvalidCertificate (''Failed to encode new Authority Key Identifier: '' @ e))
           | Inr akid_der \<Rightarrow>
               (case octet_string X akid_der of
                  Inl e \<Rightarrow> Inl (InvalidCertificate (''Failed to encode Authority Key Identifier value: '' @ e))
                | Inr v \<Rightarrow> Inr v)))"

fun replace_akids :: "X509Ops \<Rightarrow> bytes option \<Rightarrow> X509Extension list \<Rightarrow> CtError + X509Extension list" where
  "replace_akids X key_id [] = Inr []"
| "replace_akids X key_id (ext # exts) =
     (case (if extn_id ext = AUTHORITY_KEY_IDENTIFIER_OID
            then case key_id of
                Some k \<Rightarrow> (case new_akid_value X k of Inl e \<Rightarrow> Inl e | Inr v \<Rightarrow> Inr (ext\<lparr>extn_value := v\<rparr>))
              | None \<Rightarrow> Inr ext
            else Inr ext) of
        Inl e \<Rightarrow> Inl e
      | Inr ext' \<Rightarrow> (case replace_akids X key_id exts of Inl e \<Rightarrow> Inl e | Inr exts' \<Rightarrow> Inr (ext' # exts')))"

definition transform_issuer :: "X509Ops \<Rightarrow> (bytes \<times> bytes option) option \<Rightarrow> TbsCertificate \<Rightarrow> CtError + TbsCertificate" where
  "transform_issuer X transform_needed tbs =
     (case transform_needed of
        None \<Rightarrow> Inr tbs
      | Some (final_issuer, final_issuer_key_id) \<Rightarrow>
          (case tbs_extensions tbs of
             None \<Rightarrow> Inr (tbs\<lparr>issuer := final_issuer\<rparr>)
           | Some exts \<Rightarrow>
               (case replace_akids X final_issuer_key_id exts of
                  Inl e \<Rightarrow> Inl e
                | Inr exts' \<Rightarrow> Inr (tbs\<lparr>issuer := final_issuer, tbs_extensions := Some exts'\<rparr>))))"

definition remove_poison :: "TbsCertificate \<Rightarrow> TbsCertificate" where
  "remove_poison tbs =
     tbs\<lparr>tbs_extensions := map_option (filter (\<lambda>ext. extn_id ext \<noteq> CT_POISON_EXTENSION_OID)) (tbs_extensions tbs)\<rparr>"

definition extract_tbs_certificate :: "X509Ops \<Rightarrow> bytes \<Rightarrow> bytes list \<Rightarrow> CtError + bytes" where
  "extract_tbs_certificate X precert_der chn =
     (case cert_from_der X precert_der of
        Inl e \<Rightarrow> Inl (InvalidCertificate (''Failed to parse precertificate: '' @ e))
      | Inr precert \<Rightarrow>
          (case has_poison_extension precert of
             Inl e \<Rightarrow> Inl e
           | Inr poisoned \<Rightarrow>
               if \<not> poisoned then Inl (BadRequest ''Certificate is not a precertificate (missing poison extension)'')
               else case check_transform_needed X chn of
                   Inl e \<Rightarrow> Inl e
                 | Inr transform_needed \<Rightarrow>
                     (case transform_issuer X transform_needed (tbs_certificate precert) of
                        Inl e \<Rightarrow> Inl e
                      | Inr tbs \<Rightarrow>
                          (case tbs_to_der X (remove_poison tbs) of
                             Inl e \<Rightarrow> Inl (InvalidCertificate (''Failed to encode TBSCertificate: '' @ e))
                           | Inr der \<Rightarrow> Inr der))))"

section \<open>The issuer key hash\<close>

fun find_extension :: "oid \<Rightarrow> X509Extension list \<Rightarrow> X509Extension option" where
  "find_extension oid [] = None"
| "find_extension oid (ext # exts) = (if extn_id ext = oid then Some ext else find_extension oid exts)"

definition is_signing_cert_minimal :: "X509Ops \<Rightarrow> Certificate \<Rightarrow> bool" where
  "is_signing_cert_minimal X cert =
     (case find_extension EXTENDED_KEY_USAGE_OID (exts_of cert) of
        None \<Rightarrow> False
      | Some ext \<Rightarrow> (case ext_key_usage X (extn_value ext) of None \<Rightarrow> False | Some eku \<Rightarrow> CT_EKU_OID \<in> set eku))"

definition spki_hash :: "digest_fun \<Rightarrow> X509Ops \<Rightarrow> Certificate \<Rightarrow> CtError + bytes" where
  "spki_hash H X cert =
     (case spki_to_der X (subject_public_key_info (tbs_certificate cert)) of
        Inl e \<Rightarrow> Inl (Internal (''Failed to encode SPKI: '' @ e))
      | Inr spki_der \<Rightarrow> Inr (H spki_der))"

definition extract_issuer_key_hash_minimal :: "digest_fun \<Rightarrow> X509Ops \<Rightarrow> bytes list \<Rightarrow> CtError + bytes" where
  "extract_issuer_key_hash_minimal H X chn =
     (if chn = [] then Inl (BadRequest ''Certificate chain is empty'')
      else case cert_from_der X (chn ! 0) of
          Inl e \<Rightarrow> Inl (BadRequest (''Failed to parse certificate: '' @ e))
        | Inr first_cert \<Rightarrow>
            if find_extension CT_POISON_EXTENSION_OID (exts_of first_cert) = None
            then Inl (BadRequest ''Can only extract issuer key hash for precertificate chains'')
            else if length chn \<le> 1 then Inl (BadRequest ''Precertificate chain must include issuer certificate'')
            else case cert_from_der X (chn ! 1) of
                Inl e \<Rightarrow> Inl (BadRequest (''Failed to parse certificate: '' @ e))
              | Inr second_cert \<Rightarrow>
                  if is_signing_cert_minimal X second_cert \<and> length chn < 3
                  then Inl (BadRequest ''Precertificate with signing certificate requires issuer certificate'')
                  else
                    let real_issuer_index = (if is_signing_cert_minimal X second_cert then 2 else 1)
                    in if length chn \<le> real_issuer_index then Inl (BadRequest ''Missing issuer certificate in chain'')
                       else case cert_from_der X (chn ! real_issuer_index) of
                           Inl e \<Rightarrow> Inl (BadRequest (''Failed to parse issuer certificate: '' @ e))
                         | Inr real_issuer \<Rightarrow> spki_hash H X real_issuer)"

section \<open>Properties\<close>

text \<open>What section 3.2 of RFC 6962 goes by, read off the extensions without the loops: the values of a kind that parse, in order.\<close>

definition parsed_exts :: "oid \<Rightarrow> (bytes \<Rightarrow> 'a option) \<Rightarrow> Certificate \<Rightarrow> 'a list" where
  "parsed_exts oid parse cert = List.map_filter (\<lambda>ext. if extn_id ext = oid then parse (extn_value ext) else None) (exts_of cert)"

text \<open>A precertificate signing certificate: the last basic constraints make it a CA, and some extended key usage is that of CT.\<close>

definition precert_signing :: "X509Ops \<Rightarrow> Certificate \<Rightarrow> bool" where
  "precert_signing X cert \<longleftrightarrow>
     (\<exists>cas. parsed_exts BASIC_CONSTRAINTS_OID (basic_constraints X) cert = cas @ [True]) \<and>
     (\<exists>usages \<in> set (parsed_exts EXTENDED_KEY_USAGE_OID (ext_key_usage X) cert). CT_EKU_OID \<in> set usages)"

text \<open>The bytes of an authority key identifier extension with this key identifier and nothing else.\<close>

definition akid_for :: "X509Ops \<Rightarrow> bytes \<Rightarrow> bytes \<Rightarrow> bool" where
  "akid_for X key_id v \<longleftrightarrow>
     (\<exists>key_identifier akid_der. octet_string X key_id = Inr key_identifier \<and> akid_to_der X key_identifier = Inr akid_der \<and> octet_string X akid_der = Inr v)"

text \<open>An extension of the pre-certificate and of the final certificate: an authority key identifier names the key of the real issuer, if
  that has a subject key identifier; everything else is unchanged.\<close>

definition final_extension :: "X509Ops \<Rightarrow> Certificate \<Rightarrow> X509Extension \<Rightarrow> X509Extension \<Rightarrow> bool" where
  "final_extension X real e e' \<longleftrightarrow>
     (case parsed_exts SUBJECT_KEY_IDENTIFIER_OID (subject_key_identifier X) real of
        [] \<Rightarrow> e' = e
      | key_id # _ \<Rightarrow>
          if extn_id e = AUTHORITY_KEY_IDENTIFIER_OID then \<exists>v. akid_for X key_id v \<and> e' = e\<lparr>extn_value := v\<rparr> else e' = e)"

lemma has_poison_extension_True:
  "has_poison_extension cert = Inr True \<longleftrightarrow>
    (\<exists>ext. find (\<lambda>e. extn_id e = CT_POISON_EXTENSION_OID) (exts_of cert) = Some ext \<and> critical ext \<and> extn_value ext = ASN1_NULL)"
proof -
  have "find_poison exts = Inr True \<longleftrightarrow>
    (\<exists>ext. find (\<lambda>e. extn_id e = CT_POISON_EXTENSION_OID) exts = Some ext \<and> critical ext \<and> extn_value ext = ASN1_NULL)" for exts
    by (induction exts) auto
  then show ?thesis by (simp add: has_poison_extension_def)
qed

lemma map_filter_snoc: "List.map_filter f (xs @ [x]) = List.map_filter f xs @ (case f x of None \<Rightarrow> [] | Some y \<Rightarrow> [y])"
  by (induction xs) (auto simp: List.map_filter_simps split: option.splits)

lemma is_precert_signing_cert_iff: "is_precert_signing_cert X cert \<longleftrightarrow> precert_signing X cert"
proof -
  let ?cas = "List.map_filter (\<lambda>ext. if extn_id ext = BASIC_CONSTRAINTS_OID then basic_constraints X (extn_value ext) else None)"
  let ?ekus = "List.map_filter (\<lambda>ext. if extn_id ext = EXTENDED_KEY_USAGE_OID then ext_key_usage X (extn_value ext) else None)"
  have "fold (signing_flags X) exts (False, False)
      = (\<exists>cas. ?cas exts = cas @ [True], \<exists>usages \<in> set (?ekus exts). CT_EKU_OID \<in> set usages)" for exts
    by (induction exts rule: rev_induct) (auto simp: map_filter_snoc signing_flags_def List.map_filter_simps split: option.splits)
  then show ?thesis by (simp add: is_precert_signing_cert_def precert_signing_def parsed_exts_def)
qed

lemma extract_subject_key_identifier_eq:
  "extract_subject_key_identifier X cert
    = (case parsed_exts SUBJECT_KEY_IDENTIFIER_OID (subject_key_identifier X) cert of [] \<Rightarrow> None | key_id # _ \<Rightarrow> Some key_id)"
proof -
  have "find_key_identifier X exts = (case List.map_filter (\<lambda>ext. if extn_id ext = SUBJECT_KEY_IDENTIFIER_OID
      then subject_key_identifier X (extn_value ext) else None) exts of [] \<Rightarrow> None | key_id # _ \<Rightarrow> Some key_id)" for exts
    by (induction exts) (auto simp: List.map_filter_simps split: option.splits)
  then show ?thesis by (simp add: extract_subject_key_identifier_def parsed_exts_def)
qed

lemma new_akid_value_Inr: "new_akid_value X key_id = Inr v \<longleftrightarrow> akid_for X key_id v"
  by (auto simp: new_akid_value_def akid_for_def split: sum.splits)

lemma replace_akids_Inr:
  "replace_akids X (extract_subject_key_identifier X real) exts = Inr exts' \<longleftrightarrow> list_all2 (final_extension X real) exts exts'"
proof (induction exts arbitrary: exts')
  case (Cons e es)
  define step where "step = (if extn_id e = AUTHORITY_KEY_IDENTIFIER_OID
     then case extract_subject_key_identifier X real of
         Some k \<Rightarrow> (case new_akid_value X k of Inl m \<Rightarrow> Inl m | Inr v \<Rightarrow> Inr (e\<lparr>extn_value := v\<rparr>))
       | None \<Rightarrow> Inr e
     else Inr e)"
  have "step = Inr e' \<longleftrightarrow> final_extension X real e e'" for e'
    by (auto simp: step_def final_extension_def extract_subject_key_identifier_eq new_akid_value_Inr [symmetric] split: list.splits sum.splits)
  moreover have "replace_akids X (extract_subject_key_identifier X real) (e # es)
      = (case step of Inl m \<Rightarrow> Inl m | Inr e' \<Rightarrow> (case replace_akids X (extract_subject_key_identifier X real) es of
           Inl m \<Rightarrow> Inl m | Inr exts' \<Rightarrow> Inr (e' # exts')))"
    by (simp add: step_def)
  then have "replace_akids X (extract_subject_key_identifier X real) (e # es) = Inr exts' \<longleftrightarrow>
      (\<exists>e' es'. step = Inr e' \<and> replace_akids X (extract_subject_key_identifier X real) es = Inr es' \<and> exts' = e' # es')"
    by (cases step; cases "replace_akids X (extract_subject_key_identifier X real) es") auto
  ultimately show ?case using Cons.IH by (auto simp: list_all2_Cons1)
qed auto

text \<open>Removing the poison afterwards is the same as transforming what is left.\<close>

lemma final_extension_filter:
  "(\<exists>exts'. list_all2 (final_extension X real) exts exts' \<and> filter (\<lambda>e. extn_id e \<noteq> CT_POISON_EXTENSION_OID) exts' = fs) \<longleftrightarrow>
    list_all2 (final_extension X real) (filter (\<lambda>e. extn_id e \<noteq> CT_POISON_EXTENSION_OID) exts) fs"
proof (induction exts arbitrary: fs)
  case (Cons e es)
  have id: "extn_id e' = extn_id e" if "final_extension X real e e'" for e'
    using that by (auto simp: final_extension_def split: list.splits if_splits)
  have poison: "final_extension X real e e' \<longleftrightarrow> e' = e" if "extn_id e = CT_POISON_EXTENSION_OID" for e'
    using that by (auto simp: final_extension_def oid_defs split: list.splits)
  show ?case
  proof (cases "extn_id e = CT_POISON_EXTENSION_OID")
    case True
    with Cons.IH [of fs] show ?thesis by (auto simp: list_all2_Cons1 poison)
  next
    case False
    have "(\<exists>exts'. list_all2 (final_extension X real) (e # es) exts' \<and> filter (\<lambda>e. extn_id e \<noteq> CT_POISON_EXTENSION_OID) exts' = fs) \<longleftrightarrow>
      (\<exists>e' gs. fs = e' # gs \<and> final_extension X real e e' \<and>
        (\<exists>es'. list_all2 (final_extension X real) es es' \<and> filter (\<lambda>e. extn_id e \<noteq> CT_POISON_EXTENSION_OID) es' = gs))"
      using False id by (fastforce simp: list_all2_Cons1)
    with Cons.IH False show ?thesis by (simp add: list_all2_Cons1)
  qed
qed auto

lemma transform_real_issuer:
  assumes "tbs_extensions tbs = Some exts"
  shows "(\<exists>t. transform_issuer X (Some (name, extract_subject_key_identifier X real)) tbs = Inr t \<and> remove_poison t = tbs') \<longleftrightarrow>
    (\<exists>fs. list_all2 (final_extension X real) (filter (\<lambda>e. extn_id e \<noteq> CT_POISON_EXTENSION_OID) exts) fs \<and>
      tbs' = tbs\<lparr>issuer := name, tbs_extensions := Some fs\<rparr>)"
proof -
  have "(\<exists>t. transform_issuer X (Some (name, extract_subject_key_identifier X real)) tbs = Inr t \<and> remove_poison t = tbs') \<longleftrightarrow>
    (\<exists>fs. (\<exists>exts'. list_all2 (final_extension X real) exts exts' \<and> filter (\<lambda>e. extn_id e \<noteq> CT_POISON_EXTENSION_OID) exts' = fs) \<and>
      tbs' = tbs\<lparr>issuer := name, tbs_extensions := Some fs\<rparr>)"
    unfolding replace_akids_Inr [symmetric] by (auto simp: transform_issuer_def assms remove_poison_def split: sum.splits)
  then show ?thesis by (simp only: final_extension_filter)
qed

text \<open>C39: exactly what the extraction of the TBSCertificate accepts and yields. It succeeds just when the certificate parses, its first poison extension
  is critical and holds ASN.1 NULL, the certificate that issued it parses (if there is one in the chain), and the result can be encoded.
  The result is the TBSCertificate without any poison extension. If the issuing certificate is a precertificate signing certificate,
  the next certificate of the chain, the real issuer, must be there and parse, and then the issuer is its subject and every authority key
  identifier is replaced by one for its first subject key identifier that parses; without one they stay. Everything else, all
  of it when the issuer is an ordinary certificate or the chain is empty, is as in the pre-certificate.\<close>

theorem extracted_tbs_is_final:
  "extract_tbs_certificate X precert_der chn = Inr der \<longleftrightarrow>
    (\<exists>precert poison tbs. cert_from_der X precert_der = Inr precert \<and>
      find (\<lambda>e. extn_id e = CT_POISON_EXTENSION_OID) (exts_of precert) = Some poison \<and> critical poison \<and> extn_value poison = ASN1_NULL \<and>
      tbs_to_der X tbs = Inr der \<and>
      (let rest = filter (\<lambda>e. extn_id e \<noteq> CT_POISON_EXTENSION_OID) (exts_of precert);
           unchanged = (tbs_certificate precert)\<lparr>tbs_extensions := Some rest\<rparr>
       in case chn of
            [] \<Rightarrow> tbs = unchanged
          | first # others \<Rightarrow> \<exists>immediate. cert_from_der X first = Inr immediate \<and>
              (if precert_signing X immediate
               then \<exists>second more real exts. others = second # more \<and> cert_from_der X second = Inr real \<and>
                 list_all2 (final_extension X real) rest exts \<and>
                 tbs = (tbs_certificate precert)\<lparr>issuer := subject (tbs_certificate real), tbs_extensions := Some exts\<rparr>
               else tbs = unchanged)))"
proof (cases "\<exists>precert. cert_from_der X precert_der = Inr precert \<and> has_poison_extension precert = Inr True")
  case False
  then have "extract_tbs_certificate X precert_der chn \<noteq> Inr der"
    by (auto simp: extract_tbs_certificate_def split: sum.splits)
  with False show ?thesis by (auto simp: has_poison_extension_True)
next
  case True
  then obtain precert where p: "cert_from_der X precert_der = Inr precert" "has_poison_extension precert = Inr True" by blast
  then have "exts_of precert \<noteq> []" by (auto simp: has_poison_extension_True)
  then have e: "tbs_extensions (tbs_certificate precert) = Some (exts_of precert)"
    by (auto simp: exts_of_def split: option.splits)
  have plain: "remove_poison (tbs_certificate precert)
      = (tbs_certificate precert)\<lparr>tbs_extensions := Some (filter (\<lambda>e. extn_id e \<noteq> CT_POISON_EXTENSION_OID) (exts_of precert))\<rparr>"
    by (simp add: remove_poison_def e)
  let ?rest = "filter (\<lambda>e. extn_id e \<noteq> CT_POISON_EXTENSION_OID) (exts_of precert)"
  have final: "(\<exists>need. check_transform_needed X chn = Inr need \<and> (\<exists>t. transform_issuer X need (tbs_certificate precert) = Inr t \<and> remove_poison t = tbs)) \<longleftrightarrow>
    (case chn of
       [] \<Rightarrow> tbs = (tbs_certificate precert)\<lparr>tbs_extensions := Some ?rest\<rparr>
     | first # others \<Rightarrow> \<exists>immediate. cert_from_der X first = Inr immediate \<and>
         (if precert_signing X immediate
          then \<exists>second more real exts. others = second # more \<and> cert_from_der X second = Inr real \<and>
            list_all2 (final_extension X real) ?rest exts \<and>
            tbs = (tbs_certificate precert)\<lparr>issuer := subject (tbs_certificate real), tbs_extensions := Some exts\<rparr>
          else tbs = (tbs_certificate precert)\<lparr>tbs_extensions := Some ?rest\<rparr>))" (is "?L tbs \<longleftrightarrow> ?R tbs") for tbs
  proof -
    have none: "(\<exists>t. transform_issuer X None (tbs_certificate precert) = Inr t \<and> remove_poison t = tbs)
        \<longleftrightarrow> tbs = (tbs_certificate precert)\<lparr>tbs_extensions := Some ?rest\<rparr>"
      by (auto simp: transform_issuer_def plain)
    show ?thesis
      using transform_real_issuer [OF e, of X _ _ tbs] none
      by (cases chn; cases "tl chn"; cases "cert_from_der X (hd chn)"; cases "cert_from_der X (hd (tl chn))")
        (simp_all add: check_transform_needed_def is_precert_signing_cert_iff)
  qed
  have "extract_tbs_certificate X precert_der chn = Inr der \<longleftrightarrow> (\<exists>tbs. ?L tbs \<and> tbs_to_der X tbs = Inr der)"
    by (auto simp: extract_tbs_certificate_def p split: sum.splits)
  also have "\<dots> \<longleftrightarrow> (\<exists>tbs. tbs_to_der X tbs = Inr der \<and> ?R tbs)" unfolding final by blast
  finally show ?thesis using p by (auto simp only: has_poison_extension_True Let_def sum.inject)
qed

text \<open>A toy instance of the parameters: a certificate is encoded by the single byte of its table entry.\<close>

definition toy_cert :: "bytes \<Rightarrow> bytes \<Rightarrow> X509Extension list \<Rightarrow> Certificate" where
  "toy_cert iss sub exts =
     \<lparr>tbs_certificate = \<lparr>issuer = iss, subject = sub, not_after = \<lparr>timestamp_millis = 0, sub_millis_nanos = 0\<rparr>, subject_public_key_info = sub,
        tbs_extensions = Some exts, tbs_rest = []\<rparr>,
      signature_algorithm = ECDSA_WITH_SHA256_OID, cert_rest = []\<rparr>"

definition toy_poison :: X509Extension where
  "toy_poison = \<lparr>extn_id = CT_POISON_EXTENSION_OID, critical = True, extn_value = ASN1_NULL\<rparr>"

definition toy_x509 :: X509Ops where
  "toy_x509 = \<lparr>cert_from_der = (\<lambda>b. if b = [1] then Inr (toy_cert [20] [10] [toy_poison])
        else if b = [2] then Inr (toy_cert [30] [20] []) else if b = [3] then Inr (toy_cert [30] [30] []) else Inl ''bad''),
     cert_to_der = (\<lambda>c. Inr (subject (tbs_certificate c))), tbs_to_der = (\<lambda>t. Inr (issuer t @ subject t)), spki_to_der = Inr,
     basic_constraints = (\<lambda>_. None), ext_key_usage = (\<lambda>_. None), subject_key_identifier = (\<lambda>_. None), octet_string = Inr,
     akid_to_der = Inr\<rparr>"

text \<open>The same with a precertificate signing certificate in the chain, whose issuer has a subject key identifier.\<close>

definition toy_ext :: "oid \<Rightarrow> bytes \<Rightarrow> X509Extension" where
  "toy_ext oid v = \<lparr>extn_id = oid, critical = False, extn_value = v\<rparr>"

definition toy_signing_x509 :: X509Ops where
  "toy_signing_x509 = toy_x509\<lparr>cert_from_der := (\<lambda>b.
        if b = [1] then Inr (toy_cert [20] [10] [toy_ext AUTHORITY_KEY_IDENTIFIER_OID [20], toy_poison])
        else if b = [2] then Inr (toy_cert [30] [20] [toy_ext BASIC_CONSTRAINTS_OID [1], toy_ext EXTENDED_KEY_USAGE_OID [1]])
        else if b = [3] then Inr (toy_cert [30] [30] [toy_ext SUBJECT_KEY_IDENTIFIER_OID [33]]) else Inl ''bad''),
     tbs_to_der := (\<lambda>t. Inr (issuer t @ subject t @ concat (map extn_value (the (tbs_extensions t))))),
     basic_constraints := (\<lambda>v. Some (v = [1])), ext_key_usage := (\<lambda>v. Some [CT_EKU_OID]), subject_key_identifier := Some,
     akid_to_der := (\<lambda>k. Inr (7 # k))\<rparr>"

theorem extracted_tbs_is_final_witness:
  "extract_tbs_certificate toy_signing_x509 [1] [[2], [3]] = Inr [30, 10, 7, 33] \<and>
   (\<exists>precert tbs immediate real exts. cert_from_der toy_signing_x509 [1] = Inr precert \<and> cert_from_der toy_signing_x509 [2] = Inr immediate \<and>
     precert_signing toy_signing_x509 immediate \<and> cert_from_der toy_signing_x509 [3] = Inr real \<and>
     list_all2 (final_extension toy_signing_x509 real) (filter (\<lambda>e. extn_id e \<noteq> CT_POISON_EXTENSION_OID) (exts_of precert)) exts \<and>
     tbs = (tbs_certificate precert)\<lparr>issuer := subject (tbs_certificate real), tbs_extensions := Some exts\<rparr> \<and>
     tbs_to_der toy_signing_x509 tbs = Inr [30, 10, 7, 33])"
proof -
  have run: "extract_tbs_certificate toy_signing_x509 [1] [[2], [3]] = Inr [30, 10, 7, 33]" by code_simp
  have "is_precert_signing_cert toy_signing_x509 (projr (cert_from_der toy_signing_x509 [2]))" by code_simp
  then have "precert_signing toy_signing_x509 (projr (cert_from_der toy_signing_x509 [2]))" by (simp only: is_precert_signing_cert_iff)
  then obtain immediate where imm: "cert_from_der toy_signing_x509 [2] = Inr immediate" "precert_signing toy_signing_x509 immediate"
    by (simp add: toy_signing_x509_def)
  with run [unfolded extracted_tbs_is_final Let_def list.case] obtain precert tbs real exts where "cert_from_der toy_signing_x509 [1] = Inr precert" "cert_from_der toy_signing_x509 [3] = Inr real"
    "list_all2 (final_extension toy_signing_x509 real) (filter (\<lambda>e. extn_id e \<noteq> CT_POISON_EXTENSION_OID) (exts_of precert)) exts"
    "tbs = (tbs_certificate precert)\<lparr>issuer := subject (tbs_certificate real), tbs_extensions := Some exts\<rparr>"
    "tbs_to_der toy_signing_x509 tbs = Inr [30, 10, 7, 33]"
    by (elim exE conjE) (simp only: sum.inject if_True list.inject, blast)
  with run imm show ?thesis by blast
qed

end
