(* ===== verification/Ct_Storage.thy ===== *)
theory Ct_Storage
  imports Merkle_Storage Sct Tbs_Extractor
begin

text \<open>
  \<^verbatim>\<open>src/src/storage/mod.rs\<close>: the storage of the log. Submitted entries are queued, collected into batches by a worker and
  flushed: each entry gets the next index, its SCT and leaf, and the leaves are pushed into the tree in one
  atomic write together with the deduplicated entries, the hash-to-index and certificate-to-SCT mappings and the
  certificates that are not stored yet. Then every submitter is answered on its completion channel.

  \<^verbatim>\<open>CtStorage\<close> and the tree share one store, so their state is one record. A completion channel is the number of the
  submission; the messages sent are recorded in order. Parameters (\<open>StorageEnv\<close>): postcard for the two stored types, the two
  caches, the certificate operations, and the iteration order of \<^verbatim>\<open>HashSet\<close> and \<^verbatim>\<open>HashMap\<close>. Elapsed times are
  arguments; tracing and the Prometheus metrics are left out.
\<close>

section \<open>Data\<close>

record BatchEntry =
  log_entry :: LogEntry
  batch_cert_hash :: bytes
  sct_callback :: "u64 \<Rightarrow> SignedCertificateTimestamp option"
  completion_tx :: nat

record CertificateSctEntry =
  cse_index :: u64
  cse_sct :: SignedCertificateTimestamp
  cse_timestamp :: u64

record BatchStats =
  batches_flushed :: u64
  total_entries :: u64
  total_flush_time_ms :: u64
  min_batch_size :: nat
  max_batch_size_seen :: nat
  total_certs_checked :: u64
  total_certs_deduplicated :: u64
  total_bytes_saved :: u64
  total_dedup_check_time_ms :: u64

record BatchConfig =
  max_batch_size :: nat
  max_batch_timeout_ms :: u64

definition BatchConfig_default :: BatchConfig where
  "BatchConfig_default = \<lparr>max_batch_size = 2000, max_batch_timeout_ms = 50\<rparr>"

definition ENTRY :: bytes where "ENTRY = ascii ''entry:''"
definition HASH_INDEX :: bytes where "HASH_INDEX = ascii ''hash:''"
definition CERT_SCT :: bytes where "CERT_SCT = ascii ''cert_sct:''"
definition CERT :: bytes where "CERT = ascii ''cert:''"

record ('db, 'nc, 'tc, 'cc, 'ec) StorageEnv =
  tree_env :: "('db, 'nc, 'tc) TreeEnv"
  slate_debug :: "SlateDBError \<Rightarrow> string"
  ser_entry :: "DeduplicatedLogEntry \<Rightarrow> string + bytes"
  de_entry :: "bytes \<Rightarrow> string + DeduplicatedLogEntry"
  ser_sct :: "CertificateSctEntry \<Rightarrow> string + bytes"
  de_sct :: "bytes \<Rightarrow> string + CertificateSctEntry"
  chain_cache_ops :: "('cc, bytes, bytes) CacheOps"
  entry_cache_ops :: "('ec, u64, LogEntry) CacheOps"
  x509_ops :: X509Ops
  hash_set_order :: "bytes list \<Rightarrow> bytes list"
  hash_map_order :: "(bytes \<times> bytes) list \<Rightarrow> (bytes \<times> bytes) list"

type_synonym completion = "StorageError + (u64 \<times> SignedCertificateTimestamp)"

record ('db, 'nc, 'tc, 'cc, 'ec) CtStorage =
  st_tree :: "('db, 'nc, 'tc) Tree"
  chain_cache :: 'cc
  entry_cache :: 'ec
  batch_stats :: BatchStats
  sent :: "(nat \<times> completion) list"

type_synonym ('db, 'nc, 'tc, 'cc, 'ec, 'e, 'a) storage_op = "(('db, 'nc, 'tc, 'cc, 'ec) CtStorage, 'e, 'a) io"

definition on_tree :: "(('db, 'nc, 'tc) Tree, 'e, 'a) io \<Rightarrow> ('db, 'nc, 'tc, 'cc, 'ec, 'e, 'a) storage_op" where
  "on_tree m = zoom st_tree (\<lambda>t s. s\<lparr>st_tree := t\<rparr>) m"

definition sha256 :: "('db, 'nc, 'tc, 'cc, 'ec) StorageEnv \<Rightarrow> digest_fun" where
  "sha256 E = digest_of (tree_env E)"

section \<open>Processing the entries of a batch\<close>

record Prepared =
  prep_index :: nat
  prep_leaf :: bytes
  prep_data :: bytes
  prep_cert_hash :: bytes
  prep_sct :: SignedCertificateTimestamp
  prep_entry :: LogEntry
  prep_tx :: nat

text \<open>One entry of the parallel map; \<open>None\<close> is a panic in it.\<close>

definition process_entry ::
  "('db, 'nc, 'tc, 'cc, 'ec) StorageEnv \<Rightarrow> u64 \<Rightarrow> nat \<Rightarrow> BatchEntry \<Rightarrow> (nat \<times> StorageError \<times> nat + Prepared) option" where
  "process_entry E starting_index i entry =
     (let assigned_index = starting_index + of_nat i;
          le = (log_entry entry)\<lparr>entry_index := assigned_index\<rparr>
      in do {
        sct \<leftarrow> sct_callback entry assigned_index;
        leaf \<leftarrow> compute_leaf_data_with_index (certificate le) (entry_type le) (issuer_key_hash le) (entry_timestamp le) assigned_index;
        let le' = le\<lparr>leaf_data := leaf\<rparr>;
        dedup_entry \<leftarrow> from_log_entry (sha256 E) le';
        Some (case ser_entry E dedup_entry of
            Inr entry_data \<Rightarrow> Inr \<lparr>prep_index = i, prep_leaf = leaf, prep_data = entry_data,
              prep_cert_hash = batch_cert_hash entry, prep_sct = sct, prep_entry = le', prep_tx = completion_tx entry\<rparr>
          | Inl e \<Rightarrow> Inl (i, InvalidFormat e, completion_tx entry)) })"

definition process_entries ::
  "('db, 'nc, 'tc, 'cc, 'ec) StorageEnv \<Rightarrow> u64 \<Rightarrow> BatchEntry list \<Rightarrow> (nat \<times> StorageError \<times> nat + Prepared) list option" where
  "process_entries E starting_index entries =
     those (map (\<lambda>(i, entry). process_entry E starting_index i entry) (zip [0..<length entries] entries))"

text \<open>The loop that separates what succeeded (\<open>entry_metadata\<close> with its leaves) from what failed, and the completion channels.\<close>

fun separate ::
  "(nat \<times> StorageError \<times> nat + Prepared) list
    \<Rightarrow> Prepared list \<times> (nat \<times> StorageError) list \<times> (nat \<times> SignedCertificateTimestamp option) list" where
  "separate [] = ([], [], [])"
| "separate (r # rs) =
     (case separate rs of (metas, failed, completions) \<Rightarrow>
      case r of
        Inr p \<Rightarrow> (p # metas, failed, (prep_tx p, Some (prep_sct p)) # completions)
      | Inl (i, error, tx) \<Rightarrow> (metas, (i, StorageError_clone error) # failed, (tx, None) # completions))"

section \<open>Deduplication of certificates\<close>

text \<open>The certificates of an entry in the order the code looks at them.\<close>

definition entry_certs :: "LogEntry \<Rightarrow> bytes list" where
  "entry_certs e =
     (if entry_type e \<noteq> PrecertEntry then [certificate e] else [])
     @ (case chain e of Some chn \<Rightarrow> chn | None \<Rightarrow> [])
     @ (case original_precert e of Some precert \<Rightarrow> [precert] | None \<Rightarrow> [])"

text \<open>A certificate is entered when its hash is new; the count includes the repetitions.\<close>

definition collect_cert :: "digest_fun \<Rightarrow> bytes \<Rightarrow> nat \<times> (bytes \<times> bytes) list \<Rightarrow> nat \<times> (bytes \<times> bytes) list" where
  "collect_cert H cert st =
     (case st of (total_certs, cert_data) \<Rightarrow>
        (total_certs + 1,
         if hash_certificate H cert \<in> fst ` set cert_data then cert_data
         else cert_data @ [(hash_certificate H cert, cert)]))"

definition collect_certs :: "digest_fun \<Rightarrow> LogEntry list \<Rightarrow> nat \<times> (bytes \<times> bytes) list" where
  "collect_certs H es = fold (collect_cert H) (concat (map entry_certs es)) (0, [])"

definition count_skipped :: "digest_fun \<Rightarrow> bytes list \<Rightarrow> LogEntry list \<Rightarrow> nat \<times> u64" where
  "count_skipped H existing_certs es =
     (let skipped = filter (\<lambda>cert. hash_certificate H cert \<in> set existing_certs) (concat (map entry_certs es))
      in (length skipped, sum_list (map (\<lambda>cert. of_nat (length cert)) skipped)))"

section \<open>Flushing a batch\<close>

definition entry_key :: "u64 \<Rightarrow> bytes" where
  "entry_key index = ENTRY @ be64 index"

definition hash_key :: "bytes \<Rightarrow> bytes" where
  "hash_key h = HASH_INDEX @ h"

definition cert_sct_key :: "bytes \<Rightarrow> bytes" where
  "cert_sct_key h = CERT_SCT @ h"

definition cert_key :: "bytes \<Rightarrow> bytes" where
  "cert_key h = CERT @ h"

text \<open>The three records of an entry, at the index of its place in the tree; none when its SCT cannot be serialized.\<close>

definition entry_puts :: "('db, 'nc, 'tc, 'cc, 'ec) StorageEnv \<Rightarrow> u64 \<Rightarrow> nat \<Rightarrow> Prepared \<Rightarrow> (bytes \<times> bytes) list" where
  "entry_puts E starting_index vec_idx p =
     (let index = starting_index + of_nat vec_idx;
          computed_leaf_hash = sha256 E ([0x00] @ prep_leaf p);
          sct_entry = \<lparr>cse_index = index, cse_sct = prep_sct p, cse_timestamp = sct_timestamp (prep_sct p)\<rparr>
      in case ser_sct E sct_entry of
           Inl _ \<Rightarrow> []
         | Inr sct_data \<Rightarrow>
             [(entry_key index, prep_data p), (hash_key computed_leaf_hash, be64 index),
              (cert_sct_key (prep_cert_hash p), sct_data)])"

definition additional_data ::
  "('db, 'nc, 'tc, 'cc, 'ec) StorageEnv \<Rightarrow> u64 \<Rightarrow> Prepared list \<Rightarrow> (bytes \<times> bytes) list \<Rightarrow> bytes list \<Rightarrow> (bytes \<times> bytes) list" where
  "additional_data E starting_index metas cert_data existing_certs =
     concat (map (\<lambda>(vec_idx, p). entry_puts E starting_index vec_idx p) (zip [0..<length metas] metas))
     @ map (\<lambda>(h, cert). (cert_key h, cert)) (filter (\<lambda>(h, cert). h \<notin> set existing_certs) (hash_map_order E cert_data))"

record PushResult =
  push_outcome :: "StorageError + u64"
  certs_in_batch :: nat
  certs_skipped :: nat
  bytes_saved :: u64

definition push_prepared ::
  "('db, 'nc, 'tc, 'cc, 'ec) StorageEnv \<Rightarrow> u64 \<Rightarrow> Prepared list \<Rightarrow> ('db, 'nc, 'tc, 'cc, 'ec, 'e, PushResult) storage_op" where
  "push_prepared E starting_index metas =
     (if metas = []
      then ret \<lparr>push_outcome = Inl (InvalidFormat ''No valid entries to flush''), certs_in_batch = 0, certs_skipped = 0, bytes_saved = 0\<rparr>
      else
        case collect_certs (sha256 E) (map prep_entry metas) of (total_certs, cert_data) \<Rightarrow>
        let hashes_to_check = hash_set_order E (map fst cert_data);
            keys_to_check = map cert_key hashes_to_check
        in
        and_then (attempt (on_tree (ms_check_keys_exist (slate_debug E) (tree_env E) keys_to_check))) (\<lambda>r.
        let existence_results = (case r of Inr results \<Rightarrow> results | Inl _ \<Rightarrow> replicate (length keys_to_check) False);
            existing_certs = map fst (filter snd (zip hashes_to_check existence_results));
            skipped = count_skipped (sha256 E) existing_certs (map prep_entry metas)
        in
        and_then (attempt (on_tree (ms_batch_push_with_data (slate_debug E) (tree_env E) (map prep_leaf metas)
            (additional_data E starting_index metas cert_data existing_certs)))) (\<lambda>pushed.
        ret \<lparr>push_outcome = (case pushed of
                Inr actual_starting_index \<Rightarrow> Inr actual_starting_index
              | Inl e \<Rightarrow> Inl (InvalidFormat (''Merkle tree error: '' @ ct_error_debug (slate_debug E) e))),
             certs_in_batch = total_certs, certs_skipped = fst skipped, bytes_saved = snd skipped\<rparr>)))"

text \<open>The answers: the position in the list of completions is compared with the failed indices.\<close>

fun success_answers ::
  "u64 \<Rightarrow> (nat \<times> StorageError) list \<Rightarrow> nat \<Rightarrow> u64 \<Rightarrow> (nat \<times> SignedCertificateTimestamp option) list \<Rightarrow> (nat \<times> completion) list" where
  "success_answers starting_index failed i valid_idx [] = []"
| "success_answers starting_index failed i valid_idx ((tx, sct_opt) # rest) =
     (case map_of failed i of
        Some error \<Rightarrow> (tx, Inl (StorageError_clone error)) # success_answers starting_index failed (i + 1) valid_idx rest
      | None \<Rightarrow>
          (case sct_opt of
             Some sct \<Rightarrow> (tx, Inr (starting_index + valid_idx, sct)) # success_answers starting_index failed (i + 1) (valid_idx + 1) rest
           | None \<Rightarrow> (tx, Inl (InvalidFormat ''Unexpected error'')) # success_answers starting_index failed (i + 1) valid_idx rest))"

fun failure_answers ::
  "StorageError \<Rightarrow> (nat \<times> StorageError) list \<Rightarrow> nat \<Rightarrow> (nat \<times> SignedCertificateTimestamp option) list \<Rightarrow> (nat \<times> completion) list" where
  "failure_answers e failed i [] = []"
| "failure_answers e failed i ((tx, _) # rest) =
     (tx, Inl (StorageError_clone (case map_of failed i of Some error \<Rightarrow> error | None \<Rightarrow> e))) # failure_answers e failed (i + 1) rest"

definition send :: "(nat \<times> completion) list \<Rightarrow> ('db, 'nc, 'tc, 'cc, 'ec, 'e, unit) storage_op" where
  "send msgs = modify (\<lambda>s. s\<lparr>sent := sent s @ msgs\<rparr>)"

definition record_stats :: "nat \<Rightarrow> u64 \<Rightarrow> u64 \<Rightarrow> PushResult \<Rightarrow> BatchStats \<Rightarrow> BatchStats" where
  "record_stats batch_size flush_time_ms dedup_check_time_ms r stats =
     (let s1 = stats\<lparr>batches_flushed := batches_flushed stats + 1,
                      total_entries := total_entries stats + of_nat batch_size,
                      total_flush_time_ms := total_flush_time_ms stats + flush_time_ms\<rparr>;
          s2 = (if min_batch_size s1 = 0 \<or> batch_size < min_batch_size s1 then s1\<lparr>min_batch_size := batch_size\<rparr> else s1);
          s3 = (if max_batch_size_seen s2 < batch_size then s2\<lparr>max_batch_size_seen := batch_size\<rparr> else s2)
      in if 0 < certs_in_batch r
         then s3\<lparr>total_certs_checked := total_certs_checked s3 + of_nat (certs_in_batch r),
                 total_certs_deduplicated := total_certs_deduplicated s3 + of_nat (certs_skipped r),
                 total_bytes_saved := total_bytes_saved s3 + bytes_saved r,
                 total_dedup_check_time_ms := total_dedup_check_time_ms s3 + dedup_check_time_ms\<rparr>
         else s3)"

text \<open>
  A panic in the parallel map is caught by the join of the blocking task, which then yields nothing: no leaf is pushed and the
  completion channels are dropped without a message.
\<close>

definition flush_batch ::
  "('db, 'nc, 'tc, 'cc, 'ec) StorageEnv \<Rightarrow> u64 \<Rightarrow> u64 \<Rightarrow> BatchEntry list \<Rightarrow> ('db, 'nc, 'tc, 'cc, 'ec, StorageError, unit) storage_op" where
  "flush_batch E flush_time_ms dedup_check_time_ms entries =
     (if entries = [] then ret ()
      else
        and_then (attempt (on_tree (ms_size (slate_debug E) (tree_env E)))) (\<lambda>size. case size of
          Inl e \<Rightarrow>
            send (map (\<lambda>entry. (completion_tx entry,
              Inl (InvalidFormat (''Failed to get tree size: '' @ ct_error_debug (slate_debug E) e)))) entries)
        | Inr starting_index \<Rightarrow>
            (case (case process_entries E starting_index entries of Some results \<Rightarrow> separate results | None \<Rightarrow> ([], [], [])) of
               (metas, failed, completions) \<Rightarrow>
             and_then (push_prepared E starting_index metas) (\<lambda>r.
             and_then (send (case push_outcome r of
                 Inr _ \<Rightarrow> success_answers starting_index failed 0 0 completions
               | Inl e \<Rightarrow> failure_answers e failed 0 completions)) (\<lambda>_.
             modify (\<lambda>s. s\<lparr>batch_stats := record_stats (length entries) flush_time_ms dedup_check_time_ms r (batch_stats s)\<rparr>))))))"

section \<open>Lookups\<close>

definition storage_get :: "('db, 'nc, 'tc, 'cc, 'ec) StorageEnv \<Rightarrow> bytes \<Rightarrow> ('db, 'nc, 'tc, 'cc, 'ec, StorageError, bytes option) storage_op" where
  "storage_get E key =
     map_err SlateDbFailure (on_tree (zoom tree_db (\<lambda>d t. t\<lparr>tree_db := d\<rparr>) (rl_get (slate (tree_env E)) key)))"

definition find_index_by_hash :: "('db, 'nc, 'tc, 'cc, 'ec) StorageEnv \<Rightarrow> bytes \<Rightarrow> ('db, 'nc, 'tc, 'cc, 'ec, StorageError, u64 option) storage_op" where
  "find_index_by_hash E h =
     and_then (storage_get E (HASH_INDEX @ h)) (\<lambda>r. case r of
       Some bs \<Rightarrow> and_then (ok_or (InvalidFormat ''Invalid index format'') (read_be64 bs)) (\<lambda>i. ret (Some i))
     | None \<Rightarrow> ret None)"

definition get_sct_by_cert_hash ::
  "('db, 'nc, 'tc, 'cc, 'ec) StorageEnv \<Rightarrow> bytes \<Rightarrow> ('db, 'nc, 'tc, 'cc, 'ec, StorageError, CertificateSctEntry option) storage_op" where
  "get_sct_by_cert_hash E cert_hash =
     and_then (storage_get E (CERT_SCT @ cert_hash)) (\<lambda>r. case r of
       Some bs \<Rightarrow> (case de_sct E bs of
           Inl e \<Rightarrow> raise (InvalidFormat (''Failed to deserialize SCT entry: '' @ e))
         | Inr entry \<Rightarrow> ret (Some entry))
     | None \<Rightarrow> ret None)"

definition get_certificate :: "('db, 'nc, 'tc, 'cc, 'ec) StorageEnv \<Rightarrow> bytes \<Rightarrow> ('db, 'nc, 'tc, 'cc, 'ec, StorageError, bytes option) storage_op" where
  "get_certificate E cert_hash = storage_get E (CERT @ cert_hash)"

definition get_chain_certificate :: "('db, 'nc, 'tc, 'cc, 'ec) StorageEnv \<Rightarrow> bytes \<Rightarrow> ('db, 'nc, 'tc, 'cc, 'ec, StorageError, bytes option) storage_op" where
  "get_chain_certificate E cert_hash =
     and_then (\<lambda>s. case cache_get (chain_cache_ops E) cert_hash (chain_cache s) of (r, c) \<Rightarrow> (Inr r, s\<lparr>chain_cache := c\<rparr>)) (\<lambda>cached.
     case cached of
       Some cert \<Rightarrow> ret (Some cert)
     | None \<Rightarrow>
         and_then (get_certificate E cert_hash) (\<lambda>r. case r of
           Some cert \<Rightarrow>
             and_then (modify (\<lambda>s. s\<lparr>chain_cache := cache_insert (chain_cache_ops E) cert_hash cert (chain_cache s)\<rparr>)) (\<lambda>_.
             ret (Some cert))
         | None \<Rightarrow> ret None))"

definition get_deduplicated_entry ::
  "('db, 'nc, 'tc, 'cc, 'ec) StorageEnv \<Rightarrow> u64 \<Rightarrow> ('db, 'nc, 'tc, 'cc, 'ec, StorageError, DeduplicatedLogEntry option) storage_op" where
  "get_deduplicated_entry E index =
     and_then (storage_get E (ENTRY @ be64 index)) (\<lambda>r. case r of
       Some bs \<Rightarrow> (case de_entry E bs of
           Inl e \<Rightarrow> raise (InvalidFormat (''Failed to deserialize deduplicated entry: '' @ e))
         | Inr entry \<Rightarrow> ret (Some entry))
     | None \<Rightarrow> ret None)"

text \<open>
  \<^verbatim>\<open>join_all\<close> runs every lookup before the results are inspected; the first error or missing certificate in the order of the
  chain is reported.
\<close>

primrec join_all :: "('x \<Rightarrow> ('s, 'e, 'a) io) \<Rightarrow> 'x list \<Rightarrow> ('s, 'f, ('e + 'a) list) io" where
  "join_all f [] = ret []"
| "join_all f (x # xs) = and_then (attempt (f x)) (\<lambda>r. and_then (join_all f xs) (\<lambda>rs. ret (r # rs)))"

fun all_found :: "(StorageError + bytes option) list \<Rightarrow> StorageError + bytes list" where
  "all_found [] = Inr []"
| "all_found (r # rs) =
     (case r of
        Inl e \<Rightarrow> Inl e
      | Inr None \<Rightarrow> Inl (InvalidFormat ''Chain certificate not found'')
      | Inr (Some cert) \<Rightarrow> (case all_found rs of Inl e \<Rightarrow> Inl e | Inr certs \<Rightarrow> Inr (cert # certs)))"

definition fetch_chain ::
  "('db, 'nc, 'tc, 'cc, 'ec) StorageEnv \<Rightarrow> bytes list option \<Rightarrow> ('db, 'nc, 'tc, 'cc, 'ec, StorageError, bytes list option) storage_op" where
  "fetch_chain E hashes_opt =
     (case hashes_opt of
        None \<Rightarrow> ret None
      | Some hs \<Rightarrow>
          and_then (join_all (get_chain_certificate E) hs) (\<lambda>results.
          and_then (of_result (all_found results)) (\<lambda>certs. ret (Some certs))))"

definition reconstruct_log_entry ::
  "('db, 'nc, 'tc, 'cc, 'ec) StorageEnv \<Rightarrow> DeduplicatedLogEntry \<Rightarrow> ('db, 'nc, 'tc, 'cc, 'ec, StorageError, LogEntry) storage_op" where
  "reconstruct_log_entry E dedup_entry =
     and_then
       (if dedup_entry_type dedup_entry = PrecertEntry
        then
          and_then (get_certificate E (certificate_hash dedup_entry)) (\<lambda>p.
          and_then (ok_or (InvalidFormat ''Original precert not found'') p) (\<lambda>precert_result.
          and_then (fetch_chain E (chain_hashes dedup_entry)) (\<lambda>chn.
          and_then (map_err (\<lambda>e. InvalidFormat (''Failed to transform precert: '' @ ct_error_display e))
              (of_result (extract_tbs_certificate (x509_ops E) precert_result (case chn of Some c \<Rightarrow> c | None \<Rightarrow> [])))) (\<lambda>tbs_certificate.
          ret (tbs_certificate, Some precert_result)))))
        else
          and_then (get_certificate E (certificate_hash dedup_entry)) (\<lambda>c.
          and_then (ok_or (InvalidFormat ''Certificate not found'') c) (\<lambda>cert.
          ret (cert, None)))) (\<lambda>(cert, precert).
     and_then (fetch_chain E (chain_hashes dedup_entry)) (\<lambda>chn.
     ret \<lparr>entry_index = dedup_index dedup_entry, entry_timestamp = dedup_timestamp dedup_entry,
          entry_type = dedup_entry_type dedup_entry, certificate = cert, chain = chn,
          issuer_key_hash = dedup_issuer_key_hash dedup_entry, original_precert = precert,
          leaf_data = dedup_leaf_data dedup_entry\<rparr>))"

definition get_entry :: "('db, 'nc, 'tc, 'cc, 'ec) StorageEnv \<Rightarrow> u64 \<Rightarrow> ('db, 'nc, 'tc, 'cc, 'ec, StorageError, LogEntry option) storage_op" where
  "get_entry E index =
     and_then (\<lambda>s. case cache_get (entry_cache_ops E) index (entry_cache s) of (r, c) \<Rightarrow> (Inr r, s\<lparr>entry_cache := c\<rparr>)) (\<lambda>cached.
     case cached of
       Some entry \<Rightarrow> ret (Some entry)
     | None \<Rightarrow>
         and_then (get_deduplicated_entry E index) (\<lambda>r. case r of
           Some dedup_entry \<Rightarrow>
             and_then (reconstruct_log_entry E dedup_entry) (\<lambda>entry.
             and_then (modify (\<lambda>s. s\<lparr>entry_cache := cache_insert (entry_cache_ops E) index entry (entry_cache s)\<rparr>)) (\<lambda>_.
             ret (Some entry)))
         | None \<Rightarrow> ret None))"

end
