(* ===== verification/Ct_Storage_Inv.thy ===== *)
theory Ct_Storage_Inv
  imports Ct_Storage "HOL-Library.Multiset"
begin

text \<open>
  The state of the log behind the storage operations. The log is a list of prepared entries; \<open>log_holds\<close> says that the
  tree holds their leaves, that the records beside the tree are exactly those of the entries, that the certificate store
  is the content-addressed store of the certificates of the entries, and that the caches agree with it. The lemmas here
  are those of the single steps: what the records of one more entry do to the store, and what each lookup answers.
\<close>

section \<open>Keys\<close>

lemmas storage_prefix_defs = ENTRY_def HASH_INDEX_def CERT_SCT_def CERT_def
lemmas storage_key_defs = storage_prefix_defs entry_key_def hash_key_def cert_sct_key_def cert_key_def

lemma storage_key_tags:
  "take 5 (entry_key i) = [101, 110, 116, 114, 121]" "take 5 (hash_key h) = [104, 97, 115, 104, 58]"
  "take 5 (cert_sct_key h) = [99, 101, 114, 116, 95]" "take 5 (cert_key h) = [99, 101, 114, 116, 58]"
  by (simp_all add: storage_key_defs ascii_def of_char_def)

lemma storage_keys_differ: "take 5 k \<noteq> take 5 k' \<Longrightarrow> k \<noteq> k'"
  by auto

lemma storage_keys_distinct [simp]:
  "entry_key i \<noteq> hash_key h" "entry_key i \<noteq> cert_sct_key h" "entry_key i \<noteq> cert_key h"
  "hash_key h' \<noteq> cert_sct_key h" "hash_key h' \<noteq> cert_key h" "cert_sct_key h' \<noteq> cert_key h"
  by (rule storage_keys_differ, simp add: storage_key_tags)+

lemmas storage_keys_distinct' [simp] = storage_keys_distinct [symmetric]

lemma storage_key_inject [simp]:
  "entry_key i = entry_key j \<longleftrightarrow> i = j" "hash_key h = hash_key h' \<longleftrightarrow> h = h'"
  "cert_sct_key h = cert_sct_key h' \<longleftrightarrow> h = h'" "cert_key h = cert_key h' \<longleftrightarrow> h = h'"
  by (simp_all add: entry_key_def hash_key_def cert_sct_key_def cert_key_def)

lemma storage_keys_foreign [simp]:
  "foreign_key (entry_key i)" "foreign_key (hash_key h)" "foreign_key (cert_sct_key h)" "foreign_key (cert_key h)"
  by (simp_all add: foreign_key_def tree_tags_def storage_key_defs ascii_def of_char_def)

section \<open>The records of the entries\<close>

text \<open>The position of the last element with a property, which is where a mapping that is overwritten points to.\<close>

definition latest :: "('a \<Rightarrow> bool) \<Rightarrow> 'a list \<Rightarrow> nat option" where
  "latest Q xs = find (\<lambda>i. Q (xs ! i)) (rev [0..<length xs])"

lemma latest_Nil [simp]: "latest Q [] = None"
  by (simp add: latest_def)

lemma latest_snoc: "latest Q (xs @ [x]) = (if Q x then Some (length xs) else latest Q xs)"
proof -
  have "find (\<lambda>i. Q ((xs @ [x]) ! i)) (rev [0..<length xs]) = find (\<lambda>i. Q (xs ! i)) (rev [0..<length xs])"
    by (rule find_cong) (auto simp: nth_append)
  then show ?thesis by (simp add: latest_def)
qed

lemma latest_SomeD: "latest Q xs = Some i \<Longrightarrow> i < length xs \<and> Q (xs ! i)"
  unfolding latest_def find_Some_iff by (metis atLeastLessThan_upt atLeastLessThan_iff nth_mem set_rev)

lemma latest_None: "latest Q xs = None \<longleftrightarrow> (\<forall>x \<in> set xs. \<not> Q x)"
  by (auto simp: latest_def find_None_iff all_set_conv_all_nth)

text \<open>When only one element has the property, it is the one found.\<close>

lemma latest_unique:
  assumes "i < length xs" "Q (xs ! i)" "\<And>j. j < length xs \<Longrightarrow> Q (xs ! j) \<Longrightarrow> j = i"
  shows "latest Q xs = Some i"
proof (cases "latest Q xs")
  case None
  with assms(1,2) show ?thesis by (auto simp: latest_None)
next
  case (Some j)
  with assms(3) [of j] latest_SomeD [OF Some] show ?thesis by simp
qed

definition leaf_hash_of :: "digest_fun \<Rightarrow> Prepared \<Rightarrow> bytes" where
  "leaf_hash_of H p = H ([0x00] @ prep_leaf p)"

definition sct_record :: "nat \<Rightarrow> Prepared \<Rightarrow> CertificateSctEntry" where
  "sct_record i p = \<lparr>cse_index = of_nat i, cse_sct = prep_sct p, cse_timestamp = sct_timestamp (prep_sct p)\<rparr>"

definition records_ok :: "('db, 'nc, 'tc, 'cc, 'ec) StorageEnv \<Rightarrow> Prepared list \<Rightarrow> key_values \<Rightarrow> bool" where
  "records_ok E ps M \<longleftrightarrow>
     (\<forall>i. M (entry_key i) = (if unat i < length ps then Some (prep_data (ps ! unat i)) else None)) \<and>
     (\<forall>h. M (hash_key h) = map_option (\<lambda>i. be64 (of_nat i)) (latest (\<lambda>p. leaf_hash_of (sha256 E) p = h) ps)) \<and>
     (\<forall>h. M (cert_sct_key h) =
        map_option (\<lambda>i. projr (ser_sct E (sct_record i (ps ! i)))) (latest (\<lambda>p. prep_cert_hash p = h) ps))"

lemma entry_puts_records:
  assumes "\<not> isl (ser_sct E (sct_record i p))" "n + vec_idx = i"
  shows "entry_puts E (of_nat n) vec_idx p =
    [(entry_key (of_nat i), prep_data p), (hash_key (leaf_hash_of (sha256 E) p), be64 (of_nat i)),
     (cert_sct_key (prep_cert_hash p), projr (ser_sct E (sct_record i p)))]"
proof -
  have i: "(of_nat n + of_nat vec_idx :: u64) = of_nat i" using assms(2) by (metis of_nat_add)
  show ?thesis
  proof (cases "ser_sct E (sct_record i p)")
    case (Inl e)
    with assms(1) show ?thesis by simp
  next
    case (Inr b)
    then show ?thesis by (simp only: entry_puts_def Let_def i leaf_hash_of_def sct_record_def) (simp add: sct_record_def)
  qed
qed

lemma nth_snoc_latest:
  "latest Q xs = Some i \<Longrightarrow> (xs @ [x]) ! i = xs ! i"
  by (drule latest_SomeD) (simp add: nth_append)

text \<open>The records of one more entry.\<close>

lemma records_ok_snoc:
  assumes "records_ok E ps M" "\<not> isl (ser_sct E (sct_record (length ps) p))" "length ps < 2 ^ 63"
    and "n + vec_idx = length ps"
  shows "records_ok E (ps @ [p]) (apply_batch (entry_puts E (of_nat n) vec_idx p) M)"
proof -
  let ?i = "length ps"
  let ?M = "M(entry_key (of_nat ?i) \<mapsto> prep_data p, hash_key (leaf_hash_of (sha256 E) p) \<mapsto> be64 (of_nat ?i),
    cert_sct_key (prep_cert_hash p) \<mapsto> projr (ser_sct E (sct_record ?i p)))"
  have M: "apply_batch (entry_puts E (of_nat n) vec_idx p) M = ?M"
    unfolding entry_puts_records [OF assms(2,4)] by (simp add: apply_batch_Cons)
  have u: "unat (of_nat ?i :: u64) = ?i" using assms(3) by (simp add: unat_of_nat)
  have e: "?M (entry_key j) = (if unat j < length (ps @ [p]) then Some (prep_data ((ps @ [p]) ! unat j)) else None)" for j
  proof (cases "j = of_nat ?i")
    case True
    with u show ?thesis by simp
  next
    case False
    then have "unat j \<noteq> ?i" using u by (auto simp: word_unat_eq_iff)
    with False assms(1) show ?thesis by (auto simp: records_ok_def nth_append)
  qed
  have h: "?M (hash_key h) = map_option (\<lambda>i. be64 (of_nat i)) (latest (\<lambda>p. leaf_hash_of (sha256 E) p = h) (ps @ [p]))" for h
    using assms(1) by (simp add: records_ok_def latest_snoc)
  have s: "?M (cert_sct_key h) = map_option (\<lambda>i. projr (ser_sct E (sct_record i ((ps @ [p]) ! i)))) (latest (\<lambda>p. prep_cert_hash p = h) (ps @ [p]))" for h
    using assms(1) nth_snoc_latest [of "\<lambda>p. prep_cert_hash p = h" ps _ p]
    by (cases "latest (\<lambda>p. prep_cert_hash p = h) ps") (simp_all add: records_ok_def latest_snoc)
  show ?thesis unfolding M records_ok_def using e h s by blast
qed

text \<open>The records of a batch, in the order of its entries.\<close>

lemma records_ok_append:
  assumes "records_ok E ps M" "length ps + length qs \<le> 2 ^ 63"
    and "\<And>j. j < length qs \<Longrightarrow> \<not> isl (ser_sct E (sct_record (length ps + j) (qs ! j)))"
  shows "records_ok E (ps @ qs)
    (apply_batch (concat (map (\<lambda>(vec_idx, p). entry_puts E (of_nat (length ps)) vec_idx p) (zip [0..<length qs] qs))) M)"
  using assms(2,3)
proof (induction qs rule: rev_induct)
  case Nil
  with assms(1) show ?case by simp
next
  case (snoc q qs)
  have "\<not> isl (ser_sct E (sct_record (length ps + j) (qs ! j)))" if "j < length qs" for j
    using snoc.prems(2) [of j] that by (simp add: nth_append)
  with snoc have IH: "records_ok E (ps @ qs)
    (apply_batch (concat (map (\<lambda>(vec_idx, p). entry_puts E (of_nat (length ps)) vec_idx p) (zip [0..<length qs] qs))) M)"
    by simp
  have z: "zip [0..<length (qs @ [q])] (qs @ [q]) = zip [0..<length qs] qs @ [(length qs, q)]" by simp
  have r: "\<not> isl (ser_sct E (sct_record (length (ps @ qs)) q))" "length (ps @ qs) < 2 ^ 63" "length ps + length qs = length (ps @ qs)"
    using snoc.prems(2) [of "length qs"] snoc.prems(1) by auto
  show ?case
    unfolding z map_append concat_append apply_batch_append append_assoc [symmetric]
    using records_ok_snoc [OF IH r] by simp
qed

lemma records_ok_cong:
  assumes "records_ok E ps M" "\<And>i. M' (entry_key i) = M (entry_key i)" "\<And>h. M' (hash_key h) = M (hash_key h)"
    "\<And>h. M' (cert_sct_key h) = M (cert_sct_key h)"
  shows "records_ok E ps M'"
  using assms by (simp add: records_ok_def)

section \<open>The certificate store\<close>

definition log_certs :: "Prepared list \<Rightarrow> bytes list" where
  "log_certs ps = concat (map (\<lambda>p. entry_certs (prep_entry p)) ps)"

text \<open>The certificate store holds a certificate under its hash exactly when it belongs to an entry of the log.\<close>

definition certs_ok :: "('db, 'nc, 'tc, 'cc, 'ec) StorageEnv \<Rightarrow> Prepared list \<Rightarrow> key_values \<Rightarrow> bool" where
  "certs_ok E ps M \<longleftrightarrow> (\<forall>h c. M (cert_key h) = Some c \<longleftrightarrow> c \<in> set (log_certs ps) \<and> sha256 E c = h)"

lemma log_certs_append [simp]: "log_certs (ps @ qs) = log_certs ps @ log_certs qs"
  by (simp add: log_certs_def)

text \<open>What is collected: pairs of a certificate of the batch and its hash, one for every certificate up to collisions.\<close>

lemma collect_cert_step:
  "collect_cert H c (n, cd) = (n + 1, if H c \<in> fst ` set cd then cd else cd @ [(H c, c)])"
  by (simp add: collect_cert_def hash_certificate_def)

lemma collect_fold:
  assumes "\<And>h c. (h, c) \<in> set cd \<Longrightarrow> h = H c" "inj_on H (set (map snd cd) \<union> set cs)"
  shows "set (snd (fold (collect_cert H) cs (n, cd))) = set cd \<union> (\<lambda>c. (H c, c)) ` set cs"
  using assms
proof (induction cs arbitrary: n cd)
  case Nil
  then show ?case by simp
next
  case (Cons c cs)
  show ?case
  proof (cases "H c \<in> fst ` set cd")
    case True
    then obtain c' where c': "(H c, c') \<in> set cd" by auto
    then have "H c = H c'" "c' \<in> set (map snd cd)" using Cons.prems(1) by (force)+
    with Cons.prems(2) have "c' = c" by (auto simp: inj_on_def)
    with c' have "(H c, c) \<in> set cd" by simp
    moreover have "set (snd (fold (collect_cert H) cs (n + 1, cd))) = set cd \<union> (\<lambda>c. (H c, c)) ` set cs"
      by (rule Cons.IH) (use Cons.prems in \<open>auto intro: inj_on_subset\<close>)
    ultimately show ?thesis using True by (simp add: collect_cert_step insert_absorb)
  next
    case False
    have "set (snd (fold (collect_cert H) cs (n + 1, cd @ [(H c, c)]))) = set (cd @ [(H c, c)]) \<union> (\<lambda>c. (H c, c)) ` set cs"
      by (rule Cons.IH) (use Cons.prems in \<open>auto intro: inj_on_subset\<close>)
    with False show ?thesis by (simp add: collect_cert_step)
  qed
qed

lemma collect_certs_set:
  assumes "inj_on H (set (log_certs qs))"
  shows "set (snd (collect_certs H (map prep_entry qs))) = (\<lambda>c. (H c, c)) ` set (log_certs qs)"
  using collect_fold [of "[]" H "log_certs qs" 0] assms by (simp add: collect_certs_def log_certs_def o_def)

lemma apply_batch_values:
  "k \<in> fst ` set b \<Longrightarrow> \<exists>v. (k, v) \<in> set b \<and> apply_batch b M k = Some v"
proof -
  assume "k \<in> fst ` set b"
  then have "map_of (rev b) k \<noteq> None" by (auto simp: map_of_eq_None_iff)
  then obtain v where "map_of (rev b) k = Some v" by auto
  then show ?thesis by (auto simp: apply_batch_def map_add_def dest: map_of_SomeD)
qed

text \<open>Writing the certificates of the batch whose hashes are not known to be stored.\<close>

lemma certs_ok_append:
  assumes c: "certs_ok E ps M" and inj: "inj_on (sha256 E) (set (log_certs (ps @ qs)))"
    and cd: "set cd = (\<lambda>c. (sha256 E c, c)) ` set (log_certs qs)"
    and ex: "\<And>h. h \<in> X \<Longrightarrow> M (cert_key h) \<noteq> None"
  shows "certs_ok E (ps @ qs) (apply_batch (map (\<lambda>(h, cert). (cert_key h, cert)) (filter (\<lambda>(h, cert). h \<notin> X) cd)) M)"
    (is "certs_ok E _ (apply_batch ?b M)")
  unfolding certs_ok_def
proof (intro allI)
  fix h cert
  have b: "(cert_key h, c) \<in> set ?b \<longleftrightarrow> c \<in> set (log_certs qs) \<and> sha256 E c = h \<and> h \<notin> X" for c
    by (auto simp: cd)
  have M: "M (cert_key h) = Some c \<longleftrightarrow> c \<in> set (log_certs ps) \<and> sha256 E c = h" for c using c by (simp add: certs_ok_def)
  show "apply_batch ?b M (cert_key h) = Some cert \<longleftrightarrow> cert \<in> set (log_certs (ps @ qs)) \<and> sha256 E cert = h"
  proof (cases "cert_key h \<in> fst ` set ?b")
    case True
    then obtain c where "(cert_key h, c) \<in> set ?b" "apply_batch ?b M (cert_key h) = Some c" using apply_batch_values by blast
    with b inj have "apply_batch ?b M (cert_key h) = Some c" "c \<in> set (log_certs (ps @ qs))" "sha256 E c = h" by simp_all
    with inj show ?thesis by (simp only: option.inject inj_on_def) metis
  next
    case False
    have X: "h \<in> X" if "c \<in> set (log_certs qs)" "sha256 E c = h" for c
      using False b [of c] that by (metis fst_conv image_eqI)
    have "c \<in> set (log_certs ps)" if q: "c \<in> set (log_certs qs)" "sha256 E c = h" for c
    proof -
      obtain c' where "M (cert_key h) = Some c'" using ex [OF X [OF q]] by auto
      then have "c' \<in> set (log_certs ps)" "sha256 E c' = sha256 E c" using M q(2) by simp_all
      moreover from this inj q(1) have "c' = c" by (simp add: inj_on_def)
      ultimately show ?thesis by simp
    qed
    with M show ?thesis unfolding apply_batch_other [OF False, of M] by auto
  qed
qed

section \<open>The log\<close>

text \<open>The abstraction functions of the store and of the three caches.\<close>

record ('db, 'nc, 'cc, 'ec) StorageView =
  v_db :: "'db \<Rightarrow> key_values"
  v_nodes :: "'nc \<Rightarrow> u64 \<times> u64 \<rightharpoonup> bytes"
  v_chain :: "'cc \<Rightarrow> bytes \<rightharpoonup> bytes"
  v_entries :: "'ec \<Rightarrow> u64 \<rightharpoonup> LogEntry"

text \<open>
  What is relied on beside the store: the caches return what was inserted, postcard reads back what it wrote, and
  iterating over a hash set or map visits each element once.
\<close>

definition storage_ok ::
  "('db, 'nc, 'tc, 'cc, 'ec) StorageEnv \<Rightarrow> ('db, 'nc, 'cc, 'ec) StorageView \<Rightarrow> SlateDBError set \<Rightarrow> bool" where
  "storage_ok E V F \<longleftrightarrow>
     env_ok (tree_env E) (v_db V) (v_nodes V) F \<and>
     cache_ok (chain_cache_ops E) (v_chain V) \<and> cache_ok (entry_cache_ops E) (v_entries V) \<and>
     (\<forall>d b. ser_entry E d = Inr b \<longrightarrow> de_entry E b = Inr d) \<and> (\<forall>d b. ser_sct E d = Inr b \<longrightarrow> de_sct E b = Inr d) \<and>
     (\<forall>xs. mset (hash_set_order E xs) = mset xs) \<and> (\<forall>xs. mset (hash_map_order E xs) = mset xs)"

text \<open>
  An entry that can be served again: a certificate, or the TBS certificate of its pre-certificate as the extractor gives it.
\<close>

definition readable :: "X509Ops \<Rightarrow> LogEntry \<Rightarrow> bool" where
  "readable X e \<longleftrightarrow>
     (case issuer_key_hash e of None \<Rightarrow> True | Some kh \<Rightarrow> length kh = 32) \<and>
     (case entry_type e of
        X509Entry \<Rightarrow> original_precert e = None
      | PrecertEntry \<Rightarrow>
          (case original_precert e of
             None \<Rightarrow> False
           | Some precert \<Rightarrow> extract_tbs_certificate X precert (case chain e of Some c \<Rightarrow> c | None \<Rightarrow> []) = Inr (certificate e)))"

text \<open>The entry at a place of the log.\<close>

definition logged_at :: "('db, 'nc, 'tc, 'cc, 'ec) StorageEnv \<Rightarrow> nat \<Rightarrow> Prepared \<Rightarrow> bool" where
  "logged_at E i p \<longleftrightarrow>
     entry_index (prep_entry p) = of_nat i \<and>
     compute_leaf_data_with_index (certificate (prep_entry p)) (entry_type (prep_entry p)) (issuer_key_hash (prep_entry p))
       (entry_timestamp (prep_entry p)) (of_nat i) = Some (prep_leaf p) \<and>
     leaf_data (prep_entry p) = prep_leaf p \<and>
     map_option (ser_entry E) (from_log_entry (sha256 E) (prep_entry p)) = Some (Inr (prep_data p)) \<and>
     \<not> isl (ser_sct E (sct_record i p)) \<and> readable (x509_ops E) (prep_entry p)"

definition caches_ok ::
  "('db, 'nc, 'tc, 'cc, 'ec) StorageEnv \<Rightarrow> ('db, 'nc, 'cc, 'ec) StorageView \<Rightarrow> Prepared list \<Rightarrow> 'cc \<Rightarrow> 'ec \<Rightarrow> bool" where
  "caches_ok E V ps cc ec \<longleftrightarrow>
     (\<forall>h c. v_chain V cc h = Some c \<longrightarrow> c \<in> set (log_certs ps) \<and> sha256 E c = h) \<and>
     (\<forall>i e. v_entries V ec i = Some e \<longrightarrow> unat i < length ps \<and> e = prep_entry (ps ! unat i))"

definition log_ok ::
  "('db, 'nc, 'tc, 'cc, 'ec) StorageEnv \<Rightarrow> Prepared list \<Rightarrow> nat set \<Rightarrow> key_values \<Rightarrow> bool" where
  "log_ok E ps P M \<longleftrightarrow>
     store_inv (digest_of (tree_env E)) (to_stdvec (tree_env E)) (map prep_leaf ps) P M \<and>
     records_ok E ps M \<and> certs_ok E ps M \<and> inj_on (sha256 E) (set (log_certs ps)) \<and> (\<forall>i < length ps. logged_at E i (ps ! i))"

definition log_at ::
  "('db, 'nc, 'tc, 'cc, 'ec) StorageEnv \<Rightarrow> ('db, 'nc, 'cc, 'ec) StorageView \<Rightarrow> Prepared list \<Rightarrow> nat set \<Rightarrow> key_values
    \<Rightarrow> ('db, 'nc, 'tc, 'cc, 'ec) CtStorage \<Rightarrow> bool" where
  "log_at E V ps P M s \<longleftrightarrow>
     tree_at (tree_env E) (v_db V) (v_nodes V) (map prep_leaf ps) P M (st_tree s) \<and>
     caches_ok E V ps (chain_cache s) (entry_cache s)"

definition log_holds ::
  "('db, 'nc, 'tc, 'cc, 'ec) StorageEnv \<Rightarrow> ('db, 'nc, 'cc, 'ec) StorageView \<Rightarrow> Prepared list \<Rightarrow> nat set
    \<Rightarrow> ('db, 'nc, 'tc, 'cc, 'ec) CtStorage \<Rightarrow> bool" where
  "log_holds E V ps P s \<longleftrightarrow> (\<exists>M. log_ok E ps P M \<and> log_at E V ps P M s)"

lemma storage_okD:
  assumes "storage_ok E V F"
  shows "env_ok (tree_env E) (v_db V) (v_nodes V) F" "cache_ok (chain_cache_ops E) (v_chain V)"
    "cache_ok (entry_cache_ops E) (v_entries V)"
    "ser_entry E d = Inr b \<Longrightarrow> de_entry E b = Inr d" "ser_sct E q = Inr b \<Longrightarrow> de_sct E b = Inr q"
    "set (hash_set_order E xs) = set xs" "set (hash_map_order E ys) = set ys" "length (hash_set_order E xs) = length xs"
proof -
  have p: "mset (hash_set_order E xs) = mset xs" "mset (hash_map_order E ys) = mset ys" using assms by (simp_all add: storage_ok_def)
  show "set (hash_set_order E xs) = set xs" "set (hash_map_order E ys) = set ys" "length (hash_set_order E xs) = length xs"
    using mset_eq_setD [OF p(1)] mset_eq_setD [OF p(2)] mset_eq_length [OF p(1)] by simp_all
qed (use assms in \<open>simp_all add: storage_ok_def\<close>)

lemma log_okD:
  assumes "log_ok E ps P M"
  shows "store_inv (digest_of (tree_env E)) (to_stdvec (tree_env E)) (map prep_leaf ps) P M" "records_ok E ps M" "certs_ok E ps M"
    "inj_on (sha256 E) (set (log_certs ps))" "i < length ps \<Longrightarrow> logged_at E i (ps ! i)" "length ps \<le> 2 ^ 63"
  using assms store_invD(1) [of _ _ "map prep_leaf ps"] by (auto simp: log_ok_def)

section \<open>Operations on the tree\<close>

text \<open>An operation that only reads the tree answers the same on the whole storage.\<close>

lemma answers_on_tree:
  assumes "answers (tree_at (tree_env E) (v_db V) (v_nodes V) (map prep_leaf ps) P M) m r X"
  shows "answers (log_at E V ps P M) (on_tree m) r X"
  unfolding answers_def on_tree_def
  by (rule triple_zoom [OF assms [unfolded answers_def]]) (auto simp: log_at_def)

lemma answers_storage_get:
  assumes "storage_ok E V F"
  shows "answers (log_at E V ps P M) (storage_get E k) (Inr (M k)) (SlateDbFailure ` F)"
proof (rule answersI)
  have ok: "slatedb_ok (slate (tree_env E)) (v_db V) F" using storage_okD(1) [OF assms] by (simp add: env_ok_def)
  have "triple (\<lambda>t. tree_at (tree_env E) (v_db V) (v_nodes V) D P M t) (zoom tree_db (\<lambda>d t. t\<lparr>tree_db := d\<rparr>) (rl_get (slate (tree_env E)) k))
    (\<lambda>r t. tree_at (tree_env E) (v_db V) (v_nodes V) D P M t \<and> r = M k)
    (\<lambda>e t. tree_at (tree_env E) (v_db V) (v_nodes V) D P M t \<and> e \<in> F)" for D
    by (rule triple_zoom [OF rl.get_spec [OF ok, of M k]]) (auto simp: tree_at_def)
  then have "triple (log_at E V ps P M) (on_tree (zoom tree_db (\<lambda>d t. t\<lparr>tree_db := d\<rparr>) (rl_get (slate (tree_env E)) k)))
    (\<lambda>r s. log_at E V ps P M s \<and> r = M k) (\<lambda>e s. log_at E V ps P M s \<and> e \<in> F)"
    unfolding on_tree_def by (rule triple_zoom) (auto simp: log_at_def)
  then show "triple (log_at E V ps P M) (storage_get E k) (\<lambda>r s. log_at E V ps P M s \<and> r = M k)
    (\<lambda>e s. log_at E V ps P M s \<and> e \<in> SlateDbFailure ` F)"
    unfolding storage_get_def by (intro triple_map_err) (erule triple_conseq, auto)
qed

section \<open>Lookups\<close>

lemma answers_find_index:
  assumes "storage_ok E V F" "log_ok E ps P M"
  shows "answers (log_at E V ps P M) (find_index_by_hash E h)
    (Inr (map_option of_nat (latest (\<lambda>p. leaf_hash_of (sha256 E) p = h) ps))) (SlateDbFailure ` F)"
proof -
  have M: "M (HASH_INDEX @ h) = map_option (\<lambda>i. be64 (of_nat i)) (latest (\<lambda>p. leaf_hash_of (sha256 E) p = h) ps)"
    using log_okD(2) [OF assms(2)] by (simp add: records_ok_def hash_key_def)
  show ?thesis
    unfolding find_index_by_hash_def
    by (rule answers_then [OF answers_storage_get [OF assms(1)]], unfold M)
      (cases "latest (\<lambda>p. leaf_hash_of (sha256 E) p = h) ps"; simp add: answers_ret)
qed

lemma answers_get_sct:
  assumes "storage_ok E V F" "log_ok E ps P M"
  shows "answers (log_at E V ps P M) (get_sct_by_cert_hash E h)
    (Inr (map_option (\<lambda>i. sct_record i (ps ! i)) (latest (\<lambda>p. prep_cert_hash p = h) ps))) (SlateDbFailure ` F)"
proof (cases "latest (\<lambda>p. prep_cert_hash p = h) ps")
  case None
  then have "M (CERT_SCT @ h) = None" using log_okD(2) [OF assms(2)] by (simp add: records_ok_def cert_sct_key_def)
  with None answers_storage_get [OF assms(1), of ps P M "CERT_SCT @ h"] show ?thesis
    unfolding get_sct_by_cert_hash_def by (intro answers_then) (auto simp: answers_ret)
next
  case (Some i)
  then have i: "i < length ps" by (auto dest: latest_SomeD)
  then obtain b where b: "ser_sct E (sct_record i (ps ! i)) = Inr b"
    using log_okD(5) [OF assms(2) i] by (cases "ser_sct E (sct_record i (ps ! i))") (auto simp: logged_at_def)
  have "M (CERT_SCT @ h) = Some b" using log_okD(2) [OF assms(2)] Some b by (simp add: records_ok_def cert_sct_key_def)
  with answers_storage_get [OF assms(1), of ps P M "CERT_SCT @ h"] show ?thesis
    unfolding get_sct_by_cert_hash_def
    by (intro answers_then) (use Some storage_okD(5) [OF assms(1) b] in \<open>auto simp: answers_ret\<close>)
qed

lemma answers_get_dedup:
  assumes "storage_ok E V F" "log_ok E ps P M"
  shows "answers (log_at E V ps P M) (get_deduplicated_entry E i)
    (Inr (if unat i < length ps then from_log_entry (sha256 E) (prep_entry (ps ! unat i)) else None)) (SlateDbFailure ` F)"
proof (cases "unat i < length ps")
  case False
  then have "M (ENTRY @ be64 i) = None" using log_okD(2) [OF assms(2)] by (simp add: records_ok_def entry_key_def)
  with False answers_storage_get [OF assms(1), of ps P M "ENTRY @ be64 i"] show ?thesis
    unfolding get_deduplicated_entry_def by (intro answers_then) (auto simp: answers_ret)
next
  case True
  then obtain d where d: "from_log_entry (sha256 E) (prep_entry (ps ! unat i)) = Some d" "ser_entry E d = Inr (prep_data (ps ! unat i))"
    using log_okD(5) [OF assms(2) True] by (auto simp: logged_at_def)
  have "M (ENTRY @ be64 i) = Some (prep_data (ps ! unat i))"
    using log_okD(2) [OF assms(2)] True by (simp add: records_ok_def entry_key_def)
  with answers_storage_get [OF assms(1), of ps P M "ENTRY @ be64 i"] show ?thesis
    unfolding get_deduplicated_entry_def
    by (intro answers_then) (use True d storage_okD(4) [OF assms(1) d(2)] in \<open>auto simp: answers_ret\<close>)
qed

lemma answers_get_certificate:
  assumes "storage_ok E V F" "log_ok E ps P M" "c \<in> set (log_certs ps)"
  shows "answers (log_at E V ps P M) (get_certificate E (sha256 E c)) (Inr (Some c)) (SlateDbFailure ` F)"
proof -
  have "M (CERT @ sha256 E c) = Some c" using log_okD(3) [OF assms(2)] assms(3) by (simp add: certs_ok_def cert_key_def)
  with answers_storage_get [OF assms(1), of ps P M "CERT @ sha256 E c"] show ?thesis by (simp add: get_certificate_def)
qed

lemma answers_get_chain_certificate:
  assumes "storage_ok E V F" "log_ok E ps P M" "c \<in> set (log_certs ps)"
  shows "answers (log_at E V ps P M) (get_chain_certificate E (sha256 E c)) (Inr (Some c)) (SlateDbFailure ` F)"
proof -
  let ?T = "log_at E V ps P M" and ?C = "chain_cache_ops E" and ?h = "sha256 E c"
  note cok = cache_okD [OF storage_okD(2) [OF assms(1)]]
  have cached: "triple ?T (\<lambda>s. case cache_get ?C ?h (chain_cache s) of (r, cc) \<Rightarrow> (Inr r, s\<lparr>chain_cache := cc\<rparr>))
      (\<lambda>r s. ?T s \<and> r \<in> {None, Some c}) R" for R :: "StorageError \<Rightarrow> _"
  proof (rule tripleI)
    fix s assume s: "?T s"
    obtain r cc where r: "cache_get ?C ?h (chain_cache s) = (r, cc)" by force
    have "r \<in> {None, Some c}"
    proof (cases r)
      case (Some c')
      have "c' \<in> set (log_certs ps) \<and> sha256 E c' = ?h"
        using cok(1) [of ?h "chain_cache s" c'] r Some s by (auto simp: log_at_def caches_ok_def)
      with Some assms(3) log_okD(4) [OF assms(2)] show ?thesis by (auto simp: inj_on_def)
    qed simp
    moreover have "?T (s\<lparr>chain_cache := cc\<rparr>)"
      using s cok(2) [of ?h "chain_cache s"] r by (auto simp: log_at_def caches_ok_def)
    ultimately show "case case cache_get ?C ?h (chain_cache s) of (r, cc) \<Rightarrow> (Inr r, s\<lparr>chain_cache := cc\<rparr>) of
        (Inr a, s') \<Rightarrow> ?T s' \<and> a \<in> {None, Some c} | (Inl (Err e), s') \<Rightarrow> R e s' | (Inl Panic, s') \<Rightarrow> False"
      using r by simp
  qed
  have ins: "answers ?T (modify (\<lambda>s. s\<lparr>chain_cache := cache_insert ?C ?h c (chain_cache s)\<rparr>)) (Inr ()) (SlateDbFailure ` F)"
    unfolding answers_def
  proof (rule triple_modify)
    fix s assume s: "?T s"
    have "c' \<in> set (log_certs ps) \<and> sha256 E c' = h" if "v_chain V (cache_insert ?C ?h c (chain_cache s)) h = Some c'" for h c'
      using cok(3) [OF that] s assms(3) by (auto simp: log_at_def caches_ok_def split: if_splits)
    with s show "?T (s\<lparr>chain_cache := cache_insert ?C ?h c (chain_cache s)\<rparr>) \<and> Inr () = Inr ()"
      by (auto simp: log_at_def caches_ok_def)
  qed
  show ?thesis
    unfolding answers_def get_chain_certificate_def
  proof (rule triple_and_then [OF cached])
    fix r :: "bytes option"
    have miss: "answers ?T (and_then (get_certificate E ?h) (\<lambda>r. case r of
           Some cert \<Rightarrow> and_then (modify (\<lambda>s. s\<lparr>chain_cache := cache_insert ?C ?h cert (chain_cache s)\<rparr>)) (\<lambda>_. ret (Some cert))
         | None \<Rightarrow> ret None)) (Inr (Some c)) (SlateDbFailure ` F)"
      by (rule answers_then [OF answers_get_certificate [OF assms]]) (simp add: answers_then [OF ins] answers_ret)
    show "triple (\<lambda>s. ?T s \<and> r \<in> {None, Some c}) (case r of None \<Rightarrow> and_then (get_certificate E ?h) (\<lambda>r. case r of
           Some cert \<Rightarrow> and_then (modify (\<lambda>s. s\<lparr>chain_cache := cache_insert ?C ?h cert (chain_cache s)\<rparr>)) (\<lambda>_. ret (Some cert))
         | None \<Rightarrow> ret None) | Some cert \<Rightarrow> ret (Some cert))
       (\<lambda>a s. ?T s \<and> Inr (Some c) = Inr a) (\<lambda>e s. ?T s \<and> (Inr (Some c) = Inl e \<or> e \<in> SlateDbFailure ` F))"
    proof (cases r)
      case None
      with miss show ?thesis by (simp add: answers_def)
    next
      case (Some c')
      then show ?thesis by (cases "c' = c") (auto intro!: triple_ret simp: triple_def [of "\<lambda>_. False"])
    qed
  qed
qed

text \<open>The certificates of a chain are all found, unless the store fails.\<close>

lemma triple_join_all:
  assumes "\<And>x. x \<in> set xs \<Longrightarrow> answers T (f x) (Inr (g x)) X"
  shows "triple T (join_all f xs) (\<lambda>rs s. T s \<and> list_all2 (\<lambda>x r. r = Inr (g x) \<or> r \<in> Inl ` X) xs rs) R"
  using assms
proof (induction xs)
  case Nil
  show ?case by (simp add: triple_ret)
next
  case (Cons x xs)
  let ?ok = "\<lambda>x r. r = Inr (g x) \<or> r \<in> Inl ` X"
  have "triple T (attempt (f x)) (\<lambda>r s. T s \<and> ?ok x r) R"
    by (rule triple_attempt) (rule triple_conseq [OF Cons.prems [of x, unfolded answers_def]], auto)
  moreover have "triple (\<lambda>s. T s \<and> ?ok x r) (and_then (join_all f xs) (\<lambda>rs. ret (r # rs)))
      (\<lambda>rs s. T s \<and> list_all2 ?ok (x # xs) rs) R" for r
  proof (rule triple_pre [where B = "?ok x r"])
    assume r: "?ok x r"
    have "triple T (and_then (join_all f xs) (\<lambda>rs. ret (r # rs))) (\<lambda>rs s. T s \<and> list_all2 ?ok (x # xs) rs) R"
      by (rule triple_and_then [OF Cons.IH]) (use Cons.prems r in \<open>auto intro!: triple_ret\<close>)
    then show "triple (\<lambda>s. T s \<and> ?ok x r) (and_then (join_all f xs) (\<lambda>rs. ret (r # rs)))
      (\<lambda>rs s. T s \<and> list_all2 ?ok (x # xs) rs) R" by (rule triple_weaken_pre) simp
  qed simp
  ultimately show ?case by (simp add: triple_and_then)
qed

lemma all_found_results:
  "list_all2 (\<lambda>x r. r = Inr (Some (g x)) \<or> r \<in> Inl ` X) xs rs \<Longrightarrow> all_found rs = Inr (map g xs) \<or> all_found rs \<in> Inl ` X"
  by (induction xs rs rule: list_all2_induct) auto

lemma answers_fetch_chain:
  assumes "storage_ok E V F" "log_ok E ps P M" "\<And>cs. chn = Some cs \<Longrightarrow> set cs \<subseteq> set (log_certs ps)"
  shows "answers (log_at E V ps P M) (fetch_chain E (map_option (map (sha256 E)) chn)) (Inr chn) (SlateDbFailure ` F)"
proof (cases chn)
  case None
  then show ?thesis by (simp add: fetch_chain_def answers_ret)
next
  case (Some cs)
  let ?T = "log_at E V ps P M" and ?X = "SlateDbFailure ` F"
  have g: "answers ?T (get_chain_certificate E h) (Inr (Some (inv_into (set (log_certs ps)) (sha256 E) h))) ?X"
    if "h \<in> set (map (sha256 E) cs)" for h
    using that assms(3) [OF Some] answers_get_chain_certificate [OF assms(1,2)] log_okD(4) [OF assms(2)]
    by (auto simp: subset_iff inv_into_f_f)
  have cs: "map (inv_into (set (log_certs ps)) (sha256 E)) (map (sha256 E) cs) = cs"
    using assms(3) [OF Some] log_okD(4) [OF assms(2)] by (auto simp: subset_iff inv_into_f_f intro: map_idI)
  have "answers ?T (and_then (join_all (get_chain_certificate E) (map (sha256 E) cs)) (\<lambda>results.
      and_then (of_result (all_found results)) (\<lambda>certs. ret (Some certs)))) (Inr (Some cs)) ?X"
    unfolding answers_def
  proof (rule triple_and_then [OF triple_join_all [OF g]])
    fix rs
    let ?l = "list_all2 (\<lambda>h r. r = Inr (Some (inv_into (set (log_certs ps)) (sha256 E) h)) \<or> r \<in> Inl ` ?X) (map (sha256 E) cs) rs"
    show "triple (\<lambda>s. ?T s \<and> ?l) (and_then (of_result (all_found rs)) (\<lambda>certs. ret (Some certs)))
        (\<lambda>a s. ?T s \<and> Inr (Some cs) = Inr a) (\<lambda>e s. ?T s \<and> (Inr (Some cs) = Inl e \<or> e \<in> ?X))"
    proof (rule triple_pre [where B = ?l])
      assume ?l
      from all_found_results [OF this, unfolded cs] show ?thesis
        by (elim disjE imageE) (auto intro!: triple_ret triple_raise)
    qed simp
  qed
  with Some show ?thesis by (simp add: fetch_chain_def)
qed

text \<open>A logged entry is put together again from its deduplicated form.\<close>

lemma log_certs_entry:
  assumes "i < length ps" "c \<in> set (entry_certs (prep_entry (ps ! i)))"
  shows "c \<in> set (log_certs ps)"
  using assms nth_mem [of i ps] by (auto simp: log_certs_def)

lemma answers_map_err_ok: "answers T m (Inr a) {} \<Longrightarrow> answers T (map_err g m) (Inr a) X"
  unfolding answers_def by (rule triple_map_err) (erule triple_conseq, auto)

lemma answers_reconstruct:
  assumes "storage_ok E V F" "log_ok E ps P M" "i < length ps" "from_log_entry (sha256 E) (prep_entry (ps ! i)) = Some d"
  shows "answers (log_at E V ps P M) (reconstruct_log_entry E d) (Inr (prep_entry (ps ! i))) (SlateDbFailure ` F)"
proof -
  let ?e = "prep_entry (ps ! i)" and ?T = "log_at E V ps P M" and ?X = "SlateDbFailure ` F"
  note certs = log_certs_entry [OF assms(3)]
  have rd: "readable (x509_ops E) ?e" using log_okD(5) [OF assms(2,3)] by (simp add: logged_at_def)
  have chn: "answers ?T (fetch_chain E (map_option (map (sha256 E)) (chain ?e))) (Inr (chain ?e)) ?X"
    by (rule answers_fetch_chain [OF assms(1,2)]) (use certs in \<open>auto simp: entry_certs_def\<close>)
  have fin: "answers ?T (and_then (fetch_chain E (map_option (map (sha256 E)) (chain ?e))) (\<lambda>chn.
      ret \<lparr>entry_index = entry_index ?e, entry_timestamp = entry_timestamp ?e, entry_type = ty, certificate = certificate ?e,
        chain = chn, issuer_key_hash = issuer_key_hash ?e, original_precert = pc, leaf_data = leaf_data ?e\<rparr>)) (Inr ?e) ?X"
    if "entry_type ?e = ty" "original_precert ?e = pc" for ty pc
  proof (rule answers_then [OF chn])
    have "\<lparr>entry_index = entry_index ?e, entry_timestamp = entry_timestamp ?e, entry_type = ty, certificate = certificate ?e,
        chain = chain ?e, issuer_key_hash = issuer_key_hash ?e, original_precert = pc, leaf_data = leaf_data ?e\<rparr> = ?e"
      using that by (cases ?e) simp
    then show "answers ?T (ret \<lparr>entry_index = entry_index ?e, entry_timestamp = entry_timestamp ?e, entry_type = ty, certificate = certificate ?e,
        chain = chain ?e, issuer_key_hash = issuer_key_hash ?e, original_precert = pc, leaf_data = leaf_data ?e\<rparr>) (Inr ?e) ?X"
      by (simp add: answers_ret)
  qed
  show ?thesis
  proof (cases "entry_type ?e")
    case X509Entry
    then have d: "d = \<lparr>dedup_index = entry_index ?e, dedup_timestamp = entry_timestamp ?e, dedup_entry_type = X509Entry,
       certificate_hash = sha256 E (certificate ?e), chain_hashes = map_option (map (sha256 E)) (chain ?e),
       dedup_issuer_key_hash = issuer_key_hash ?e, original_precert_hash = None, dedup_leaf_data = leaf_data ?e\<rparr>"
      and o: "original_precert ?e = None"
      using assms(4) rd by (auto simp: from_log_entry_def readable_def split: option.splits if_splits)
    have c: "answers ?T (get_certificate E (sha256 E (certificate ?e))) (Inr (Some (certificate ?e))) ?X"
      by (rule answers_get_certificate [OF assms(1,2)]) (use certs X509Entry in \<open>auto simp: entry_certs_def\<close>)
    show ?thesis
      unfolding reconstruct_log_entry_def d
      by (rule answers_then [where x = "(certificate ?e, None)"])
        (simp_all add: fin [OF X509Entry o] answers_then [OF c] answers_ret)
  next
    case PrecertEntry
    then obtain precert where o: "original_precert ?e = Some precert"
      and tbs: "extract_tbs_certificate (x509_ops E) precert (case chain ?e of Some c \<Rightarrow> c | None \<Rightarrow> []) = Inr (certificate ?e)"
      using rd by (auto simp: readable_def split: option.splits)
    have d: "d = \<lparr>dedup_index = entry_index ?e, dedup_timestamp = entry_timestamp ?e, dedup_entry_type = PrecertEntry,
       certificate_hash = sha256 E precert, chain_hashes = map_option (map (sha256 E)) (chain ?e),
       dedup_issuer_key_hash = issuer_key_hash ?e, original_precert_hash = Some (sha256 E precert), dedup_leaf_data = leaf_data ?e\<rparr>"
      using assms(4) rd PrecertEntry o by (auto simp: from_log_entry_def readable_def split: option.splits if_splits)
    have p: "answers ?T (get_certificate E (sha256 E precert)) (Inr (Some precert)) ?X"
      by (rule answers_get_certificate [OF assms(1,2)]) (use certs o in \<open>auto simp: entry_certs_def\<close>)
    show ?thesis
      unfolding reconstruct_log_entry_def d
      by (rule answers_then [where x = "(certificate ?e, Some precert)"])
        (simp_all add: fin [OF PrecertEntry o] answers_then [OF p] answers_then [OF chn] tbs answers_ret)
  qed
qed

lemma answers_get_entry:
  assumes "storage_ok E V F" "log_ok E ps P M"
  shows "answers (log_at E V ps P M) (get_entry E i)
    (Inr (if unat i < length ps then Some (prep_entry (ps ! unat i)) else None)) (SlateDbFailure ` F)"
proof -
  let ?T = "log_at E V ps P M" and ?X = "SlateDbFailure ` F" and ?C = "entry_cache_ops E"
  let ?r = "if unat i < length ps then Some (prep_entry (ps ! unat i)) else None"
  note cok = cache_okD [OF storage_okD(3) [OF assms(1)]]
  have cached: "triple ?T (\<lambda>s. case cache_get ?C i (entry_cache s) of (r, c) \<Rightarrow> (Inr r, s\<lparr>entry_cache := c\<rparr>))
      (\<lambda>r s. ?T s \<and> r \<in> {None, ?r}) R" for R :: "StorageError \<Rightarrow> _"
  proof (rule tripleI)
    fix s assume s: "?T s"
    obtain r c where r: "cache_get ?C i (entry_cache s) = (r, c)" by force
    have "r \<in> {None, ?r}" "?T (s\<lparr>entry_cache := c\<rparr>)"
      using cok(1) [of i "entry_cache s"] cok(2) [of i "entry_cache s"] r s
      by (cases r; auto simp: log_at_def caches_ok_def)+
    with r show "case case cache_get ?C i (entry_cache s) of (r, c) \<Rightarrow> (Inr r, s\<lparr>entry_cache := c\<rparr>) of
        (Inr a, s') \<Rightarrow> ?T s' \<and> a \<in> {None, ?r} | (Inl (Err e), s') \<Rightarrow> R e s' | (Inl Panic, s') \<Rightarrow> False"
      by simp
  qed
  have ins: "answers ?T (modify (\<lambda>s. s\<lparr>entry_cache := cache_insert ?C i e (entry_cache s)\<rparr>)) (Inr ()) ?X"
    if e: "unat i < length ps" "e = prep_entry (ps ! unat i)" for e
    unfolding answers_def
  proof (rule triple_modify)
    fix s assume s: "?T s"
    have "unat j < length ps \<and> e' = prep_entry (ps ! unat j)" if j: "v_entries V (cache_insert ?C i e (entry_cache s)) j = Some e'" for j e'
      using cok(3) [OF j] s e by (auto simp: log_at_def caches_ok_def split: if_splits)
    with s show "?T (s\<lparr>entry_cache := cache_insert ?C i e (entry_cache s)\<rparr>) \<and> Inr () = Inr ()"
      by (auto simp: log_at_def caches_ok_def)
  qed
  have miss: "answers ?T (and_then (get_deduplicated_entry E i) (\<lambda>r. case r of
           Some dedup_entry \<Rightarrow> and_then (reconstruct_log_entry E dedup_entry) (\<lambda>entry.
             and_then (modify (\<lambda>s. s\<lparr>entry_cache := cache_insert ?C i entry (entry_cache s)\<rparr>)) (\<lambda>_. ret (Some entry)))
         | None \<Rightarrow> ret None)) (Inr ?r) ?X"
  proof (cases "unat i < length ps")
    case True
    then obtain d where d: "from_log_entry (sha256 E) (prep_entry (ps ! unat i)) = Some d"
      using log_okD(5) [OF assms(2) True] by (auto simp: logged_at_def)
    show ?thesis
      by (rule answers_then [OF answers_get_dedup [OF assms]])
        (simp add: True d answers_then [OF answers_reconstruct [OF assms True d]] answers_then [OF ins [OF True]] answers_ret)
  next
    case False
    show ?thesis by (rule answers_then [OF answers_get_dedup [OF assms]]) (simp add: False answers_ret)
  qed
  show ?thesis
    unfolding answers_def get_entry_def
  proof (rule triple_and_then [OF cached])
    fix r :: "LogEntry option"
    show "triple (\<lambda>s. ?T s \<and> r \<in> {None, ?r}) (case r of None \<Rightarrow> and_then (get_deduplicated_entry E i) (\<lambda>r. case r of
           None \<Rightarrow> ret None
         | Some dedup_entry \<Rightarrow> and_then (reconstruct_log_entry E dedup_entry) (\<lambda>entry.
             and_then (modify (\<lambda>s. s\<lparr>entry_cache := cache_insert ?C i entry (entry_cache s)\<rparr>)) (\<lambda>_. ret (Some entry))))
         | Some entry \<Rightarrow> ret (Some entry))
       (\<lambda>a s. ?T s \<and> Inr ?r = Inr a) (\<lambda>e s. ?T s \<and> (Inr ?r = Inl e \<or> e \<in> ?X))"
    proof (rule triple_pre [where B = "r \<in> {None, ?r}"])
      assume r: "r \<in> {None, ?r}"
      show ?thesis
      proof (cases r)
        case None
        with miss show ?thesis by (simp add: answers_def)
      next
        case (Some e)
        with r show ?thesis by (auto intro!: triple_ret)
      qed
    qed simp
  qed
qed

end
