(* ===== verification/Ct_Storage_Flush.thy ===== *)
theory Ct_Storage_Flush
  imports Ct_Storage_Inv
begin

text \<open>
  Flushing a batch. The lemmas follow the code of \<^verbatim>\<open>flush_batch\<close>: the prepared entries, the additional data of the
  write, the push into the tree, and the answers on the completion channels. \<open>flush_outcome\<close> puts them together for a
  store that may fail; the properties are its two readings and what the lookups serve afterwards.
\<close>

section \<open>Prepared entries\<close>

lemma those_Some: "those xs = Some ys \<longleftrightarrow> xs = map Some ys"
proof (induction xs arbitrary: ys)
  case (Cons x xs)
  then show ?case by (cases ys) (auto split: option.splits)
qed auto

lemma process_entries_Some:
  assumes "process_entries E start bs = Some (map Inr qs)"
  shows "length qs = length bs" "j < length bs \<Longrightarrow> process_entry E start j (bs ! j) = Some (Inr (qs ! j))"
proof -
  have m: "map (\<lambda>(i, entry). process_entry E start i entry) (zip [0..<length bs] bs) = map Some (map Inr qs)"
    using assms by (simp add: process_entries_def those_Some)
  from arg_cong [OF m, of length] show l: "length qs = length bs" by simp
  show "process_entry E start j (bs ! j) = Some (Inr (qs ! j))" if "j < length bs"
    using arg_cong [OF m, of "\<lambda>xs. xs ! j"] l that by simp
qed

lemma readable_stamp [simp]: "readable X (e\<lparr>entry_index := i, leaf_data := l\<rparr>) = readable X e"
  by (simp add: readable_def split: LogEntryType.split option.split)

lemma process_entry_logged:
  assumes "process_entry E (of_nat n) j b = Some (Inr p)" "readable (x509_ops E) (log_entry b)"
    and "\<not> isl (ser_sct E (sct_record (n + j) p))"
  shows "logged_at E (n + j) p" "prep_tx p = completion_tx b" "prep_cert_hash p = batch_cert_hash b"
    "sct_callback b (of_nat (n + j)) = Some (prep_sct p)"
    "prep_entry p = (log_entry b)\<lparr>entry_index := of_nat (n + j), leaf_data := prep_leaf p\<rparr>"
proof -
  let ?i = "of_nat (n + j) :: u64"
  obtain sct leaf d where r: "sct_callback b ?i = Some sct"
    "compute_leaf_data_with_index (certificate (log_entry b)) (entry_type (log_entry b)) (issuer_key_hash (log_entry b))
       (entry_timestamp (log_entry b)) ?i = Some leaf"
    "from_log_entry (sha256 E) ((log_entry b)\<lparr>entry_index := ?i, leaf_data := leaf\<rparr>) = Some d"
    and res: "(case ser_entry E d of
        Inr data \<Rightarrow> Inr \<lparr>prep_index = j, prep_leaf = leaf, prep_data = data, prep_cert_hash = batch_cert_hash b, prep_sct = sct,
          prep_entry = (log_entry b)\<lparr>entry_index := ?i, leaf_data := leaf\<rparr>, prep_tx = completion_tx b\<rparr>
      | Inl e \<Rightarrow> Inl (j, InvalidFormat e, completion_tx b)) = Inr p"
    using assms(1) by (auto simp: process_entry_def Let_def bind_eq_Some_conv simp flip: of_nat_add)
  then have p: "ser_entry E d = Inr (prep_data p)" "prep_leaf p = leaf" "prep_sct p = sct" "prep_tx p = completion_tx b"
      "prep_cert_hash p = batch_cert_hash b" "prep_entry p = (log_entry b)\<lparr>entry_index := ?i, leaf_data := leaf\<rparr>"
    by (cases "ser_entry E d"; auto)+
  have e: "certificate (prep_entry p) = certificate (log_entry b)" "entry_type (prep_entry p) = entry_type (log_entry b)"
    "issuer_key_hash (prep_entry p) = issuer_key_hash (log_entry b)" "entry_timestamp (prep_entry p) = entry_timestamp (log_entry b)"
    "entry_index (prep_entry p) = ?i" "leaf_data (prep_entry p) = leaf"
    unfolding p(6) by (cases "log_entry b"; simp)+
  show "logged_at E (n + j) p"
    unfolding logged_at_def e using r p assms(2,3) by (simp only: readable_stamp option.map simp_thms)
  show "prep_tx p = completion_tx b" "prep_cert_hash p = batch_cert_hash b" "sct_callback b ?i = Some (prep_sct p)"
    "prep_entry p = (log_entry b)\<lparr>entry_index := ?i, leaf_data := prep_leaf p\<rparr>"
    using r p by (simp_all only:)
qed

lemma separate_all_ok:
  "separate (map Inr qs) = (qs, [], map (\<lambda>q. (prep_tx q, Some (prep_sct q))) qs)"
  by (induction qs) auto

lemma success_answers_all:
  "success_answers start [] i v (map (\<lambda>q. (prep_tx q, Some (prep_sct q))) qs)
    = map (\<lambda>j. (prep_tx (qs ! j), Inr (start + v + of_nat j, prep_sct (qs ! j)))) [0..<length qs]"
proof (induction qs arbitrary: i v)
  case (Cons q qs)
  have "[0..<length (q # qs)] = 0 # map Suc [0..<length qs]" by (simp add: map_Suc_upt upt_conv_Cons del: upt_Suc)
  with Cons show ?case by (simp add: algebra_simps del: upt_Suc)
qed simp

lemma failure_answers_all:
  "failure_answers e [] i (map (\<lambda>q. (prep_tx q, Some (prep_sct q))) qs) = map (\<lambda>q. (prep_tx q, Inl (StorageError_clone e))) qs"
  by (induction qs arbitrary: i) auto

section \<open>The write\<close>

text \<open>What a batch of entries needs, so that each of them can be logged.\<close>

definition batch_ready :: "('db, 'nc, 'tc, 'cc, 'ec) StorageEnv \<Rightarrow> nat \<Rightarrow> BatchEntry list \<Rightarrow> Prepared list \<Rightarrow> bool" where
  "batch_ready E n bs qs \<longleftrightarrow>
     process_entries E (of_nat n) bs = Some (map Inr qs) \<and> n + length bs \<le> 2 ^ 63 \<and>
     list_all (\<lambda>b. readable (x509_ops E) (log_entry b)) bs \<and>
     list_all (\<lambda>q. \<not> isl (to_stdvec (tree_env E) (prep_leaf q))) qs \<and>
     list_all (\<lambda>j. \<not> isl (ser_sct E (sct_record (n + j) (qs ! j)))) [0..<length qs]"

lemma batch_readyD:
  assumes "batch_ready E n bs qs"
  shows "length qs = length bs" "n + length qs \<le> 2 ^ 63"
    "j < length qs \<Longrightarrow> logged_at E (n + j) (qs ! j)" "j < length qs \<Longrightarrow> prep_tx (qs ! j) = completion_tx (bs ! j)"
    "q \<in> set qs \<Longrightarrow> to_stdvec (tree_env E) (prep_leaf q) \<noteq> Inl m"
    "j < length qs \<Longrightarrow> \<not> isl (ser_sct E (sct_record (n + j) (qs ! j)))"
proof -
  have pr: "process_entries E (of_nat n) bs = Some (map Inr qs)" using assms by (simp add: batch_ready_def)
  note p = process_entries_Some [OF pr]
  show l: "length qs = length bs" "n + length qs \<le> 2 ^ 63" using assms p(1) by (simp_all add: batch_ready_def)
  show s: "\<not> isl (ser_sct E (sct_record (n + j) (qs ! j)))" if "j < length qs" for j
    using assms that by (auto simp: batch_ready_def list_all_iff)
  have r: "readable (x509_ops E) (log_entry (bs ! j))" if "j < length qs" for j
    using assms that l by (simp add: batch_ready_def list_all_length)
  show "logged_at E (n + j) (qs ! j)" "prep_tx (qs ! j) = completion_tx (bs ! j)" if "j < length qs"
    using process_entry_logged [OF p(2) r s] that l by auto
  show "to_stdvec (tree_env E) (prep_leaf q) \<noteq> Inl m" if "q \<in> set qs"
    using assms that by (auto simp: batch_ready_def list_all_iff)
qed

lemma additional_data_foreign: "k \<in> fst ` set (additional_data E start qs cd X) \<Longrightarrow> foreign_key k"
  by (auto simp: additional_data_def entry_puts_def Let_def split: sum.splits)

text \<open>The keys of the two parts of the additional data are apart.\<close>

lemma entry_puts_no_cert: "cert_key h \<notin> fst ` set (concat (map (\<lambda>(i, p). entry_puts E start i p) ips))"
  by (auto simp: entry_puts_def Let_def split: sum.splits)

lemma cert_puts_only_certs:
  "entry_key i \<notin> fst ` set (map (\<lambda>(h, c). (cert_key h, c)) cs)" "hash_key h \<notin> fst ` set (map (\<lambda>(h, c). (cert_key h, c)) cs)"
  "cert_sct_key h \<notin> fst ` set (map (\<lambda>(h, c). (cert_key h, c)) cs)"
  by auto

lemma caches_ok_append: "caches_ok E V ps cc ec \<Longrightarrow> caches_ok E V (ps @ qs) cc ec"
  by (fastforce simp: caches_ok_def nth_append)

lemma log_ok_append:
  assumes ok: "storage_ok E V F" and log: "log_ok E ps P M" and ready: "batch_ready E (length ps) bs qs"
    and inj: "inj_on (sha256 E) (set (log_certs (ps @ qs)))"
    and ex: "\<And>h. h \<in> set X \<Longrightarrow> M (cert_key h) \<noteq> None"
    and inv: "store_inv (digest_of (tree_env E)) (to_stdvec (tree_env E)) (map prep_leaf (ps @ qs)) P' M'"
    and M': "\<And>k. foreign_key k \<Longrightarrow>
      M' k = apply_batch (additional_data E (of_nat (length ps)) qs (snd (collect_certs (sha256 E) (map prep_entry qs))) X) M k"
  shows "log_ok E (ps @ qs) P' M'"
proof -
  let ?A = "concat (map (\<lambda>(i, p). entry_puts E (of_nat (length ps)) i p) (zip [0..<length qs] qs))"
  let ?cd = "hash_map_order E (snd (collect_certs (sha256 E) (map prep_entry qs)))"
  let ?B = "map (\<lambda>(h, cert). (cert_key h, cert)) (filter (\<lambda>(h, cert). h \<notin> set X) ?cd)"
  note l = log_okD [OF log] and b = batch_readyD [OF ready]
  have M': "M' k = apply_batch ?B (apply_batch ?A M) k" if "foreign_key k" for k
    using M' [OF that] by (simp add: additional_data_def apply_batch_append)
  have "records_ok E (ps @ qs) (apply_batch ?A M)" by (rule records_ok_append [OF l(2) b(2) b(6)])
  then have "records_ok E (ps @ qs) M'"
    by (rule records_ok_cong) (simp_all only: M' storage_keys_foreign apply_batch_other [OF cert_puts_only_certs(1)]
        apply_batch_other [OF cert_puts_only_certs(2)] apply_batch_other [OF cert_puts_only_certs(3)])
  moreover have A: "apply_batch ?A M (cert_key h) = M (cert_key h)" for h by (rule apply_batch_other [OF entry_puts_no_cert])
  have "certs_ok E ps (apply_batch ?A M)" using l(3) by (simp add: certs_ok_def A)
  then have "certs_ok E (ps @ qs) (apply_batch ?B (apply_batch ?A M))"
    by (rule certs_ok_append [OF _ inj])
      (use collect_certs_set [of "sha256 E" qs] inj storage_okD(7) [OF ok] ex A in \<open>auto intro: inj_on_subset\<close>)
  then have "certs_ok E (ps @ qs) M'" by (simp add: certs_ok_def M')
  moreover have "logged_at E i ((ps @ qs) ! i)" if "i < length (ps @ qs)" for i
    using l(5) [of i] b(3) [of "i - length ps"] that by (auto simp: nth_append)
  ultimately show ?thesis using inv inj by (simp add: log_ok_def)
qed

section \<open>The steps of the flush\<close>

text \<open>An inspected operation on the tree leaves the completion channels alone.\<close>

lemma triple_attempt_on_tree:
  assumes "triple (tree_at (tree_env E) (v_db V) (v_nodes V) (map prep_leaf ps) P M) m Q R"
  shows "triple (\<lambda>s. log_at E V ps P M s \<and> sent s = S) (attempt (on_tree m))
    (\<lambda>r s. caches_ok E V ps (chain_cache s) (entry_cache s) \<and> sent s = S \<and>
       (case r of Inr a \<Rightarrow> Q a (st_tree s) | Inl e \<Rightarrow> R e (st_tree s))) R'"
  unfolding on_tree_def
  by (rule triple_attempt) (rule triple_zoom [OF assms], auto simp: log_at_def)

lemma attempt_size:
  assumes "storage_ok E V F" "log_ok E ps P M"
  shows "triple (\<lambda>s. log_at E V ps P M s \<and> sent s = S) (attempt (on_tree (ms_size dbg (tree_env E))))
    (\<lambda>r s. (log_at E V ps P M s \<and> sent s = S) \<and> (case r of Inr n \<Rightarrow> n = of_nat (length ps) | Inl _ \<Rightarrow> F \<noteq> {})) R"
proof -
  have "triple (tree_at (tree_env E) (v_db V) (v_nodes V) (map prep_leaf ps) P M) (ms_size dbg (tree_env E))
     (\<lambda>r t. tree_at (tree_env E) (v_db V) (v_nodes V) (map prep_leaf ps) P M t \<and> r = of_nat (length ps))
     (\<lambda>e t. tree_at (tree_env E) (v_db V) (v_nodes V) (map prep_leaf ps) P M t \<and> F \<noteq> {})"
    unfolding ms_size_def
    by (rule triple_map_err)
      (rule triple_conseq [OF answers_sizes(2) [OF storage_okD(1) [OF assms(1)] log_okD(1) [OF assms(2)], unfolded answers_def]], auto)
  from triple_attempt_on_tree [OF this] show ?thesis
    by (rule triple_conseq) (auto simp: log_at_def split: sum.splits)
qed

lemma attempt_check_keys:
  assumes "storage_ok E V F"
  shows "triple (\<lambda>s. log_at E V ps P M s \<and> sent s = S) (attempt (on_tree (ms_check_keys_exist dbg (tree_env E) ks)))
    (\<lambda>r s. (log_at E V ps P M s \<and> sent s = S) \<and> (case r of Inr bs \<Rightarrow> bs = map (\<lambda>k. M k \<noteq> None) ks | Inl _ \<Rightarrow> True)) R"
proof -
  let ?T = "tree_at (tree_env E) (v_db V) (v_nodes V) (map prep_leaf ps) P M"
  have "triple ?T (db_get (tree_env E) k) (\<lambda>r t. ?T t \<and> r = M k) (\<lambda>e t. ?T t)" for k
    by (rule triple_conseq [OF triple_db_get [OF storage_okD(1) [OF assms]]]) auto
  then have "triple ?T (and_then (db_get (tree_env E) k) (\<lambda>r. ret (r \<noteq> None))) (\<lambda>r t. ?T t \<and> r = (M k \<noteq> None)) (\<lambda>e t. ?T t)" for k
    by (rule triple_then) (simp add: triple_ret)
  then have "triple ?T (ms_check_keys_exist dbg (tree_env E) ks) (\<lambda>rs t. ?T t \<and> rs = map (\<lambda>k. M k \<noteq> None) ks) (\<lambda>e t. ?T t)"
    unfolding ms_check_keys_exist_def check_keys_exist_def by (intro triple_map_err triple_map_io)
  from triple_attempt_on_tree [OF this] show ?thesis
    by (rule triple_conseq) (auto simp: log_at_def split: sum.splits)
qed

text \<open>The push in its wrapper; the size read afterwards does not matter.\<close>

lemma triple_ms_push:
  assumes "env_ok E view held F" "store_inv (digest_of E) (to_stdvec E) D P M" "length D + length items \<le> 2 ^ 63"
    and "\<And>k. k \<in> fst ` set add \<Longrightarrow> foreign_key k"
  shows "triple (tree_at E view held D P M) (ms_batch_push_with_data dbg E items add)
    (\<lambda>r s. push_done E view held D P M items add s)
    (\<lambda>e s. (tree_at E view held D P M s \<or> push_done E view held D P M items add s) \<and> (F \<noteq> {} \<or> (\<exists>x \<in> set items. \<exists>m. to_stdvec E x = Inl m)))"
  unfolding ms_batch_push_with_data_def
proof (rule triple_and_then)
  let ?done = "push_done E view held D P M items add" and ?bad = "F \<noteq> {} \<or> (\<exists>x \<in> set items. \<exists>m. to_stdvec E x = Inl m)"
  show "triple (tree_at E view held D P M) (map_err (storage_failure dbg ''Failed to batch push with data: '') (batch_push_with_data E items add))
      (\<lambda>_. ?done) (\<lambda>e s. (tree_at E view held D P M s \<or> ?done s) \<and> ?bad)"
    by (rule triple_map_err) (rule triple_conseq [OF triple_batch_push_with_data [OF assms(1-4)]], auto)
  have sz: "triple ?done (ms_size dbg E) (\<lambda>_. ?done) (\<lambda>_. ?done)"
  proof (rule tripleI)
    fix s assume "?done s"
    then obtain M' where M': "tree_at E view held (D @ items) (published P D items) M' s"
      "store_inv (digest_of E) (to_stdvec E) (D @ items) (published P D items) M'" "\<forall>k. foreign_key k \<longrightarrow> M' k = apply_batch add M k"
      by (auto simp: push_done_def)
    have "?done t" if "tree_at E view held (D @ items) (published P D items) M' t" for t
      using that M'(2,3) unfolding push_done_def by blast
    with tripleD [OF answers_sizes(2) [OF assms(1) M'(2), unfolded answers_def] M'(1)]
    show "case ms_size dbg E s of (Inr a, s') \<Rightarrow> ?done s' | (Inl (Err e), s') \<Rightarrow> ?done s' | (Inl Panic, s') \<Rightarrow> False"
      by (auto simp: ms_size_def map_err_def)
  qed
  show "triple ?done (and_then (attempt (ms_size dbg E)) (\<lambda>_. ret r)) (\<lambda>_. ?done)
      (\<lambda>e s. (tree_at E view held D P M s \<or> ?done s) \<and> ?bad)" for r :: u64
    by (rule triple_and_then [OF triple_attempt [where Q = "\<lambda>_. ?done", OF sz]]) (rule triple_ret)
qed

text \<open>What is left after the push of a batch: everything logged, or an error and the log before or after it.\<close>

definition pushed ::
  "('db, 'nc, 'tc, 'cc, 'ec) StorageEnv \<Rightarrow> ('db, 'nc, 'cc, 'ec) StorageView \<Rightarrow> SlateDBError set \<Rightarrow> Prepared list \<Rightarrow> Prepared list
    \<Rightarrow> nat set \<Rightarrow> bool \<Rightarrow> ('db, 'nc, 'tc, 'cc, 'ec) CtStorage \<Rightarrow> bool" where
  "pushed E V F ps qs P good s \<longleftrightarrow>
     (if good then log_holds E V (ps @ qs) (published P (map prep_leaf ps) (map prep_leaf qs)) s
      else F \<noteq> {} \<and> (log_holds E V ps P s \<or> log_holds E V (ps @ qs) (published P (map prep_leaf ps) (map prep_leaf qs)) s))"

text \<open>The same for any prepared entries: the tree with its additional data is before or after the write, for certificates \<open>X\<close> that were there.\<close>

definition push_left ::
  "('db, 'nc, 'tc, 'cc, 'ec) StorageEnv \<Rightarrow> ('db, 'nc, 'cc, 'ec) StorageView \<Rightarrow> SlateDBError set \<Rightarrow> Prepared list \<Rightarrow> Prepared list
    \<Rightarrow> nat set \<Rightarrow> key_values \<Rightarrow> bool \<Rightarrow> ('db, 'nc, 'tc, 'cc, 'ec) CtStorage \<Rightarrow> bool" where
  "push_left E V F ps qs P M good s \<longleftrightarrow> caches_ok E V ps (chain_cache s) (entry_cache s) \<and>
     (\<exists>X. (\<forall>h \<in> set X. M (cert_key h) \<noteq> None) \<and>
       (let written = push_done (tree_env E) (v_db V) (v_nodes V) (map prep_leaf ps) P M (map prep_leaf qs)
              (additional_data E (of_nat (length ps)) qs (snd (collect_certs (sha256 E) (map prep_entry qs))) X) (st_tree s)
        in if good then written
           else (tree_at (tree_env E) (v_db V) (v_nodes V) (map prep_leaf ps) P M (st_tree s) \<or> written) \<and>
             (F \<noteq> {} \<or> (\<exists>q \<in> set qs. \<exists>m. to_stdvec (tree_env E) (prep_leaf q) = Inl m))))"

lemma triple_push_any:
  assumes ok: "storage_ok E V F" and log: "log_ok E ps P M" and cap: "length ps + length qs \<le> 2 ^ 63" and ne: "qs \<noteq> []"
  shows "triple (\<lambda>s. log_at E V ps P M s \<and> sent s = S) (push_prepared E (of_nat (length ps)) qs)
    (\<lambda>r s. sent s = S \<and> push_left E V F ps qs P M (\<not> isl (push_outcome r)) s) R"
proof -
  obtain total cd where cd: "collect_certs (sha256 E) (map prep_entry qs) = (total, cd)" by force
  let ?T = "\<lambda>s. log_at E V ps P M s \<and> sent s = S" and ?hs = "hash_set_order E (map fst cd)"
  let ?ks = "map cert_key ?hs"
  define existing where "existing r = map fst (filter snd (zip ?hs (case r of Inr results \<Rightarrow> results | Inl _ \<Rightarrow> replicate (length ?ks) False)))"
    for r :: "CtError + bool list"
  have rest: "triple ?T (attempt (on_tree (ms_batch_push_with_data (slate_debug E) (tree_env E) (map prep_leaf qs)
        (additional_data E (of_nat (length ps)) qs cd (existing r)))))
      (\<lambda>a s. sent s = S \<and> push_left E V F ps qs P M (\<not> isl a) s) R"
    if r: "case r of Inr bs \<Rightarrow> bs = map (\<lambda>k. M k \<noteq> None) ?ks | Inl _ \<Rightarrow> True" for r
  proof -
    have ex: "\<forall>h \<in> set (existing r). M (cert_key h) \<noteq> None"
      using r by (auto simp: existing_def set_zip split: sum.splits)
    let ?add = "additional_data E (of_nat (length ps)) qs cd (existing r)"
    let ?D = "map prep_leaf ps" and ?I = "map prep_leaf qs"
    have t: "triple (tree_at (tree_env E) (v_db V) (v_nodes V) ?D P M)
        (ms_batch_push_with_data (slate_debug E) (tree_env E) ?I ?add)
        (\<lambda>_ t. push_done (tree_env E) (v_db V) (v_nodes V) ?D P M ?I ?add t)
        (\<lambda>e t. (tree_at (tree_env E) (v_db V) (v_nodes V) ?D P M t \<or> push_done (tree_env E) (v_db V) (v_nodes V) ?D P M ?I ?add t) \<and>
          (F \<noteq> {} \<or> (\<exists>x \<in> set ?I. \<exists>m. to_stdvec (tree_env E) x = Inl m)))"
      by (rule triple_ms_push [OF storage_okD(1) [OF ok] log_okD(1) [OF log] _ additional_data_foreign]) (use cap in auto)
    have left: "push_left E V F ps qs P M (\<not> isl a) s"
      if "caches_ok E V ps (chain_cache s) (entry_cache s)"
        and "case a of Inr _ \<Rightarrow> push_done (tree_env E) (v_db V) (v_nodes V) ?D P M ?I ?add (st_tree s)
          | Inl e \<Rightarrow> (tree_at (tree_env E) (v_db V) (v_nodes V) ?D P M (st_tree s) \<or> push_done (tree_env E) (v_db V) (v_nodes V) ?D P M ?I ?add (st_tree s)) \<and>
          (F \<noteq> {} \<or> (\<exists>x \<in> set ?I. \<exists>m. to_stdvec (tree_env E) x = Inl m))" for a :: "CtError + u64" and s
      using that ex unfolding push_left_def Let_def cd snd_conv by (intro conjI exI [of _ "existing r"]) (cases a; simp)+
    from triple_attempt_on_tree [OF t] show ?thesis by (rule triple_conseq) (use left in auto)
  qed
  show ?thesis
    unfolding push_prepared_def cd Let_def prod.case if_not_P [OF ne]
  proof (rule triple_and_then [OF attempt_check_keys [OF ok]])
    fix r :: "CtError + bool list"
    let ?B = "case r of Inr bs \<Rightarrow> bs = map (\<lambda>k. M k \<noteq> None) ?ks | Inl _ \<Rightarrow> True"
    show "triple (\<lambda>s. ?T s \<and> ?B) (and_then (attempt (on_tree (ms_batch_push_with_data (slate_debug E) (tree_env E) (map prep_leaf qs)
          (additional_data E (of_nat (length ps)) qs cd (map fst (filter snd (zip ?hs (case r of Inl _ \<Rightarrow> replicate (length ?ks) False | Inr results \<Rightarrow> results))))))))
        (\<lambda>p. ret \<lparr>push_outcome = (case p of Inl e \<Rightarrow> Inl (InvalidFormat (''Merkle tree error: '' @ ct_error_debug (slate_debug E) e))
              | Inr i \<Rightarrow> Inr i), certs_in_batch = total,
            certs_skipped = fst (count_skipped (sha256 E) (map fst (filter snd (zip ?hs (case r of Inl _ \<Rightarrow> replicate (length ?ks) False | Inr results \<Rightarrow> results)))) (map prep_entry qs)),
            bytes_saved = snd (count_skipped (sha256 E) (map fst (filter snd (zip ?hs (case r of Inl _ \<Rightarrow> replicate (length ?ks) False | Inr results \<Rightarrow> results)))) (map prep_entry qs))\<rparr>))
        (\<lambda>r s. sent s = S \<and> push_left E V F ps qs P M (\<not> isl (push_outcome r)) s) R"
    proof (rule triple_pre [where B = ?B])
      assume ?B
      show ?thesis
        unfolding existing_def [symmetric]
        by (rule triple_and_then [OF triple_weaken_pre [OF rest [OF \<open>?B\<close>]]])
          (auto intro!: triple_ret split: sum.splits)
    qed simp
  qed
qed

lemma triple_push_prepared:
  assumes ok: "storage_ok E V F" and log: "log_ok E ps P M" and ready: "batch_ready E (length ps) bs qs"
    and inj: "inj_on (sha256 E) (set (log_certs (ps @ qs)))" and ne: "qs \<noteq> []"
  shows "triple (\<lambda>s. log_at E V ps P M s \<and> sent s = S) (push_prepared E (of_nat (length ps)) qs)
    (\<lambda>r s. sent s = S \<and> pushed E V F ps qs P (\<not> isl (push_outcome r)) s) R"
proof -
  let ?D = "map prep_leaf ps" and ?I = "map prep_leaf qs"
  have logd: "log_holds E V (ps @ qs) (published P ?D ?I) s"
    if d: "push_done (tree_env E) (v_db V) (v_nodes V) ?D P M ?I
        (additional_data E (of_nat (length ps)) qs (snd (collect_certs (sha256 E) (map prep_entry qs))) X) (st_tree s)"
      and X: "\<And>h. h \<in> set X \<Longrightarrow> M (cert_key h) \<noteq> None" and c: "caches_ok E V ps (chain_cache s) (entry_cache s)" for s X
  proof -
    obtain M' where M': "tree_at (tree_env E) (v_db V) (v_nodes V) (?D @ ?I) (published P ?D ?I) M' (st_tree s)"
      "store_inv (digest_of (tree_env E)) (to_stdvec (tree_env E)) (?D @ ?I) (published P ?D ?I) M'"
      "\<And>k. foreign_key k \<Longrightarrow> M' k = apply_batch (additional_data E (of_nat (length ps)) qs (snd (collect_certs (sha256 E) (map prep_entry qs))) X) M k"
      using d by (auto simp: push_done_def)
    have "log_ok E (ps @ qs) (published P ?D ?I) M'"
      by (rule log_ok_append [OF ok log ready inj X]) (use M' in simp_all)
    with M'(1) caches_ok_append [OF c] show ?thesis by (auto simp: log_holds_def log_at_def)
  qed
  have logp: "log_holds E V ps P s"
    if "tree_at (tree_env E) (v_db V) (v_nodes V) ?D P M (st_tree s)" "caches_ok E V ps (chain_cache s) (entry_cache s)" for s
    using that log by (auto simp: log_holds_def log_at_def)
  have "pushed E V F ps qs P good s" if "push_left E V F ps qs P M good s" for good s
    using that logd logp batch_readyD(5) [OF ready] unfolding push_left_def pushed_def Let_def by (cases good) (simp_all, blast+)
  then show ?thesis by (intro triple_conseq [OF triple_push_any [OF ok log batch_readyD(2) [OF ready] ne]]) auto
qed

section \<open>The flush\<close>

lemma triple_send: "(\<And>s. P s \<Longrightarrow> Q () (s\<lparr>sent := sent s @ msgs\<rparr>)) \<Longrightarrow> triple P (send msgs) Q R"
  unfolding send_def by (rule triple_modify) simp

lemma log_holds_book [simp]:
  "log_holds E V ps P (s\<lparr>sent := x\<rparr>) = log_holds E V ps P s" "log_holds E V ps P (s\<lparr>batch_stats := b\<rparr>) = log_holds E V ps P s"
  by (simp_all add: log_holds_def log_at_def)

lemma pushed_book [simp]:
  "pushed E V F ps qs P g (s\<lparr>sent := x\<rparr>) = pushed E V F ps qs P g s"
  "pushed E V F ps qs P g (s\<lparr>batch_stats := b\<rparr>) = pushed E V F ps qs P g s"
  by (simp_all add: pushed_def)

text \<open>The answers of a batch that was logged, and of one that was answered with errors.\<close>

definition ok_answers :: "nat \<Rightarrow> BatchEntry list \<Rightarrow> Prepared list \<Rightarrow> (nat \<times> completion) list" where
  "ok_answers n bs qs = map (\<lambda>j. (completion_tx (bs ! j), Inr (of_nat (n + j), prep_sct (qs ! j)))) [0..<length bs]"

definition error_answers :: "BatchEntry list \<Rightarrow> StorageError \<Rightarrow> (nat \<times> completion) list" where
  "error_answers bs e = map (\<lambda>b. (completion_tx b, Inl e)) bs"

lemma flush_outcome:
  assumes ok: "storage_ok E V F" and log: "log_holds E V ps P s" and ready: "batch_ready E (length ps) bs qs"
    and inj: "inj_on (sha256 E) (set (log_certs (ps @ qs)))" and ne: "bs \<noteq> []"
  shows "\<exists>s' msgs good. flush_batch E t1 t2 bs s = (Inr (), s') \<and> sent s' = sent s @ msgs \<and> pushed E V F ps qs P good s' \<and>
    (if good then msgs = ok_answers (length ps) bs qs else \<exists>e. msgs = error_answers bs e)"
proof -
  obtain M where M: "log_ok E ps P M" "log_at E V ps P M s" using log by (auto simp: log_holds_def)
  note b = batch_readyD [OF ready]
  have qs: "qs \<noteq> []" using ne b(1) by auto
  have tx: "map prep_tx qs = map completion_tx bs" using b(1,4) by (intro nth_equalityI) auto
  have oks: "map (\<lambda>j. (prep_tx (qs ! j), Inr (of_nat (length ps) + 0 + of_nat j, prep_sct (qs ! j)))) [0..<length qs]
      = ok_answers (length ps) bs qs"
    using b(1,4) by (simp add: ok_answers_def)
  have ers: "map (\<lambda>q. (prep_tx q, Inl e)) qs = error_answers bs e" for e
    using arg_cong [OF tx, of "map (\<lambda>t. (t, Inl e))"] by (simp add: error_answers_def o_def)
  let ?T = "\<lambda>s'. log_at E V ps P M s' \<and> sent s' = sent s"
  let ?Q = "\<lambda>s'. \<exists>msgs good. sent s' = sent s @ msgs \<and> pushed E V F ps qs P good s' \<and>
    (if good then msgs = ok_answers (length ps) bs qs else \<exists>e. msgs = error_answers bs e)"
  have pr: "process_entries E (of_nat (length ps)) bs = Some (map Inr qs)" using ready by (simp add: batch_ready_def)
  have rest: "triple ?T (and_then (push_prepared E (of_nat (length ps)) qs) (\<lambda>r.
      and_then (send (case push_outcome r of
          Inr _ \<Rightarrow> success_answers (of_nat (length ps)) [] 0 0 (map (\<lambda>q. (prep_tx q, Some (prep_sct q))) qs)
        | Inl e \<Rightarrow> failure_answers e [] 0 (map (\<lambda>q. (prep_tx q, Some (prep_sct q))) qs))) (\<lambda>_.
      modify (\<lambda>s. s\<lparr>batch_stats := record_stats (length bs) t1 t2 r (batch_stats s)\<rparr>)))) (\<lambda>_. ?Q) (\<lambda>_ _. False)"
  proof (rule triple_and_then [OF triple_push_prepared [OF ok M(1) ready inj qs]])
    fix r :: PushResult
    let ?P = "\<lambda>s'. sent s' = sent s \<and> pushed E V F ps qs P (\<not> isl (push_outcome r)) s'"
    show "triple ?P (and_then (send (case push_outcome r of
          Inr _ \<Rightarrow> success_answers (of_nat (length ps)) [] 0 0 (map (\<lambda>q. (prep_tx q, Some (prep_sct q))) qs)
        | Inl e \<Rightarrow> failure_answers e [] 0 (map (\<lambda>q. (prep_tx q, Some (prep_sct q))) qs))) (\<lambda>_.
      modify (\<lambda>s. s\<lparr>batch_stats := record_stats (length bs) t1 t2 r (batch_stats s)\<rparr>))) (\<lambda>_. ?Q) (\<lambda>_ _. False)"
    proof (rule triple_and_then [where M = "\<lambda>_. ?Q"])
      show "triple ?P (send (case push_outcome r of
          Inr _ \<Rightarrow> success_answers (of_nat (length ps)) [] 0 0 (map (\<lambda>q. (prep_tx q, Some (prep_sct q))) qs)
        | Inl e \<Rightarrow> failure_answers e [] 0 (map (\<lambda>q. (prep_tx q, Some (prep_sct q))) qs))) (\<lambda>_. ?Q) (\<lambda>_ _. False)"
        unfolding success_answers_all failure_answers_all oks ers
        by (rule triple_send) (cases "push_outcome r"; auto intro: exI [of _ True] exI [of _ False])
    qed (rule triple_modify, simp)
  qed
  have "triple ?T (flush_batch E t1 t2 bs) (\<lambda>_. ?Q) (\<lambda>_ _. False)"
    unfolding flush_batch_def if_not_P [OF ne]
  proof (rule triple_and_then [OF attempt_size [OF ok M(1)]])
    fix r :: "CtError + u64"
    let ?B = "case r of Inr n \<Rightarrow> n = of_nat (length ps) | Inl _ \<Rightarrow> F \<noteq> {}"
    let ?f = "case r of
          Inl e \<Rightarrow> send (map (\<lambda>entry. (completion_tx entry, Inl (InvalidFormat (''Failed to get tree size: '' @ ct_error_debug (slate_debug E) e)))) bs)
        | Inr starting_index \<Rightarrow>
            (case (case process_entries E starting_index bs of None \<Rightarrow> ([], [], []) | Some results \<Rightarrow> separate results) of
               (metas, failed, completions) \<Rightarrow>
             and_then (push_prepared E starting_index metas) (\<lambda>r.
             and_then (send (case push_outcome r of
                 Inl e \<Rightarrow> failure_answers e failed 0 completions
               | Inr _ \<Rightarrow> success_answers starting_index failed 0 0 completions)) (\<lambda>_.
             modify (\<lambda>s. s\<lparr>batch_stats := record_stats (length bs) t1 t2 r (batch_stats s)\<rparr>))))"
    show "triple (\<lambda>s. ?T s \<and> ?B) ?f (\<lambda>_. ?Q) (\<lambda>_ _. False)"
    proof (rule triple_pre [where B = ?B])
      assume B: ?B
      show "triple (\<lambda>s. ?T s \<and> ?B) ?f (\<lambda>_. ?Q) (\<lambda>_ _. False)"
      proof (cases r)
        case (Inl e)
        define x where "x = InvalidFormat (''Failed to get tree size: '' @ ct_error_debug (slate_debug E) e)"
        have "?Q (s'\<lparr>sent := sent s' @ error_answers bs x\<rparr>)" if "?T s'" for s'
        proof -
          have "pushed E V F ps qs P False s'" using that M(1) B Inl by (auto simp: pushed_def log_holds_def)
          with that show ?thesis by (intro exI [of _ "error_answers bs x"] exI [of _ False]) auto
        qed
        then have "triple (\<lambda>s. ?T s \<and> ?B) (send (error_answers bs x)) (\<lambda>_. ?Q) (\<lambda>_ _. False)" by (intro triple_send) blast
        with Inl show ?thesis by (simp add: error_answers_def x_def)
      next
        case (Inr n)
        with B rest pr show ?thesis by (auto simp: separate_all_ok elim: triple_weaken_pre)
      qed
    qed simp
  qed
  from triple_valueD [OF this, of s] M(2) show ?thesis by auto
qed

section \<open>Any batch\<close>

text \<open>What preparation leaves of a batch: the entries that can be logged, and for each submitter the answer when they have been logged from an index on, and
  when the flush has failed.\<close>

type_synonym preparation = "nat \<times> StorageError \<times> nat + Prepared"

definition prepared :: "preparation list \<Rightarrow> Prepared list" where
  "prepared rs = List.map_filter (\<lambda>r. case r of Inr p \<Rightarrow> Some p | Inl _ \<Rightarrow> None) rs"

fun told :: "u64 \<Rightarrow> preparation list \<Rightarrow> completion list" where
  "told i [] = []"
| "told i (Inl (_, e, _) # rs) = Inl e # told i rs"
| "told i (Inr p # rs) = Inr (i, prep_sct p) # told (i + 1) rs"

definition refused :: "StorageError \<Rightarrow> preparation list \<Rightarrow> completion list" where
  "refused e rs = map (\<lambda>r. case r of Inl (_, own, _) \<Rightarrow> Inl own | Inr _ \<Rightarrow> Inl e) rs"

fun receiver :: "preparation \<Rightarrow> nat" where
  "receiver (Inl (_, _, tx)) = tx"
| "receiver (Inr p) = prep_tx p"

definition failures :: "preparation list \<Rightarrow> (nat \<times> StorageError) list" where
  "failures rs = List.map_filter (\<lambda>r. case r of Inl (i, e, tx) \<Rightarrow> Some (i, StorageError_clone e) | Inr _ \<Rightarrow> None) rs"

text \<open>Each failure carries its position, and an error that survives cloning.\<close>

fun positioned :: "nat \<Rightarrow> preparation list \<Rightarrow> bool" where
  "positioned k [] = True"
| "positioned k (Inl (i, e, _) # rs) = (i = k \<and> StorageError_clone e = e \<and> positioned (Suc k) rs)"
| "positioned k (Inr _ # rs) = positioned (Suc k) rs"

lemma separate_eq:
  "separate rs = (prepared rs, failures rs, map (\<lambda>r. (receiver r, case r of Inr p \<Rightarrow> Some (prep_sct p) | Inl _ \<Rightarrow> None)) rs)"
  by (induction rs) (auto simp: prepared_def failures_def List.map_filter_simps split: sum.splits)

lemma failures_low: "positioned k rs \<Longrightarrow> i < k \<Longrightarrow> map_of (failures rs) i = None"
  by (induction k rs rule: positioned.induct) (auto simp: failures_def List.map_filter_simps)

lemma success_answers_eq:
  assumes "positioned k rs" "\<And>i. k \<le> i \<Longrightarrow> map_of failed i = map_of (failures rs) i"
  shows "success_answers start failed k v (map (\<lambda>r. (receiver r, case r of Inr p \<Rightarrow> Some (prep_sct p) | Inl _ \<Rightarrow> None)) rs)
    = zip (map receiver rs) (told (start + v) rs)"
  using assms
proof (induction k rs arbitrary: v rule: positioned.induct)
  case (2 k i e tx rs)
  have "map_of failed j = map_of (failures rs) j" if "Suc k \<le> j" for j
    using "2.prems"(1) "2.prems"(2) [of j] that by (simp add: failures_def List.map_filter_simps)
  with 2 show ?case using "2.prems"(2) [of k] by (simp add: failures_def List.map_filter_simps)
next
  case (3 k p rs)
  have "map_of failed j = map_of (failures rs) j" if "k \<le> j" for j
    using "3.prems"(2) [OF that] by (simp add: failures_def List.map_filter_simps)
  with 3 failures_low [of "Suc k" rs k] show ?case by (simp add: add.assoc)
qed simp

lemma failure_answers_eq:
  assumes "positioned k rs" "\<And>i. k \<le> i \<Longrightarrow> map_of failed i = map_of (failures rs) i"
  shows "failure_answers e failed k (map (\<lambda>r. (receiver r, case r of Inr p \<Rightarrow> Some (prep_sct p) | Inl _ \<Rightarrow> None)) rs)
    = zip (map receiver rs) (refused (StorageError_clone e) rs)"
  using assms
proof (induction k rs rule: positioned.induct)
  case (2 k i err tx rs)
  have "map_of failed j = map_of (failures rs) j" if "Suc k \<le> j" for j
    using "2.prems"(1) "2.prems"(2) [of j] that by (simp add: failures_def List.map_filter_simps)
  with 2 show ?case using "2.prems"(2) [of k] by (simp add: failures_def refused_def List.map_filter_simps)
next
  case (3 k p rs)
  have "map_of failed j = map_of (failures rs) j" if "k \<le> j" for j
    using "3.prems"(2) [OF that] by (simp add: failures_def List.map_filter_simps)
  with 3 failures_low [of "Suc k" rs k] show ?case by (simp add: refused_def)
qed (simp add: refused_def)

lemma length_told [simp]: "length (told i rs) = length rs" "length (refused e rs) = length rs"
  by (induction i rs rule: told.induct) (simp_all add: refused_def)

lemma process_entries_positioned:
  assumes "process_entries E start bs = Some rs"
  shows "positioned 0 rs" "map receiver rs = map completion_tx bs" "length (prepared rs) \<le> length bs"
proof -
  have one: "receiver r = completion_tx b \<and> (case r of Inl (i, e, _) \<Rightarrow> i = k \<and> StorageError_clone e = e | Inr _ \<Rightarrow> True)"
    if "process_entry E start k b = Some r" for k b r
  proof -
    from that obtain sct leaf d where "(case ser_entry E d of
        Inr data \<Rightarrow> Inr \<lparr>prep_index = k, prep_leaf = leaf, prep_data = data, prep_cert_hash = batch_cert_hash b, prep_sct = sct,
          prep_entry = (log_entry b)\<lparr>entry_index := start + of_nat k, leaf_data := leaf\<rparr>, prep_tx = completion_tx b\<rparr>
      | Inl e \<Rightarrow> Inl (k, InvalidFormat e, completion_tx b)) = r"
      by (auto simp: process_entry_def Let_def bind_eq_Some_conv)
    then show ?thesis by (cases "ser_entry E d") auto
  qed
  have "positioned k rs \<and> map receiver rs = map completion_tx bs"
    if "those (map (\<lambda>(i, entry). process_entry E start i entry) (zip [k..<k + length bs] bs)) = Some rs" for k rs bs
    using that
  proof (induction bs arbitrary: k rs)
    case (Cons b bs)
    have "[k..<k + length (b # bs)] = k # [Suc k..<Suc k + length bs]" by (subst upt_conv_Cons) simp_all
    with Cons.prems obtain r rs' where r: "process_entry E start k b = Some r" "rs = r # rs'"
      "those (map (\<lambda>(i, entry). process_entry E start i entry) (zip [Suc k..<Suc k + length bs] bs)) = Some rs'"
      by (auto split: option.splits)
    with Cons.IH [OF r(3)] one [OF r(1)] show ?case by (cases r) auto
  qed simp
  from this [of 0 bs rs] assms show "positioned 0 rs" and m: "map receiver rs = map completion_tx bs" by (simp_all add: process_entries_def)
  from arg_cong [OF m, of length] have "length rs = length bs" by simp
  moreover have "length (prepared rs) \<le> length rs"
    by (induction rs) (auto simp: prepared_def List.map_filter_simps split: option.splits sum.splits)
  ultimately show "length (prepared rs) \<le> length bs" by simp
qed

text \<open>The tree after the write of prepared entries.\<close>

definition tree_extended ::
  "('db, 'nc, 'tc, 'cc, 'ec) StorageEnv \<Rightarrow> ('db, 'nc, 'cc, 'ec) StorageView \<Rightarrow> Prepared list \<Rightarrow> Prepared list \<Rightarrow> nat set
    \<Rightarrow> ('db, 'nc, 'tc, 'cc, 'ec) CtStorage \<Rightarrow> bool" where
  "tree_extended E V ps qs P s \<longleftrightarrow> qs \<noteq> [] \<and>
     tree_holds (tree_env E) (v_db V) (v_nodes V) (map prep_leaf (ps @ qs)) (published P (map prep_leaf ps) (map prep_leaf qs)) (st_tree s)"

lemma tree_extended_book [simp]:
  "tree_extended E V ps qs P (s\<lparr>sent := x\<rparr>) = tree_extended E V ps qs P s"
  "tree_extended E V ps qs P (s\<lparr>batch_stats := b\<rparr>) = tree_extended E V ps qs P s"
  by (simp_all add: tree_extended_def)

text \<open>The reasons for which the entries of a batch are answered with an error.\<close>

definition push_can_fail :: "('db, 'nc, 'tc, 'cc, 'ec) StorageEnv \<Rightarrow> SlateDBError set \<Rightarrow> Prepared list \<Rightarrow> bool" where
  "push_can_fail E F qs \<longleftrightarrow> F \<noteq> {} \<or> qs = [] \<or> (\<exists>q \<in> set qs. isl (to_stdvec (tree_env E) (prep_leaf q)))"

definition push_whole ::
  "('db, 'nc, 'tc, 'cc, 'ec) StorageEnv \<Rightarrow> ('db, 'nc, 'cc, 'ec) StorageView \<Rightarrow> SlateDBError set \<Rightarrow> Prepared list \<Rightarrow> Prepared list \<Rightarrow> nat set
    \<Rightarrow> bool \<Rightarrow> ('db, 'nc, 'tc, 'cc, 'ec) CtStorage \<Rightarrow> bool" where
  "push_whole E V F ps qs P good s \<longleftrightarrow>
     (if good then tree_extended E V ps qs P s else push_can_fail E F qs \<and> (log_holds E V ps P s \<or> tree_extended E V ps qs P s))"

lemma push_whole_book [simp]:
  "push_whole E V F ps qs P g (s\<lparr>sent := x\<rparr>) = push_whole E V F ps qs P g s"
  "push_whole E V F ps qs P g (s\<lparr>batch_stats := b\<rparr>) = push_whole E V F ps qs P g s"
  by (simp_all add: push_whole_def)

lemma triple_push_whole:
  assumes ok: "storage_ok E V F" and log: "log_ok E ps P M" and cap: "length ps + length qs \<le> 2 ^ 63"
  shows "triple (\<lambda>s. log_at E V ps P M s \<and> sent s = S) (push_prepared E (of_nat (length ps)) qs)
    (\<lambda>r s. sent s = S \<and> push_whole E V F ps qs P (\<not> isl (push_outcome r)) s) R"
proof (cases "qs = []")
  case True
  with log show ?thesis by (auto simp: push_prepared_def log_holds_def push_whole_def push_can_fail_def intro!: triple_ret)
next
  case False
  have "push_whole E V F ps qs P good s" if "push_left E V F ps qs P M good s" for good s
  proof -
    have "tree_extended E V ps qs P s"
      if "push_done (tree_env E) (v_db V) (v_nodes V) (map prep_leaf ps) P M (map prep_leaf qs) add (st_tree s)" for add
      using that False by (auto simp: push_done_def tree_extended_def tree_holds_def)
    moreover have "log_holds E V ps P s" if "tree_at (tree_env E) (v_db V) (v_nodes V) (map prep_leaf ps) P M (st_tree s)"
        "caches_ok E V ps (chain_cache s) (entry_cache s)"
      using that log by (auto simp: log_holds_def log_at_def)
    moreover have "push_can_fail E F qs" if "F \<noteq> {} \<or> (\<exists>q \<in> set qs. \<exists>m. to_stdvec (tree_env E) (prep_leaf q) = Inl m)"
      using that unfolding push_can_fail_def by force
    ultimately show ?thesis using that unfolding push_left_def push_whole_def Let_def by (cases good) (simp_all, blast+)
  qed
  then show ?thesis by (intro triple_conseq [OF triple_push_any [OF ok log cap False]]) auto
qed

text \<open>What a flush leaves behind, for any batch and any store.\<close>

definition flush_left ::
  "('db, 'nc, 'tc, 'cc, 'ec) StorageEnv \<Rightarrow> ('db, 'nc, 'cc, 'ec) StorageView \<Rightarrow> SlateDBError set \<Rightarrow> Prepared list \<Rightarrow> nat set
    \<Rightarrow> BatchEntry list \<Rightarrow> (nat \<times> completion) list \<Rightarrow> ('db, 'nc, 'tc, 'cc, 'ec) CtStorage \<Rightarrow> bool" where
  "flush_left E V F ps P bs msgs s \<longleftrightarrow>
     F \<noteq> {} \<and> log_holds E V ps P s \<and> (\<exists>e. msgs = map (\<lambda>b. (completion_tx b, Inl e)) bs) \<or>
     (case process_entries E (of_nat (length ps)) bs of
        None \<Rightarrow> msgs = [] \<and> log_holds E V ps P s
      | Some rs \<Rightarrow> map fst msgs = map completion_tx bs \<and>
          (tree_extended E V ps (prepared rs) P s \<and> map snd msgs = told (of_nat (length ps)) rs \<or>
           push_can_fail E F (prepared rs) \<and> (log_holds E V ps P s \<or> tree_extended E V ps (prepared rs) P s) \<and> (\<exists>e. map snd msgs = refused e rs)))"

lemma flush_any:
  assumes ok: "storage_ok E V F" and log: "log_holds E V ps P s" and cap: "length ps + length bs \<le> 2 ^ 63" and ne: "bs \<noteq> []"
  shows "\<exists>s' msgs. flush_batch E t1 t2 bs s = (Inr (), s') \<and> sent s' = sent s @ msgs \<and> flush_left E V F ps P bs msgs s'"
proof -
  obtain M where M: "log_ok E ps P M" "log_at E V ps P M s" using log by (auto simp: log_holds_def)
  let ?T = "\<lambda>s'. log_at E V ps P M s' \<and> sent s' = sent s" and ?Q = "\<lambda>s'. \<exists>msgs. sent s' = sent s @ msgs \<and> flush_left E V F ps P bs msgs s'"
  define rs where "rs = process_entries E (of_nat (length ps)) bs"
  define parts where "parts = (case rs of None \<Rightarrow> ([], [], []) | Some results \<Rightarrow> separate results)"
  define answer where "answer r = (case push_outcome r of
      Inr _ \<Rightarrow> success_answers (of_nat (length ps)) (fst (snd parts)) 0 0 (snd (snd parts))
    | Inl e \<Rightarrow> failure_answers e (fst (snd parts)) 0 (snd (snd parts)))" for r :: PushResult
  have left: "flush_left E V F ps P bs (answer r) s'"
    if "push_whole E V F ps (fst parts) P (\<not> isl (push_outcome r)) s'" for r s'
  proof (cases rs)
    case None
    with that show ?thesis
      by (cases "push_outcome r") (auto simp: flush_left_def parts_def answer_def push_whole_def tree_extended_def rs_def [symmetric])
  next
    case (Some results)
    note pe = process_entries_positioned [OF Some [unfolded rs_def]]
    from arg_cong [OF pe(2), of length] have l: "length results = length bs" by simp
    have "answer r = zip (map completion_tx bs) (case push_outcome r of Inr _ \<Rightarrow> told (of_nat (length ps)) results | Inl e \<Rightarrow> refused (StorageError_clone e) results)"
      using success_answers_eq [OF pe(1), of "failures results" "of_nat (length ps)" 0] failure_answers_eq [OF pe(1), of "failures results"] pe(2)
      by (simp add: answer_def parts_def Some separate_eq split: sum.splits)
    with that l show ?thesis
      by (cases "push_outcome r") (auto simp: flush_left_def parts_def Some rs_def [symmetric] separate_eq push_whole_def)
  qed
  have cap': "length ps + length (fst parts) \<le> 2 ^ 63"
    using cap process_entries_positioned(3) [of E "of_nat (length ps)" bs] by (auto simp: parts_def rs_def separate_eq split: option.split)
  have rest: "triple ?T (and_then (push_prepared E (of_nat (length ps)) (fst parts)) (\<lambda>r.
      and_then (send (answer r)) (\<lambda>_. modify (\<lambda>s. s\<lparr>batch_stats := record_stats (length bs) t1 t2 r (batch_stats s)\<rparr>)))) (\<lambda>_. ?Q) (\<lambda>_ _. False)"
  proof (rule triple_and_then [OF triple_push_whole [OF ok M(1) cap']])
    fix r :: PushResult
    show "triple (\<lambda>s'. sent s' = sent s \<and> push_whole E V F ps (fst parts) P (\<not> isl (push_outcome r)) s')
        (and_then (send (answer r)) (\<lambda>_. modify (\<lambda>s. s\<lparr>batch_stats := record_stats (length bs) t1 t2 r (batch_stats s)\<rparr>))) (\<lambda>_. ?Q) (\<lambda>_ _. False)"
      by (rule triple_and_then [where M = "\<lambda>_ s'. sent s' = sent s @ answer r \<and>
            push_whole E V F ps (fst parts) P (\<not> isl (push_outcome r)) s'"], rule triple_send, simp)
        (rule triple_modify, use left in auto)
  qed
  have "triple ?T (flush_batch E t1 t2 bs) (\<lambda>_. ?Q) (\<lambda>_ _. False)"
    unfolding flush_batch_def if_not_P [OF ne]
  proof (rule triple_and_then [OF attempt_size [OF ok M(1)]], rule triple_pre)
    fix r :: "CtError + u64" and s'
    assume "(log_at E V ps P M s' \<and> sent s' = sent s) \<and> (case r of Inl _ \<Rightarrow> F \<noteq> {} | Inr n \<Rightarrow> n = of_nat (length ps))"
    then show "case r of Inl _ \<Rightarrow> F \<noteq> {} | Inr n \<Rightarrow> n = of_nat (length ps)" by simp
  next
    fix r :: "CtError + u64"
    let ?B = "case r of Inl _ \<Rightarrow> F \<noteq> {} | Inr n \<Rightarrow> n = of_nat (length ps)"
    let ?f = "case r of
          Inl e \<Rightarrow> send (map (\<lambda>entry. (completion_tx entry, Inl (InvalidFormat (''Failed to get tree size: '' @ ct_error_debug (slate_debug E) e)))) bs)
        | Inr starting_index \<Rightarrow>
            (case (case process_entries E starting_index bs of None \<Rightarrow> ([], [], []) | Some results \<Rightarrow> separate results) of
               (metas, failed, completions) \<Rightarrow>
             and_then (push_prepared E starting_index metas) (\<lambda>r.
             and_then (send (case push_outcome r of
                 Inl e \<Rightarrow> failure_answers e failed 0 completions
               | Inr _ \<Rightarrow> success_answers starting_index failed 0 0 completions)) (\<lambda>_.
             modify (\<lambda>s. s\<lparr>batch_stats := record_stats (length bs) t1 t2 r (batch_stats s)\<rparr>))))"
    assume B: ?B
    show "triple (\<lambda>s'. ?T s' \<and> ?B) ?f (\<lambda>_. ?Q) (\<lambda>_ _. False)"
    proof (cases r)
      case (Inl e)
      have "log_holds E V ps P s'" if "?T s'" for s' using that M(1) by (auto simp: log_holds_def)
      with Inl B show ?thesis by (auto simp: flush_left_def intro!: triple_send)
    next
      case (Inr n)
      obtain metas failed completions where parts: "parts = (metas, failed, completions)" by (cases parts)
      then have prep: "(case process_entries E (of_nat (length ps)) bs of None \<Rightarrow> ([], [], []) | Some results \<Rightarrow> separate results) = (metas, failed, completions)"
        by (simp add: parts_def rs_def)
      have r: "r = Inr (of_nat (length ps))" using Inr B by simp
      show ?thesis
        unfolding r sum.case prep prod.case
        by (rule triple_weaken_pre [OF rest [unfolded answer_def parts fst_conv snd_conv]]) simp
    qed
  qed
  from triple_valueD [OF this, of s] M(2) show ?thesis by auto
qed

end
