(* ===== verification/Batch_Worker.thy ===== *)
theory Batch_Worker
  imports Ct_Storage_Flush
begin

text \<open>
  The batching of submissions in \<^verbatim>\<open>src/src/storage/mod.rs\<close>: \<^verbatim>\<open>add_entry_batched\<close> puts an entry into a bounded channel, and
  \<^verbatim>\<open>batch_worker\<close> collects entries and flushes them when the batch is full, when the oldest entry has waited long enough, or
  when the channel is closed. The state of worker, channel and storage is one record; a step of the transition relation is one
  submission, one iteration of the worker's loop, the passing of time, or the dropping of the senders. A flush is one step:
  submissions during a flush only append to the channel, so they may be ordered before or after it.

  The fields \<open>accepted\<close> and \<open>flushed\<close> are history: the entries taken into the channel, and the batches handed to
  \<^verbatim>\<open>flush_batch\<close>, in order.
\<close>

section \<open>State\<close>

record ('db, 'nc, 'tc, 'cc, 'ec) Worker =
  store :: "('db, 'nc, 'tc, 'cc, 'ec) CtStorage"
  channel :: "BatchEntry list"
  pending_entries :: "BatchEntry list"
  oldest_entry_time :: "nat option"
  now :: nat
  senders_dropped :: bool
  running :: bool
  accepted :: "BatchEntry list"
  flushed :: "BatchEntry list list"

definition channel_capacity :: "BatchConfig \<Rightarrow> nat" where
  "channel_capacity config = max (max_batch_size config * 2) 500"

text \<open>\<^verbatim>\<open>CtStorage::new\<close>: an empty channel and a worker waiting for its first entry.\<close>

definition worker_new :: "('db, 'nc, 'tc, 'cc, 'ec) CtStorage \<Rightarrow> nat \<Rightarrow> ('db, 'nc, 'tc, 'cc, 'ec) Worker" where
  "worker_new s t = \<lparr>store = s, channel = [], pending_entries = [], oldest_entry_time = None, now = t, senders_dropped = False,
     running = True, accepted = [], flushed = []\<rparr>"

section \<open>Submitting\<close>

text \<open>
  The part of \<^verbatim>\<open>add_entry_batched\<close> up to the wait: the error returned at once, if any. The receiver is dropped when the worker
  has ended.
\<close>

definition try_send ::
  "BatchConfig \<Rightarrow> BatchEntry \<Rightarrow> ('db, 'nc, 'tc, 'cc, 'ec) Worker \<Rightarrow> StorageError option \<times> ('db, 'nc, 'tc, 'cc, 'ec) Worker" where
  "try_send config batch_entry w =
     (if \<not> running w then (Some (InvalidFormat ''Batch worker not running''), w)
      else if channel_capacity config \<le> length (channel w) then (Some QueueFull, w)
      else (None, w\<lparr>channel := channel w @ [batch_entry], accepted := accepted w @ [batch_entry]\<rparr>))"

text \<open>The wait: the message on the completion channel, if there is one. Otherwise the caller waits, unless the sending half is gone.\<close>

definition completion_result :: "nat \<Rightarrow> (nat \<times> completion) list \<Rightarrow> bool \<Rightarrow> completion option" where
  "completion_result tx msgs tx_dropped =
     (case map_of msgs tx of
        Some r \<Rightarrow> Some r
      | None \<Rightarrow> if tx_dropped then Some (Inl (InvalidFormat ''Batch completion channel closed'')) else None)"

section \<open>The worker\<close>

text \<open>A flush takes all pending entries. A panic in it would end the task of the worker.\<close>

definition flush_pending ::
  "('db, 'nc, 'tc, 'cc, 'ec) StorageEnv \<Rightarrow> u64 \<Rightarrow> u64 \<Rightarrow> ('db, 'nc, 'tc, 'cc, 'ec) Worker \<Rightarrow> ('db, 'nc, 'tc, 'cc, 'ec) Worker" where
  "flush_pending E t1 t2 w =
     (case flush_batch E t1 t2 (pending_entries w) (store w) of
        (r, s) \<Rightarrow> w\<lparr>store := s, pending_entries := [], flushed := flushed w @ [pending_entries w],
          running := (case r of Inr _ \<Rightarrow> running w | Inl _ \<Rightarrow> False)\<rparr>)"

text \<open>The loop that takes what is waiting in the channel while there is room in the batch.\<close>

fun fill_batch :: "nat \<Rightarrow> BatchEntry list \<Rightarrow> BatchEntry list \<Rightarrow> BatchEntry list \<times> BatchEntry list" where
  "fill_batch max_size pending [] = (pending, [])"
| "fill_batch max_size pending (entry # waiting) =
     (if length pending < max_size then fill_batch max_size (pending @ [entry]) waiting else (pending, entry # waiting))"

definition received ::
  "('db, 'nc, 'tc, 'cc, 'ec) StorageEnv \<Rightarrow> BatchConfig \<Rightarrow> u64 \<Rightarrow> u64 \<Rightarrow> BatchEntry \<Rightarrow> BatchEntry list
    \<Rightarrow> ('db, 'nc, 'tc, 'cc, 'ec) Worker \<Rightarrow> ('db, 'nc, 'tc, 'cc, 'ec) Worker" where
  "received E config t1 t2 entry waiting w =
     (let oldest = (if pending_entries w = [] then Some (now w) else oldest_entry_time w)
      in case fill_batch (max_batch_size config) (pending_entries w @ [entry]) waiting of
           (pending, rest) \<Rightarrow>
             let w' = w\<lparr>channel := rest, pending_entries := pending, oldest_entry_time := oldest\<rparr>
             in if max_batch_size config \<le> length pending
                then (flush_pending E t1 t2 w')\<lparr>oldest_entry_time := None\<rparr>
                else w')"

definition timed_out ::
  "('db, 'nc, 'tc, 'cc, 'ec) StorageEnv \<Rightarrow> u64 \<Rightarrow> u64 \<Rightarrow> ('db, 'nc, 'tc, 'cc, 'ec) Worker \<Rightarrow> ('db, 'nc, 'tc, 'cc, 'ec) Worker" where
  "timed_out E t1 t2 w = (flush_pending E t1 t2 w)\<lparr>oldest_entry_time := None\<rparr>"

definition channel_closed ::
  "('db, 'nc, 'tc, 'cc, 'ec) StorageEnv \<Rightarrow> u64 \<Rightarrow> u64 \<Rightarrow> ('db, 'nc, 'tc, 'cc, 'ec) Worker \<Rightarrow> ('db, 'nc, 'tc, 'cc, 'ec) Worker" where
  "channel_closed E t1 t2 w =
     (if pending_entries w \<noteq> [] then flush_pending E t1 t2 w else w)\<lparr>running := False\<rparr>"

definition deadline :: "BatchConfig \<Rightarrow> ('db, 'nc, 'tc, 'cc, 'ec) Worker \<Rightarrow> nat option" where
  "deadline config w = map_option (\<lambda>t. t + unat (max_batch_timeout_ms config)) (oldest_entry_time w)"

datatype event = Submit BatchEntry | Receive u64 u64 | Timeout u64 u64 | Tick nat | DropSenders | Closed u64 u64

inductive worker_step ::
  "('db, 'nc, 'tc, 'cc, 'ec) StorageEnv \<Rightarrow> BatchConfig \<Rightarrow> event \<Rightarrow> ('db, 'nc, 'tc, 'cc, 'ec) Worker \<Rightarrow> ('db, 'nc, 'tc, 'cc, 'ec) Worker \<Rightarrow> bool"
  for E :: "('db, 'nc, 'tc, 'cc, 'ec) StorageEnv" and config :: BatchConfig where
  submit: "\<not> senders_dropped w \<Longrightarrow> worker_step E config (Submit b) w (snd (try_send config b w))"
| receive: "running w \<Longrightarrow> channel w = entry # waiting \<Longrightarrow> worker_step E config (Receive t1 t2) w (received E config t1 t2 entry waiting w)"
| timeout: "running w \<Longrightarrow> deadline config w = Some d \<Longrightarrow> d \<le> now w \<Longrightarrow> worker_step E config (Timeout t1 t2) w (timed_out E t1 t2 w)"
| tick: "worker_step E config (Tick n) w (w\<lparr>now := now w + n\<rparr>)"
| drop: "worker_step E config DropSenders w (w\<lparr>senders_dropped := True\<rparr>)"
| closed: "running w \<Longrightarrow> senders_dropped w \<Longrightarrow> channel w = [] \<Longrightarrow> worker_step E config (Closed t1 t2) w (channel_closed E t1 t2 w)"

inductive worker_run ::
  "('db, 'nc, 'tc, 'cc, 'ec) StorageEnv \<Rightarrow> BatchConfig \<Rightarrow> event list \<Rightarrow> ('db, 'nc, 'tc, 'cc, 'ec) Worker \<Rightarrow> ('db, 'nc, 'tc, 'cc, 'ec) Worker \<Rightarrow> bool"
  for E :: "('db, 'nc, 'tc, 'cc, 'ec) StorageEnv" and config :: BatchConfig where
  start: "worker_run E config [] w w"
| step: "worker_run E config evs w w' \<Longrightarrow> worker_step E config ev w' w'' \<Longrightarrow> worker_run E config (evs @ [ev]) w w''"

inductive_cases worker_runE: "worker_run E config evs w w'"

section \<open>The history\<close>

lemma fill_batch_append:
  "fill_batch n pending waiting = (pending', rest) \<Longrightarrow> pending @ waiting = pending' @ rest"
  by (induction n pending waiting rule: fill_batch.induct) (auto split: if_splits)

lemma fill_batch_grows:
  "fill_batch n pending waiting = (pending', rest) \<Longrightarrow>
    length pending \<le> length pending' \<and> length pending' \<le> max n (length pending) \<and> (length pending' < n \<longrightarrow> rest = [])"
  by (induction n pending waiting rule: fill_batch.induct) (auto split: if_splits)

lemma flush_pending_fields [simp]:
  "channel (flush_pending E t1 t2 w) = channel w" "pending_entries (flush_pending E t1 t2 w) = []"
  "flushed (flush_pending E t1 t2 w) = flushed w @ [pending_entries w]" "accepted (flush_pending E t1 t2 w) = accepted w"
  "now (flush_pending E t1 t2 w) = now w" "senders_dropped (flush_pending E t1 t2 w) = senders_dropped w"
  "oldest_entry_time (flush_pending E t1 t2 w) = oldest_entry_time w"
  by (simp_all add: flush_pending_def split: prod.split)

lemmas worker_defs = try_send_def received_def timed_out_def channel_closed_def

text \<open>
  Every accepted entry is in exactly one place, and the order of acceptance is kept: first what was flushed, then the pending
  batch, then the channel. The batches and the channel stay within their bounds, and the clock of the batch runs exactly
  while it is not empty.
\<close>

definition worker_inv :: "BatchConfig \<Rightarrow> ('db, 'nc, 'tc, 'cc, 'ec) Worker \<Rightarrow> bool" where
  "worker_inv config w \<longleftrightarrow>
     accepted w = concat (flushed w) @ pending_entries w @ channel w \<and>
     list_all (\<lambda>b. b \<noteq> [] \<and> length b \<le> max 1 (max_batch_size config)) (flushed w) \<and>
     length (channel w) \<le> channel_capacity config \<and>
     (pending_entries w \<noteq> [] \<longrightarrow> length (pending_entries w) < max_batch_size config) \<and>
     (running w \<longrightarrow> (oldest_entry_time w = None \<longleftrightarrow> pending_entries w = [])) \<and>
     (case oldest_entry_time w of None \<Rightarrow> True | Some t \<Rightarrow> t \<le> now w)"

lemma worker_new_inv: "worker_inv config (worker_new s t)"
  by (simp add: worker_inv_def worker_new_def)

lemma received_inv:
  assumes "worker_inv config w" "running w" "channel w = entry # waiting"
  shows "worker_inv config (received E config t1 t2 entry waiting w)"
proof -
  obtain pending rest where f: "fill_batch (max_batch_size config) (pending_entries w @ [entry]) waiting = (pending, rest)" by force
  have e: "pending @ rest = pending_entries w @ channel w" using fill_batch_append [OF f] assms(3) by simp
  note g = fill_batch_grows [OF f]
  have "length pending \<le> max 1 (max_batch_size config)" "pending \<noteq> []"
    using g assms(1) by (cases "pending_entries w = []"; auto simp: worker_inv_def)+
  moreover have "length rest \<le> length (channel w)"
    using arg_cong [OF e, of length] g by simp
  ultimately show ?thesis
    using assms e by (auto simp: worker_inv_def received_def f Let_def split: option.splits)
qed

lemma worker_step_inv:
  assumes "worker_step E config ev w w'" "worker_inv config w"
  shows "worker_inv config w'"
  using assms
proof (cases rule: worker_step.cases)
  case (submit b)
  with assms(2) show ?thesis by (auto simp: try_send_def worker_inv_def split: option.splits)
next
  case (receive entry waiting t1 t2)
  with received_inv [OF assms(2)] show ?thesis by simp
next
  case (timeout d t1 t2)
  with assms(2) show ?thesis by (auto simp: worker_inv_def timed_out_def deadline_def)
next
  case (closed t1 t2)
  with assms(2) show ?thesis by (auto simp: worker_inv_def channel_closed_def)
qed (use assms(2) in \<open>auto simp: worker_inv_def split: option.splits\<close>)

lemma worker_run_inv: "worker_run E config evs w w' \<Longrightarrow> worker_inv config w \<Longrightarrow> worker_inv config w'"
  by (induction rule: worker_run.induct) (auto intro: worker_step_inv)

lemma accepted_prefix:
  assumes "worker_step E config ev w w'"
  shows "\<exists>xs. accepted w' = accepted w @ xs"
  using assms by (cases rule: worker_step.cases) (auto simp: worker_defs Let_def split: prod.splits)

section \<open>The log behind the worker\<close>

text \<open>An accepted entry that can be logged at an index.\<close>

definition entry_ready :: "('db, 'nc, 'tc, 'cc, 'ec) StorageEnv \<Rightarrow> nat \<Rightarrow> BatchEntry \<Rightarrow> bool" where
  "entry_ready E i b =
     (case process_entry E (of_nat i) 0 b of
        Some (Inr p) \<Rightarrow> readable (x509_ops E) (log_entry b) \<and> \<not> isl (to_stdvec (tree_env E) (prep_leaf p)) \<and> \<not> isl (ser_sct E (sct_record i p))
      | _ \<Rightarrow> False)"

text \<open>What is logged for a submission at an index.\<close>

definition logs :: "nat \<Rightarrow> BatchEntry \<Rightarrow> Prepared \<Rightarrow> bool" where
  "logs i b p \<longleftrightarrow>
     prep_entry p = (log_entry b)\<lparr>entry_index := of_nat i, leaf_data := prep_leaf p\<rparr> \<and>
     prep_tx p = completion_tx b \<and> prep_cert_hash p = batch_cert_hash b \<and> sct_callback b (of_nat i) = Some (prep_sct p)"

lemma process_entry_shift:
  "process_entry E (of_nat (n + j)) 0 b = Some (Inr p) \<Longrightarrow> process_entry E (of_nat n) j b = Some (Inr (p\<lparr>prep_index := j\<rparr>))"
  by (auto simp: process_entry_def Let_def split: Option.bind_splits sum.splits)

lemma sct_record_index [simp]: "sct_record i (p\<lparr>prep_index := j\<rparr>) = sct_record i p"
  by (simp add: sct_record_def)

lemma entry_readyD:
  assumes "entry_ready E (n + j) b"
  obtains p where "process_entry E (of_nat n) j b = Some (Inr p)" "readable (x509_ops E) (log_entry b)"
    "\<not> isl (to_stdvec (tree_env E) (prep_leaf p))" "\<not> isl (ser_sct E (sct_record (n + j) p))"
proof -
  obtain p0 where p: "process_entry E (of_nat (n + j)) 0 b = Some (Inr p0)" "readable (x509_ops E) (log_entry b)"
      "\<not> isl (to_stdvec (tree_env E) (prep_leaf p0))" "\<not> isl (ser_sct E (sct_record (n + j) p0))"
    using assms by (auto simp: entry_ready_def split: option.splits sum.splits)
  show thesis
    by (rule that [of "p0\<lparr>prep_index := j\<rparr>"]) (use p process_entry_shift [OF p(1)] in auto)
qed

lemma batch_ready_entries:
  assumes "\<And>j. j < length bs \<Longrightarrow> entry_ready E (n + j) (bs ! j)" "n + length bs \<le> 2 ^ 63"
  shows "\<exists>qs. batch_ready E n bs qs \<and> (\<forall>j < length bs. logs (n + j) (bs ! j) (qs ! j))"
proof -
  define q where "q j = projr (the (process_entry E (of_nat n) j (bs ! j)))" for j
  have q: "process_entry E (of_nat n) j (bs ! j) = Some (Inr (q j))" "readable (x509_ops E) (log_entry (bs ! j))"
    "\<not> isl (to_stdvec (tree_env E) (prep_leaf (q j)))" "\<not> isl (ser_sct E (sct_record (n + j) (q j)))" if "j < length bs" for j
    by (rule entry_readyD [OF assms(1) [OF that]], simp add: q_def)+
  let ?qs = "map q [0..<length bs]"
  have "process_entries E (of_nat n) bs = Some (map Inr ?qs)"
    unfolding process_entries_def those_Some by (rule nth_equalityI) (simp_all add: q(1))
  then have "batch_ready E n bs ?qs" using assms(2) q by (simp add: batch_ready_def list_all_length)
  moreover have "logs (n + j) (bs ! j) (?qs ! j)" if "j < length bs" for j
    using process_entry_logged [OF q(1,2,4) [OF that]] that by (simp add: logs_def)
  ultimately show ?thesis by blast
qed

text \<open>The certificates of a submission.\<close>

definition batch_certs :: "BatchEntry list \<Rightarrow> bytes list" where
  "batch_certs bs = concat (map (\<lambda>b. entry_certs (log_entry b)) bs)"

lemma entry_certs_stamp [simp]: "entry_certs (e\<lparr>entry_index := i, leaf_data := l\<rparr>) = entry_certs e"
  by (simp add: entry_certs_def)

lemma logs_certs:
  assumes "length qs = length bs" "\<And>j. j < length bs \<Longrightarrow> logs (n + j) (bs ! j) (qs ! j)"
  shows "log_certs qs = batch_certs bs"
proof -
  have "map (\<lambda>p. entry_certs (prep_entry p)) qs = map (\<lambda>b. entry_certs (log_entry b)) bs"
    by (rule nth_equalityI) (use assms in \<open>auto simp: logs_def\<close>)
  then show ?thesis by (simp add: log_certs_def batch_certs_def)
qed

text \<open>What is required of the accepted entries: each can be logged at its place, and their certificates do not collide.\<close>

definition loggable :: "('db, 'nc, 'tc, 'cc, 'ec) StorageEnv \<Rightarrow> Prepared list \<Rightarrow> BatchEntry list \<Rightarrow> bool" where
  "loggable E ps bs \<longleftrightarrow>
     length ps + length bs \<le> 2 ^ 63 \<and> inj_on (sha256 E) (set (log_certs ps) \<union> set (batch_certs bs)) \<and>
     (\<forall>j < length bs. entry_ready E (length ps + j) (bs ! j))"

lemma loggable_prefix: "loggable E ps (bs @ cs) \<Longrightarrow> loggable E ps bs"
proof -
  assume l: "loggable E ps (bs @ cs)"
  have "entry_ready E (length ps + j) (bs ! j)" if "j < length bs" for j
    using l that unfolding loggable_def by (metis length_append nth_append trans_less_add1)
  with l show ?thesis by (auto simp: loggable_def batch_certs_def intro: inj_on_subset)
qed

text \<open>The log is what was there before, followed by what was flushed, and each flushed submission has been answered.\<close>

definition worker_log ::
  "('db, 'nc, 'tc, 'cc, 'ec) StorageEnv \<Rightarrow> ('db, 'nc, 'cc, 'ec) StorageView \<Rightarrow> Prepared list \<Rightarrow> (nat \<times> completion) list
    \<Rightarrow> BatchEntry list \<Rightarrow> ('db, 'nc, 'tc, 'cc, 'ec) CtStorage \<Rightarrow> bool" where
  "worker_log E V ps S done_entries s \<longleftrightarrow>
     (\<exists>qs P. log_holds E V (ps @ qs) P s \<and> length qs = length done_entries \<and>
        (\<forall>j < length qs. logs (length ps + j) (done_entries ! j) (qs ! j)) \<and>
        sent s = S @ map (\<lambda>j. (completion_tx (done_entries ! j), Inr (of_nat (length ps + j), prep_sct (qs ! j)))) [0..<length qs])"

lemma flush_worker_log:
  assumes ok: "storage_ok E V {}" and log: "worker_log E V ps S bs s" and ne: "cs \<noteq> []" and able: "loggable E ps (bs @ cs)"
  shows "\<exists>s'. flush_batch E t1 t2 cs s = (Inr (), s') \<and> worker_log E V ps S (bs @ cs) s'"
proof -
  obtain qs P where qs: "log_holds E V (ps @ qs) P s" "length qs = length bs"
    "\<And>j. j < length qs \<Longrightarrow> logs (length ps + j) (bs ! j) (qs ! j)"
    "sent s = S @ map (\<lambda>j. (completion_tx (bs ! j), Inr (of_nat (length ps + j), prep_sct (qs ! j)))) [0..<length qs]"
    using log by (auto simp: worker_log_def)
  have r: "entry_ready E (length (ps @ qs) + j) (cs ! j)" if "j < length cs" for j
  proof -
    have "entry_ready E (length ps + (length bs + j)) ((bs @ cs) ! (length bs + j))"
      using able that unfolding loggable_def by (metis length_append nat_add_left_cancel_less)
    then show ?thesis by (simp add: qs(2) add.assoc)
  qed
  have "length (ps @ qs) + length cs \<le> 2 ^ 63" using able qs(2) by (simp add: loggable_def)
  from batch_ready_entries [OF r this] obtain rs where rs: "batch_ready E (length (ps @ qs)) cs rs"
    "\<And>j. j < length cs \<Longrightarrow> logs (length (ps @ qs) + j) (cs ! j) (rs ! j)" by blast
  have l: "length rs = length cs" using batch_readyD(1) [OF rs(1)] .
  have "log_certs qs = batch_certs bs" by (rule logs_certs [of _ _ "length ps"]) (use qs in auto)
  moreover have "log_certs rs = batch_certs cs" by (rule logs_certs [OF l rs(2)])
  ultimately have inj: "inj_on (sha256 E) (set (log_certs ((ps @ qs) @ rs)))"
    using able by (auto simp: loggable_def batch_certs_def Un_assoc)
  obtain s' msgs good where f: "flush_batch E t1 t2 cs s = (Inr (), s')" "sent s' = sent s @ msgs" "pushed E V {} (ps @ qs) rs P good s'"
    "if good then msgs = ok_answers (length (ps @ qs)) cs rs else \<exists>e. msgs = error_answers cs e"
    using flush_outcome [OF ok qs(1) rs(1) inj ne, of t1 t2] by blast
  then have g: "log_holds E V (ps @ qs @ rs) (published P (map prep_leaf (ps @ qs)) (map prep_leaf rs)) s'"
    "msgs = ok_answers (length (ps @ qs)) cs rs" by (auto simp: pushed_def split: if_splits)
  have "logs (length ps + j) ((bs @ cs) ! j) ((qs @ rs) ! j)" if "j < length (qs @ rs)" for j
    using that qs(2) qs(3) [of j] rs(2) [of "j - length qs"] l by (auto simp: nth_append)
  moreover have "sent s' = S @ map (\<lambda>j. (completion_tx ((bs @ cs) ! j), Inr (of_nat (length ps + j), prep_sct ((qs @ rs) ! j)))) [0..<length (qs @ rs)]"
  proof -
    let ?f = "\<lambda>j. (completion_tx ((bs @ cs) ! j), Inr (of_nat (length ps + j), prep_sct ((qs @ rs) ! j)) :: completion)"
    have "map ?f [0..<length (qs @ rs)] = map ?f [0..<length qs] @ map ?f [length qs..<length qs + length rs]"
      by (simp only: map_append [symmetric] length_append upt_add_eq_append [OF le0])
    also have "map ?f [0..<length qs] = map (\<lambda>j. (completion_tx (bs ! j), Inr (of_nat (length ps + j), prep_sct (qs ! j)))) [0..<length qs]"
      using qs(2) by (simp add: nth_append)
    also have "map ?f [length qs..<length qs + length rs] = ok_answers (length (ps @ qs)) cs rs"
      by (rule nth_equalityI) (use qs(2) l in \<open>auto simp: ok_answers_def nth_append add.assoc\<close>)
    finally show ?thesis using f(2) g(2) qs(4) by simp
  qed
  ultimately show ?thesis using f(1) g(1) qs(2) l unfolding worker_log_def by (intro exI [of _ s'] conjI exI [of _ "qs @ rs"]) auto
qed

lemma flush_pending_log:
  assumes "storage_ok E V {}" "worker_log E V ps S (concat (flushed w)) (store w)" "pending_entries w \<noteq> []"
    and "loggable E ps (concat (flushed w) @ pending_entries w)"
  shows "worker_log E V ps S (concat (flushed (flush_pending E t1 t2 w))) (store (flush_pending E t1 t2 w)) \<and>
    running (flush_pending E t1 t2 w) = running w"
proof -
  obtain s' where "flush_batch E t1 t2 (pending_entries w) (store w) = (Inr (), s')"
    "worker_log E V ps S (concat (flushed w) @ pending_entries w) s'"
    using flush_worker_log [OF assms, of t1 t2] by blast
  then show ?thesis by (simp add: flush_pending_def)
qed

lemma received_log:
  assumes "storage_ok E V {}" "worker_log E V ps S (concat (flushed w)) (store w)" "worker_inv config w" "running w"
    and "channel w = entry # waiting" "loggable E ps (accepted w)"
  shows "worker_log E V ps S (concat (flushed (received E config t1 t2 entry waiting w))) (store (received E config t1 t2 entry waiting w)) \<and>
    running (received E config t1 t2 entry waiting w) \<and> length (channel (received E config t1 t2 entry waiting w)) < length (channel w)"
proof -
  obtain pending rest where f: "fill_batch (max_batch_size config) (pending_entries w @ [entry]) waiting = (pending, rest)" by force
  have e: "pending @ rest = pending_entries w @ channel w" using fill_batch_append [OF f] assms(5) by simp
  note g = fill_batch_grows [OF f]
  have len: "length rest < length (channel w)" using arg_cong [OF e, of length] g assms(5) by simp
  let ?w = "w\<lparr>channel := rest, pending_entries := pending,
    oldest_entry_time := if pending_entries w = [] then Some (now w) else oldest_entry_time w\<rparr>"
  have "accepted w = (concat (flushed w) @ pending) @ rest" using assms(3) e by (simp add: worker_inv_def)
  then have "loggable E ps (concat (flushed w) @ pending)" using assms(6) loggable_prefix by metis
  moreover have "pending \<noteq> []" using g by auto
  ultimately have "worker_log E V ps S (concat (flushed (flush_pending E t1 t2 ?w))) (store (flush_pending E t1 t2 ?w)) \<and>
      running (flush_pending E t1 t2 ?w) = running ?w"
    by (intro flush_pending_log [OF assms(1)]) (use assms(2) in simp_all)
  then show ?thesis using assms(2,4) len by (auto simp: received_def f Let_def)
qed

lemma worker_step_log:
  assumes "worker_step E config ev w w'" "storage_ok E V {}" "worker_inv config w"
    and "worker_log E V ps S (concat (flushed w)) (store w)" "loggable E ps (accepted w')"
  shows "worker_log E V ps S (concat (flushed w')) (store w') \<and> (running w' = running w \<or> (\<exists>t1 t2. ev = Closed t1 t2))"
proof -
  obtain xs where "accepted w' = accepted w @ xs" using accepted_prefix [OF assms(1)] by blast
  with assms(5) have l: "loggable E ps (accepted w)" by (simp add: loggable_prefix)
  have fp: "worker_log E V ps S (concat (flushed (flush_pending E t1 t2 w))) (store (flush_pending E t1 t2 w)) \<and>
    running (flush_pending E t1 t2 w) = running w" if "pending_entries w \<noteq> []" for t1 t2
    by (rule flush_pending_log [OF assms(2,4) that])
      (use l assms(3) in \<open>auto simp: worker_inv_def intro: loggable_prefix [of _ _ _ "channel w"]\<close>)
  from assms(1) show ?thesis
  proof (cases rule: worker_step.cases)
    case (submit b)
    with assms(4) show ?thesis by (auto simp: try_send_def)
  next
    case (receive entry waiting t1 t2)
    with received_log [OF assms(2,4,3) _ _ l] show ?thesis by simp
  next
    case (timeout d t1 t2)
    then have "pending_entries w \<noteq> []" using assms(3) by (auto simp: worker_inv_def deadline_def)
    with fp timeout show ?thesis by (simp add: timed_out_def)
  next
    case (closed t1 t2)
    with fp assms(4) show ?thesis by (cases "pending_entries w = []") (simp_all add: channel_closed_def)
  qed (use assms(4) in auto)
qed

lemma worker_run_log:
  assumes "worker_run E config evs w w'" "storage_ok E V {}" "worker_inv config w"
    and "worker_log E V ps S (concat (flushed w)) (store w)" "loggable E ps (accepted w')"
  shows "worker_log E V ps S (concat (flushed w')) (store w')"
  using assms
proof (induction rule: worker_run.induct)
  case (step evs w w' ev w'')
  obtain xs where "accepted w'' = accepted w' @ xs" using accepted_prefix [OF step.hyps(2)] by blast
  with step.prems(4) have "loggable E ps (accepted w')" by (simp add: loggable_prefix)
  with step have "worker_log E V ps S (concat (flushed w')) (store w')" by simp
  with worker_step_log [OF step.hyps(2) assms(2) worker_run_inv [OF step.hyps(1) step.prems(2)]] step.prems(4) show ?case by simp
qed simp

lemma worker_new_log: "log_holds E V ps P s \<Longrightarrow> worker_log E V ps (sent s) (concat (flushed (worker_new s t))) (store (worker_new s t))"
  by (auto simp: worker_log_def worker_new_def)

section \<open>Draining\<close>

lemma worker_run_trans:
  "worker_run E config evs2 w' w'' \<Longrightarrow> worker_run E config evs1 w w' \<Longrightarrow> worker_run E config (evs1 @ evs2) w w''"
  by (induction rule: worker_run.induct) (auto intro: worker_run.step simp flip: append_assoc)

lemma worker_run_single: "worker_step E config ev w w' \<Longrightarrow> worker_run E config [ev] w w'"
  using worker_run.step [OF worker_run.start] by fastforce

text \<open>The steps the worker and the clock take without any client.\<close>

fun internal :: "event \<Rightarrow> bool" where
  "internal (Receive _ _) = True"
| "internal (Timeout _ _) = True"
| "internal (Tick _) = True"
| "internal _ = False"

lemma worker_drains:
  assumes "storage_ok E V {}" "worker_inv config w" "worker_log E V ps S (concat (flushed w)) (store w)" "running w" "loggable E ps (accepted w)"
  shows "\<exists>evs w'. worker_run E config evs w w' \<and> list_all internal evs \<and> length evs \<le> length (channel w) + 2 \<and>
    channel w' = [] \<and> pending_entries w' = [] \<and> accepted w' = accepted w \<and> running w'"
  using assms(2-)
proof (induction "length (channel w)" arbitrary: w rule: less_induct)
  case less
  show ?case
  proof (cases "channel w")
    case (Cons entry waiting)
    let ?w = "received E config 0 0 entry waiting w"
    have st: "worker_step E config (Receive 0 0) w ?w" by (rule worker_step.receive [OF less.prems(3) Cons])
    have acc: "accepted ?w = accepted w" by (auto simp: received_def Let_def split: prod.splits)
    note r = received_log [OF assms(1) less.prems(2,1,3) Cons less.prems(4), of 0 0]
    obtain evs w' where "worker_run E config evs ?w w'" "list_all internal evs" "length evs \<le> length (channel ?w) + 2"
      "channel w' = []" "pending_entries w' = []" "accepted w' = accepted ?w" "running w'"
      using less.hyps [of ?w] r worker_step_inv [OF st less.prems(1)] less.prems(4) acc by auto
    with worker_run_trans [OF _ worker_run_single [OF st]] r acc show ?thesis
      by (intro exI [of _ "[Receive 0 0] @ evs"] exI [of _ w']) auto
  next
    case Nil
    show ?thesis
    proof (cases "pending_entries w = []")
      case True
      with Nil less.prems(3) show ?thesis by (intro exI [of _ "[]"] exI [of _ w]) (auto intro: worker_run.start)
    next
      case False
      then obtain t where t: "oldest_entry_time w = Some t" using less.prems(1,3) by (auto simp: worker_inv_def)
      let ?n = "t + unat (max_batch_timeout_ms config)"
      let ?w1 = "w\<lparr>now := now w + ?n\<rparr>" and ?w2 = "timed_out E 0 0 (w\<lparr>now := now w + ?n\<rparr>)"
      have "worker_run E config [Tick ?n] w ?w1" by (rule worker_run_single) (rule worker_step.tick)
      moreover have st: "worker_step E config (Timeout 0 0) ?w1 ?w2"
        by (rule worker_step.timeout [of _ _ ?n]) (use less.prems(3) t in \<open>simp_all add: deadline_def\<close>)
      ultimately have run: "worker_run E config [Tick ?n, Timeout 0 0] w ?w2" using worker_run.step by fastforce
      have "loggable E ps (concat (flushed w) @ pending_entries w)"
        using less.prems(1,4) Nil by (simp add: worker_inv_def)
      then have "running ?w2"
        using flush_pending_log [OF assms(1), of ps S ?w1 0 0] less.prems(2,3) False by (simp add: timed_out_def)
      with run Nil show ?thesis by (intro exI [of _ "[Tick ?n, Timeout 0 0]"] exI [of _ ?w2]) (simp add: timed_out_def)
    qed
  qed
qed

end
