(* ===== verification/Ct_Storage_Props.thy ===== *)
theory Ct_Storage_Props
  imports Ct_Storage_Flush
begin

text \<open>
  What the storage promises: a flushed batch is logged as a whole and its submitters are told the indices; every logged
  entry is served as it was submitted, found by its leaf hash and proved to be in the tree.
\<close>

section \<open>An instance\<close>

text \<open>
  A storage in memory that logs a pre-certificate and a certificate in one batch. Postcard is replaced by the position
  in a table of the values that occur.
\<close>

definition toy_ser :: "'a list \<Rightarrow> 'a \<Rightarrow> string + bytes" where
  "toy_ser table d =
     (if d \<in> set table then Inr [of_nat (length (takeWhile (\<lambda>x. x \<noteq> d) table))] else Inl ''unsupported'')"

fun toy_de :: "'a list \<Rightarrow> bytes \<Rightarrow> string + 'a" where
  "toy_de table [w] = (if unat w < length table then Inr (table ! unat w) else Inl ''malformed'')"
| "toy_de table _ = Inl ''malformed''"

lemma takeWhile_position: "d \<in> set xs \<Longrightarrow> length (takeWhile (\<lambda>x. x \<noteq> d) xs) < length xs \<and> xs ! length (takeWhile (\<lambda>x. x \<noteq> d) xs) = d"
  by (induction xs) auto

lemma toy_de_ser:
  assumes "toy_ser table d = Inr b" "length table < 256"
  shows "toy_de table b = Inr d"
proof -
  let ?i = "length (takeWhile (\<lambda>x. x \<noteq> d) table)"
  have d: "d \<in> set table" and b: "b = [of_nat ?i]" using assms(1) by (auto simp: toy_ser_def split: if_splits)
  with takeWhile_position [OF d] assms(2) show ?thesis by (simp add: unat_of_nat)
qed

definition mem_time :: DateTime where
  "mem_time = \<lparr>timestamp_millis = 1000, sub_millis_nanos = 0\<rparr>"

definition mem_submitted :: "LogEntry list" where
  "mem_submitted =
     [\<lparr>entry_index = 0, entry_timestamp = mem_time, entry_type = PrecertEntry, certificate = [20, 10], chain = Some [[2], [3]],
        issuer_key_hash = Some (replicate 32 7), original_precert = Some [1], leaf_data = []\<rparr>,
      \<lparr>entry_index = 0, entry_timestamp = mem_time, entry_type = X509Entry, certificate = [9], chain = Some [[3]],
        issuer_key_hash = None, original_precert = None, leaf_data = []\<rparr>]"

definition mem_sct :: SignedCertificateTimestamp where
  "mem_sct = Sct_new (LogId (replicate 32 1)) 1000"

definition mem_batch :: "BatchEntry list" where
  "mem_batch = map (\<lambda>i. \<lparr>log_entry = mem_submitted ! i, batch_cert_hash = [of_nat i], sct_callback = (\<lambda>_. Some mem_sct), completion_tx = 100 + i\<rparr>) [0, 1]"

definition mem_stamped :: "nat \<Rightarrow> LogEntry" where
  "mem_stamped i =
     (let e = mem_submitted ! i
      in e\<lparr>entry_index := of_nat i,
          leaf_data := the (compute_leaf_data_with_index (certificate e) (entry_type e) (issuer_key_hash e) (entry_timestamp e) (of_nat i))\<rparr>)"

definition mem_logged :: "Prepared list" where
  "mem_logged = map (\<lambda>i. \<lparr>prep_index = i, prep_leaf = leaf_data (mem_stamped i), prep_data = [of_nat i], prep_cert_hash = [of_nat i],
     prep_sct = mem_sct, prep_entry = mem_stamped i, prep_tx = 100 + i\<rparr>) [0, 1]"

definition mem_entries :: "DeduplicatedLogEntry list" where
  "mem_entries = map (\<lambda>i. the (from_log_entry toy_hash (mem_stamped i))) [0, 1]"

definition mem_scts :: "CertificateSctEntry list" where
  "mem_scts = map (\<lambda>i. \<lparr>cse_index = of_nat i, cse_sct = mem_sct, cse_timestamp = 1000\<rparr>) [0, 1::nat]"

type_synonym mem_storage_env = "(key_values, u64 \<times> u64 \<rightharpoonup> bytes, u8 \<times> u64 \<rightharpoonup> bool, bytes \<rightharpoonup> bytes, u64 \<rightharpoonup> LogEntry) StorageEnv"
type_synonym mem_storage = "(key_values, u64 \<times> u64 \<rightharpoonup> bytes, u8 \<times> u64 \<rightharpoonup> bool, bytes \<rightharpoonup> bytes, u64 \<rightharpoonup> LogEntry) CtStorage"

definition mem_storage_env :: "mem_env \<Rightarrow> mem_storage_env" where
  "mem_storage_env T = \<lparr>tree_env = T, slate_debug = id, ser_entry = toy_ser mem_entries, de_entry = toy_de mem_entries,
     ser_sct = toy_ser mem_scts, de_sct = toy_de mem_scts, chain_cache_ops = mem_cache, entry_cache_ops = mem_cache,
     x509_ops = toy_x509, hash_set_order = id, hash_map_order = rev\<rparr>"

definition mem_view :: "(key_values, u64 \<times> u64 \<rightharpoonup> bytes, bytes \<rightharpoonup> bytes, u64 \<rightharpoonup> LogEntry) StorageView" where
  "mem_view = \<lparr>v_db = id, v_nodes = id, v_chain = id, v_entries = id\<rparr>"

definition mem_storage :: mem_storage where
  "mem_storage = \<lparr>st_tree = mem_empty, chain_cache = Map.empty, entry_cache = Map.empty,
     batch_stats = \<lparr>batches_flushed = 0, total_entries = 0, total_flush_time_ms = 0, min_batch_size = 0, max_batch_size_seen = 0,
       total_certs_checked = 0, total_certs_deduplicated = 0, total_bytes_saved = 0, total_dedup_check_time_ms = 0\<rparr>, sent = []\<rparr>"

lemma mem_storage_ok:
  "env_ok T id id F \<Longrightarrow> storage_ok (mem_storage_env T) mem_view F"
  by (auto simp: storage_ok_def mem_storage_env_def mem_view_def mem_cache_ok mem_entries_def mem_scts_def intro: toy_de_ser)

lemma empty_log:
  assumes "tree_env E = mem_env_of S"
  shows "log_holds E mem_view [] {} mem_storage"
proof -
  have "log_ok E [] {} Map.empty"
    by (simp add: log_ok_def fresh_store_inv fresh_store_def records_ok_def certs_ok_def log_certs_def)
  moreover have "log_at E mem_view [] {} Map.empty mem_storage"
    by (simp add: log_at_def tree_at_def caches_ok_def mem_storage_def mem_view_def rl_contents_def mem_empty_def RateLimitedDb_new_def cache_inv_def)
  ultimately show ?thesis by (auto simp: log_holds_def)
qed

lemma mem_storage_empty: "log_holds (mem_storage_env (mem_env_of S)) mem_view [] {} mem_storage"
  by (rule empty_log) (simp add: mem_storage_env_def)

lemma mem_process_eq:
  "digest_of T = digest_of T' \<Longrightarrow> process_entries (mem_storage_env T) i bs = process_entries (mem_storage_env T') i bs"
  by (simp add: process_entries_def process_entry_def mem_storage_env_def sha256_def)

lemma mem_process: "process_entries (mem_storage_env mem_env) 0 mem_batch = Some (map Inr mem_logged)"
  by code_simp

lemma mem_certs: "log_certs mem_logged = [[2], [3], [1], [9], [3]]"
  by code_simp

lemma mem_ready:
  assumes "digest_of T = toy_hash" "to_stdvec T = Inr"
  shows "batch_ready (mem_storage_env T) 0 mem_batch mem_logged"
proof -
  have "process_entries (mem_storage_env T) (of_nat 0) mem_batch = Some (map Inr mem_logged)"
    using mem_process mem_process_eq [of T mem_env 0 mem_batch] assms(1) by simp
  moreover have "list_all (\<lambda>b. readable toy_x509 (log_entry b)) mem_batch" by code_simp
  moreover have "list_all (\<lambda>j. \<not> isl (toy_ser mem_scts (sct_record (0 + j) (mem_logged ! j)))) [0..<length mem_logged]" by code_simp
  moreover have "length mem_batch = 2" by (simp add: mem_batch_def)
  ultimately show ?thesis using assms(2) by (simp add: batch_ready_def mem_storage_env_def list_all_iff)
qed

lemma mem_inj:
  assumes "digest_of T = toy_hash"
  shows "inj_on (sha256 (mem_storage_env T)) (set (log_certs mem_logged))"
  by (simp add: mem_certs sha256_def mem_storage_env_def assms toy_hash_def inj_on_def)

section \<open>Flushing\<close>

text \<open>C5: flushing a batch on a store that does not fail, when all its entries can be prepared (\<open>batch_ready\<close>: no callback panics and everything can be
  serialized; any other batch is covered by \<open>flush_any\<close>). The batch is logged as a whole at the end of the log, in the order of
  submission: the tree holds the new leaves and publishes the new size, the entries, hash index, SCT and certificate records
  are those of the longer log, and every submitter is answered, once and in order, with the index of its entry and the SCT
  that its callback made for this index.\<close>

theorem flush_batch_logs:
  assumes "storage_ok E V {}" "log_holds E V ps P s" "batch_ready E (length ps) bs qs" "bs \<noteq> []"
    and "inj_on (sha256 E) (set (log_certs (ps @ qs)))"
  shows "\<exists>s'. flush_batch E t1 t2 bs s = (Inr (), s') \<and>
    log_holds E V (ps @ qs) (published P (map prep_leaf ps) (map prep_leaf qs)) s' \<and>
    sent s' = sent s @ map (\<lambda>j. (completion_tx (bs ! j), Inr (of_nat (length ps + j), prep_sct (qs ! j)))) [0..<length bs] \<and>
    (\<forall>j < length bs. sct_callback (bs ! j) (of_nat (length ps + j)) = Some (prep_sct (qs ! j)))"
proof -
  have pr: "process_entries E (of_nat (length ps)) bs = Some (map Inr qs)" using assms(3) by (simp add: batch_ready_def)
  note p = process_entries_Some [OF pr]
  have "sct_callback (bs ! j) (of_nat (length ps + j)) = Some (prep_sct (qs ! j))" if "j < length bs" for j
    by (rule process_entry_logged(4) [OF p(2) [OF that]])
      (use assms(3) that p(1) in \<open>auto simp: batch_ready_def list_all_length\<close>)
  moreover obtain s' msgs good where "flush_batch E t1 t2 bs s = (Inr (), s')" "sent s' = sent s @ msgs" "pushed E V {} ps qs P good s'"
    "if good then msgs = ok_answers (length ps) bs qs else \<exists>e. msgs = error_answers bs e"
    using flush_outcome [OF assms(1-3,5,4), of t1 t2] by blast
  ultimately show ?thesis by (auto simp: pushed_def ok_answers_def split: if_splits)
qed

theorem flush_batch_logs_witness:
  "\<exists>s'. flush_batch (mem_storage_env mem_env) 3 1 mem_batch mem_storage = (Inr (), s') \<and>
    log_holds (mem_storage_env mem_env) mem_view ([] @ mem_logged) (published {} (map prep_leaf ([] :: Prepared list)) (map prep_leaf mem_logged)) s' \<and>
    sent s' = sent mem_storage @ map (\<lambda>j. (completion_tx (mem_batch ! j), Inr (of_nat (length ([] :: Prepared list) + j), prep_sct (mem_logged ! j)))) [0..<length mem_batch] \<and>
    (\<forall>j < length mem_batch. sct_callback (mem_batch ! j) (of_nat (length ([] :: Prepared list) + j)) = Some (prep_sct (mem_logged ! j)))"
  by (rule flush_batch_logs [OF mem_storage_ok [OF mem_env_ok(1)] mem_storage_empty [of mem_slate, folded mem_env_def]])
    (simp_all add: mem_ready mem_inj, simp add: mem_batch_def)

text \<open>C13: flushing any batch on a store that may fail at any point. The flush itself ends without a panic and without an error, and it leaves one of these.
  If the size of the tree cannot be read, which takes a failing store, every submitter gets the same error and the log is unchanged.
  If the preparation of an entry panics (for example in its callback), nothing is logged and nobody is answered.
  Otherwise every submitter gets exactly one answer, in order. An entry that cannot be serialized gets its own error. The others are written as a whole or not at
  all: either the tree is extended by all their leaves and they are told consecutive indices from the old size on, or they all get
  the same error, and then the log is unchanged or the tree extended by all of them (a write that was applied but reported as failed); errors
  take a failing store, a leaf that cannot be encoded, or a batch of which nothing is left. When every entry of the batch can be
  prepared, the records of the storage follow the tree: the log is then the old one or the old one followed by the whole batch.\<close>

theorem flush_batch_atomic:
  assumes "storage_ok E V F" "log_holds E V ps P s" "length ps + length bs \<le> 2 ^ 63"
  shows "\<exists>s' msgs. flush_batch E t1 t2 bs s = (Inr (), s') \<and> sent s' = sent s @ msgs \<and>
    (F \<noteq> {} \<and> log_holds E V ps P s' \<and> (\<exists>e. msgs = map (\<lambda>b. (completion_tx b, Inl e)) bs) \<or>
     (case process_entries E (of_nat (length ps)) bs of
        None \<Rightarrow> msgs = [] \<and> log_holds E V ps P s'
      | Some rs \<Rightarrow> map fst msgs = map completion_tx bs \<and>
          (tree_extended E V ps (prepared rs) P s' \<and> map snd msgs = told (of_nat (length ps)) rs \<or>
           push_can_fail E F (prepared rs) \<and> (log_holds E V ps P s' \<or> tree_extended E V ps (prepared rs) P s') \<and> (\<exists>e. map snd msgs = refused e rs)))) \<and>
    (\<forall>qs. batch_ready E (length ps) bs qs \<and> inj_on (sha256 E) (set (log_certs (ps @ qs))) \<longrightarrow>
       log_holds E V (ps @ qs) (published P (map prep_leaf ps) (map prep_leaf qs)) s' \<and>
         map snd msgs = map (\<lambda>j. Inr (of_nat (length ps + j), prep_sct (qs ! j))) [0..<length bs] \<or>
       (log_holds E V ps P s' \<or> log_holds E V (ps @ qs) (published P (map prep_leaf ps) (map prep_leaf qs)) s') \<and>
         (\<exists>e. map snd msgs = replicate (length bs) (Inl e)))"
proof (cases "bs = []")
  case True
  with assms(2) have "flush_batch E t1 t2 bs s = (Inr (), s)" "flush_left E V F ps P bs [] s"
    by (simp_all add: flush_batch_def ret_def flush_left_def process_entries_def refused_def prepared_def push_can_fail_def List.map_filter_simps)
  with assms(2) True show ?thesis by (intro exI [of _ s] exI [of _ "[]"]) (auto simp: flush_left_def)
next
  case False
  obtain s' msgs where f: "flush_batch E t1 t2 bs s = (Inr (), s')" "sent s' = sent s @ msgs" "flush_left E V F ps P bs msgs s'"
    using flush_any [OF assms False, of t1 t2] by blast
  have "log_holds E V (ps @ qs) (published P (map prep_leaf ps) (map prep_leaf qs)) s' \<and>
         map snd msgs = map (\<lambda>j. Inr (of_nat (length ps + j), prep_sct (qs ! j))) [0..<length bs] \<or>
       (log_holds E V ps P s' \<or> log_holds E V (ps @ qs) (published P (map prep_leaf ps) (map prep_leaf qs)) s') \<and>
         (\<exists>e. map snd msgs = replicate (length bs) (Inl e))"
    if q: "batch_ready E (length ps) bs qs" "inj_on (sha256 E) (set (log_certs (ps @ qs)))" for qs
  proof -
    obtain good where g: "pushed E V F ps qs P good s'" "if good then msgs = ok_answers (length ps) bs qs else \<exists>e. msgs = error_answers bs e"
      using flush_outcome [OF assms(1,2) q False, of t1 t2] f(1,2) by auto
    show ?thesis
    proof (cases good)
      case True
      with g show ?thesis by (simp add: pushed_def ok_answers_def)
    next
      case False
      with g show ?thesis by (auto simp: pushed_def error_answers_def map_replicate_const o_def)
    qed
  qed
  with f show ?thesis unfolding flush_left_def by blast
qed

text \<open>A batch whose first entry cannot be serialized, and one with a callback that panics.\<close>

definition mixed_batch :: "BatchEntry list" where
  "mixed_batch = [(mem_batch ! 0)\<lparr>log_entry := (mem_submitted ! 0)\<lparr>certificate := [77]\<rparr>\<rparr>, mem_batch ! 1]"

definition panic_batch :: "BatchEntry list" where
  "panic_batch = [mem_batch ! 0, (mem_batch ! 1)\<lparr>sct_callback := \<lambda>_. None\<rparr>]"

lemma mixed_process:
  "process_entries (mem_storage_env mem_env) 0 mixed_batch = Some [Inl (0, InvalidFormat ''unsupported'', 100), Inr (mem_logged ! 1)]"
  by code_simp

lemma panic_process: "process_entries (mem_storage_env mem_env) 0 panic_batch = None"
  by code_simp

text \<open>The second entry of the first batch is told index 0, although its leaf was made for index 1; the submitters of the second batch hear nothing.\<close>

theorem flush_batch_atomic_witness:
  "(\<exists>s'. flush_batch (mem_storage_env mem_env) 3 1 mixed_batch mem_storage = (Inr (), s') \<and>
     sent s' = [(100, Inl (InvalidFormat ''unsupported'')), (101, Inr (0, mem_sct))] \<and>
     tree_extended (mem_storage_env mem_env) mem_view [] [mem_logged ! 1] {} s' \<and> entry_index (prep_entry (mem_logged ! 1)) = 1) \<and>
   (\<exists>s'. flush_batch (mem_storage_env mem_env) 3 1 panic_batch mem_storage = (Inr (), s') \<and> sent s' = [] \<and>
     log_holds (mem_storage_env mem_env) mem_view [] {} s')"
proof -
  note flush = flush_batch_atomic [where ?t1.0 = 3 and ?t2.0 = 1, OF mem_storage_ok [OF mem_env_ok(1) [of "{}"]] mem_storage_empty [of mem_slate, folded mem_env_def]]
  let ?rs = "[Inl (0, InvalidFormat ''unsupported'', 100), Inr (mem_logged ! 1)] :: preparation list"
  have p: "prepared ?rs = [mem_logged ! 1]" by (simp add: prepared_def List.map_filter_simps)
  have tx: "map completion_tx mixed_batch = [100, 101]" "sent mem_storage = []" "length mixed_batch = 2" "length panic_batch = 2"
    by (simp_all add: mixed_batch_def panic_batch_def mem_batch_def mem_storage_def)
  have sct: "prep_sct (mem_logged ! 1) = mem_sct" "entry_index (prep_entry (mem_logged ! 1)) = 1"
    by (simp_all add: mem_logged_def mem_stamped_def Let_def)
  have ok: "\<not> push_can_fail (mem_storage_env mem_env) {} [mem_logged ! 1]"
    by (simp add: push_can_fail_def mem_storage_env_def mem_env_def mem_env_of_def)
  obtain s' msgs where m: "flush_batch (mem_storage_env mem_env) 3 1 mixed_batch mem_storage = (Inr (), s')" "sent s' = msgs"
    "map fst msgs = [100, 101]" "map snd msgs = told 0 ?rs" "tree_extended (mem_storage_env mem_env) mem_view [] [mem_logged ! 1] {} s'"
    using flush [of mixed_batch] p ok by (auto simp: tx mixed_process)
  from m(3,4) have "msgs = [(100, Inl (InvalidFormat ''unsupported'')), (101, Inr (0, mem_sct))]" by (auto simp: sct [simplified])
  moreover obtain s'' where "flush_batch (mem_storage_env mem_env) 3 1 panic_batch mem_storage = (Inr (), s'')" "sent s'' = []"
    "log_holds (mem_storage_env mem_env) mem_view [] {} s''"
    using flush [of panic_batch] by (auto simp: tx panic_process)
  ultimately show ?thesis using m sct by auto
qed

section \<open>Lookups\<close>

text \<open>The state after the batch of the instance.\<close>

definition mem_after :: mem_storage where
  "mem_after = snd (flush_batch (mem_storage_env mem_env) 3 1 mem_batch mem_storage)"

lemma mem_after_holds: "\<exists>P. log_holds (mem_storage_env mem_env) mem_view mem_logged P mem_after"
proof -
  obtain s' msgs good where "flush_batch (mem_storage_env mem_env) 3 1 mem_batch mem_storage = (Inr (), s')"
    "pushed (mem_storage_env mem_env) mem_view {} [] mem_logged {} good s'"
    using flush_outcome [OF mem_storage_ok [OF mem_env_ok(1) [of "{}"]] mem_storage_empty [of mem_slate, folded mem_env_def],
        of mem_batch mem_logged 3 1] mem_ready [of mem_env] mem_inj [of mem_env] by (auto simp: mem_batch_def)
  then show ?thesis by (auto simp: mem_after_def pushed_def split: if_splits)
qed

text \<open>An operation that answers, as an equation over the log.\<close>

lemma log_answers:
  assumes "\<And>M. log_ok E ps P M \<Longrightarrow> answers (log_at E V ps P M) m (Inr a) {}" "log_holds E V ps P s"
  shows "\<exists>s'. m s = (Inr a, s') \<and> log_holds E V ps P s'"
proof -
  obtain M where M: "log_ok E ps P M" "log_at E V ps P M s" using assms(2) by (auto simp: log_holds_def)
  from answers_valueD [OF assms(1) [OF M(1)] M(2)] M(1) show ?thesis by (auto simp: log_holds_def)
qed

text \<open>The answers of the lookups on a store that does not fail.\<close>

lemma served:
  assumes "storage_ok E V {}" "log_holds E V ps P s"
  shows "\<exists>s'. get_entry E i s = (Inr (if unat i < length ps then Some (prep_entry (ps ! unat i)) else None), s') \<and> log_holds E V ps P s'"
    "\<exists>s'. find_index_by_hash E h s = (Inr (map_option of_nat (latest (\<lambda>p. leaf_hash_of (sha256 E) p = h) ps)), s') \<and> log_holds E V ps P s'"
    "\<exists>s'. get_sct_by_cert_hash E h s = (Inr (map_option (\<lambda>i. sct_record i (ps ! i)) (latest (\<lambda>p. prep_cert_hash p = h) ps)), s') \<and>
      log_holds E V ps P s'"
    "\<exists>s'. get_deduplicated_entry E i s
      = (Inr (if unat i < length ps then from_log_entry (sha256 E) (prep_entry (ps ! unat i)) else None), s') \<and> log_holds E V ps P s'"
  using log_answers [OF answers_get_entry [OF assms(1), unfolded image_empty] assms(2), of i]
    log_answers [OF answers_find_index [OF assms(1), unfolded image_empty] assms(2), of h]
    log_answers [OF answers_get_sct [OF assms(1), unfolded image_empty] assms(2), of h]
    log_answers [OF answers_get_dedup [OF assms(1), unfolded image_empty] assms(2), of i]
  by blast+

text \<open>C18: every logged entry is served as it was logged. Reading an index gives the entry with its certificate, chain, key hash and
  original pre-certificate put together again from the deduplicated form, the certificate store and the caches; an index
  past the end of the log gives nothing. The log stays as it is, so this holds for any number of reads in any order.\<close>

theorem logged_entries_served:
  assumes "storage_ok E V {}" "log_holds E V ps P s"
  shows "\<exists>s'. map_io (get_entry E) indices s
      = (Inr (map (\<lambda>i. if unat i < length ps then Some (prep_entry (ps ! unat i)) else None) indices), s') \<and> log_holds E V ps P s'"
  using assms(2)
proof (induction indices arbitrary: s)
  case Nil
  then show ?case by (auto simp: ret_def)
next
  case (Cons i js)
  obtain s1 where s1: "get_entry E i s = (Inr (if unat i < length ps then Some (prep_entry (ps ! unat i)) else None), s1)" "log_holds E V ps P s1"
    using served(1) [OF assms(1) Cons.prems] by blast
  from Cons.IH [OF s1(2)] s1(1) show ?case by (auto simp: and_then_def ret_def)
qed

theorem logged_entries_served_witness:
  "\<exists>P s'. map_io (get_entry (mem_storage_env mem_env)) [1, 0, 7, 0] mem_after
      = (Inr (map (\<lambda>i. if unat i < length mem_logged then Some (prep_entry (mem_logged ! unat i)) else None) [1, 0, 7, 0 :: u64]), s') \<and>
    log_holds (mem_storage_env mem_env) mem_view mem_logged P s'"
proof -
  obtain P where P: "log_holds (mem_storage_env mem_env) mem_view mem_logged P mem_after" using mem_after_holds by blast
  from logged_entries_served [OF mem_storage_ok [OF mem_env_ok(1)] P, of "[1, 0, 7, 0]"] show ?thesis by (rule exI)
qed

lemma latest_is_last: "latest Q xs = Some i \<Longrightarrow> i < j \<Longrightarrow> j < length xs \<Longrightarrow> \<not> Q (xs ! j)"
  by (induction xs rule: rev_induct) (auto simp: latest_snoc nth_append less_Suc_eq split: if_splits)

text \<open>The SCT stored for a certificate is the one of its latest entry: the lookup gives the index and SCT of the last entry of the log
  that was submitted with this certificate hash, and nothing if there is none.\<close>

lemma sct_lookup_latest:
  assumes "storage_ok E V {}" "log_holds E V ps P s"
  shows "\<exists>s' r. get_sct_by_cert_hash E h s = (Inr r, s') \<and> log_holds E V ps P s' \<and>
    (case r of
       None \<Rightarrow> \<forall>p \<in> set ps. prep_cert_hash p \<noteq> h
     | Some q \<Rightarrow> \<exists>i < length ps. q = sct_record i (ps ! i) \<and> prep_cert_hash (ps ! i) = h \<and>
         (\<forall>j. i < j \<and> j < length ps \<longrightarrow> prep_cert_hash (ps ! j) \<noteq> h))"
proof -
  obtain s' where "get_sct_by_cert_hash E h s = (Inr (map_option (\<lambda>i. sct_record i (ps ! i)) (latest (\<lambda>p. prep_cert_hash p = h) ps)), s')"
    "log_holds E V ps P s'" using served(3) [OF assms] by blast
  then show ?thesis
    by (cases "latest (\<lambda>p. prep_cert_hash p = h) ps") (auto simp: latest_None dest: latest_SomeD latest_is_last)
qed

section \<open>Proofs for logged entries\<close>

text \<open>A leaf carries its index at its end.\<close>

lemma leaf_index_unique:
  assumes "compute_leaf_data_with_index cert ty kh ts i = Some l" "compute_leaf_data_with_index cert' ty' kh' ts' j = Some l"
  shows "i = j"
proof -
  have i: "unat i < 2 ^ 40" "unat j < 2 ^ 40" using assms by (auto simp: compute_leaf_data_with_index_def serialize_eq split: if_splits)
  have tail: "\<exists>p. l = p @ leaf_index_extension k" if "compute_leaf_data_with_index c t h s k = Some l" for c t h s k
    using that by (auto simp: compute_leaf_data_with_index_def serialize_eq entry_bytes_def index_extension_def vec16_def split: if_splits)
  from tail [OF assms(1)] tail [OF assms(2)] have "leaf_index_extension i = leaf_index_extension j" by auto
  with i show ?thesis by simp
qed

lemma logged_leaf_inject:
  assumes "log_ok E ps P M" "i < length ps" "j < length ps" "prep_leaf (ps ! i) = prep_leaf (ps ! j)"
  shows "i = j"
proof -
  have "(of_nat i :: u64) = of_nat j"
    using log_okD(5) [OF assms(1,2)] log_okD(5) [OF assms(1,3)] assms(4) by (auto simp: logged_at_def intro: leaf_index_unique)
  with assms log_okD(6) [OF assms(1)] show ?thesis by (simp add: of_nat_u64_eq_iff)
qed

lemma latest_logged_leaf:
  assumes "log_ok E ps P M" "i < length ps" "inj_on (sha256 E) ((\<lambda>p. [0x00] @ prep_leaf p) ` set ps)"
  shows "latest (\<lambda>p. leaf_hash_of (sha256 E) p = leaf_hash_of (sha256 E) (ps ! i)) ps = Some i"
proof (rule latest_unique)
  fix j assume j: "j < length ps" "leaf_hash_of (sha256 E) (ps ! j) = leaf_hash_of (sha256 E) (ps ! i)"
  have m: "[0x00] @ prep_leaf (ps ! k) \<in> (\<lambda>p. [0x00] @ prep_leaf p) ` set ps" if "k < length ps" for k
    using that by (intro imageI nth_mem)
  have "[0x00] @ prep_leaf (ps ! j) = [0x00] @ prep_leaf (ps ! i)"
    by (rule inj_onD [OF assms(3) j(2) [unfolded leaf_hash_of_def] m [OF j(1)] m [OF assms(2)]])
  with logged_leaf_inject [OF assms(1) j(1) assms(2)] show "j = i" by simp
qed (use assms(2) in simp_all)

lemma find_logged_leaf:
  assumes "storage_ok E V {}" "log_holds E V ps P s" "i < length ps"
    and "inj_on (sha256 E) ((\<lambda>p. [0x00] @ prep_leaf p) ` set ps)"
  shows "\<exists>s'. find_index_by_hash E (leaf_hash_of (sha256 E) (ps ! i)) s = (Inr (Some (of_nat i)), s') \<and> log_holds E V ps P s'"
proof -
  obtain M where "log_ok E ps P M" using assms(2) by (auto simp: log_holds_def)
  from latest_logged_leaf [OF this assms(3,4)] served(2) [OF assms(1,2), of "leaf_hash_of (sha256 E) (ps ! i)"] show ?thesis by simp
qed

lemma log_holds_tree:
  "log_holds E V ps P s \<longleftrightarrow> (\<exists>M. log_ok E ps P M \<and> log_at E V ps P M s)"
  "log_holds E V ps P s \<Longrightarrow> tree_holds (tree_env E) (v_db V) (v_nodes V) (map prep_leaf ps) P (st_tree s)"
  by (auto simp: log_holds_def log_ok_def log_at_def tree_holds_def)

text \<open>A logged entry can be audited. From its leaf hash alone the lookup gives its index; the committed root covers the whole log; and
  the inclusion proof served for that index at the committed size is accepted by the verifier for the leaf of the entry. The hash
  is assumed not to collide on the leaves of this log.\<close>

lemma logged_entry_provable:
  assumes "storage_ok E V {}" "log_holds E V ps P s" "i < length ps"
    and "inj_on (sha256 E) ((\<lambda>p. [0x00] @ prep_leaf p) ` set ps)"
  shows "\<exists>idx s1 root t2 prf t3.
    find_index_by_hash E (leaf_hash_of (sha256 E) (ps ! i)) s = (Inr (Some idx), s1) \<and>
    ms_committed_root (slate_debug E) (tree_env E) (st_tree s1) = (Inr root, t2) \<and>
    prove_inclusion_efficient (slate_debug E) (tree_env E) (num_leaves root) idx t2 = (Inr prf, t3) \<and>
    idx = of_nat i \<and> num_leaves root = of_nat (length ps) \<and>
    inclusion_verify (sha256 E) prf (prep_leaf (ps ! i)) idx root = Some (Inr ())"
proof -
  let ?D = "map prep_leaf ps" and ?T = "tree_env E"
  have env: "env_ok ?T (v_db V) (v_nodes V) {}" using storage_okD(1) [OF assms(1)] .
  obtain s1 where s1: "find_index_by_hash E (leaf_hash_of (sha256 E) (ps ! i)) s = (Inr (Some (of_nat i)), s1)" "log_holds E V ps P s1"
    using find_logged_leaf [OF assms] by blast
  note h1 = log_holds_tree(2) [OF s1(2)]
  obtain t2 where t2: "ms_committed_root (slate_debug E) ?T (st_tree s1) = (Inr \<lparr>root_hash = mth (digest_of ?T) ?D, num_leaves = of_nat (length ?D)\<rparr>, t2)"
    "tree_holds ?T (v_db V) (v_nodes V) ?D P t2"
    using ms_committed_root_value [OF env h1] by blast
  note b = tree_holds_bounds [OF t2(2)]
  have P: "length ?D \<in> P" "unat (of_nat (length ps) :: u64) = length ps" "unat (of_nat i :: u64) = i"
    using b assms(3) by (auto simp: sizes_ok_def unat_of_nat)
  obtain t3 where t3: "prove_inclusion_efficient (slate_debug E) ?T (of_nat (length ps)) (of_nat i) t2
      = (map_sum Err id (spec_ms_inclusion (digest_of ?T) ?D P (of_nat (length ps)) (of_nat i)), t3)"
    using ms_inclusion_refines [OF env t2(2)] by blast
  have "spec_ms_inclusion (digest_of ?T) ?D P (of_nat (length ps)) (of_nat i) = Inr (inclusion_from_digests (path (digest_of ?T) i ?D))"
    using P assms(3) by (simp add: spec_ms_inclusion_def word_le_nat_alt)
  moreover have "inclusion_verify (sha256 E) (inclusion_from_digests (path (digest_of ?T) i ?D)) (prep_leaf (ps ! i)) (of_nat i)
      \<lparr>root_hash = mth (digest_of ?T) ?D, num_leaves = of_nat (length ?D)\<rparr> = Some (Inr ())"
    using inclusion_verify_accepts [of "digest_of ?T" i ?D] env assms(3) b by (simp add: sha256_def env_ok_def)
  ultimately show ?thesis using s1 t2 t3 by auto
qed

end
