(* ===== verification/Batch_Worker_Props.thy ===== *)
theory Batch_Worker_Props
  imports Batch_Worker Ct_Storage_Props
begin

text \<open>
  What the batching promises to those who submit: nothing accepted is lost or reordered, batches and the channel are bounded,
  accepted entries are logged at consecutive indices in the order of acceptance, and the worker alone always gets to the
  point where all of them are answered.
\<close>

section \<open>An instance\<close>

text \<open>Two submissions fill a batch; the worker receives the first, takes the second along and flushes.\<close>

definition mem_config :: BatchConfig where
  "mem_config = \<lparr>max_batch_size = 2, max_batch_timeout_ms = 50\<rparr>"

definition mem_submit :: "BatchEntry list \<Rightarrow> (key_values, u64 \<times> u64 \<rightharpoonup> bytes, u8 \<times> u64 \<rightharpoonup> bool, bytes \<rightharpoonup> bytes, u64 \<rightharpoonup> LogEntry) Worker" where
  "mem_submit bs = fold (\<lambda>b w. snd (try_send mem_config b w)) bs (worker_new mem_storage 7)"

definition mem_worker :: "(key_values, u64 \<times> u64 \<rightharpoonup> bytes, u8 \<times> u64 \<rightharpoonup> bool, bytes \<rightharpoonup> bytes, u64 \<rightharpoonup> LogEntry) Worker" where
  "mem_worker = received (mem_storage_env mem_env) mem_config 3 1 (mem_batch ! 0) [mem_batch ! 1] (mem_submit mem_batch)"

lemma mem_batch_pair: "mem_batch = [mem_batch ! 0, mem_batch ! 1]"
  by (simp add: mem_batch_def)

lemma mem_submit_pair:
  "mem_submit [a, b] = (worker_new mem_storage 7)\<lparr>channel := [a, b], accepted := [a, b]\<rparr>"
  by (simp add: mem_submit_def try_send_def worker_new_def channel_capacity_def)

lemma mem_submit_run:
  "worker_run E mem_config (map Submit bs) (worker_new mem_storage 7) (mem_submit bs)"
proof (induction bs rule: rev_induct)
  case Nil
  show ?case by (simp add: mem_submit_def worker_run.start)
next
  case (snoc b bs)
  have "\<not> senders_dropped (mem_submit bs)"
    unfolding mem_submit_def by (induction bs rule: rev_induct) (simp_all add: try_send_def worker_new_def)
  with snoc show ?case by (auto simp: mem_submit_def intro!: worker_run.step worker_step.submit)
qed

lemma mem_worker_run:
  "worker_run (mem_storage_env mem_env) mem_config (map Submit mem_batch @ [Receive 3 1]) (worker_new mem_storage 7) mem_worker"
  unfolding mem_worker_def
proof (rule worker_run.step [OF mem_submit_run], rule worker_step.receive)
  show "running (mem_submit mem_batch)" "channel (mem_submit mem_batch) = [mem_batch ! 0, mem_batch ! 1]"
    by (subst mem_batch_pair, simp add: mem_submit_pair worker_new_def)+
qed

lemma mem_worker_accepted: "accepted mem_worker = mem_batch" "accepted (mem_submit mem_batch) = mem_batch" "running (mem_submit mem_batch)"
proof -
  show a: "accepted (mem_submit mem_batch) = mem_batch" "running (mem_submit mem_batch)"
    by (subst (1 2) mem_batch_pair, simp add: mem_submit_pair worker_new_def)
      (subst mem_batch_pair, simp add: mem_submit_pair worker_new_def)
  show "accepted mem_worker = mem_batch"
    by (simp add: mem_worker_def received_def Let_def a split: prod.split)
qed

lemma mem_loggable: "loggable (mem_storage_env mem_env) [] mem_batch"
proof -
  have "entry_ready (mem_storage_env mem_env) 0 (mem_batch ! 0)" "entry_ready (mem_storage_env mem_env) 1 (mem_batch ! 1)"
    by code_simp+
  moreover have "batch_certs mem_batch = [[2], [3], [1], [9], [3]]" by code_simp
  moreover have "length mem_batch = 2" by (simp add: mem_batch_def)
  ultimately show ?thesis
    by (simp add: loggable_def log_certs_def sha256_def mem_storage_env_def toy_hash_def inj_on_def less_2_cases_iff all_conj_distrib
        flip: all_simps)
qed

section \<open>Properties\<close>

text \<open>Nothing that was accepted is lost, duplicated or reordered. In every reachable state the accepted entries are, in their order, the entries of
  the batches flushed so far, then the pending batch, then the channel. Every flushed batch is non-empty and no larger than the
  configured size (one entry if that is 0), the pending batch is smaller, and the channel holds at most its capacity.\<close>

lemma worker_keeps_order:
  assumes "worker_run E config evs (worker_new s t) w"
  shows "accepted w = concat (flushed w) @ pending_entries w @ channel w \<and>
    list_all (\<lambda>b. 0 < length b \<and> length b \<le> max 1 (max_batch_size config)) (flushed w) \<and>
    (pending_entries w = [] \<or> length (pending_entries w) < max_batch_size config) \<and>
    length (channel w) \<le> max (max_batch_size config * 2) 500"
  using worker_run_inv [OF assms worker_new_inv] by (auto simp: worker_inv_def channel_capacity_def list_all_iff)

text \<open>C6: accepted entries are logged in the order of acceptance. After any run of submissions, worker iterations and waiting, on a store that does
  not fail, the log is the log before the run followed by the flushed entries: the j-th accepted entry stands at index
  length of the old log + j, its record is the submission with that index and its leaf, and its submitter alone has been sent that
  index with the SCT its callback made for it. The entries not yet flushed are pending or in the channel.\<close>

theorem accepted_entries_logged_in_order:
  assumes "storage_ok E V {}" "log_holds E V ps P s" "worker_run E config evs (worker_new s t) w" "loggable E ps (accepted w)"
  shows "\<exists>qs P'. log_holds E V (ps @ qs) P' (store w) \<and>
    accepted w = take (length qs) (accepted w) @ pending_entries w @ channel w \<and>
    (\<forall>j < length qs. logs (length ps + j) (accepted w ! j) (qs ! j)) \<and>
    sent (store w) = sent s @ map (\<lambda>j. (completion_tx (accepted w ! j), Inr (of_nat (length ps + j), prep_sct (qs ! j)))) [0..<length qs]"
proof -
  have inv: "accepted w = concat (flushed w) @ pending_entries w @ channel w"
    using worker_run_inv [OF assms(3) worker_new_inv] by (simp add: worker_inv_def)
  obtain qs P' where q: "log_holds E V (ps @ qs) P' (store w)" "length qs = length (concat (flushed w))"
    "\<forall>j < length qs. logs (length ps + j) (concat (flushed w) ! j) (qs ! j)"
    "sent (store w) = sent s @ map (\<lambda>j. (completion_tx (concat (flushed w) ! j), Inr (of_nat (length ps + j), prep_sct (qs ! j)))) [0..<length qs]"
    using worker_run_log [OF assms(3,1) worker_new_inv worker_new_log [OF assms(2)] assms(4)] unfolding worker_log_def by blast
  have nth: "concat (flushed w) ! j = accepted w ! j" if "j < length qs" for j
    using that q(2) by (simp add: inv nth_append)
  have "take (length qs) (accepted w) = concat (flushed w)" by (simp add: inv q(2))
  then show ?thesis
    using inv q nth by (intro exI [of _ qs] exI [of _ P']) simp
qed

theorem accepted_entries_logged_in_order_witness:
  "\<exists>qs P'. log_holds (mem_storage_env mem_env) mem_view ([] @ qs) P' (store mem_worker) \<and>
    accepted mem_worker = take (length qs) (accepted mem_worker) @ pending_entries mem_worker @ channel mem_worker \<and>
    (\<forall>j < length qs. logs (length ([] :: Prepared list) + j) (accepted mem_worker ! j) (qs ! j)) \<and>
    sent (store mem_worker) = sent mem_storage @ map (\<lambda>j. (completion_tx (accepted mem_worker ! j),
      Inr (of_nat (length ([] :: Prepared list) + j), prep_sct (qs ! j)))) [0..<length qs]"
  by (rule accepted_entries_logged_in_order [OF mem_storage_ok [OF mem_env_ok(1)] mem_storage_empty [of mem_slate, folded mem_env_def] mem_worker_run])
    (simp add: mem_worker_accepted mem_loggable)

text \<open>C14: every accepted entry is answered. From every reachable state with a running worker, the iterations of the worker and the passing of
  time alone, in at most two steps more than there are entries in the channel, lead to a state with nothing pending and an empty
  channel, in which every accepted entry is logged and its submitter has been sent its index and SCT.\<close>

theorem accepted_entries_eventually_answered:
  assumes "storage_ok E V {}" "log_holds E V ps P s" "worker_run E config evs (worker_new s t) w" "loggable E ps (accepted w)" "running w"
  shows "\<exists>evs' w' qs P'. worker_run E config evs' w w' \<and> list_all internal evs' \<and> length evs' \<le> length (channel w) + 2 \<and>
    log_holds E V (ps @ qs) P' (store w') \<and> pending_entries w' = [] \<and> channel w' = [] \<and> length qs = length (accepted w) \<and>
    sent (store w') = sent s @ map (\<lambda>j. (completion_tx (accepted w ! j), Inr (of_nat (length ps + j), prep_sct (qs ! j)))) [0..<length (accepted w)]"
proof -
  note inv = worker_run_inv [OF assms(3) worker_new_inv]
  note log = worker_run_log [OF assms(3,1) worker_new_inv worker_new_log [OF assms(2)] assms(4)]
  obtain evs' w' where r: "worker_run E config evs' w w'" "list_all internal evs'" "length evs' \<le> length (channel w) + 2"
    "channel w' = []" "pending_entries w' = []" "accepted w' = accepted w" "running w'"
    using worker_drains [OF assms(1) inv log assms(5,4)] by blast
  have "worker_log E V ps (sent s) (concat (flushed w')) (store w')"
    by (rule worker_run_log [OF r(1) assms(1) inv log]) (simp add: r(6) assms(4))
  moreover have "concat (flushed w') = accepted w"
    using worker_run_inv [OF r(1) inv] r(4-6) by (simp add: worker_inv_def)
  ultimately obtain qs P' where "log_holds E V (ps @ qs) P' (store w')" "length qs = length (accepted w)"
    "sent (store w') = sent s @ map (\<lambda>j. (completion_tx (accepted w ! j), Inr (of_nat (length ps + j), prep_sct (qs ! j)))) [0..<length qs]"
    by (auto simp: worker_log_def)
  with r show ?thesis by (intro exI [of _ evs'] exI [of _ w'] exI [of _ qs] exI [of _ P']) simp
qed

theorem accepted_entries_eventually_answered_witness:
  "\<exists>evs' w' qs P'. worker_run (mem_storage_env mem_env) mem_config evs' (mem_submit mem_batch) w' \<and> list_all internal evs' \<and>
    length evs' \<le> length (channel (mem_submit mem_batch)) + 2 \<and>
    log_holds (mem_storage_env mem_env) mem_view ([] @ qs) P' (store w') \<and> pending_entries w' = [] \<and> channel w' = [] \<and>
    length qs = length (accepted (mem_submit mem_batch)) \<and>
    sent (store w') = sent mem_storage @ map (\<lambda>j. (completion_tx (accepted (mem_submit mem_batch) ! j),
      Inr (of_nat (length ([] :: Prepared list) + j), prep_sct (qs ! j)))) [0..<length (accepted (mem_submit mem_batch))]"
  by (rule accepted_entries_eventually_answered [OF mem_storage_ok [OF mem_env_ok(1)] mem_storage_empty [of mem_slate, folded mem_env_def]
        mem_submit_run])
    (simp_all add: mem_worker_accepted mem_loggable)

end
