(* ===== verification/Validator.thy ===== *)
theory Validator
  imports Tbs_Extractor Slate_Tree
begin

text \<open>
  \<^verbatim>\<open>src/src/validation/rfc6962_validator.rs\<close>: the checks a submitted chain must pass. Beside the DER operations of
  \<open>X509Ops\<close>, OpenSSL (\<^verbatim>\<open>X509::from_der\<close>, \<^verbatim>\<open>public_key\<close>, \<^verbatim>\<open>verify\<close>), the foyer cache of parsed certificates, SHA-256 and the
  rendering of times are parameters (\<open>ValidatorEnv\<close>). The state of the operations is the cache. Directories and URLs of root
  certificates are configuration that the validator itself does not read.
\<close>

section \<open>Data\<close>

datatype CcadbEnvironment = Production | Test

definition CCADB_PRODUCTION_URL :: string where
  "CCADB_PRODUCTION_URL = ''https://ccadb.my.salesforce-sites.com/ccadb/RootCACertificatesIncludedByRSReportCSV''"

definition CCADB_TEST_URL :: string where
  "CCADB_TEST_URL = ''https://ccadb.my.salesforce-sites.com/ccadb/RootCACertificatesInclusionReportCSV''"

fun ccadb_url :: "CcadbEnvironment \<Rightarrow> string" where
  "ccadb_url Production = CCADB_PRODUCTION_URL"
| "ccadb_url Test = CCADB_TEST_URL"

record TemporalWindow =
  window_start :: DateTime
  window_end :: DateTime

record Rfc6962ValidationConfig =
  trusted_roots_dir :: string
  max_chain_length :: nat
  allowed_signature_algorithms :: "oid list"
  temporal_window :: "TemporalWindow option"
  ccadb :: CcadbEnvironment

definition Rfc6962ValidationConfig_default :: Rfc6962ValidationConfig where
  "Rfc6962ValidationConfig_default =
     \<lparr>trusted_roots_dir = ''trusted_roots'', max_chain_length = 10,
      allowed_signature_algorithms =
        [ECDSA_WITH_SHA256_OID, ECDSA_WITH_SHA384_OID, ECDSA_WITH_SHA512_OID, SHA256_WITH_RSA_ENCRYPTION_OID,
         SHA384_WITH_RSA_ENCRYPTION_OID, SHA512_WITH_RSA_ENCRYPTION_OID, SHA1_WITH_RSA_ENCRYPTION_OID],
      temporal_window = None, ccadb = Production\<rparr>"

record ('c, 'x, 'k) ValidatorEnv =
  der_ops :: X509Ops
  x509_from_der :: "bytes \<Rightarrow> string + 'x"
  public_key :: "'x \<Rightarrow> string + 'k"
  x509_verify :: "'x \<Rightarrow> 'k \<Rightarrow> string + bool"
  x509_cache_ops :: "('c, bytes, 'x) CacheOps"
  v_sha256 :: digest_fun
  format_time :: "DateTime \<Rightarrow> string"

record Rfc6962Validator =
  v_config :: Rfc6962ValidationConfig
  trusted_roots :: "Certificate list"
  trusted_root_hashes :: "bytes list"

record ChainValidationContext =
  is_precert :: bool
  has_signing_cert :: bool
  real_issuer_index :: nat
  parsed_chain :: "Certificate list"

type_synonym ('c, 'a) validation = "('c, CtError, 'a) io"

section \<open>Construction\<close>

definition v_cert_der :: "('c, 'x, 'k) ValidatorEnv \<Rightarrow> Certificate \<Rightarrow> CtError + bytes" where
  "v_cert_der E cert =
     (case cert_to_der (der_ops E) cert of
        Inl e \<Rightarrow> Inl (Internal (''Failed to encode certificate: '' @ e))
      | Inr der \<Rightarrow> Inr der)"

definition v_certificate_hash :: "('c, 'x, 'k) ValidatorEnv \<Rightarrow> Certificate \<Rightarrow> CtError + bytes" where
  "v_certificate_hash E cert = (case v_cert_der E cert of Inl e \<Rightarrow> Inl e | Inr der \<Rightarrow> Inr (v_sha256 E der))"

text \<open>\<^verbatim>\<open>iter().map(f).collect::<Result<_>>()\<close>: the first error, or all results.\<close>

fun collect_results :: "('a \<Rightarrow> 'e + 'b) \<Rightarrow> 'a list \<Rightarrow> 'e + 'b list" where
  "collect_results f [] = Inr []"
| "collect_results f (x # xs) =
     (case f x of
        Inl e \<Rightarrow> Inl e
      | Inr y \<Rightarrow> (case collect_results f xs of Inl e \<Rightarrow> Inl e | Inr ys \<Rightarrow> Inr (y # ys)))"

definition with_trusted_roots ::
  "('c, 'x, 'k) ValidatorEnv \<Rightarrow> Rfc6962ValidationConfig \<Rightarrow> Certificate list \<Rightarrow> CtError + Rfc6962Validator" where
  "with_trusted_roots E conf roots =
     (case collect_results (v_certificate_hash E) roots of
        Inl e \<Rightarrow> Inl e
      | Inr root_hashes \<Rightarrow> Inr \<lparr>v_config = conf, trusted_roots = roots, trusted_root_hashes = root_hashes\<rparr>)"

definition get_accepted_roots :: "('c, 'x, 'k) ValidatorEnv \<Rightarrow> Rfc6962Validator \<Rightarrow> CtError + bytes list" where
  "get_accepted_roots E v = collect_results (v_cert_der E) (trusted_roots v)"

section \<open>Kinds of certificates\<close>

fun find_ca_flag :: "X509Ops \<Rightarrow> X509Extension list \<Rightarrow> bool" where
  "find_ca_flag X [] = False"
| "find_ca_flag X (ext # exts) =
     (if extn_id ext = BASIC_CONSTRAINTS_OID
      then (case basic_constraints X (extn_value ext) of Some ca \<Rightarrow> ca | None \<Rightarrow> find_ca_flag X exts)
      else find_ca_flag X exts)"

definition is_ca_certificate :: "('c, 'x, 'k) ValidatorEnv \<Rightarrow> Certificate \<Rightarrow> bool" where
  "is_ca_certificate E cert = find_ca_flag (der_ops E) (exts_of cert)"

fun find_poison_extension :: "X509Extension list \<Rightarrow> CtError + bool" where
  "find_poison_extension [] = Inr False"
| "find_poison_extension (ext # exts) =
     (if extn_id ext = CT_POISON_EXTENSION_OID
      then if \<not> critical ext then Inl (BadRequest ''Precertificate poison extension must be critical'')
           else if extn_value ext \<noteq> ASN1_NULL then Inl (BadRequest ''Precertificate poison extension must contain ASN.1 NULL'')
           else Inr True
      else find_poison_extension exts)"

definition v_is_precertificate :: "Certificate \<Rightarrow> CtError + bool" where
  "v_is_precertificate cert = find_poison_extension (exts_of cert)"

definition signing_certificate_flags :: "X509Ops \<Rightarrow> X509Extension \<Rightarrow> bool \<times> bool \<Rightarrow> bool \<times> bool" where
  "signing_certificate_flags X ext flags =
     (case flags of (has_ca_true, has_ct_eku) \<Rightarrow>
        if extn_id ext = BASIC_CONSTRAINTS_OID
        then (case basic_constraints X (extn_value ext) of Some ca \<Rightarrow> (ca, has_ct_eku) | None \<Rightarrow> (has_ca_true, has_ct_eku))
        else if extn_id ext = EXTENDED_KEY_USAGE_OID
        then (case ext_key_usage X (extn_value ext) of
                Some eku \<Rightarrow> (has_ca_true, has_ct_eku \<or> CT_EKU_OID \<in> set eku)
              | None \<Rightarrow> (has_ca_true, has_ct_eku))
        else (has_ca_true, has_ct_eku))"

definition is_precert_signing_certificate :: "('c, 'x, 'k) ValidatorEnv \<Rightarrow> Certificate \<Rightarrow> bool" where
  "is_precert_signing_certificate E cert =
     (case fold (signing_certificate_flags (der_ops E)) (exts_of cert) (False, False) of (ca, eku) \<Rightarrow> ca \<and> eku)"

section \<open>Analysis of a chain\<close>

fun parse_chain :: "X509Ops \<Rightarrow> nat \<Rightarrow> bytes list \<Rightarrow> CtError + Certificate list" where
  "parse_chain X i [] = Inr []"
| "parse_chain X i (cert_der # ders) =
     (case cert_from_der X cert_der of
        Inl e \<Rightarrow> Inl (BadRequest (''Failed to parse certificate at index '' @ dec_nat i @ '': '' @ e))
      | Inr cert \<Rightarrow> (case parse_chain X (i + 1) ders of Inl e \<Rightarrow> Inl e | Inr certs \<Rightarrow> Inr (cert # certs)))"

definition analyze_chain ::
  "('c, 'x, 'k) ValidatorEnv \<Rightarrow> Rfc6962Validator \<Rightarrow> bytes list \<Rightarrow> CtError + ChainValidationContext" where
  "analyze_chain E v chn =
     (if chn = [] then Inl (BadRequest ''Certificate chain is empty'')
      else if max_chain_length (v_config v) < length chn
      then Inl (BadRequest (''Certificate chain length '' @ dec_nat (length chn) @ '' exceeds maximum '' @ dec_nat (max_chain_length (v_config v))))
      else case parse_chain (der_ops E) 0 chn of
          Inl e \<Rightarrow> Inl e
        | Inr certs \<Rightarrow>
            (case v_is_precertificate (certs ! 0) of
               Inl e \<Rightarrow> Inl e
             | Inr precert \<Rightarrow>
                 let signing = precert \<and> 2 \<le> length certs \<and> is_precert_signing_certificate E (certs ! 1)
                 in if signing \<and> length certs < 3
                    then Inl (BadRequest ''Precertificate signed by signing certificate requires real issuer in chain'')
                    else Inr \<lparr>is_precert = precert, has_signing_cert = signing,
                              real_issuer_index = (if signing then 2 else 1), parsed_chain = certs\<rparr>))"

section \<open>Checks on single certificates\<close>

definition verify_precert_signing_cert :: "Certificate \<Rightarrow> Certificate \<Rightarrow> CtError + unit" where
  "verify_precert_signing_cert signing_cert real_issuer =
     (if issuer (tbs_certificate signing_cert) \<noteq> subject (tbs_certificate real_issuer)
      then Inl (BadRequest ''Precertificate Signing Certificate must be directly issued by the CA'')
      else Inr ())"

definition validate_certificate_basic ::
  "('c, 'x, 'k) ValidatorEnv \<Rightarrow> Rfc6962Validator \<Rightarrow> Certificate \<Rightarrow> nat \<Rightarrow> CtError + unit" where
  "validate_certificate_basic E v cert index =
     (if signature_algorithm cert \<notin> set (allowed_signature_algorithms (v_config v))
      then Inl (BadRequest (''Certificate at index '' @ dec_nat index @ '' uses disallowed signature algorithm: '' @ signature_algorithm cert))
      else if index = 0
      then (case temporal_window (v_config v) of
              None \<Rightarrow> Inr ()
            | Some window \<Rightarrow>
                let na = not_after (tbs_certificate cert)
                in if datetime_less na (window_start window)
                   then Inl (BadRequest (''Certificate expires before log temporal window starts: '' @ format_time E na @ '' < '' @ format_time E (window_start window)))
                   else if \<not> datetime_less na (window_end window)
                   then Inl (BadRequest (''Certificate expires outside log temporal window: '' @ format_time E na @ '' >= '' @ format_time E (window_end window)))
                   else Inr ())
      else Inr ())"

fun validate_basics :: "('c, 'x, 'k) ValidatorEnv \<Rightarrow> Rfc6962Validator \<Rightarrow> nat \<Rightarrow> Certificate list \<Rightarrow> CtError + unit" where
  "validate_basics E v i [] = Inr ()"
| "validate_basics E v i (cert # certs) =
     (case validate_certificate_basic E v cert i of Inl e \<Rightarrow> Inl e | Inr _ \<Rightarrow> validate_basics E v (i + 1) certs)"

section \<open>Signatures\<close>

definition cert_to_x509 :: "('c, 'x, 'k) ValidatorEnv \<Rightarrow> Certificate \<Rightarrow> ('c, 'x) validation" where
  "cert_to_x509 E cert =
     and_then (of_result (v_cert_der E cert)) (\<lambda>cert_der.
     let der_hash = v_sha256 E cert_der in
     and_then (\<lambda>c. case cache_get (x509_cache_ops E) der_hash c of (r, c') \<Rightarrow> (Inr r, c')) (\<lambda>cached.
     case cached of
       Some x509 \<Rightarrow> ret x509
     | None \<Rightarrow>
         and_then (of_result (case x509_from_der E cert_der of
             Inl e \<Rightarrow> Inl (Internal (''Failed to parse certificate: '' @ e)) | Inr x \<Rightarrow> Inr x)) (\<lambda>x509.
         and_then (if is_ca_certificate E cert then modify (cache_insert (x509_cache_ops E) der_hash x509) else ret ()) (\<lambda>_.
         ret x509))))"

text \<open>The inner loop over the trusted roots; \<open>True\<close> is the early return with success.\<close>

fun verified_by_root ::
  "('c, 'x, 'k) ValidatorEnv \<Rightarrow> Certificate \<Rightarrow> 'x \<Rightarrow> Certificate list \<Rightarrow> ('c, bool) validation" where
  "verified_by_root E cert cert_x509 [] = ret False"
| "verified_by_root E cert cert_x509 (root # roots) =
     (if issuer (tbs_certificate cert) = subject (tbs_certificate root)
      then
        and_then (cert_to_x509 E root) (\<lambda>root_x509.
        and_then (of_result (case public_key E root_x509 of
            Inl e \<Rightarrow> Inl (Internal (''Failed to extract root public key: '' @ e)) | Inr k \<Rightarrow> Inr k)) (\<lambda>root_pubkey.
        if x509_verify E cert_x509 root_pubkey = Inr True
        then and_then (of_result (v_certificate_hash E root)) (\<lambda>_. ret True)
        else verified_by_root E cert cert_x509 roots))
      else verified_by_root E cert cert_x509 roots)"

fun any_verified ::
  "('c, 'x, 'k) ValidatorEnv \<Rightarrow> Certificate list \<Rightarrow> (Certificate \<times> 'x) list \<Rightarrow> ('c, bool) validation" where
  "any_verified E roots [] = ret False"
| "any_verified E roots ((cert, x509) # rest) =
     and_then (verified_by_root E cert x509 roots) (\<lambda>found. if found then ret True else any_verified E roots rest)"

text \<open>The chain is not empty here: it was analyzed.\<close>

definition verify_chain_to_root :: "('c, 'x, 'k) ValidatorEnv \<Rightarrow> Rfc6962Validator \<Rightarrow> Certificate list \<Rightarrow> ('c, unit) validation" where
  "verify_chain_to_root E v certs =
     (if trusted_roots v = [] then raise (BadRequest ''No trusted roots configured'')
      else if certs = [] then panic
      else
        and_then (of_result (v_certificate_hash E (certs ! (length certs - 1)))) (\<lambda>last_cert_hash.
        if last_cert_hash \<in> set (trusted_root_hashes v) then ret ()
        else
          and_then (map_io (cert_to_x509 E) certs) (\<lambda>chain_x509s.
          and_then (any_verified E (trusted_roots v) (zip certs chain_x509s)) (\<lambda>found.
          if found then ret () else raise (BadRequest ''Certificate chain does not terminate in a trusted root'')))))"

fun verify_links :: "('c, 'x, 'k) ValidatorEnv \<Rightarrow> nat \<Rightarrow> 'x list \<Rightarrow> CtError + unit" where
  "verify_links E i (cert # next # rest) =
     (case public_key E next of
        Inl e \<Rightarrow> Inl (Internal (''Failed to extract issuer public key at index '' @ dec_nat (i + 1) @ '': '' @ e))
      | Inr issuer_pubkey \<Rightarrow>
          (case x509_verify E cert issuer_pubkey of
             Inl e \<Rightarrow> Inl (Internal (''Failed to verify signature at index '' @ dec_nat i @ '': '' @ e))
           | Inr verified \<Rightarrow>
               if \<not> verified then Inl (BadRequest (''Certificate at index '' @ dec_nat i @ '' has invalid signature''))
               else verify_links E (i + 1) (next # rest)))"
| "verify_links E i _ = Inr ()"

definition verify_self_signed :: "('c, 'x, 'k) ValidatorEnv \<Rightarrow> Certificate \<Rightarrow> 'x \<Rightarrow> CtError + unit" where
  "verify_self_signed E original_last last_cert =
     (if subject (tbs_certificate original_last) = issuer (tbs_certificate original_last)
      then (case public_key E last_cert of
              Inl e \<Rightarrow> Inl (Internal (''Failed to extract public key from self-signed cert: '' @ e))
            | Inr pubkey \<Rightarrow>
                (case x509_verify E last_cert pubkey of
                   Inl e \<Rightarrow> Inl (Internal (''Failed to verify self-signed certificate: '' @ e))
                 | Inr verified \<Rightarrow> if \<not> verified then Inl (BadRequest ''Self-signed certificate has invalid signature'') else Inr ()))
      else Inr ())"

definition verify_chain_signatures :: "('c, 'x, 'k) ValidatorEnv \<Rightarrow> Certificate list \<Rightarrow> ('c, unit) validation" where
  "verify_chain_signatures E certs =
     (if certs = [] then ret ()
      else
        and_then (map_io (cert_to_x509 E) certs) (\<lambda>x509_chain.
        and_then (of_result (verify_links E 0 x509_chain)) (\<lambda>_.
        of_result (verify_self_signed E (certs ! (length certs - 1)) (x509_chain ! (length x509_chain - 1))))))"

section \<open>Validation\<close>

definition validate_chain_with_context ::
  "('c, 'x, 'k) ValidatorEnv \<Rightarrow> Rfc6962Validator \<Rightarrow> ChainValidationContext \<Rightarrow> ('c, unit) validation" where
  "validate_chain_with_context E v ctx =
     and_then (of_result (validate_basics E v 0 (parsed_chain ctx))) (\<lambda>_.
     and_then (if is_precert ctx \<and> has_signing_cert ctx
               then (if length (parsed_chain ctx) < 3 then panic
                     else of_result (verify_precert_signing_cert (parsed_chain ctx ! 1) (parsed_chain ctx ! 2)))
               else ret ()) (\<lambda>_.
     and_then (verify_chain_to_root E v (parsed_chain ctx)) (\<lambda>_.
     verify_chain_signatures E (parsed_chain ctx))))"

definition validate_chain :: "('c, 'x, 'k) ValidatorEnv \<Rightarrow> Rfc6962Validator \<Rightarrow> bytes list \<Rightarrow> ('c, unit) validation" where
  "validate_chain E v chn =
     and_then (of_result (analyze_chain E v chn)) (\<lambda>ctx. validate_chain_with_context E v ctx)"

text \<open>The issuer is looked up by index; an index past the end of the chain panics.\<close>

definition v_extract_issuer_key_hash :: "('c, 'x, 'k) ValidatorEnv \<Rightarrow> Rfc6962Validator \<Rightarrow> bytes list \<Rightarrow> CtError exc + bytes" where
  "v_extract_issuer_key_hash E v chn =
     (case analyze_chain E v chn of
        Inl e \<Rightarrow> Inl (Err e)
      | Inr ctx \<Rightarrow>
          if \<not> is_precert ctx then Inl (Err (BadRequest ''Can only extract issuer key hash for precertificate chains''))
          else if length (parsed_chain ctx) \<le> real_issuer_index ctx then Inl Panic
          else map_sum Err id (spki_hash (v_sha256 E) (der_ops E) (parsed_chain ctx ! real_issuer_index ctx)))"

end
