(* ===== verification/Validator_Props.thy ===== *)
theory Validator_Props
  imports Validator Slate_Tree_Inv
begin

text \<open>
  What the validator guarantees. The reference \<open>spec_validate\<close> is the validation without the cache of parsed certificates; the
  operations with the cache answer the same as long as the hash does not collide on the encodings that were seen. What an
  accepted chain satisfies is read off the reference.
\<close>

section \<open>The reference\<close>

definition x509_of :: "('c, 'x, 'k) ValidatorEnv \<Rightarrow> Certificate \<Rightarrow> CtError + 'x" where
  "x509_of E cert = res_bind (v_cert_der E cert) (\<lambda>der. case x509_from_der E der of
     Inl e \<Rightarrow> Inl (Internal (''Failed to parse certificate: '' @ e)) | Inr x \<Rightarrow> Inr x)"

fun spec_by_root :: "('c, 'x, 'k) ValidatorEnv \<Rightarrow> Certificate \<Rightarrow> 'x \<Rightarrow> Certificate list \<Rightarrow> CtError + bool" where
  "spec_by_root E cert x [] = Inr False"
| "spec_by_root E cert x (root # roots) =
     (if issuer (tbs_certificate cert) = subject (tbs_certificate root)
      then
        res_bind (x509_of E root) (\<lambda>root_x509.
        res_bind (case public_key E root_x509 of
            Inl e \<Rightarrow> Inl (Internal (''Failed to extract root public key: '' @ e)) | Inr k \<Rightarrow> Inr k) (\<lambda>root_pubkey.
        if x509_verify E x root_pubkey = Inr True then res_bind (v_certificate_hash E root) (\<lambda>_. Inr True)
        else spec_by_root E cert x roots))
      else spec_by_root E cert x roots)"

fun spec_any_verified :: "('c, 'x, 'k) ValidatorEnv \<Rightarrow> Certificate list \<Rightarrow> (Certificate \<times> 'x) list \<Rightarrow> CtError + bool" where
  "spec_any_verified E roots [] = Inr False"
| "spec_any_verified E roots ((cert, x) # rest) =
     res_bind (spec_by_root E cert x roots) (\<lambda>found. if found then Inr True else spec_any_verified E roots rest)"

definition spec_to_root :: "('c, 'x, 'k) ValidatorEnv \<Rightarrow> Rfc6962Validator \<Rightarrow> Certificate list \<Rightarrow> CtError + unit" where
  "spec_to_root E v certs =
     (if trusted_roots v = [] then Inl (BadRequest ''No trusted roots configured'')
      else
        res_bind (v_certificate_hash E (last certs)) (\<lambda>last_cert_hash.
        if last_cert_hash \<in> set (trusted_root_hashes v) then Inr ()
        else
          res_bind (collect_results (x509_of E) certs) (\<lambda>xs.
          res_bind (spec_any_verified E (trusted_roots v) (zip certs xs)) (\<lambda>found.
          if found then Inr () else Inl (BadRequest ''Certificate chain does not terminate in a trusted root'')))))"

definition spec_signatures :: "('c, 'x, 'k) ValidatorEnv \<Rightarrow> Certificate list \<Rightarrow> CtError + unit" where
  "spec_signatures E certs =
     res_bind (collect_results (x509_of E) certs) (\<lambda>xs.
     res_bind (verify_links E 0 xs) (\<lambda>_. verify_self_signed E (last certs) (last xs)))"

definition spec_validate :: "('c, 'x, 'k) ValidatorEnv \<Rightarrow> Rfc6962Validator \<Rightarrow> bytes list \<Rightarrow> CtError + unit" where
  "spec_validate E v chn =
     res_bind (analyze_chain E v chn) (\<lambda>ctx.
     res_bind (validate_basics E v 0 (parsed_chain ctx)) (\<lambda>_.
     res_bind (if has_signing_cert ctx then verify_precert_signing_cert (parsed_chain ctx ! 1) (parsed_chain ctx ! 2) else Inr ()) (\<lambda>_.
     res_bind (spec_to_root E v (parsed_chain ctx)) (\<lambda>_.
     spec_signatures E (parsed_chain ctx)))))"

section \<open>The cache\<close>

text \<open>The cache is right for the encodings \<open>S\<close>: what it holds under a hash is what OpenSSL parses from an encoding with this hash.\<close>

definition cache_right :: "('c, 'x, 'k) ValidatorEnv \<Rightarrow> ('c \<Rightarrow> bytes \<rightharpoonup> 'x) \<Rightarrow> bytes set \<Rightarrow> 'c \<Rightarrow> bool" where
  "cache_right E held S c \<longleftrightarrow> (\<forall>h x. held c h = Some x \<longrightarrow> (\<exists>der \<in> S. v_sha256 E der = h \<and> x509_from_der E der = Inr x))"

definition encodings_in :: "('c, 'x, 'k) ValidatorEnv \<Rightarrow> bytes set \<Rightarrow> Certificate list \<Rightarrow> bool" where
  "encodings_in E S certs \<longleftrightarrow> (\<forall>cert \<in> set certs. \<forall>der. cert_to_der (der_ops E) cert = Inr der \<longrightarrow> der \<in> S)"

lemma answers_map_io_results:
  assumes "\<And>x. x \<in> set xs \<Longrightarrow> answers T (f x) (g x) X"
  shows "answers T (map_io f xs) (collect_results g xs) X"
  using assms
proof (induction xs)
  case Nil
  show ?case by (simp add: answers_ret)
next
  case (Cons x xs)
  have "answers T (and_then (f x) (\<lambda>a. and_then (map_io f xs) (\<lambda>as. ret (a # as))))
      (res_bind (g x) (\<lambda>a. res_bind (collect_results g xs) (\<lambda>as. Inr (a # as)))) X"
    by (intro answers_bind answers_ret Cons.IH Cons.prems) auto
  then show ?case by (simp add: res_bind_def)
qed

text \<open>
  The interface of the conversion: under what is relied on, a known certificate is answered by its value and the good states
  are kept. What uses the conversion is stated over it.
\<close>

locale certificate_source =
  fixes relied :: "'p \<Rightarrow> bool" and good :: "'p \<Rightarrow> 's \<Rightarrow> bool" and known :: "'p \<Rightarrow> Certificate \<Rightarrow> bool"
    and conv :: "'p \<Rightarrow> Certificate \<Rightarrow> ('s, CtError, 'x) io" and val :: "'p \<Rightarrow> Certificate \<Rightarrow> CtError + 'x"
  assumes conv_law: "relied p \<Longrightarrow> known p cert \<Longrightarrow> answers (good p) (conv p cert) (val p cert) {}"
begin

lemma conv_all: "relied p \<Longrightarrow> list_all (known p) certs \<Longrightarrow> answers (good p) (map_io (conv p) certs) (collect_results (val p) certs) {}"
  by (rule answers_map_io_results) (auto intro: conv_law simp: list_all_iff)

text \<open>Converting twice gives the same.\<close>

lemma conv_twice:
  assumes "relied p" "known p cert" "good p s"
  shows "\<exists>s' s''. conv p cert s = (map_sum Err id (val p cert), s') \<and> conv p cert s' = (map_sum Err id (val p cert), s'') \<and> good p s''"
proof -
  have "\<exists>t. conv p cert s = (map_sum Err id (val p cert), t) \<and> good p t" if "good p s" for s
    using tripleD [OF conv_law [OF assms(1,2), unfolded answers_def] that] by (cases "val p cert") auto
  with assms(3) show ?thesis by blast
qed

end

definition caching_ok :: "('c, 'x, 'k) ValidatorEnv \<Rightarrow> ('c \<Rightarrow> bytes \<rightharpoonup> 'x) \<Rightarrow> bytes set \<Rightarrow> bool" where
  "caching_ok E held S \<longleftrightarrow> cache_ok (x509_cache_ops E) held \<and> inj_on (v_sha256 E) S"

text \<open>A conversion answers what OpenSSL parses, whether or not it is cached.\<close>

lemma convert:
  assumes caching: "caching_ok E held S" and "encodings_in E S [cert]"
  shows "answers (cache_right E held S) (cert_to_x509 E cert) (x509_of E cert) {}"
proof (cases "v_cert_der E cert")
  case (Inl e)
  then show ?thesis by (simp add: cert_to_x509_def x509_of_def answers_raise)
next
  case (Inr der)
  let ?T = "cache_right E held S" and ?h = "v_sha256 E der" and ?C = "x509_cache_ops E"
  have S: "der \<in> S" using assms(2) Inr by (auto simp: encodings_in_def v_cert_der_def split: sum.splits)
  have no_collision: "inj_on (v_sha256 E) S" using caching by (simp add: caching_ok_def)
  have "cache_ok (x509_cache_ops E) held" using caching by (simp add: caching_ok_def)
  note cok = cache_okD [OF this]
  let ?parse = "case x509_from_der E der of Inl e \<Rightarrow> Inl (Internal (''Failed to parse certificate: '' @ e)) | Inr x \<Rightarrow> Inr x"
  have cached: "triple ?T (\<lambda>c. case cache_get ?C ?h c of (r, c') \<Rightarrow> (Inr r, c')) (\<lambda>r c. ?T c \<and> (r = None \<or> (\<exists>x. r = Some x \<and> x509_from_der E der = Inr x))) R"
    for R :: "CtError \<Rightarrow> 'a \<Rightarrow> bool"
  proof (rule tripleI)
    fix c assume c: "?T c"
    obtain r c' where r: "cache_get ?C ?h c = (r, c')" by force
    have "x509_from_der E der = Inr x" if "r = Some x" for x
    proof -
      have "held c ?h = Some x" using cok(1) [of ?h c x] r that by simp
      then obtain der' where "der' \<in> S" "v_sha256 E der' = ?h" "x509_from_der E der' = Inr x" using c by (auto simp: cache_right_def)
      with inj_onD [OF no_collision, of der' der] S show ?thesis by simp
    qed
    moreover have "?T c'" using c cok(2) [of ?h c] r by (auto simp: cache_right_def)
    ultimately show "case case cache_get ?C ?h c of (r, c') \<Rightarrow> (Inr r, c') of
        (Inr a, s') \<Rightarrow> ?T s' \<and> (a = None \<or> (\<exists>x. a = Some x \<and> x509_from_der E der = Inr x)) | (Inl (Err e), s') \<Rightarrow> R e s' | (Inl Panic, s') \<Rightarrow> False"
      using r by (cases r) auto
  qed
  have ins: "answers ?T (if is_ca_certificate E cert then modify (cache_insert ?C ?h x) else ret ()) (Inr ()) {}"
    if "x509_from_der E der = Inr x" for x
  proof -
    have "?T (cache_insert ?C ?h x c)" if c: "?T c" for c
      unfolding cache_right_def
    proof (intro allI impI)
      fix h y assume "held (cache_insert ?C ?h x c) h = Some y"
      from cok(3) [OF this] c S \<open>x509_from_der E der = Inr x\<close> show "\<exists>der\<in>S. v_sha256 E der = h \<and> x509_from_der E der = Inr y"
        by (cases "h = ?h") (auto simp: cache_right_def)
    qed
    then show ?thesis by (auto simp: answers_def intro!: triple_modify triple_ret)
  qed
  have miss: "answers ?T (and_then (of_result ?parse) (\<lambda>x.
      and_then (if is_ca_certificate E cert then modify (cache_insert ?C ?h x) else ret ()) (\<lambda>_. ret x))) ?parse {}"
  proof (cases "x509_from_der E der")
    case (Inr x)
    show ?thesis unfolding Inr sum.case pure_ops and_then_ret by (rule answers_then [OF ins [OF Inr] answers_ret])
  qed (simp add: answers_raise)
  have "answers ?T (and_then (\<lambda>c. case cache_get ?C ?h c of (r, c') \<Rightarrow> (Inr r, c')) (\<lambda>cached. case cached of Some x \<Rightarrow> ret x
      | None \<Rightarrow> and_then (of_result ?parse) (\<lambda>x. and_then (if is_ca_certificate E cert then modify (cache_insert ?C ?h x) else ret ()) (\<lambda>_. ret x)))) ?parse {}"
    unfolding answers_def
  proof (rule triple_and_then [OF cached])
    fix r :: "'b option"
    let ?B = "r = None \<or> (\<exists>x. r = Some x \<and> x509_from_der E der = Inr x)"
    show "triple (\<lambda>c. ?T c \<and> ?B) (case r of None \<Rightarrow> and_then (of_result ?parse) (\<lambda>x.
        and_then (if is_ca_certificate E cert then modify (cache_insert ?C ?h x) else ret ()) (\<lambda>_. ret x)) | Some x \<Rightarrow> ret x)
      (\<lambda>a s. ?T s \<and> ?parse = Inr a) (\<lambda>e s. ?T s \<and> (?parse = Inl e \<or> e \<in> {}))"
    proof (rule triple_pre [where B = ?B])
      assume ?B
      then show ?thesis using miss by (cases r) (auto simp: answers_def intro!: triple_ret)
    qed simp
  qed
  then show ?thesis unfolding cert_to_x509_def x509_of_def Inr by (simp add: Let_def)
qed

interpretation x5: certificate_source "\<lambda>(E, held, S). caching_ok E held S" "\<lambda>(E, held, S). cache_right E held S"
  "\<lambda>(E, held, S) cert. encodings_in E S [cert]" "\<lambda>(E, held, S). cert_to_x509 E" "\<lambda>(E, held, S). x509_of E"
  by unfold_locales (auto intro: convert)

lemma convert_all:
  "caching_ok E held S \<Longrightarrow> encodings_in E S certs \<Longrightarrow>
    answers (cache_right E held S) (map_io (cert_to_x509 E) certs) (collect_results (x509_of E) certs) {}"
  using x5.conv_all [of "(E, held, S)" certs] by (simp add: encodings_in_def list_all_iff)

lemma by_root:
  assumes "caching_ok E held S" "encodings_in E S roots"
  shows "answers (cache_right E held S) (verified_by_root E cert x roots) (spec_by_root E cert x roots) {}"
  using assms(2)
proof (induction roots)
  case Nil
  show ?case by (simp add: answers_ret)
next
  case (Cons root roots)
  then have IH: "answers (cache_right E held S) (verified_by_root E cert x roots) (spec_by_root E cert x roots) {}"
    and c: "answers (cache_right E held S) (cert_to_x509 E root) (x509_of E root) {}"
    by (auto intro!: convert assms(1) simp: encodings_in_def)
  show ?case
    unfolding verified_by_root.simps spec_by_root.simps
    by (intro answers_if answers_bind c IH answers_of_result answers_ret)
qed

lemma any_root:
  assumes "caching_ok E held S" "encodings_in E S roots"
  shows "answers (cache_right E held S) (any_verified E roots cxs) (spec_any_verified E roots cxs) {}"
proof (induction cxs)
  case Nil
  show ?case by (simp add: answers_ret)
next
  case (Cons cx cxs)
  obtain cert x where cx: "cx = (cert, x)" by force
  show ?case
    unfolding cx any_verified.simps spec_any_verified.simps
    by (intro answers_bind by_root answers_if answers_ret Cons.IH assms)
qed

lemma to_root:
  assumes "caching_ok E held S" "encodings_in E S certs" "encodings_in E S (trusted_roots v)" "certs \<noteq> []"
  shows "answers (cache_right E held S) (verify_chain_to_root E v certs) (spec_to_root E v certs) {}"
  unfolding verify_chain_to_root_def spec_to_root_def if_not_P [OF assms(4)] last_conv_nth [OF assms(4)]
  by (intro answers_if answers_bind answers_of_result answers_ret answers_raise convert_all any_root assms)

lemma collect_results_ok:
  "collect_results f xs = Inr ys \<longleftrightarrow> length ys = length xs \<and> (\<forall>i < length xs. f (xs ! i) = Inr (ys ! i))"
proof (induction xs arbitrary: ys)
  case (Cons x xs)
  show ?case
  proof (cases ys)
    case (Cons y ys')
    with Cons.IH [of ys'] show ?thesis by (auto simp: less_Suc_eq_0_disj split: sum.splits)
  qed (auto split: sum.splits)
qed auto

lemma signatures:
  assumes "caching_ok E held S" "encodings_in E S certs" "certs \<noteq> []"
  shows "answers (cache_right E held S) (verify_chain_signatures E certs) (spec_signatures E certs) {}"
  unfolding verify_chain_signatures_def spec_signatures_def if_not_P [OF assms(3)] last_conv_nth [OF assms(3)]
proof (rule answers_bind [OF convert_all [OF assms(1,2)]])
  fix xs assume "collect_results (x509_of E) certs = Inr xs"
  then have "xs \<noteq> []" using assms(3) by (auto simp: collect_results_ok)
  then show "answers (cache_right E held S) (and_then (of_result (verify_links E 0 xs)) (\<lambda>_.
      of_result (verify_self_signed E (certs ! (length certs - 1)) (xs ! (length xs - 1)))))
      (res_bind (verify_links E 0 xs) (\<lambda>_. verify_self_signed E (certs ! (length certs - 1)) (last xs))) {}"
    by (simp add: last_conv_nth answers_bind answers_of_result)
qed

section \<open>The whole validation\<close>

lemma parse_chain_ok:
  "parse_chain X i ders = Inr certs \<longleftrightarrow> length certs = length ders \<and> (\<forall>j < length ders. cert_from_der X (ders ! j) = Inr (certs ! j))"
proof (induction X i ders arbitrary: certs rule: parse_chain.induct)
  case (2 X i d ders)
  show ?case
  proof (cases certs)
    case (Cons c certs')
    with "2.IH" [of _ certs'] show ?thesis by (auto simp: All_less_Suc2 split: sum.splits)
  qed (auto split: sum.splits)
qed auto

lemma analyze_chain_ok:
  assumes "analyze_chain E v chn = Inr ctx"
  shows "chn \<noteq> []" "length chn \<le> max_chain_length (v_config v)" "parse_chain (der_ops E) 0 chn = Inr (parsed_chain ctx)"
    "length (parsed_chain ctx) = length chn" "has_signing_cert ctx \<Longrightarrow> is_precert ctx \<and> 3 \<le> length chn"
    "v_is_precertificate (parsed_chain ctx ! 0) = Inr (is_precert ctx)"
    "real_issuer_index ctx = (if has_signing_cert ctx then 2 else 1)"
  using assms by (auto simp: analyze_chain_def Let_def parse_chain_ok split: if_splits sum.splits)

definition all_encodings :: "('c, 'x, 'k) ValidatorEnv \<Rightarrow> bytes set \<Rightarrow> Rfc6962Validator \<Rightarrow> bytes list \<Rightarrow> bool" where
  "all_encodings E S v chn \<longleftrightarrow> encodings_in E S (trusted_roots v) \<and>
     (\<forall>certs. parse_chain (der_ops E) 0 chn = Inr certs \<longrightarrow> encodings_in E S certs)"

lemma validate_answers:
  assumes "caching_ok E held S" "all_encodings E S v chn"
  shows "answers (cache_right E held S) (validate_chain E v chn) (spec_validate E v chn) {}"
  unfolding validate_chain_def spec_validate_def
proof (rule answers_bind [OF answers_of_result])
  fix ctx assume "analyze_chain E v chn = Inr ctx"
  note c = analyze_chain_ok [OF this]
  have ne: "parsed_chain ctx \<noteq> []" using c(1,4) by auto
  have enc: "encodings_in E S (parsed_chain ctx)" "encodings_in E S (trusted_roots v)" using assms(2) c(3) by (auto simp: all_encodings_def)
  have sig: "(if is_precert ctx \<and> has_signing_cert ctx
      then (if length (parsed_chain ctx) < 3 then panic
            else of_result (verify_precert_signing_cert (parsed_chain ctx ! 1) (parsed_chain ctx ! 2)))
      else ret ()) = of_result (if has_signing_cert ctx then verify_precert_signing_cert (parsed_chain ctx ! 1) (parsed_chain ctx ! 2) else Inr ())"
    using c(4,5) by auto
  show "answers (cache_right E held S) (validate_chain_with_context E v ctx)
    (res_bind (validate_basics E v 0 (parsed_chain ctx)) (\<lambda>_.
     res_bind (if has_signing_cert ctx then verify_precert_signing_cert (parsed_chain ctx ! 1) (parsed_chain ctx ! 2) else Inr ()) (\<lambda>_.
     res_bind (spec_to_root E v (parsed_chain ctx)) (\<lambda>_. spec_signatures E (parsed_chain ctx))))) {}"
    unfolding validate_chain_with_context_def sig
    by (intro answers_bind answers_of_result to_root signatures assms(1) enc ne)
qed

section \<open>Accepted chains\<close>

lemma validate_basics_ok:
  "validate_basics E v i certs = Inr () \<longleftrightarrow> (\<forall>j < length certs. validate_certificate_basic E v (certs ! j) (i + j) = Inr ())"
proof (induction certs arbitrary: i)
  case (Cons c certs)
  then show ?case by (cases "validate_certificate_basic E v c i") (auto simp: All_less_Suc2)
qed simp

lemma verify_links_ok:
  "verify_links E i xs = Inr () \<Longrightarrow>
    \<forall>j. Suc j < length xs \<longrightarrow> (\<exists>k. public_key E (xs ! Suc j) = Inr k \<and> x509_verify E (xs ! j) k = Inr True)"
proof (induction E i xs rule: verify_links.induct)
  case (1 E i c n rest)
  obtain k where k: "public_key E n = Inr k" "x509_verify E c k = Inr True" "verify_links E (i + 1) (n # rest) = Inr ()"
    using "1.prems" by (auto split: sum.splits if_splits)
  have IH: "\<forall>j. Suc j < length (n # rest) \<longrightarrow> (\<exists>k. public_key E ((n # rest) ! Suc j) = Inr k \<and> x509_verify E ((n # rest) ! j) k = Inr True)"
    by (rule "1.IH") (use k in auto)
  show ?case
  proof (intro allI impI)
    fix j assume "Suc j < length (c # n # rest)"
    with IH k show "\<exists>k. public_key E ((c # n # rest) ! Suc j) = Inr k \<and> x509_verify E ((c # n # rest) ! j) k = Inr True"
      by (cases j) auto
  qed
qed auto

text \<open>A trusted root whose name and key certify a certificate.\<close>

definition certified_by :: "('c, 'x, 'k) ValidatorEnv \<Rightarrow> Certificate \<Rightarrow> 'x \<Rightarrow> Certificate \<Rightarrow> bool" where
  "certified_by E cert x root \<longleftrightarrow>
     issuer (tbs_certificate cert) = subject (tbs_certificate root) \<and>
     (case x509_of E root of
        Inl _ \<Rightarrow> False
      | Inr rx \<Rightarrow> (case public_key E rx of Inl _ \<Rightarrow> False | Inr k \<Rightarrow> x509_verify E x k = Inr True))"

lemma spec_by_root_ok: "spec_by_root E cert x roots = Inr True \<Longrightarrow> \<exists>root \<in> set roots. certified_by E cert x root"
proof (induction roots)
  case (Cons root roots)
  show ?case
  proof (cases "certified_by E cert x root")
    case False
    with Cons.prems have "spec_by_root E cert x roots = Inr True"
      by (auto simp: certified_by_def res_bind_ok split: if_splits sum.splits)
    with Cons.IH show ?thesis by simp
  qed simp
qed simp

lemma spec_any_verified_ok:
  "spec_any_verified E roots cxs = Inr True \<Longrightarrow> \<exists>(cert, x) \<in> set cxs. \<exists>root \<in> set roots. certified_by E cert x root"
proof (induction cxs)
  case (Cons cx cxs)
  then show ?case by (cases cx) (auto simp: res_bind_ok split: if_splits dest: spec_by_root_ok)
qed simp

text \<open>The conditions of acceptance, over the parsed certificates and their OpenSSL forms.\<close>

definition chain_valid ::
  "('c, 'x, 'k) ValidatorEnv \<Rightarrow> Rfc6962ValidationConfig \<Rightarrow> Certificate list \<Rightarrow> Certificate list \<Rightarrow> 'x list \<Rightarrow> bool" where
  "chain_valid E conf roots certs xs \<longleftrightarrow>
     0 < length certs \<and> length certs \<le> max_chain_length conf \<and> length xs = length certs \<and>
     (\<forall>i < length certs. signature_algorithm (certs ! i) \<in> set (allowed_signature_algorithms conf) \<and> x509_of E (certs ! i) = Inr (xs ! i)) \<and>
     (case temporal_window conf of
        None \<Rightarrow> True
      | Some w \<Rightarrow> \<not> datetime_less (not_after (tbs_certificate (certs ! 0))) (window_start w) \<and>
                 datetime_less (not_after (tbs_certificate (certs ! 0))) (window_end w)) \<and>
     (\<forall>j. Suc j < length certs \<longrightarrow> (\<exists>k. public_key E (xs ! Suc j) = Inr k \<and> x509_verify E (xs ! j) k = Inr True)) \<and>
     ((\<exists>root \<in> set roots. v_certificate_hash E (last certs) = v_certificate_hash E root) \<or>
      (\<exists>i < length certs. \<exists>root \<in> set roots. certified_by E (certs ! i) (xs ! i) root))"

lemma spec_validate_valid:
  assumes "spec_validate E v chn = Inr ()" "with_trusted_roots E conf roots = Inr v"
  shows "\<exists>certs xs. parse_chain (der_ops E) 0 chn = Inr certs \<and> chain_valid E conf roots certs xs"
proof -
  have v: "v_config v = conf" "trusted_roots v = roots" "collect_results (v_certificate_hash E) roots = Inr (trusted_root_hashes v)"
    using assms(2) by (auto simp: with_trusted_roots_def split: sum.splits)
  obtain ctx where ctx: "analyze_chain E v chn = Inr ctx" and b: "validate_basics E v 0 (parsed_chain ctx) = Inr ()"
    and r: "spec_to_root E v (parsed_chain ctx) = Inr ()" and s: "spec_signatures E (parsed_chain ctx) = Inr ()"
    using assms(1) by (auto simp: spec_validate_def res_bind_ok)
  note c = analyze_chain_ok [OF ctx]
  let ?certs = "parsed_chain ctx"
  obtain xs where xs: "collect_results (x509_of E) ?certs = Inr xs" "verify_links E 0 xs = Inr ()"
    using s by (auto simp: spec_signatures_def res_bind_ok)
  have basic: "validate_certificate_basic E v (?certs ! j) j = Inr ()" if "j < length ?certs" for j
    using b that by (simp add: validate_basics_ok)
  have root: "(\<exists>root \<in> set roots. v_certificate_hash E (last ?certs) = v_certificate_hash E root) \<or>
      (\<exists>i < length ?certs. \<exists>root \<in> set roots. certified_by E (?certs ! i) (xs ! i) root)"
  proof (cases "\<exists>h. v_certificate_hash E (last ?certs) = Inr h \<and> h \<in> set (trusted_root_hashes v)")
    case True
    then obtain h i where h: "v_certificate_hash E (last ?certs) = Inr h" "i < length (trusted_root_hashes v)" "trusted_root_hashes v ! i = h"
      by (auto simp: in_set_conv_nth)
    with v(3) have "i < length roots" "v_certificate_hash E (roots ! i) = Inr h" by (auto simp: collect_results_ok)
    with h(1) nth_mem show ?thesis by metis
  next
    case False
    then have "spec_any_verified E roots (zip ?certs xs) = Inr True"
      using r xs(1) v(2) by (auto simp: spec_to_root_def res_bind_ok split: if_splits)
    from spec_any_verified_ok [OF this] show ?thesis by (auto simp: set_zip)
  qed
  have alg: "signature_algorithm (?certs ! j) \<in> set (allowed_signature_algorithms conf)" if "j < length ?certs" for j
    using basic [OF that] v(1) by (auto simp: validate_certificate_basic_def split: if_splits)
  have "0 < length ?certs" using c(1,4) by simp
  then have win: "case temporal_window conf of None \<Rightarrow> True
      | Some w \<Rightarrow> \<not> datetime_less (not_after (tbs_certificate (?certs ! 0))) (window_start w) \<and>
                 datetime_less (not_after (tbs_certificate (?certs ! 0))) (window_end w)"
    using basic [of 0] v(1) by (auto simp: validate_certificate_basic_def Let_def split: if_splits option.splits)
  have "chain_valid E conf roots ?certs xs"
    unfolding chain_valid_def
    using c(1,2,4) xs(1) v(1) alg win verify_links_ok [OF xs(2)] root by (simp add: collect_results_ok)
  with c(3) show ?thesis by blast
qed

section \<open>An instance\<close>

text \<open>The certificates of the toy encoding: a pre-certificate, the intermediate that issued it, and the root above.\<close>

definition toy_venv :: "(bytes \<rightharpoonup> bytes, bytes, bytes) ValidatorEnv" where
  "toy_venv = \<lparr>der_ops = toy_x509, x509_from_der = Inr, public_key = Inr,
     x509_verify = (\<lambda>x k. Inr ((x, k) \<in> set [([10], [20]), ([20], [30]), ([30], [30])])),
     x509_cache_ops = \<lparr>cache_get = (\<lambda>k c. (c k, c)), cache_insert = (\<lambda>k v c. c(k \<mapsto> v))\<rparr>,
     v_sha256 = (\<lambda>x. take 1 x), format_time = (\<lambda>_. [])\<rparr>"

definition toy_validator :: "bytes \<Rightarrow> Rfc6962Validator" where
  "toy_validator root =
     projr (with_trusted_roots toy_venv Rfc6962ValidationConfig_default [projr (cert_from_der toy_x509 root)])"

definition toy_encodings :: "bytes set" where
  "toy_encodings = {[10], [20], [30]}"

lemma toy_caching: "caching_ok toy_venv id toy_encodings"
  by (simp add: caching_ok_def cache_ok_def toy_venv_def toy_encodings_def inj_on_def)

lemma toy_cache_right: "cache_right toy_venv id toy_encodings Map.empty"
  by (simp add: cache_right_def)

lemma toy_parse:
  "parse_chain toy_x509 0 [[1], [2], [3]] = Inr [toy_cert [20] [10] [toy_poison], toy_cert [30] [20] [], toy_cert [30] [30] []]"
  "parse_chain toy_x509 0 [[1]] = Inr [toy_cert [20] [10] [toy_poison]]"
  by (simp_all add: toy_x509_def)

lemma toy_roots:
  "trusted_roots (toy_validator [3]) = [toy_cert [30] [30] []]" "trusted_roots (toy_validator [2]) = [toy_cert [30] [20] []]"
  "with_trusted_roots toy_venv Rfc6962ValidationConfig_default [toy_cert [30] [30] []] = Inr (toy_validator [3])"
  by (simp_all add: toy_validator_def with_trusted_roots_def v_certificate_hash_def v_cert_der_def toy_venv_def toy_x509_def toy_cert_def)

lemma toy_all_encodings: "all_encodings toy_venv toy_encodings (toy_validator [3]) [[1], [2], [3]]"
  using toy_parse(1)
  by (simp add: all_encodings_def toy_roots encodings_in_def toy_encodings_def)
    (auto simp: toy_venv_def toy_x509_def toy_cert_def)

section \<open>Properties\<close>

text \<open>C28: the cache of parsed certificates does not change any verdict. Whatever was validated before, the validation of a chain gives exactly the
  result, error texts included, of the reference validation that parses every certificate afresh, never panics, and leaves the cache
  right for the next one; provided the hash does not collide on the encodings seen.\<close>

theorem validation_ignores_cache:
  assumes "caching_ok E held S" "cache_right E held S c" "all_encodings E S v chn"
  shows "\<exists>c'. validate_chain E v chn c = (map_sum Err id (spec_validate E v chn), c') \<and> cache_right E held S c'"
  using tripleD [OF validate_answers [OF assms(1,3), unfolded answers_def] assms(2)] by (cases "spec_validate E v chn") auto

theorem validation_ignores_cache_witness:
  "\<exists>c'. validate_chain toy_venv (toy_validator [3]) [[1], [2], [3]] Map.empty
      = (map_sum Err id (spec_validate toy_venv (toy_validator [3]) [[1], [2], [3]]), c') \<and> cache_right toy_venv id toy_encodings c'"
  by (rule validation_ignores_cache [OF toy_caching toy_cache_right toy_all_encodings])

text \<open>C19: an accepted chain is valid. It parses, is not empty and not longer than the maximum; every certificate has an allowed signature
  algorithm; the first one expires inside the temporal window; every certificate is signed by the key of the next; and either
  the last one is a trusted root or some certificate names a trusted root as its issuer and is signed by its key.\<close>

theorem accepted_chain_is_valid:
  assumes "with_trusted_roots E conf roots = Inr v" "caching_ok E held S" "cache_right E held S c" "all_encodings E S v chn"
    and "fst (validate_chain E v chn c) = Inr ()"
  shows "\<exists>certs xs. parse_chain (der_ops E) 0 chn = Inr certs \<and> chain_valid E conf roots certs xs"
proof -
  have "spec_validate E v chn = Inr ()"
    using tripleD [OF validate_answers [OF assms(2,4), unfolded answers_def] assms(3)] assms(5)
    by (cases "spec_validate E v chn") auto
  from spec_validate_valid [OF this assms(1)] show ?thesis .
qed

lemma toy_accepts: "fst (validate_chain toy_venv (toy_validator [3]) [[1], [2], [3]] Map.empty) = Inr ()"
  by code_simp

theorem accepted_chain_is_valid_witness:
  "\<exists>certs xs. parse_chain (der_ops toy_venv) 0 [[1], [2], [3]] = Inr certs \<and>
    chain_valid toy_venv Rfc6962ValidationConfig_default [toy_cert [30] [30] []] certs xs"
  by (rule accepted_chain_is_valid [OF toy_roots(3) toy_caching toy_cache_right toy_all_encodings toy_accepts])

text \<open>C32: when \<^verbatim>\<open>extract_issuer_key_hash\<close> panics: exactly on a chain of one certificate that is a pre-certificate (the issuer is looked up at index 1
  without a check). Such a chain can be accepted by the validation, when a trusted root issued the pre-certificate directly: the
  second part gives one. The variant without a validator refuses the same chain with an error.\<close>

theorem issuer_key_hash_panics:
  "(v_extract_issuer_key_hash E v chn = Inl Panic \<longleftrightarrow>
     (\<exists>d cert. chn = [d] \<and> 1 \<le> max_chain_length (v_config v) \<and> cert_from_der (der_ops E) d = Inr cert \<and> v_is_precertificate cert = Inr True)) \<and>
   fst (validate_chain toy_venv (toy_validator [2]) [[1]] Map.empty) = Inr () \<and>
   v_extract_issuer_key_hash toy_venv (toy_validator [2]) [[1]] = Inl Panic \<and>
   extract_issuer_key_hash_minimal (v_sha256 toy_venv) toy_x509 [[1]] = Inl (BadRequest ''Precertificate chain must include issuer certificate'')"
proof (intro conjI)
  have len: "length chn = 1 \<longleftrightarrow> (\<exists>d. chn = [d])" by (cases chn) auto
  show "v_extract_issuer_key_hash E v chn = Inl Panic \<longleftrightarrow>
     (\<exists>d cert. chn = [d] \<and> 1 \<le> max_chain_length (v_config v) \<and> cert_from_der (der_ops E) d = Inr cert \<and> v_is_precertificate cert = Inr True)"
  proof
    assume p: "v_extract_issuer_key_hash E v chn = Inl Panic"
    then obtain ctx where ctx: "analyze_chain E v chn = Inr ctx" "is_precert ctx" "length (parsed_chain ctx) \<le> real_issuer_index ctx"
      by (auto simp: v_extract_issuer_key_hash_def spki_hash_def split: sum.splits if_splits)
    note c = analyze_chain_ok [OF ctx(1)]
    have "\<not> has_signing_cert ctx" using c(4,5,7) ctx(3) by auto
    then have "length chn = 1" using c(1,4,7) ctx(3) by (cases chn) auto
    then obtain d where d: "chn = [d]" using len by auto
    from c(3) d obtain cert where "cert_from_der (der_ops E) d = Inr cert" "parsed_chain ctx = [cert]" by (auto split: sum.splits)
    with c(2,6) ctx(2) d show "\<exists>d cert. chn = [d] \<and> 1 \<le> max_chain_length (v_config v) \<and> cert_from_der (der_ops E) d = Inr cert \<and>
      v_is_precertificate cert = Inr True" by auto
  qed (auto simp: v_extract_issuer_key_hash_def analyze_chain_def)
qed code_simp+

end
