(* ===== verification/Tree_Head.thy ===== *)
theory Tree_Head
  imports Sct
begin

text \<open>
  \<^verbatim>\<open>src/src/types/tree_head.rs\<close> and \<^verbatim>\<open>src/src/types/signed_note.rs\<close>: signed tree heads and the checkpoints of the Static CT
  API. Parameters: the digest, signing, base64 (\<open>b64\<close>) and the current time (\<open>now\<close>).
\<close>

section \<open>Signed tree heads\<close>

record SignedTreeHead =
  sth_tree_size :: u64
  sth_timestamp :: u64
  sth_root_hash :: bytes
  sth_signature :: bytes

definition SignedTreeHead_new :: "u64 \<Rightarrow> u64 \<Rightarrow> bytes \<Rightarrow> SignedTreeHead" where
  "SignedTreeHead_new tree_size timestamp root =
     \<lparr>sth_tree_size = tree_size, sth_timestamp = timestamp, sth_root_hash = root, sth_signature = []\<rparr>"

definition sth_signature_input :: "SignedTreeHead \<Rightarrow> bytes" where
  "sth_signature_input self =
     [0] @ [1] @ be64 (sth_timestamp self) @ be64 (sth_tree_size self) @ sth_root_hash self"

record SthResponse =
  resp_tree_size :: u64
  resp_timestamp :: u64
  sha256_root_hash :: string
  tree_head_signature :: string

definition to_api_response :: "(bytes \<Rightarrow> string) \<Rightarrow> SignedTreeHead \<Rightarrow> SthResponse" where
  "to_api_response b64 self =
     (let digitally_signed = [4] @ [3] @ be_bytes 2 (of_nat (length (sth_signature self)) :: u16) @ sth_signature self
      in \<lparr>resp_tree_size = sth_tree_size self, resp_timestamp = sth_timestamp self,
          sha256_root_hash = b64 (sth_root_hash self), tree_head_signature = b64 digitally_signed\<rparr>)"

section \<open>Signed notes\<close>

record NoteSignature =
  key_name :: string
  key_id :: bytes
  note_signature :: bytes

record SignedNote =
  note_text :: string
  signatures :: "NoteSignature list"

definition SignedNote_new :: "string \<Rightarrow> SignedNote" where
  "SignedNote_new text = \<lparr>note_text = text, signatures = []\<rparr>"

definition add_signature :: "NoteSignature \<Rightarrow> SignedNote \<Rightarrow> SignedNote" where
  "add_signature sig self = self\<lparr>signatures := signatures self @ [sig]\<rparr>"

definition newline :: char where
  "newline = CHR 0x0A"

text \<open>The UTF-8 bytes of the em dash.\<close>

definition em_dash :: string where
  "em_dash = [CHR 0xE2, CHR 0x80, CHR 0x94]"

definition NoteSignature_format :: "(bytes \<Rightarrow> string) \<Rightarrow> NoteSignature \<Rightarrow> string" where
  "NoteSignature_format b64 self = em_dash @ '' '' @ key_name self @ '' '' @ b64 (key_id self @ note_signature self)"

definition SignedNote_format :: "(bytes \<Rightarrow> string) \<Rightarrow> SignedNote \<Rightarrow> string" where
  "SignedNote_format b64 self =
     note_text self
     @ (if note_text self = [] \<or> last (note_text self) \<noteq> newline then [newline] else [])
     @ [newline]
     @ concat (map (\<lambda>sig. NoteSignature_format b64 sig @ [newline]) (signatures self))"

record RFC6962NoteSignature =
  rfc_timestamp :: u64
  rfc_signature :: bytes

definition RFC6962NoteSignature_encode :: "RFC6962NoteSignature \<Rightarrow> bytes" where
  "RFC6962NoteSignature_encode self =
     be64 (rfc_timestamp self) @ [4] @ [3] @ be_bytes 2 (of_nat (length (rfc_signature self)) :: u16) @ rfc_signature self"

record 'k CheckpointBuilder =
  cp_signing_key :: 'k
  cp_origin :: string
  cp_log_id :: bytes

definition calculate_key_id :: "digest_fun \<Rightarrow> 'k CheckpointBuilder \<Rightarrow> bytes" where
  "calculate_key_id H self = take 4 (H (ascii (cp_origin self) @ ascii [newline] @ [0x05] @ cp_log_id self))"

definition build_signature_input :: "u64 \<Rightarrow> u64 \<Rightarrow> bytes \<Rightarrow> bytes" where
  "build_signature_input timestamp tree_size root = [0] @ [1] @ be64 timestamp @ be64 tree_size @ root"

definition cp_create_checkpoint ::
  "digest_fun \<Rightarrow> ('k \<Rightarrow> bytes \<Rightarrow> bytes) \<Rightarrow> (bytes \<Rightarrow> string) \<Rightarrow> 'k CheckpointBuilder \<Rightarrow> u64 \<Rightarrow> bytes \<Rightarrow> u64 \<Rightarrow> SignedNote" where
  "cp_create_checkpoint H sign b64 self tree_size root timestamp =
     (let checkpoint_text = cp_origin self @ [newline] @ dec tree_size @ [newline] @ b64 root;
          note = SignedNote_new checkpoint_text;
          signature_bytes = sign (cp_signing_key self) (build_signature_input timestamp tree_size root);
          rfc6962_sig = \<lparr>rfc_timestamp = timestamp, rfc_signature = signature_bytes\<rparr>;
          note_sig = \<lparr>key_name = cp_origin self, key_id = calculate_key_id H self,
                      note_signature = RFC6962NoteSignature_encode rfc6962_sig\<rparr>
      in add_signature note_sig note)"

section \<open>The builder of both\<close>

record 'k SthBuilder =
  sth_signing_key :: 'k
  sth_origin :: string
  sth_log_id :: bytes

definition SthBuilder_new :: "(bytes \<Rightarrow> 'k option) \<Rightarrow> bytes \<Rightarrow> string \<Rightarrow> bytes \<Rightarrow> CtError + 'k SthBuilder" where
  "SthBuilder_new from_slice private_key_bytes origin log_id =
     (case from_slice private_key_bytes of
        None \<Rightarrow> Inl (InvalidCertificate ''Invalid private key'')
      | Some key \<Rightarrow> Inr \<lparr>sth_signing_key = key, sth_origin = origin, sth_log_id = log_id\<rparr>)"

definition create_sth ::
  "('k \<Rightarrow> bytes \<Rightarrow> bytes) \<Rightarrow> DateTime \<Rightarrow> 'k SthBuilder \<Rightarrow> u64 \<Rightarrow> bytes \<Rightarrow> u64 option \<Rightarrow> SignedTreeHead" where
  "create_sth sign now self tree_size root checkpoint_timestamp =
     (let timestamp = (case checkpoint_timestamp of Some t \<Rightarrow> t | None \<Rightarrow> timestamp_millis now);
          sth = SignedTreeHead_new tree_size timestamp root
      in sth\<lparr>sth_signature := sign (sth_signing_key self) (sth_signature_input sth)\<rparr>)"

definition create_checkpoint ::
  "digest_fun \<Rightarrow> ('k \<Rightarrow> bytes \<Rightarrow> bytes) \<Rightarrow> (bytes \<Rightarrow> string) \<Rightarrow> DateTime \<Rightarrow> 'k SthBuilder \<Rightarrow> u64 \<Rightarrow> bytes \<Rightarrow> u64 option
    \<Rightarrow> SignedNote" where
  "create_checkpoint H sign b64 now self tree_size root checkpoint_timestamp =
     (let timestamp = (case checkpoint_timestamp of Some t \<Rightarrow> t | None \<Rightarrow> timestamp_millis now)
      in cp_create_checkpoint H sign b64
           \<lparr>cp_signing_key = sth_signing_key self, cp_origin = sth_origin self, cp_log_id = sth_log_id self\<rparr>
           tree_size root timestamp)"

section \<open>Reading a checkpoint\<close>

text \<open>The lines of a text, in the way \<^verbatim>\<open>str::lines\<close> splits it when there is no carriage return.\<close>

fun text_lines :: "string \<Rightarrow> string list" where
  "text_lines [] = []"
| "text_lines (c # cs) =
     (if c = newline then [] # text_lines cs
      else case text_lines cs of [] \<Rightarrow> [[c]] | l # ls \<Rightarrow> (c # l) # ls)"

lemma text_lines_line: "newline \<notin> set l \<Longrightarrow> text_lines (l @ newline # rest) = l # text_lines rest"
  by (induction l) auto

lemma dec_nat_no_newline: "newline \<notin> set (dec_nat n)"
proof (induction n rule: dec_nat.induct)
  case (1 n)
  have "newline \<noteq> digit_char d" if "d < 10" for d
  proof
    assume "newline = digit_char d"
    then have "of_char (digit_char d) = (of_char newline :: nat)" by simp
    with that show False by (simp add: digit_char_def newline_def)
  qed
  with 1 show ?case by (auto simp: dec_nat.simps [of n])
qed

lemma em_dash_no_newline: "newline \<notin> set em_dash" "newline \<noteq> CHR '' ''"
  by (simp_all add: em_dash_def newline_def)

section \<open>Properties\<close>

text \<open>C36: what is signed is unambiguous. The bytes signed for a tree head determine its size, timestamp and root
  hash, and no tree head shares its signed bytes with a certificate timestamp, so that a signature of one kind
  is never one of the other.\<close>

theorem tree_head_signature_unambiguous:
  "(sth_signature_input a = sth_signature_input b \<longleftrightarrow>
      sth_tree_size a = sth_tree_size b \<and> sth_timestamp a = sth_timestamp b \<and> sth_root_hash a = sth_root_hash b) \<and>
   sth_signature_input a \<noteq> sct_signature_input sct cert ty kh"
  by (auto simp: sth_signature_input_def sct_signature_input_eq)

text \<open>C37: the checkpoint and the signed tree head of one size, root and timestamp agree: a reader that splits the
  note into lines finds the origin, the decimal size, the base64 root that the \<open>get-sth\<close> response has, an empty
  line and one signature line, which carries the key id, the timestamp and the very DigitallySigned structure of the
  response.\<close>

theorem checkpoint_agrees_with_sth:
  assumes "newline \<notin> set (sth_origin b)" "\<And>x. newline \<notin> set (b64 x)" "\<And>x. x \<noteq> [] \<Longrightarrow> b64 x \<noteq> []" "root \<noteq> []"
  shows "\<exists>signed kid. kid = take 4 (H (ascii (sth_origin b) @ ascii [newline] @ [5] @ sth_log_id b)) \<and>
    to_api_response b64 (create_sth sign now b n root (Some t)) =
      \<lparr>resp_tree_size = n, resp_timestamp = t, sha256_root_hash = b64 root, tree_head_signature = b64 signed\<rparr> \<and>
    text_lines (SignedNote_format b64 (create_checkpoint H sign b64 now b n root (Some t))) =
      [sth_origin b, dec n, b64 root, [], em_dash @ '' '' @ sth_origin b @ '' '' @ b64 (kid @ be64 t @ signed)]"
proof -
  let ?signed = "[4, 3] @ vec16 (sign (sth_signing_key b) ([0, 1] @ be64 t @ be64 n @ root))"
  let ?kid = "take 4 (H (ascii (sth_origin b) @ ascii [newline] @ [5] @ sth_log_id b))"
  let ?sig = "em_dash @ '' '' @ sth_origin b @ '' '' @ b64 (?kid @ be64 t @ ?signed)"
  have formatted: "SignedNote_format b64 (create_checkpoint H sign b64 now b n root (Some t)) =
      sth_origin b @ newline # dec n @ newline # b64 root @ newline # [] @ newline # ?sig @ newline # []"
    using assms(2) [of root] assms(3) [OF assms(4)] em_dash_no_newline(2)
    by (auto simp: SignedNote_format_def create_checkpoint_def cp_create_checkpoint_def Let_def add_signature_def
        SignedNote_new_def NoteSignature_format_def RFC6962NoteSignature_encode_def build_signature_input_def
        calculate_key_id_def vec16_def dest: last_in_set)
  have dec: "newline \<notin> set (dec n)" by (simp add: dec_def dec_nat_no_newline)
  have sig: "newline \<notin> set ?sig" using assms(1,2) em_dash_no_newline by auto
  have "text_lines (SignedNote_format b64 (create_checkpoint H sign b64 now b n root (Some t))) =
      [sth_origin b, dec n, b64 root, [], ?sig]"
    unfolding formatted text_lines_line [OF assms(1)] text_lines_line [OF dec] text_lines_line [OF assms(2)]
    using text_lines_line [OF sig, of "[]"] by (simp only: append_Nil text_lines.simps refl if_True)
  moreover have "to_api_response b64 (create_sth sign now b n root (Some t)) =
      \<lparr>resp_tree_size = n, resp_timestamp = t, sha256_root_hash = b64 root, tree_head_signature = b64 ?signed\<rparr>"
    by (simp add: to_api_response_def create_sth_def SignedTreeHead_new_def sth_signature_input_def vec16_def)
  ultimately show ?thesis by (intro exI [of _ ?signed] exI [of _ ?kid]) simp
qed

theorem checkpoint_agrees_with_sth_witness:
  "\<exists>signed kid. kid = take 4 (toy_hash (ascii ''log.example'' @ ascii [newline] @ [5] @ [7])) \<and>
    to_api_response (\<lambda>x. ''QQ=='') (create_sth (\<lambda>k x. k # x) \<lparr>timestamp_millis = 0, sub_millis_nanos = 0\<rparr>
        \<lparr>sth_signing_key = 1, sth_origin = ''log.example'', sth_log_id = [7]\<rparr> 3 [9] (Some 8)) =
      \<lparr>resp_tree_size = 3, resp_timestamp = 8, sha256_root_hash = ''QQ=='', tree_head_signature = ''QQ==''\<rparr> \<and>
    text_lines (SignedNote_format (\<lambda>x. ''QQ=='') (create_checkpoint toy_hash (\<lambda>k x. k # x) (\<lambda>x. ''QQ=='') \<lparr>timestamp_millis = 0, sub_millis_nanos = 0\<rparr>
        \<lparr>sth_signing_key = 1, sth_origin = ''log.example'', sth_log_id = [7]\<rparr> 3 [9] (Some 8))) =
      [''log.example'', dec (3::u64), ''QQ=='', [], em_dash @ '' '' @ ''log.example'' @ '' '' @ ''QQ=='']"
  using checkpoint_agrees_with_sth [of "\<lparr>sth_signing_key = 1, sth_origin = ''log.example'', sth_log_id = [7]\<rparr>" "\<lambda>x. ''QQ==''"
      "[9]" toy_hash "\<lambda>k x. k # x" "\<lparr>timestamp_millis = 0, sub_millis_nanos = 0\<rparr>" 3 8]
  by (simp add: newline_def)

end
