(* ===== verification/Tile_Leaf.thy ===== *)
theory Tile_Leaf
  imports Log_Entry Tile
begin

text \<open>
  The rest of \<^verbatim>\<open>src/src/types/tiles.rs\<close>: the leaves of data tiles and tile indices in paths; and
  \<^verbatim>\<open>src/src/types/pages.rs\<close>: pages of entries. \<open>parse_tile_leaf\<close> and \<open>parse_page\<close> are readers of the two binary
  formats against which the writers are shown correct. The format of pages is that of the code, with a length before each timestamped
  entry, not that of the proposal in the repository, which has none.
\<close>

section \<open>Leaves of data tiles\<close>

record TileLeaf =
  timestamped_entry_raw :: bytes
  pre_certificate :: "bytes option"
  certificate_chain :: "bytes list"

text \<open>The slice \<^verbatim>\<open>leaf_data[2..]\<close> panics on shorter data.\<close>

definition TileLeaf_from_entry :: "DeduplicatedLogEntry \<Rightarrow> bytes option \<Rightarrow> TileLeaf option" where
  "TileLeaf_from_entry entry precert =
     (if length (dedup_leaf_data entry) < 2 then None
      else Some \<lparr>timestamped_entry_raw = drop 2 (dedup_leaf_data entry),
                 pre_certificate = (if dedup_entry_type entry = PrecertEntry then precert else None),
                 certificate_chain = (case chain_hashes entry of Some hs \<Rightarrow> hs | None \<Rightarrow> [])\<rparr>)"

definition TileLeaf_to_bytes :: "TileLeaf \<Rightarrow> bytes" where
  "TileLeaf_to_bytes self =
     timestamped_entry_raw self
     @ (case pre_certificate self of
          Some precert \<Rightarrow> be_bytes 3 (of_nat (length precert) :: u32) @ precert
        | None \<Rightarrow> [])
     @ be_bytes 2 (of_nat (length (certificate_chain self) * 32) :: u16)
     @ concat (certificate_chain self)"

section \<open>Tile indices in paths\<close>

text \<open>\<^verbatim>\<open>str::split\<close> at a character.\<close>

fun str_split :: "char \<Rightarrow> string \<Rightarrow> string list" where
  "str_split d [] = [[]]"
| "str_split d (c # cs) =
     (if c = d then [] # str_split d cs
      else case str_split d cs of [] \<Rightarrow> [[c]] | p # ps \<Rightarrow> (c # p) # ps)"

text \<open>\<^verbatim>\<open>str::parse::<u64>\<close>: an optional plus sign, at least one digit, no overflow.\<close>

definition digit_value :: "char \<Rightarrow> nat option" where
  "digit_value c = (let n = of_char c :: nat in if 48 \<le> n \<and> n \<le> 57 then Some (n - 48) else None)"

definition digits_value :: "string \<Rightarrow> nat option" where
  "digits_value s = map_option (foldl (\<lambda>acc d. acc * 10 + d) 0) (those (map digit_value s))"

definition parse_u64 :: "string \<Rightarrow> u64 option" where
  "parse_u64 s =
     (let ds = (case s of c # cs \<Rightarrow> if c = CHR ''+'' then cs else s | [] \<Rightarrow> [])
      in if ds = [] then None
         else case digits_value ds of Some n \<Rightarrow> if n < 2 ^ 64 then Some (of_nat n) else None | None \<Rightarrow> None)"

text \<open>The loop over the parts; the last part keeps an \<^verbatim>\<open>x\<close> in front.\<close>

fun parse_tile_parts :: "u64 \<Rightarrow> string list \<Rightarrow> CtError + u64" where
  "parse_tile_parts index [] = Inr index"
| "parse_tile_parts index (part # rest) =
     (let is_last = (rest = []);
          num_str = (if \<not> is_last \<and> part \<noteq> [] \<and> hd part = CHR ''x'' then tl part else part)
      in if length num_str \<noteq> 3 then Inl (BadRequest ''Each path element must be exactly 3 digits'')
         else case parse_u64 num_str of
             None \<Rightarrow> Inl (BadRequest ''Invalid number in tile path'')
           | Some num \<Rightarrow>
               if 999 < num then Inl (BadRequest ''Path element must be 000-999'')
               else parse_tile_parts (index * 1000 + num) rest)"

definition parse_tile_index :: "string \<Rightarrow> CtError + u64" where
  "parse_tile_index tile_path =
     (let parts = str_split (CHR ''/'') tile_path
      in if parts = [] \<or> 64 < length parts then Inl (BadRequest ''Invalid tile index path'')
         else parse_tile_parts 0 parts)"

text \<open>The test-only inverse.\<close>

definition three_digits :: "nat \<Rightarrow> string" where
  "three_digits n = [digit_char (n div 100), digit_char (n div 10 mod 10), digit_char (n mod 10)]"

fun thousands :: "nat \<Rightarrow> nat list" where
  "thousands n = (if n = 0 then [] else thousands (n div 1000) @ [n mod 1000])"

declare thousands.simps [simp del]

text \<open>\<^verbatim>\<open>[String]::join\<close>.\<close>

fun str_join :: "string \<Rightarrow> string list \<Rightarrow> string" where
  "str_join sep [] = []"
| "str_join sep [p] = p"
| "str_join sep (p # q # ps) = p @ sep @ str_join sep (q # ps)"

definition format_tile_index :: "u64 \<Rightarrow> string" where
  "format_tile_index index =
     (if index = 0 then ''000''
      else
        let parts = map three_digits (thousands (unat index));
            prefixed = map (\<lambda>p. CHR ''x'' # p) (butlast parts) @ [last parts]
        in str_join ''/'' prefixed)"

section \<open>Pages\<close>

datatype PageVersion = PageV1

fun page_version_byte :: "PageVersion \<Rightarrow> u8" where
  "page_version_byte PageV1 = 0"

record PageEntry =
  timestamped_entry :: bytes
  issuer_hashes :: "bytes list"

record EntriesPage =
  format_version :: PageVersion
  entry_count :: u64
  first_entry_index :: u64
  page_entries :: "PageEntry list"

definition EntriesPage_new :: "u64 \<Rightarrow> EntriesPage" where
  "EntriesPage_new first = \<lparr>format_version = PageV1, entry_count = 0, first_entry_index = first, page_entries = []\<rparr>"

definition EntriesPage_add_entry :: "bytes \<Rightarrow> bytes list \<Rightarrow> EntriesPage \<Rightarrow> EntriesPage" where
  "EntriesPage_add_entry entry hs self =
     self\<lparr>page_entries := page_entries self @ [\<lparr>timestamped_entry = entry, issuer_hashes = hs\<rparr>],
          entry_count := entry_count self + 1\<rparr>"

definition page_entry_bytes :: "PageEntry \<Rightarrow> bytes" where
  "page_entry_bytes entry =
     be_bytes 4 (of_nat (length (timestamped_entry entry)) :: u32) @ timestamped_entry entry
     @ be_bytes 2 (of_nat (length (issuer_hashes entry)) :: u16) @ concat (issuer_hashes entry)"

definition EntriesPage_to_binary :: "EntriesPage \<Rightarrow> bytes" where
  "EntriesPage_to_binary self =
     [page_version_byte (format_version self)] @ be64 (entry_count self) @ be64 (first_entry_index self)
     @ concat (map page_entry_bytes (page_entries self))"

text \<open>\<open>decode\<close> is \<^verbatim>\<open>base64::URL_SAFE_NO_PAD.decode\<close> with the text of its error.\<close>

definition base64url_to_hash :: "(string \<Rightarrow> string + bytes) \<Rightarrow> string \<Rightarrow> string + bytes" where
  "base64url_to_hash decode s =
     (case decode s of
        Inl e \<Rightarrow> Inl (''Invalid base64url: '' @ e)
      | Inr bs \<Rightarrow>
          if length bs \<noteq> 32 then Inl (''Invalid hash length: expected 32, got '' @ dec_nat (length bs))
          else Inr bs)"

section \<open>Tile index round trip\<close>

lemma str_split_no: "d \<notin> set p \<Longrightarrow> str_split d p = [p]"
  by (induction p) auto

lemma str_split_append: "d \<notin> set p \<Longrightarrow> str_split d (p @ d # r) = p # str_split d r"
  by (induction p) auto

lemma str_split_join: "ps \<noteq> [] \<Longrightarrow> \<forall>p \<in> set ps. d \<notin> set p \<Longrightarrow> str_split d (str_join [d] ps) = ps"
  by (induction "[d]" ps rule: str_join.induct) (auto simp: str_split_no str_split_append)

lemma digit_value_char: "d < 10 \<Longrightarrow> digit_value (digit_char d) = Some d"
  by (simp add: digit_value_def digit_char_def)

lemma digit_char_eq: "d < 10 \<Longrightarrow> digit_char d = c \<longleftrightarrow> of_char c = 48 + d"
  by (auto simp: digit_char_def) (metis char_of_char)

lemma three_digits_value: "n < 1000 \<Longrightarrow> digits_value (three_digits n) = Some n"
proof -
  assume n: "n < 1000"
  then have d: "n div 100 < 10" "n div 10 mod 10 < 10" "n mod 10 < 10" by auto
  have "n div 100 = n div 10 div 10" by (simp flip: div_mult2_eq)
  then have "(n div 100 * 10 + n div 10 mod 10) * 10 + n mod 10 = n" by (simp only: div_mult_mod_eq)
  with d show ?thesis by (simp add: digits_value_def three_digits_def digit_value_char)
qed

lemma three_digits_chars: "n < 1000 \<Longrightarrow> c \<in> set (three_digits n) \<Longrightarrow> \<exists>d < 10. of_char c = (48 + d :: nat)"
  by (auto simp: three_digits_def digit_char_def)

lemma parse_three_digits: "n < 1000 \<Longrightarrow> parse_u64 (three_digits n) = Some (of_nat n)"
proof -
  assume n: "n < 1000"
  have "n div 100 < 10" using n by auto
  then have "hd (three_digits n) \<noteq> CHR ''+''" by (simp add: three_digits_def digit_char_eq)
  then show ?thesis
    using three_digits_value [OF n] n by (simp add: parse_u64_def three_digits_def)
qed

lemma parse_tile_parts_ok:
  assumes "\<forall>n \<in> set ns. n < 1000" "ns \<noteq> []"
  shows "parse_tile_parts acc (map (\<lambda>n. CHR ''x'' # three_digits n) (butlast ns) @ [three_digits (last ns)])
    = Inr (foldl (\<lambda>a n. a * 1000 + of_nat n) acc ns)"
  using assms
proof (induction ns arbitrary: acc)
  case (Cons n ns)
  have n: "n < 1000" "\<not> 999 < (of_nat n :: u64)" using Cons.prems(1) by (auto simp: word_less_nat_alt unat_of_nat)
  have l: "length (three_digits n) = 3" by (simp add: three_digits_def)
  show ?case
  proof (cases "ns = []")
    case True
    with n l show ?thesis by (simp add: parse_three_digits)
  next
    case False
    with Cons n l show ?thesis by (simp add: parse_three_digits)
  qed
qed simp

lemma thousands_bound: "n < 1000 ^ k \<Longrightarrow> length (thousands n) \<le> k"
proof (induction k arbitrary: n)
  case (Suc k)
  then have "n div 1000 < 1000 ^ k" by (simp add: less_mult_imp_div_less mult.commute)
  with Suc.IH [of "n div 1000"] show ?case by (simp add: thousands.simps [of n])
qed (simp add: thousands.simps)

lemma thousands_props:
  "(\<forall>m \<in> set (thousands n). m < 1000) \<and> foldl (\<lambda>a m. a * 1000 + of_nat m) (0::u64) (thousands n) = of_nat n"
proof (induction n rule: thousands.induct)
  case (1 n)
  show ?case
  proof (cases "n = 0")
    case False
    have "of_nat (n div 1000) * 1000 + of_nat (n mod 1000) = (of_nat n :: u64)"
      by (metis div_mult_mod_eq of_nat_add of_nat_mult of_nat_numeral)
    then show ?thesis using 1 False by (simp add: thousands.simps [of n])
  qed (simp add: thousands.simps)
qed

lemma thousands_eq_Nil: "thousands n = [] \<longleftrightarrow> n = 0"
  by (simp add: thousands.simps [of n])

lemma parse_format_tile_index: "parse_tile_index (format_tile_index i) = Inr i"
proof (cases "i = 0")
  case True
  then show ?thesis
    by (simp add: format_tile_index_def parse_tile_index_def parse_u64_def digits_value_def digit_value_def)
next
  case False
  let ?ns = "thousands (unat i)"
  let ?ps = "map (\<lambda>n. CHR ''x'' # three_digits n) (butlast ?ns) @ [three_digits (last ?ns)]"
  have ns: "?ns \<noteq> []" "\<forall>m \<in> set ?ns. m < 1000" "foldl (\<lambda>a m. a * 1000 + of_nat m) (0::u64) ?ns = i"
    using False thousands_props [of "unat i"] by (simp_all add: thousands_eq_Nil unat_eq_0)
  have "unat i < 2 ^ 64" using unsigned_less [of i, where 'a = nat] by simp
  then have len: "length ?ns \<le> 7" by (intro thousands_bound) simp
  have f: "format_tile_index i = str_join [CHR ''/''] ?ps"
    using False ns(1) by (simp add: format_tile_index_def Let_def map_butlast last_map o_def)
  have "CHR ''/'' \<notin> set p" if "p \<in> set ?ps" for p
  proof -
    have "\<exists>n \<in> set ?ns. p = three_digits n \<or> p = CHR ''x'' # three_digits n"
      using that last_in_set [OF ns(1)] by (auto dest: in_set_butlastD)
    then obtain n where "n \<in> set ?ns" "p = three_digits n \<or> p = CHR ''x'' # three_digits n" by blast
    with ns(2) show ?thesis using three_digits_chars [of n "CHR ''/''"] by auto
  qed
  then have "str_split (CHR ''/'') (str_join [CHR ''/''] ?ps) = ?ps" by (intro str_split_join) auto
  with parse_tile_parts_ok [OF ns(2,1), of 0] ns(3) len show ?thesis by (simp add: f parse_tile_index_def)
qed

text \<open>Every accepted path is a number in base 1000, taken modulo \<open>2 ^ 64\<close>.\<close>

lemma parse_tile_parts_value:
  "parse_tile_parts acc parts = Inr i \<Longrightarrow>
    \<exists>ns. length ns = length parts \<and> (\<forall>n \<in> set ns. n < 1000) \<and> i = foldl (\<lambda>a n. a * 1000 + of_nat n) acc ns"
proof (induction acc parts rule: parse_tile_parts.induct)
  case (2 acc part rest)
  define num_str where "num_str = (if rest \<noteq> [] \<and> part \<noteq> [] \<and> hd part = CHR ''x'' then tl part else part)"
  from "2.prems" obtain num where num: "length num_str = 3" "parse_u64 num_str = Some num" "\<not> 999 < num"
    "parse_tile_parts (acc * 1000 + num) rest = Inr i"
    by (auto simp: num_str_def Let_def split: if_splits option.splits)
  have "\<exists>ns. length ns = length rest \<and> (\<forall>n \<in> set ns. n < 1000) \<and> i = foldl (\<lambda>a n. a * 1000 + of_nat n) (acc * 1000 + num) ns"
    by (rule "2.IH" [OF refl refl _ num(2) [unfolded num_str_def] num(3,4)]) (use num(1) in \<open>simp_all add: num_str_def\<close>)
  then obtain ns where "length ns = length rest" "\<forall>n \<in> set ns. n < 1000" "i = foldl (\<lambda>a n. a * 1000 + of_nat n) (acc * 1000 + num) ns"
    by blast
  then show ?case using num(3) by (intro exI [of _ "unat num # ns"]) (auto simp: word_less_nat_alt)
qed simp

lemma foldl_base_bound: "\<forall>n \<in> set ns. n < 1000 \<Longrightarrow> foldl (\<lambda>a n. a * 1000 + n) acc ns < (Suc acc) * 1000 ^ length ns"
proof (induction ns arbitrary: acc)
  case (Cons n ns)
  have "foldl (\<lambda>a n. a * 1000 + n) (acc * 1000 + n) ns < Suc (acc * 1000 + n) * 1000 ^ length ns" using Cons by simp
  also have "\<dots> \<le> (Suc acc * 1000) * 1000 ^ length ns" by (rule mult_le_mono1) (use Cons.prems in auto)
  finally show ?case by (simp add: algebra_simps)
qed simp

lemma foldl_of_nat: "foldl (\<lambda>a n. a * 1000 + of_nat n) (of_nat acc :: u64) ns = of_nat (foldl (\<lambda>a n. a * 1000 + n) acc ns)"
proof (induction ns arbitrary: acc)
  case (Cons n ns)
  show ?case using Cons.IH [of "acc * 1000 + n"] by simp
qed simp

section \<open>Reading tile leaves and pages\<close>

definition parse_tile_leaf :: "bytes \<Rightarrow> (ParsedLeaf \<times> bytes option \<times> bytes list \<times> bytes) option" where
  "parse_tile_leaf bs = do {
     (p, r1) \<leftarrow> parse_timestamped_entry bs;
     (pre, r2) \<leftarrow> (if parsed_entry_type p = PrecertEntry
                    then map_option (\<lambda>(c, r). (Some c, r)) (read_vec 3 r1) else Some (None, r1));
     (fps, r3) \<leftarrow> read_vec 2 r2;
     Some (p, pre, chunks output_size fps, r3) }"

fun read_hashes :: "nat \<Rightarrow> bytes \<Rightarrow> (bytes list \<times> bytes) option" where
  "read_hashes 0 bs = Some ([], bs)"
| "read_hashes (Suc n) bs = do { (h, r) \<leftarrow> read_n 32 bs; (hs, r') \<leftarrow> read_hashes n r; Some (h # hs, r') }"

fun read_page_entries :: "nat \<Rightarrow> bytes \<Rightarrow> PageEntry list option" where
  "read_page_entries 0 bs = (if bs = [] then Some [] else None)"
| "read_page_entries (Suc n) bs = do {
     (e, r1) \<leftarrow> read_vec 4 bs;
     (l, r2) \<leftarrow> read_n 2 r1;
     (hs, r3) \<leftarrow> read_hashes (unat (be_val l :: u16)) r2;
     es \<leftarrow> read_page_entries n r3;
     Some (\<lparr>timestamped_entry = e, issuer_hashes = hs\<rparr> # es) }"

definition parse_page :: "bytes \<Rightarrow> (u64 \<times> PageEntry list) option" where
  "parse_page bs = do {
     (v, r1) \<leftarrow> read_n 1 bs;
     (n, r2) \<leftarrow> read_n 8 r1;
     (first, r3) \<leftarrow> read_n 8 r2;
     if v = [0] then do { es \<leftarrow> read_page_entries (unat (be_val n :: u64)) r3; Some (be_val first, es) } else None }"

lemma read_hashes_concat: "digests_ok hs \<Longrightarrow> read_hashes (length hs) (concat hs @ r) = Some (hs, r)"
  by (induction hs) (simp_all add: output_size_def)

definition page_entry_ok :: "PageEntry \<Rightarrow> bool" where
  "page_entry_ok e \<longleftrightarrow> length (timestamped_entry e) < 2 ^ 32 \<and> length (issuer_hashes e) < 2 ^ 16 \<and> digests_ok (issuer_hashes e)"

lemma read_page_entries_bytes:
  "\<forall>e \<in> set es. page_entry_ok e \<Longrightarrow> read_page_entries (length es) (concat (map page_entry_bytes es)) = Some es"
proof (induction es)
  case (Cons e es)
  have e: "length (timestamped_entry e) < 2 ^ 32" "length (issuer_hashes e) < 2 ^ 16" "digests_ok (issuer_hashes e)"
    using Cons.prems by (simp_all add: page_entry_ok_def)
  have b: "page_entry_bytes e @ r = vec32 (timestamped_entry e) @ be_bytes 2 (of_nat (length (issuer_hashes e)) :: u16) @ concat (issuer_hashes e) @ r" for r
    by (simp add: page_entry_bytes_def vec32_def)
  have l: "unat (be_val (be_bytes 2 (of_nat (length (issuer_hashes e)) :: u16)) :: u16) = length (issuer_hashes e)"
    using e(2) by (simp add: be_val_be_bytes unsigned_take_bit_eq unat_of_nat take_bit_nat_eq_self)
  show ?case
    using Cons e by (simp add: b l read_hashes_concat)
qed simp

text \<open>The count of a page is the number of its entries.\<close>

definition build_page :: "u64 \<Rightarrow> PageEntry list \<Rightarrow> EntriesPage" where
  "build_page first es = fold (\<lambda>e. EntriesPage_add_entry (timestamped_entry e) (issuer_hashes e)) es (EntriesPage_new first)"

lemma build_page_eq:
  "build_page first es = \<lparr>format_version = PageV1, entry_count = of_nat (length es), first_entry_index = first, page_entries = es\<rparr>"
proof -
  have "fold (\<lambda>e. EntriesPage_add_entry (timestamped_entry e) (issuer_hashes e)) es p
    = p\<lparr>page_entries := page_entries p @ es, entry_count := entry_count p + of_nat (length es)\<rparr>" for p :: EntriesPage
    by (induction es arbitrary: p) (simp_all add: EntriesPage_add_entry_def)
  then show ?thesis by (simp add: build_page_def EntriesPage_new_def)
qed

section \<open>Properties\<close>

text \<open>The tile index round trip: the path that \<open>format_tile_index\<close> writes for any 64-bit index is parsed back to
  that index.\<close>

lemma tile_index_roundtrip: "parse_tile_index (format_tile_index i) = Inr i"
  by (rule parse_format_tile_index)

text \<open>An accepted tile path is a number in base 1000: of at most 64 digits, and of at most six (\<open>10 ^ 18\<close>) it is
  returned as it is, while a longer one is reduced modulo \<open>2 ^ 64\<close>; the path of \<open>2 ^ 64\<close> is accepted as tile 0.\<close>

lemma parse_tile_index_value:
  "(case parse_tile_index p of
      Inl _ \<Rightarrow> True
    | Inr i \<Rightarrow> \<exists>ns. length ns = length (str_split (CHR ''/'') p) \<and> length ns \<le> 64 \<and> list_all (\<lambda>n. n < 1000) ns \<and>
        unat i = (if length ns \<le> 6 then foldl (\<lambda>a n. a * 1000 + n) 0 ns else foldl (\<lambda>a n. a * 1000 + n) 0 ns mod 2 ^ 64)) \<and>
   parse_tile_index ''x018/x446/x744/x073/x709/x551/616'' = Inr 0"
proof
  show "case parse_tile_index p of Inl _ \<Rightarrow> True
    | Inr i \<Rightarrow> \<exists>ns. length ns = length (str_split (CHR ''/'') p) \<and> length ns \<le> 64 \<and> list_all (\<lambda>n. n < 1000) ns \<and>
        unat i = (if length ns \<le> 6 then foldl (\<lambda>a n. a * 1000 + n) 0 ns else foldl (\<lambda>a n. a * 1000 + n) 0 ns mod 2 ^ 64)"
  proof (cases "parse_tile_index p")
    case (Inr i)
    then have a: "length (str_split (CHR ''/'') p) \<le> 64" "parse_tile_parts 0 (str_split (CHR ''/'') p) = Inr i"
      by (auto simp: parse_tile_index_def Let_def split: if_splits)
    from parse_tile_parts_value [OF a(2)] obtain ns where ns: "length ns = length (str_split (CHR ''/'') p)" "\<forall>n \<in> set ns. n < 1000"
      "i = foldl (\<lambda>a n. a * 1000 + of_nat n) 0 ns" by blast
    let ?v = "foldl (\<lambda>a n. a * 1000 + n) (0::nat) ns"
    have i: "unat i = ?v mod 2 ^ 64" using foldl_of_nat [of 0 ns] by (simp add: ns(3) unat_of_nat)
    have "?v < 2 ^ 64" if "length ns \<le> 6"
    proof -
      have "?v < 1000 ^ length ns" using foldl_base_bound [OF ns(2), of 0] by simp
      also have "\<dots> \<le> 1000 ^ 6" using that by (rule power_increasing) simp
      finally show ?thesis by simp
    qed
    with a ns i Inr show ?thesis by (auto simp: list_all_iff intro!: exI [of _ ns])
  qed simp
  show "parse_tile_index ''x018/x446/x744/x073/x709/x551/616'' = Inr 0"
    by (simp add: parse_tile_index_def parse_u64_def digits_value_def digit_value_def)
qed

text \<open>A page of entries can be read back: for a page built by adding entries one after the other, a reader of the
  binary format gets the index of the first entry and the entries with their issuer hashes.\<close>

lemma entries_page_roundtrip:
  assumes "\<forall>e \<in> set es. page_entry_ok e" "length es < 2 ^ 64"
  shows "parse_page (EntriesPage_to_binary (build_page first es)) = Some (first, es)"
proof -
  have "read_n 1 (a # r) = Some ([a], r)" for a :: u8 and r by (simp add: read_n_def)
  then show ?thesis
    using read_page_entries_bytes [OF assms(1)] assms(2)
    by (simp add: build_page_eq EntriesPage_to_binary_def parse_page_def unat_of_nat)
qed

end
