(* ===== verification/Api_State.thy ===== *)
theory Api_State
  imports Batch_Worker_Props Validator_Props Tree_Head Tile_Leaf
begin

text \<open>
  What the handlers of \<^verbatim>\<open>src/src/api/\<close> share, from \<^verbatim>\<open>mod.rs\<close> and the request and response types of
  \<^verbatim>\<open>src/src/types/mod.rs\<close>: the state of the server, error responses, the paths of tiles, and the rendering of entries.
  A handler is an operation on the storage (submissions: on the storage with its worker and the certificate cache) whose error is
  a status code with a message. Parameters (\<open>ApiEnv\<close>): base64, hex, gzip, the RFC 3339 rendering of times and signing. Building a
  response from constant headers cannot fail and is not a branch here; the Prometheus counters are left out.
\<close>

section \<open>Errors\<close>

datatype StatusCode = BAD_REQUEST | NOT_FOUND | INTERNAL_SERVER_ERROR | SERVICE_UNAVAILABLE

record ErrorResponse =
  err_text :: string

type_synonym api_error = "StatusCode \<times> ErrorResponse"

abbreviation api_err :: "StatusCode \<Rightarrow> string \<Rightarrow> api_error" where
  "api_err status text \<equiv> (status, \<lparr>err_text = text\<rparr>)"

definition ErrorResponse_from_ct :: "CtError \<Rightarrow> ErrorResponse" where
  "ErrorResponse_from_ct err = \<lparr>err_text = ct_error_display err\<rparr>"

definition ErrorResponse_from_storage :: "StorageError \<Rightarrow> ErrorResponse" where
  "ErrorResponse_from_storage err = \<lparr>err_text = ''Storage error: '' @ storage_error_display err\<rparr>"

definition internal_ct :: "CtError \<Rightarrow> api_error" where
  "internal_ct e = (INTERNAL_SERVER_ERROR, ErrorResponse_from_ct e)"

definition internal_storage :: "StorageError \<Rightarrow> api_error" where
  "internal_storage e = (INTERNAL_SERVER_ERROR, ErrorResponse_from_storage e)"

text \<open>The closure that answers a failed proof.\<close>

definition proof_error :: "CtError \<Rightarrow> api_error" where
  "proof_error e =
     (case e of BadRequest _ \<Rightarrow> (BAD_REQUEST, ErrorResponse_from_ct e) | _ \<Rightarrow> (INTERNAL_SERVER_ERROR, ErrorResponse_from_ct e))"

text \<open>The random delay before the answer to a full queue is left out.\<close>

definition handle_storage_error :: "StorageError \<Rightarrow> api_error" where
  "handle_storage_error e =
     (case e of
        QueueFull \<Rightarrow> api_err SERVICE_UNAVAILABLE ''Service temporarily unavailable - system at capacity''
      | _ \<Rightarrow> (INTERNAL_SERVER_ERROR, ErrorResponse_from_storage e))"

section \<open>Requests and responses\<close>

record AddChainRequest =
  req_chain :: "string list"

record AddChainResponse =
  resp_sct_version :: u8
  resp_id :: string
  resp_sct_timestamp :: u64
  resp_extensions :: string
  resp_signature :: string

record GetProofByHashRequest =
  req_hash :: string
  req_tree_size :: u64

record GetProofByHashResponse =
  leaf_index :: u64
  audit_path :: "string list"

record GetConsistencyProofRequest =
  first :: u64
  second :: u64

record GetConsistencyProofResponse =
  consistency :: "string list"

record GetEntriesRequest =
  req_start :: u64
  req_end :: u64

record LeafEntry =
  leaf_input :: string
  extra_data :: string

record GetEntriesResponse =
  entries :: "LeafEntry list"

record GetRootsResponse =
  certificates :: "string list"

record TemporalInterval =
  start_inclusive :: string
  end_exclusive :: string

record InclusionRequestResponse =
  incl_key :: string
  incl_log_id :: string
  mmd :: u64
  temporal_interval :: TemporalInterval
  incl_url :: string

record GetEntryAndProofRequest =
  req_leaf_index :: u64
  req_opt_tree_size :: "u64 option"

record GetEntryAndProofResponse =
  eap_leaf_input :: string
  eap_extra_data :: string
  eap_audit_path :: "string list"

text \<open>A response with headers and a binary body, for the static and the pages endpoints.\<close>

record Response =
  headers :: "(string \<times> string) list"
  body :: bytes

section \<open>State\<close>

datatype GzError = WriteFailed | FinishFailed

record 'k ApiEnv =
  b64 :: "bytes \<Rightarrow> string"
  b64_decode :: "string \<Rightarrow> bytes option"
  b64url_decode :: "string \<Rightarrow> string + bytes"
  hex_decode :: "string \<Rightarrow> bytes option"
  gz_encode :: "bytes \<Rightarrow> GzError + bytes"
  to_rfc3339 :: "DateTime \<Rightarrow> string"
  from_slice :: "bytes \<Rightarrow> 'k option"
  sign :: "'k \<Rightarrow> bytes \<Rightarrow> bytes"

record 'k ApiState =
  sct_builder :: "'k SctBuilder"
  sth_builder :: "'k SthBuilder"
  validator :: "Rfc6962Validator option"
  log_id :: LogId
  public_key_der :: bytes
  base_url :: string

text \<open>\<^verbatim>\<open>trim_end_matches\<close> with a character and \<^verbatim>\<open>trim_start_matches\<close> with a text, which both remove repeatedly.\<close>

definition trim_end_matches :: "char \<Rightarrow> string \<Rightarrow> string" where
  "trim_end_matches c s = rev (dropWhile (\<lambda>x. x = c) (rev s))"

fun trim_start_matches :: "string \<Rightarrow> string \<Rightarrow> string" where
  "trim_start_matches p s =
     (if p \<noteq> [] \<and> s \<noteq> [] \<and> take (length p) s = p then trim_start_matches p (drop (length p) s) else s)"

declare trim_start_matches.simps [simp del]

definition origin_of :: "string \<Rightarrow> string" where
  "origin_of url = trim_start_matches ''https://'' (trim_start_matches ''http://'' (trim_end_matches (CHR ''/'') url))"

definition ApiState_new ::
  "'k ApiEnv \<Rightarrow> LogId \<Rightarrow> bytes \<Rightarrow> bytes \<Rightarrow> string \<Rightarrow> Rfc6962Validator option \<Rightarrow> CtError + 'k ApiState" where
  "ApiState_new A lid private_key pub_key url val =
     (case from_private_key_bytes (from_slice A) lid private_key of
        Inl e \<Rightarrow> Inl e
      | Inr sct_b \<Rightarrow>
          (case SthBuilder_new (from_slice A) private_key (origin_of url) (LogId_to_bytes lid) of
             Inl e \<Rightarrow> Inl e
           | Inr sth_b \<Rightarrow> Inr \<lparr>sct_builder = sct_b, sth_builder = sth_b, validator = val, log_id = lid,
               public_key_der = pub_key, base_url = url\<rparr>))"

section \<open>Paths of tiles\<close>

text \<open>\<^verbatim>\<open>str::rfind\<close> and \<^verbatim>\<open>str::parse::<u16>\<close>.\<close>

fun str_rfind :: "string \<Rightarrow> string \<Rightarrow> nat option" where
  "str_rfind p [] = (if p = [] then Some 0 else None)"
| "str_rfind p (c # cs) =
     (case str_rfind p cs of
        Some i \<Rightarrow> Some (Suc i)
      | None \<Rightarrow> if take (length p) (c # cs) = p then Some 0 else None)"

definition parse_u16 :: "string \<Rightarrow> u16 option" where
  "parse_u16 s = (case parse_u64 s of Some n \<Rightarrow> if unat n < 2 ^ 16 then Some (ucast n) else None | None \<Rightarrow> None)"

definition parse_tile_path :: "string \<Rightarrow> string \<times> u16 option" where
  "parse_tile_path p =
     (case str_rfind ''.p/'' p of
        Some dot_p_pos \<Rightarrow>
          (case parse_u16 (drop (dot_p_pos + 3) p) of
             Some w \<Rightarrow> if 0 < w \<and> w \<le> 256 then (take dot_p_pos p, Some w) else (p, None)
           | None \<Rightarrow> (p, None))
      | None \<Rightarrow> (p, None))"

section \<open>Rendering of entries\<close>

text \<open>The chain of an entry as a TLS vector of vectors; the total is kept in 32 bits.\<close>

definition chain_vector :: "bytes list \<Rightarrow> bytes" where
  "chain_vector chn =
     (let total_chain_len = foldl (\<lambda>acc cert. acc + (3 + of_nat (length cert))) (0 :: u32) chn
      in be_bytes 3 total_chain_len @ concat (map (\<lambda>cert. be_bytes 3 (of_nat (length cert) :: u32) @ cert) chn))"

definition build_extra_data :: "LogEntry \<Rightarrow> api_error + bytes" where
  "build_extra_data e =
     (case entry_type e of
        X509Entry \<Rightarrow> Inr (case chain e of Some chn \<Rightarrow> chain_vector chn | None \<Rightarrow> [0, 0, 0])
      | PrecertEntry \<Rightarrow>
          (case original_precert e of
             None \<Rightarrow> Inl (api_err INTERNAL_SERVER_ERROR ''Missing original pre-certificate for PrecertEntry'')
           | Some precert \<Rightarrow>
               Inr (be_bytes 3 (of_nat (length precert) :: u32) @ precert
                    @ (case chain e of Some chn \<Rightarrow> chain_vector chn | None \<Rightarrow> [0, 0, 0]))))"

text \<open>A pure computation that may return an error or panic.\<close>

definition of_exc :: "'e exc + 'a \<Rightarrow> ('s, 'e, 'a) io" where
  "of_exc x = (\<lambda>s. (x, s))"

definition leaf_bytes :: "LogEntry \<Rightarrow> ('s, api_error, bytes \<times> bytes) io" where
  "leaf_bytes e =
     and_then (map_err internal_ct (of_exc (LogEntry_serialize e))) (\<lambda>input.
     and_then (of_result (build_extra_data e)) (\<lambda>extra.
     ret (input, extra)))"

end
