(* ===== verification/Api_Read.thy ===== *)
theory Api_Read
  imports Api_State
begin

text \<open>
  The read handlers of \<^verbatim>\<open>src/src/api/handlers.rs\<close> (RFC 6962), \<^verbatim>\<open>static_handlers.rs\<close> (Static CT API) and
  \<^verbatim>\<open>pages_handlers.rs\<close> (pages). The tree the handlers read is the one of the storage. The current time is an argument.
\<close>

type_synonym ('db, 'nc, 'tc, 'cc, 'ec, 'a) handler = "('db, 'nc, 'tc, 'cc, 'ec, api_error, 'a) storage_op"

section \<open>RFC 6962\<close>

definition get_sth ::
  "'k ApiEnv \<Rightarrow> ('db, 'nc, 'tc, 'cc, 'ec) StorageEnv \<Rightarrow> 'k ApiState \<Rightarrow> DateTime \<Rightarrow> ('db, 'nc, 'tc, 'cc, 'ec, SthResponse) handler" where
  "get_sth A E S time =
     and_then (map_err internal_ct (on_tree (ms_committed_root (slate_debug E) (tree_env E)))) (\<lambda>committed_root.
     ret (to_api_response (b64 A)
       (create_sth (sign A) time (sth_builder S) (num_leaves committed_root) (root_hash committed_root) (Some (timestamp_millis time)))))"

definition get_sth_consistency ::
  "'k ApiEnv \<Rightarrow> ('db, 'nc, 'tc, 'cc, 'ec) StorageEnv \<Rightarrow> GetConsistencyProofRequest
    \<Rightarrow> ('db, 'nc, 'tc, 'cc, 'ec, GetConsistencyProofResponse) handler" where
  "get_sth_consistency A E params =
     and_then (map_err proof_error
       (on_tree (consistency_proof_between_sizes (slate_debug E) (tree_env E) (first params) (second params)))) (\<lambda>prf.
     ret \<lparr>consistency = consistency_proof_to_path (b64 A) prf\<rparr>)"

definition get_proof_by_hash ::
  "'k ApiEnv \<Rightarrow> ('db, 'nc, 'tc, 'cc, 'ec) StorageEnv \<Rightarrow> GetProofByHashRequest
    \<Rightarrow> ('db, 'nc, 'tc, 'cc, 'ec, GetProofByHashResponse) handler" where
  "get_proof_by_hash A E params =
     and_then (ok_or (api_err BAD_REQUEST ''Invalid base64 hash'') (b64_decode A (req_hash params))) (\<lambda>h.
     and_then (map_err internal_storage (find_index_by_hash E h)) (\<lambda>found.
     and_then (ok_or (api_err NOT_FOUND ''Leaf not found'') found) (\<lambda>index.
     if req_tree_size params \<le> index then raise (api_err NOT_FOUND ''Leaf not found in requested tree size'')
     else
       and_then (map_err proof_error
         (on_tree (prove_inclusion_efficient (slate_debug E) (tree_env E) (req_tree_size params) index))) (\<lambda>prf.
       ret \<lparr>leaf_index = index, audit_path = inclusion_proof_to_audit_path (b64 A) prf\<rparr>))))"

text \<open>The range that is served: at most a thousand entries, in wrapping arithmetic.\<close>

definition MAX_ENTRIES :: u64 where
  "MAX_ENTRIES = 1000"

definition entries_end :: "u64 \<Rightarrow> u64 \<Rightarrow> u64" where
  "entries_end start stop = (let count = min (stop - start + 1) MAX_ENTRIES in start + count - 1)"

primrec push_entries :: "'k ApiEnv \<Rightarrow> (StorageError + LogEntry option) list \<Rightarrow> ('s, api_error, LeafEntry list) io" where
  "push_entries A [] = ret []"
| "push_entries A (r # rs) =
     and_then (map_err internal_storage (of_result r)) (\<lambda>found.
     case found of
       None \<Rightarrow> push_entries A rs
     | Some e \<Rightarrow>
         and_then (leaf_bytes e) (\<lambda>(input, extra).
         and_then (push_entries A rs) (\<lambda>es.
         ret (\<lparr>leaf_input = b64 A input, extra_data = b64 A extra\<rparr> # es))))"

definition get_entries ::
  "'k ApiEnv \<Rightarrow> ('db, 'nc, 'tc, 'cc, 'ec) StorageEnv \<Rightarrow> GetEntriesRequest
    \<Rightarrow> ('db, 'nc, 'tc, 'cc, 'ec, GetEntriesResponse) handler" where
  "get_entries A E params =
     (if req_end params < req_start params then raise (api_err BAD_REQUEST ''Invalid range: start > end'')
      else
        and_then (join_all (get_entry E) (u64_range_incl (req_start params) (entries_end (req_start params) (req_end params)))) (\<lambda>results.
        and_then (push_entries A results) (\<lambda>es.
        ret \<lparr>entries = es\<rparr>)))"

definition get_roots ::
  "'k ApiEnv \<Rightarrow> ('c, 'x, 'kx) ValidatorEnv \<Rightarrow> 'k ApiState \<Rightarrow> ('s, api_error, GetRootsResponse) io" where
  "get_roots A W S =
     (case validator S of
        Some v \<Rightarrow>
          and_then (map_err internal_ct (of_result (get_accepted_roots W v))) (\<lambda>root_certs.
          ret \<lparr>certificates = map (b64 A) root_certs\<rparr>)
      | None \<Rightarrow> ret \<lparr>certificates = []\<rparr>)"

text \<open>The size of the tree is read even when the request gives one: \<^verbatim>\<open>unwrap_or\<close> takes its argument by value.\<close>

definition get_entry_and_proof ::
  "'k ApiEnv \<Rightarrow> ('db, 'nc, 'tc, 'cc, 'ec) StorageEnv \<Rightarrow> GetEntryAndProofRequest
    \<Rightarrow> ('db, 'nc, 'tc, 'cc, 'ec, GetEntryAndProofResponse) handler" where
  "get_entry_and_proof A E params =
     and_then (map_err internal_ct (on_tree (ms_size (slate_debug E) (tree_env E)))) (\<lambda>size.
     let tree_size = (case req_opt_tree_size params of Some n \<Rightarrow> n | None \<Rightarrow> size) in
     if tree_size \<le> req_leaf_index params then raise (api_err BAD_REQUEST ''Leaf index out of bounds'')
     else
       and_then (map_err internal_storage (get_entry E (req_leaf_index params))) (\<lambda>found.
       and_then (ok_or (api_err NOT_FOUND ''Log entry not found'') found) (\<lambda>e.
       and_then (leaf_bytes e) (\<lambda>(input, extra).
       and_then (map_err proof_error
         (on_tree (prove_inclusion_efficient (slate_debug E) (tree_env E) tree_size (req_leaf_index params)))) (\<lambda>prf.
       ret \<lparr>eap_leaf_input = b64 A input, eap_extra_data = b64 A extra,
            eap_audit_path = inclusion_proof_to_audit_path (b64 A) prf\<rparr>)))))"

definition inclusion_request :: "'k ApiEnv \<Rightarrow> 'k ApiState \<Rightarrow> InclusionRequestResponse" where
  "inclusion_request A S =
     (let wide = \<lparr>start_inclusive = ''2000-01-01T00:00:00Z'', end_exclusive = ''2100-01-01T00:00:00Z''\<rparr>;
          interval = (case validator S of
              Some v \<Rightarrow>
                (case temporal_window (v_config v) of
                   Some window \<Rightarrow> \<lparr>start_inclusive = to_rfc3339 A (window_start window),
                                   end_exclusive = to_rfc3339 A (window_end window)\<rparr>
                 | None \<Rightarrow> wide)
            | None \<Rightarrow> wide)
      in \<lparr>incl_key = b64 A (public_key_der S), incl_log_id = b64 A (LogId_to_bytes (log_id S)), mmd = 0,
          temporal_interval = interval, incl_url = base_url S\<rparr>)"

section \<open>Static CT\<close>

definition immutable :: string where
  "immutable = ''max-age=31536000, immutable''"

definition get_checkpoint ::
  "'k ApiEnv \<Rightarrow> ('db, 'nc, 'tc, 'cc, 'ec) StorageEnv \<Rightarrow> 'k ApiState \<Rightarrow> DateTime \<Rightarrow> ('db, 'nc, 'tc, 'cc, 'ec, Response) handler" where
  "get_checkpoint A E S time =
     and_then (map_err internal_ct (on_tree (ms_committed_root (slate_debug E) (tree_env E)))) (\<lambda>committed_root.
     let checkpoint = create_checkpoint (sha256 E) (sign A) (b64 A) time (sth_builder S) (num_leaves committed_root)
           (root_hash committed_root) (Some (timestamp_millis time))
     in ret \<lparr>headers = [(''content-type'', ''text/plain; charset=utf-8''), (''cache-control'', ''max-age=5, must-revalidate'')],
             body = ascii (SignedNote_format (b64 A) checkpoint)\<rparr>)"

text \<open>One future of \<^verbatim>\<open>generate_merkle_tile\<close>.\<close>

definition tile_hash ::
  "('db, 'nc, 'tc, 'cc, 'ec) StorageEnv \<Rightarrow> u64 \<Rightarrow> u64 \<Rightarrow> u64 \<Rightarrow> ('db, 'nc, 'tc, 'cc, 'ec, CtError, bytes option) storage_op" where
  "tile_hash E tree_size subtree_size position =
     (let start_leaf = position * subtree_size in
      if tree_size \<le> start_leaf then ret None
      else
        let end_leaf = min (start_leaf + subtree_size) tree_size in
        and_then (of_option (compute_subtree_root start_leaf end_leaf)) (\<lambda>subtree_root_idx.
        and_then (on_tree (ms_get_node_hash_at_version (slate_debug E) (tree_env E) subtree_root_idx tree_size)) (\<lambda>h.
        ret (Some h))))"

definition generate_merkle_tile ::
  "('db, 'nc, 'tc, 'cc, 'ec) StorageEnv \<Rightarrow> u8 \<Rightarrow> u64 \<Rightarrow> u64 \<Rightarrow> u16 option \<Rightarrow> ('db, 'nc, 'tc, 'cc, 'ec, Tile) handler" where
  "generate_merkle_tile E lvl tile_index tree_size requested_width =
     (let subtree_size = 256 ^ unat lvl;
          full_subtrees = tree_size div subtree_size;
          has_partial_subtree = 0 < tree_size mod subtree_size;
          total_positions = full_subtrees + (if has_partial_subtree then 1 else 0);
          start_position = tile_index * 256;
          end_position = min (start_position + 256) total_positions
      in if total_positions \<le> start_position then raise (api_err NOT_FOUND ''Tile not found'')
         else
           let max_hashes = (case requested_width of
                 Some w \<Rightarrow> min (ucast w) (end_position - start_position)
               | None \<Rightarrow> end_position - start_position) in
           and_then (map_err (\<lambda>e. api_err INTERNAL_SERVER_ERROR (''Failed to get node hash: '' @ ct_error_display e))
             (map_io (\<lambda>i. tile_hash E tree_size subtree_size (start_position + i)) (u64_range 0 max_hashes))) (\<lambda>results.
           let hs = List.map_filter id results in
           if hs = [] then raise (api_err NOT_FOUND ''Tile not found'') else of_option (Tile_new hs)))"

definition valid_width :: "u16 option \<Rightarrow> bool" where
  "valid_width width_opt = (case width_opt of Some w \<Rightarrow> \<not> (w = 0 \<or> 256 < w) | None \<Rightarrow> True)"

definition api_get_tile ::
  "('db, 'nc, 'tc, 'cc, 'ec) StorageEnv \<Rightarrow> u8 \<Rightarrow> string \<Rightarrow> u16 option \<Rightarrow> ('db, 'nc, 'tc, 'cc, 'ec, Response) handler" where
  "api_get_tile E lvl index_path width_opt =
     (if 5 < lvl then raise (api_err BAD_REQUEST ''Invalid tile level, must be 0-5'')
      else
        and_then (map_err (\<lambda>e. api_err BAD_REQUEST (''Invalid tile index: '' @ ct_error_display e))
          (of_result (parse_tile_index index_path))) (\<lambda>tile_index.
        if \<not> valid_width width_opt then raise (api_err BAD_REQUEST ''Invalid tile width, must be 1-256'')
        else
          and_then (map_err internal_ct (on_tree (ms_committed_root (slate_debug E) (tree_env E)))) (\<lambda>committed_root.
          let tree_size = num_leaves committed_root;
              generate = and_then (generate_merkle_tile E lvl tile_index tree_size width_opt) (\<lambda>tile. ret (Tile_to_bytes tile))
          in
          and_then
            (if width_opt \<noteq> None then generate
             else
               and_then (map_err (\<lambda>_. api_err INTERNAL_SERVER_ERROR ''Failed to retrieve tile'')
                 (on_tree (ms_get_tile (slate_debug E) (tree_env E) lvl tile_index))) (\<lambda>stored.
               case stored of Some data \<Rightarrow> ret data | None \<Rightarrow> generate)) (\<lambda>tile_data.
          ret \<lparr>headers = [(''content-type'', ''application/octet-stream''), (''cache-control'', immutable)], body = tile_data\<rparr>))))"

text \<open>The route handler around it.\<close>

definition handle_tile_request_with_path ::
  "('db, 'nc, 'tc, 'cc, 'ec) StorageEnv \<Rightarrow> u8 \<Rightarrow> string \<Rightarrow> ('db, 'nc, 'tc, 'cc, 'ec, Response) handler" where
  "handle_tile_request_with_path E lvl index_path =
     (case parse_tile_path index_path of (index, w) \<Rightarrow> api_get_tile E lvl index w)"

text \<open>One future of \<^verbatim>\<open>generate_data_tile\<close>: storage errors become \<^verbatim>\<open>CtError::Storage\<close>.\<close>

definition data_tile_leaf ::
  "('db, 'nc, 'tc, 'cc, 'ec) StorageEnv \<Rightarrow> u64 \<Rightarrow> u64 \<Rightarrow> ('db, 'nc, 'tc, 'cc, 'ec, CtError, bytes option) storage_op" where
  "data_tile_leaf E tree_size index =
     (if tree_size \<le> index then ret None
      else
        and_then (map_err Storage (get_deduplicated_entry E index)) (\<lambda>found.
        and_then (ok_or (Internal (''Entry '' @ dec index @ '' not found'')) found) (\<lambda>e.
        and_then
          (case (dedup_entry_type e, original_precert_hash e) of
             (PrecertEntry, Some h) \<Rightarrow> map_err Storage (get_certificate E h)
           | _ \<Rightarrow> ret None) (\<lambda>precert.
        and_then (of_option (TileLeaf_from_entry e precert)) (\<lambda>tile_leaf.
        ret (Some (TileLeaf_to_bytes tile_leaf)))))))"

definition generate_data_tile ::
  "('db, 'nc, 'tc, 'cc, 'ec) StorageEnv \<Rightarrow> u64 \<Rightarrow> u64 \<Rightarrow> u16 option \<Rightarrow> ('db, 'nc, 'tc, 'cc, 'ec, bytes) handler" where
  "generate_data_tile E tile_index tree_size requested_width =
     (let start_offset = tile_index * 256;
          max_entries = (case requested_width of Some w \<Rightarrow> ucast w | None \<Rightarrow> 256) in
      and_then (map_err (\<lambda>e. api_err INTERNAL_SERVER_ERROR (''Failed to get entry data: '' @ ct_error_display e))
        (map_io (\<lambda>i. data_tile_leaf E tree_size (start_offset + i)) (u64_range 0 max_entries))) (\<lambda>results.
      let leaves = List.map_filter id results in
      if leaves = [] then raise (api_err NOT_FOUND ''Data tile not found'') else ret (concat leaves)))"

definition get_data_tile ::
  "'k ApiEnv \<Rightarrow> ('db, 'nc, 'tc, 'cc, 'ec) StorageEnv \<Rightarrow> string \<Rightarrow> u16 option \<Rightarrow> ('db, 'nc, 'tc, 'cc, 'ec, Response) handler" where
  "get_data_tile A E index_path width_opt =
     and_then (map_err (\<lambda>e. api_err BAD_REQUEST (''Invalid tile index: '' @ ct_error_display e))
       (of_result (parse_tile_index index_path))) (\<lambda>tile_index.
     if \<not> valid_width width_opt then raise (api_err BAD_REQUEST ''Invalid tile width, must be 1-256'')
     else
       and_then (map_err internal_ct (on_tree (ms_committed_root (slate_debug E) (tree_env E)))) (\<lambda>committed_root.
       and_then (generate_data_tile E tile_index (num_leaves committed_root) width_opt) (\<lambda>data.
       and_then (map_err (\<lambda>e. api_err INTERNAL_SERVER_ERROR
           (case e of WriteFailed \<Rightarrow> ''Failed to compress data tile'' | FinishFailed \<Rightarrow> ''Failed to finish compression''))
         (of_result (gz_encode A data))) (\<lambda>compressed.
       ret \<lparr>headers = [(''content-type'', ''application/octet-stream''), (''content-encoding'', ''gzip''), (''cache-control'', immutable)],
            body = compressed\<rparr>))))"

definition handle_data_tile_request_with_path ::
  "'k ApiEnv \<Rightarrow> ('db, 'nc, 'tc, 'cc, 'ec) StorageEnv \<Rightarrow> string \<Rightarrow> ('db, 'nc, 'tc, 'cc, 'ec, Response) handler" where
  "handle_data_tile_request_with_path A E index_path =
     (case parse_tile_path index_path of (index, w) \<Rightarrow> get_data_tile A E index w)"

definition get_issuer ::
  "'k ApiEnv \<Rightarrow> ('db, 'nc, 'tc, 'cc, 'ec) StorageEnv \<Rightarrow> string \<Rightarrow> ('db, 'nc, 'tc, 'cc, 'ec, Response) handler" where
  "get_issuer A E fingerprint =
     and_then (ok_or (api_err BAD_REQUEST ''Invalid fingerprint format, must be hex-encoded'') (hex_decode A fingerprint)) (\<lambda>fp.
     if length fp \<noteq> 32 then raise (api_err BAD_REQUEST ''Invalid fingerprint length, must be 32 bytes (64 hex chars)'')
     else
       and_then (map_err (\<lambda>e. api_err INTERNAL_SERVER_ERROR (''Failed to get certificate: '' @ storage_error_display e))
         (get_certificate E fp)) (\<lambda>found.
       and_then (ok_or (api_err NOT_FOUND ''Certificate not found'') found) (\<lambda>cert.
       ret \<lparr>headers = [(''content-type'', ''application/pkix-cert''), (''cache-control'', immutable)], body = cert\<rparr>)))"

section \<open>Pages\<close>

definition PAGE_SIZE :: u64 where
  "PAGE_SIZE = 1000"

record DiscoveryResponse =
  page_size :: u64
  static_endpoint :: "string option"

definition discover :: DiscoveryResponse where
  "discover = \<lparr>page_size = PAGE_SIZE, static_endpoint = None\<rparr>"

definition serialize_timestamped_entry :: "DeduplicatedLogEntry \<Rightarrow> string + bytes" where
  "serialize_timestamped_entry e =
     (if length (dedup_leaf_data e) < 2
      then Inl (''Invalid leaf data: too short (length: '' @ dec_nat (length (dedup_leaf_data e)) @ '')'')
      else Inr (drop 2 (dedup_leaf_data e)))"

definition add_page_entry ::
  "('db, 'nc, 'tc, 'cc, 'ec) StorageEnv \<Rightarrow> u64 \<Rightarrow> EntriesPage \<Rightarrow> ('db, 'nc, 'tc, 'cc, 'ec, EntriesPage) handler" where
  "add_page_entry E index page =
     and_then (map_err (\<lambda>e. api_err INTERNAL_SERVER_ERROR (''Failed to retrieve entry: '' @ storage_error_display e))
       (get_deduplicated_entry E index)) (\<lambda>found.
     case found of
       None \<Rightarrow> raise (api_err INTERNAL_SERVER_ERROR (''Missing entry in log at index: '' @ dec index))
     | Some e \<Rightarrow>
         and_then (map_err (\<lambda>m. api_err INTERNAL_SERVER_ERROR m) (of_result (serialize_timestamped_entry e))) (\<lambda>ts_entry.
         ret (EntriesPage_add_entry ts_entry (case chain_hashes e of Some hs \<Rightarrow> hs | None \<Rightarrow> []) page)))"

definition get_page ::
  "('db, 'nc, 'tc, 'cc, 'ec) StorageEnv \<Rightarrow> u64 \<Rightarrow> ('db, 'nc, 'tc, 'cc, 'ec, Response) handler" where
  "get_page E page_number =
     (let start_index = page_number * PAGE_SIZE;
          end_index = start_index + PAGE_SIZE in
      and_then (map_err (\<lambda>e. api_err INTERNAL_SERVER_ERROR (''Failed to get tree size: '' @ ct_error_display e))
        (on_tree (ms_size (slate_debug E) (tree_env E)))) (\<lambda>tree_size.
      if tree_size \<le> start_index
      then raise (api_err NOT_FOUND (''Page not found. Page number: '' @ dec page_number @ '', tree size: '' @ dec tree_size
             @ '', max page: '' @ dec (tree_size div PAGE_SIZE)))
      else
        let actual_end = min end_index tree_size in
        and_then (fold_io (add_page_entry E) (u64_range start_index actual_end) (EntriesPage_new start_index)) (\<lambda>page.
        ret \<lparr>headers =
               [(''content-type'', ''application/octet-stream''), (''CT-Page-Size'', dec PAGE_SIZE),
                (''CT-Entry-Range'', dec start_index @ ''-'' @ dec (actual_end - 1)),
                (''cache-control'', if actual_end = end_index \<and> actual_end < tree_size
                   then ''public, max-age=31536000, immutable'' else ''no-store'')],
             body = EntriesPage_to_binary page\<rparr>)))"

definition pages_get_certificate ::
  "'k ApiEnv \<Rightarrow> ('db, 'nc, 'tc, 'cc, 'ec) StorageEnv \<Rightarrow> string \<Rightarrow> ('db, 'nc, 'tc, 'cc, 'ec, Response) handler" where
  "pages_get_certificate A E hash_str =
     and_then (map_err (\<lambda>e. api_err BAD_REQUEST (''Invalid certificate hash: '' @ e))
       (of_result (base64url_to_hash (b64url_decode A) hash_str))) (\<lambda>h.
     and_then (map_err (\<lambda>e. api_err INTERNAL_SERVER_ERROR (''Failed to retrieve certificate: '' @ storage_error_display e))
       (get_certificate E h)) (\<lambda>found.
     case found of
       Some cert_data \<Rightarrow>
         ret \<lparr>headers = [(''content-type'', ''application/pkix-cert''), (''cache-control'', ''public, max-age=31536000, immutable'')],
              body = cert_data\<rparr>
     | None \<Rightarrow> raise (api_err NOT_FOUND (''Certificate not found for hash: '' @ hash_str))))"

end
