(* ===== verification/Api_Submit.thy ===== *)
theory Api_Submit
  imports Api_State
begin

text \<open>
  The submission handlers of \<^verbatim>\<open>src/src/api/handlers.rs\<close>. Their state is the storage with its batch worker and the cache of
  parsed certificates. A handler runs up to the wait for its batch: it either has a response already or has queued an entry whose
  completion channel is \<open>tx\<close>; \<open>add_chain_resume\<close> is what it does with the message on that channel. The time and the number of the
  channel are arguments.
\<close>

section \<open>State\<close>

record ('db, 'nc, 'tc, 'cc, 'ec, 'c) Api =
  api_worker :: "('db, 'nc, 'tc, 'cc, 'ec) Worker"
  x509_cache :: 'c

type_synonym ('db, 'nc, 'tc, 'cc, 'ec, 'c, 'a) submit_op = "(('db, 'nc, 'tc, 'cc, 'ec, 'c) Api, api_error, 'a) io"

definition on_storage :: "('db, 'nc, 'tc, 'cc, 'ec, 'e, 'a) storage_op \<Rightarrow> (('db, 'nc, 'tc, 'cc, 'ec, 'c) Api, 'e, 'a) io" where
  "on_storage m = zoom (\<lambda>s. store (api_worker s)) (\<lambda>st s. s\<lparr>api_worker := (api_worker s)\<lparr>store := st\<rparr>\<rparr>) m"

definition on_cache :: "('c, 'e, 'a) io \<Rightarrow> (('db, 'nc, 'tc, 'cc, 'ec, 'c) Api, 'e, 'a) io" where
  "on_cache m = zoom x509_cache (\<lambda>c s. s\<lparr>x509_cache := c\<rparr>) m"

text \<open>\<^verbatim>\<open>add_entry_batched\<close> up to the wait.\<close>

definition submit_entry :: "BatchConfig \<Rightarrow> BatchEntry \<Rightarrow> (('db, 'nc, 'tc, 'cc, 'ec, 'c) Api, StorageError, unit) io" where
  "submit_entry config b s =
     (case try_send config b (api_worker s) of
        (Some e, w) \<Rightarrow> (Inl (Err e), s\<lparr>api_worker := w\<rparr>)
      | (None, w) \<Rightarrow> (Inr (), s\<lparr>api_worker := w\<rparr>))"

datatype Submission = Answered AddChainResponse | Waiting

section \<open>Parts of the handlers\<close>

definition sct_response :: "'k ApiEnv \<Rightarrow> SignedCertificateTimestamp \<Rightarrow> AddChainResponse" where
  "sct_response A sct =
     \<lparr>resp_sct_version = sct_version_byte (sct_version sct), resp_id = b64 A (LogId_to_bytes (sct_log_id sct)),
      resp_sct_timestamp = sct_timestamp sct, resp_extensions = b64 A (sct_extensions sct), resp_signature = b64 A (sct_signature sct)\<rparr>"

definition decode_chain :: "'k ApiEnv \<Rightarrow> string list \<Rightarrow> api_error + bytes list" where
  "decode_chain A certs =
     collect_results (\<lambda>cert. case b64_decode A cert of
       None \<Rightarrow> Inl (api_err BAD_REQUEST ''Invalid base64 in certificate chain'') | Some der \<Rightarrow> Inr der) certs"

text \<open>Each certificate after the first must parse.\<close>

definition check_chain_certs :: "X509Ops \<Rightarrow> bytes list \<Rightarrow> api_error + bytes list" where
  "check_chain_certs X certs =
     collect_results (\<lambda>der. case cert_from_der X der of
       Inl e \<Rightarrow> Inl (api_err BAD_REQUEST (''Invalid X.509 certificate in chain '' @ e)) | Inr _ \<Rightarrow> Inr der) certs"

definition run_validator ::
  "('c, 'x, 'kx) ValidatorEnv \<Rightarrow> 'k ApiState \<Rightarrow> bytes list \<Rightarrow> ('db, 'nc, 'tc, 'cc, 'ec, 'c, unit) submit_op" where
  "run_validator W S chn =
     (case validator S of
        None \<Rightarrow> ret ()
      | Some v \<Rightarrow>
          map_err (\<lambda>e. api_err BAD_REQUEST (''Certificate validation failed: '' @ ct_error_display e)) (on_cache (validate_chain W v chn)))"

text \<open>The callback given to the storage; \<open>None\<close> is the panic of \<^verbatim>\<open>expect\<close>.\<close>

definition sct_callback_for ::
  "'k ApiEnv \<Rightarrow> 'k ApiState \<Rightarrow> bytes \<Rightarrow> LogEntryType \<Rightarrow> bytes option \<Rightarrow> u64 \<Rightarrow> u64 \<Rightarrow> SignedCertificateTimestamp option" where
  "sct_callback_for A S cert ty kh ms index =
     (case create_sct_with_timestamp_and_index (sign A) (sct_builder S) cert ty kh ms (Some index) of
        Inl _ \<Rightarrow> None | Inr sct \<Rightarrow> Some sct)"

definition bad_request_ct :: "CtError \<Rightarrow> api_error" where
  "bad_request_ct e = (BAD_REQUEST, ErrorResponse_from_ct e)"

definition nonempty_chain :: "bytes list \<Rightarrow> bytes list option" where
  "nonempty_chain chn = (if chn \<noteq> [] then Some chn else None)"

section \<open>Submissions\<close>

definition add_chain ::
  "'k ApiEnv \<Rightarrow> ('db, 'nc, 'tc, 'cc, 'ec) StorageEnv \<Rightarrow> ('c, 'x, 'kx) ValidatorEnv \<Rightarrow> BatchConfig \<Rightarrow> 'k ApiState \<Rightarrow> DateTime \<Rightarrow> nat
    \<Rightarrow> AddChainRequest \<Rightarrow> ('db, 'nc, 'tc, 'cc, 'ec, 'c, Submission) submit_op" where
  "add_chain A E W config S time tx request =
     (if req_chain request = [] then raise (api_err BAD_REQUEST ''Chain cannot be empty'')
      else
        and_then (of_result (decode_chain A (req_chain request))) (\<lambda>chn.
        let cert_der = chn ! 0 in
        and_then (map_err (\<lambda>e. api_err BAD_REQUEST (''Invalid certificate format: Failed to parse certificate: '' @ e))
          (of_result (cert_from_der (x509_ops E) cert_der))) (\<lambda>_.
        and_then (run_validator W S chn) (\<lambda>_.
        let cert_hash = sha256 E cert_der in
        and_then (map_err internal_storage (on_storage (get_sct_by_cert_hash E cert_hash))) (\<lambda>existing.
        case existing of
          Some entry \<Rightarrow> ret (Answered (sct_response A (cse_sct entry)))
        | None \<Rightarrow>
            and_then (map_err bad_request_ct (of_result (LogEntry_is_precertificate (x509_ops E) cert_der))) (\<lambda>precert.
            if precert then raise (api_err BAD_REQUEST ''Pre-certificates should be submitted to /ct/v1/add-pre-chain'')
            else
              and_then (of_result (check_chain_certs (x509_ops E) (tl chn))) (\<lambda>processed_chain.
              and_then (of_option (new_with_timestamp 0 cert_der (nonempty_chain processed_chain) time)) (\<lambda>le.
              and_then (map_err handle_storage_error (submit_entry config
                \<lparr>log_entry = le, batch_cert_hash = cert_hash,
                 sct_callback = sct_callback_for A S cert_der X509Entry None (timestamp_millis time), completion_tx = tx\<rparr>)) (\<lambda>_.
              ret Waiting)))))))))"

definition add_pre_chain ::
  "'k ApiEnv \<Rightarrow> ('db, 'nc, 'tc, 'cc, 'ec) StorageEnv \<Rightarrow> ('c, 'x, 'kx) ValidatorEnv \<Rightarrow> BatchConfig \<Rightarrow> 'k ApiState \<Rightarrow> DateTime \<Rightarrow> nat
    \<Rightarrow> AddChainRequest \<Rightarrow> ('db, 'nc, 'tc, 'cc, 'ec, 'c, Submission) submit_op" where
  "add_pre_chain A E W config S time tx request =
     (if req_chain request = [] then raise (api_err BAD_REQUEST ''Chain cannot be empty'')
      else
        and_then (of_result (decode_chain A (req_chain request))) (\<lambda>chn.
        let precert_der = chn ! 0 in
        and_then (map_err bad_request_ct (of_result (LogEntry_is_precertificate (x509_ops E) precert_der))) (\<lambda>precert.
        if \<not> precert then raise (api_err BAD_REQUEST ''Certificate is not a pre-certificate (missing poison extension)'')
        else
          and_then (of_result (check_chain_certs (x509_ops E) (tl chn))) (\<lambda>processed_chain.
          let complete_chain = precert_der # processed_chain in
          and_then (run_validator W S complete_chain) (\<lambda>_.
          and_then (map_err bad_request_ct (case validator S of
              Some v \<Rightarrow> of_exc (v_extract_issuer_key_hash W v complete_chain)
            | None \<Rightarrow> of_result (extract_issuer_key_hash_minimal (sha256 E) (x509_ops E) complete_chain))) (\<lambda>kh.
          and_then (map_err bad_request_ct (of_result (extract_tbs_certificate (x509_ops E) precert_der processed_chain))) (\<lambda>tbs.
          let cert_hash = sha256 E (tbs @ kh) in
          and_then (map_err internal_storage (on_storage (get_sct_by_cert_hash E cert_hash))) (\<lambda>existing.
          case existing of
            Some entry \<Rightarrow> ret (Answered (sct_response A (cse_sct entry)))
          | None \<Rightarrow>
              and_then (of_option (new_precert_with_timestamp 0 tbs (nonempty_chain processed_chain) kh precert_der time)) (\<lambda>le.
              and_then (map_err handle_storage_error (submit_entry config
                \<lparr>log_entry = le, batch_cert_hash = cert_hash,
                 sct_callback = sct_callback_for A S tbs PrecertEntry (Some kh) (timestamp_millis time), completion_tx = tx\<rparr>)) (\<lambda>_.
              ret Waiting))))))))))"

text \<open>The rest of both handlers, after the wait.\<close>

definition add_chain_resume :: "'k ApiEnv \<Rightarrow> completion \<Rightarrow> api_error + AddChainResponse" where
  "add_chain_resume A r =
     (case r of Inl e \<Rightarrow> Inl (handle_storage_error e) | Inr (assigned_index, sct) \<Rightarrow> Inr (sct_response A sct))"

end
