(* ===== verification/Router.thy ===== *)
theory Router
  imports Api_Read Api_Submit
begin

text \<open>
  The rest of \<^verbatim>\<open>src/src/api/mod.rs\<close>: the route table, the dispatch of requests to the handlers, the health check and the metrics
  middleware. What axum contributes is a parameter (\<open>Framework\<close>): the route of a request and the texts of its path parameters, their decoding and that
  of queries and JSON bodies, and the rejections. Compression of responses and the removal of the body of an answer to HEAD are left out.
\<close>

section \<open>Routes\<close>

datatype segment = Lit string | Param string | Rest string

datatype endpoint =
    EpAddChain | EpAddPreChain | EpGetSth | EpGetSthConsistency | EpGetProofByHash | EpGetEntries | EpGetRoots | EpGetEntryAndProof
  | EpCheckpoint | EpTile | EpDataTile | EpIssuer | EpInclusionRequest | EpDiscover | EpPage | EpCertificate | EpHealth | EpMetrics

type_synonym route = "segment list \<times> string \<times> endpoint"

definition ct_v1 :: "string \<Rightarrow> segment list" where
  "ct_v1 name = [Lit ''ct'', Lit ''v1'', Lit name]"

definition create_router :: "route list" where
  "create_router =
    [(ct_v1 ''add-chain'', ''POST'', EpAddChain),
     (ct_v1 ''add-pre-chain'', ''POST'', EpAddPreChain),
     (ct_v1 ''get-sth'', ''GET'', EpGetSth),
     (ct_v1 ''get-sth-consistency'', ''GET'', EpGetSthConsistency),
     (ct_v1 ''get-proof-by-hash'', ''GET'', EpGetProofByHash),
     (ct_v1 ''get-entries'', ''GET'', EpGetEntries),
     (ct_v1 ''get-roots'', ''GET'', EpGetRoots),
     (ct_v1 ''get-entry-and-proof'', ''GET'', EpGetEntryAndProof),
     ([Lit ''checkpoint''], ''GET'', EpCheckpoint),
     ([Lit ''tile'', Param ''level'', Rest ''index''], ''GET'', EpTile),
     ([Lit ''tile'', Lit ''data'', Rest ''index''], ''GET'', EpDataTile),
     ([Lit ''issuer'', Param ''fingerprint''], ''GET'', EpIssuer),
     ([Lit ''inclusion_request.json''], ''GET'', EpInclusionRequest),
     ([Lit ''ct-pages'', Lit ''v1'', Lit ''discover''], ''GET'', EpDiscover),
     ([Lit ''ct-pages'', Lit ''v1'', Lit ''page'', Param ''page_number''], ''GET'', EpPage),
     ([Lit ''ct-pages'', Lit ''v1'', Lit ''certificate'', Param ''hash''], ''GET'', EpCertificate),
     ([Lit ''health''], ''GET'', EpHealth),
     ([Lit ''metrics''], ''GET'', EpMetrics)]"

section \<open>Requests\<close>

record HttpRequest =
  http_method :: string
  http_path :: string
  http_query :: string
  http_body :: bytes

type_synonym rejection = "nat \<times> string"

text \<open>The choice of a route, for a table of patterns with their methods, the method and the path of a request.\<close>

datatype routing = Routed "segment list" "string list" | NotRouted | WrongMethod

record Framework =
  route_request :: "(segment list \<times> string) list \<Rightarrow> string \<Rightarrow> string \<Rightarrow> routing"
  percent_decode :: "string \<Rightarrow> string option"
  path_rejection :: "string list \<Rightarrow> rejection"
  json_chain :: "bytes \<Rightarrow> rejection + AddChainRequest"
  query_consistency :: "string \<Rightarrow> rejection + GetConsistencyProofRequest"
  query_proof :: "string \<Rightarrow> rejection + GetProofByHashRequest"
  query_entries :: "string \<Rightarrow> rejection + GetEntriesRequest"
  query_entry_and_proof :: "string \<Rightarrow> rejection + GetEntryAndProofRequest"
  encode_metrics :: "string + bytes"
  from_utf8 :: "bytes \<Rightarrow> string + string"
  cargo_pkg_version :: string

text \<open>Why a request is refused, and the bodies of answers.\<close>

datatype Refusal = Handler api_error | PlainError StatusCode string | Rejected rejection | NoRoute | MethodNotAllowed

record HealthResponse =
  health_status :: string
  health_version :: string

datatype Reply =
    Submitted Submission | Sth SthResponse | Consistency GetConsistencyProofResponse | ProofByHash GetProofByHashResponse
  | Entries GetEntriesResponse | Roots GetRootsResponse | EntryAndProof GetEntryAndProofResponse | Binary Response
  | Inclusion InclusionRequestResponse | Discovery DiscoveryResponse | Health HealthResponse | Text string

definition health_check :: "Framework \<Rightarrow> HealthResponse" where
  "health_check F = \<lparr>health_status = ''healthy'', health_version = cargo_pkg_version F\<rparr>"

definition metrics_handler :: "Framework \<Rightarrow> Refusal + string" where
  "metrics_handler F =
     (case encode_metrics F of
        Inl e \<Rightarrow> Inl (PlainError INTERNAL_SERVER_ERROR (''Failed to encode metrics: '' @ e))
      | Inr buffer \<Rightarrow>
          (case from_utf8 F buffer of
             Inl e \<Rightarrow> Inl (PlainError INTERNAL_SERVER_ERROR (''Failed to convert metrics to string: '' @ e))
           | Inr text \<Rightarrow> Inr text))"

text \<open>\<^verbatim>\<open>str::parse::<u8>\<close>.\<close>

definition parse_u8 :: "string \<Rightarrow> u8 option" where
  "parse_u8 s = (case parse_u64 s of Some n \<Rightarrow> if unat n < 2 ^ 8 then Some (ucast n) else None | None \<Rightarrow> None)"

section \<open>Dispatch\<close>

definition reply :: "('a \<Rightarrow> Reply) \<Rightarrow> ('s, api_error, 'a) io \<Rightarrow> ('s, Refusal, Reply) io" where
  "reply f m = and_then (map_err Handler m) (\<lambda>a. ret (f a))"

definition extracted :: "rejection + 'a \<Rightarrow> ('s, Refusal, 'a) io" where
  "extracted x = map_err Rejected (of_result x)"

definition path_params :: "Framework \<Rightarrow> string list \<Rightarrow> (string list \<Rightarrow> 'a option) \<Rightarrow> ('s, Refusal, 'a) io" where
  "path_params F params f =
     ok_or (Rejected (path_rejection F params)) (case those (map (percent_decode F) params) of None \<Rightarrow> None | Some xs \<Rightarrow> f xs)"

fun one_text :: "string list \<Rightarrow> string option" where
  "one_text [x] = Some x"
| "one_text _ = None"

fun level_and_text :: "string list \<Rightarrow> (u8 \<times> string) option" where
  "level_and_text [l, x] = map_option (\<lambda>n. (n, x)) (parse_u8 l)"
| "level_and_text _ = None"

fun one_u64 :: "string list \<Rightarrow> u64 option" where
  "one_u64 [x] = parse_u64 x"
| "one_u64 _ = None"

primrec run_endpoint ::
  "Framework \<Rightarrow> 'k ApiEnv \<Rightarrow> ('db, 'nc, 'tc, 'cc, 'ec) StorageEnv \<Rightarrow> ('c, 'x, 'kx) ValidatorEnv \<Rightarrow> BatchConfig \<Rightarrow> 'k ApiState \<Rightarrow> DateTime \<Rightarrow> nat
    \<Rightarrow> HttpRequest \<Rightarrow> string list \<Rightarrow> endpoint \<Rightarrow> (('db, 'nc, 'tc, 'cc, 'ec, 'c) Api, Refusal, Reply) io" where
  "run_endpoint F A E W config S time tx req params EpAddChain =
     and_then (extracted (json_chain F (http_body req))) (\<lambda>r. reply Submitted (add_chain A E W config S time tx r))"
| "run_endpoint F A E W config S time tx req params EpAddPreChain =
     and_then (extracted (json_chain F (http_body req))) (\<lambda>r. reply Submitted (add_pre_chain A E W config S time tx r))"
| "run_endpoint F A E W config S time tx req params EpGetSth = reply Sth (on_storage (get_sth A E S time))"
| "run_endpoint F A E W config S time tx req params EpGetSthConsistency =
     and_then (extracted (query_consistency F (http_query req))) (\<lambda>r. reply Consistency (on_storage (get_sth_consistency A E r)))"
| "run_endpoint F A E W config S time tx req params EpGetProofByHash =
     and_then (extracted (query_proof F (http_query req))) (\<lambda>r. reply ProofByHash (on_storage (get_proof_by_hash A E r)))"
| "run_endpoint F A E W config S time tx req params EpGetEntries =
     and_then (extracted (query_entries F (http_query req))) (\<lambda>r. reply Entries (on_storage (get_entries A E r)))"
| "run_endpoint F A E W config S time tx req params EpGetRoots = reply Roots (get_roots A W S)"
| "run_endpoint F A E W config S time tx req params EpGetEntryAndProof =
     and_then (extracted (query_entry_and_proof F (http_query req))) (\<lambda>r. reply EntryAndProof (on_storage (get_entry_and_proof A E r)))"
| "run_endpoint F A E W config S time tx req params EpCheckpoint = reply Binary (on_storage (get_checkpoint A E S time))"
| "run_endpoint F A E W config S time tx req params EpTile =
     and_then (path_params F params level_and_text) (\<lambda>(level, index). reply Binary (on_storage (handle_tile_request_with_path E level index)))"
| "run_endpoint F A E W config S time tx req params EpDataTile =
     and_then (path_params F params one_text) (\<lambda>index. reply Binary (on_storage (handle_data_tile_request_with_path A E index)))"
| "run_endpoint F A E W config S time tx req params EpIssuer =
     and_then (path_params F params one_text) (\<lambda>fp. reply Binary (on_storage (get_issuer A E fp)))"
| "run_endpoint F A E W config S time tx req params EpInclusionRequest = ret (Inclusion (inclusion_request A S))"
| "run_endpoint F A E W config S time tx req params EpDiscover = ret (Discovery discover)"
| "run_endpoint F A E W config S time tx req params EpPage =
     and_then (path_params F params one_u64) (\<lambda>n. reply Binary (on_storage (get_page E n)))"
| "run_endpoint F A E W config S time tx req params EpCertificate =
     and_then (path_params F params one_text) (\<lambda>h. reply Binary (on_storage (pages_get_certificate A E h)))"
| "run_endpoint F A E W config S time tx req params EpHealth = ret (Health (health_check F))"
| "run_endpoint F A E W config S time tx req params EpMetrics = and_then (of_result (metrics_handler F)) (\<lambda>text. ret (Text text))"

definition routes :: "(segment list \<times> string) list" where
  "routes = map (\<lambda>(pat, m, ep). (pat, m)) create_router"

text \<open>The handler that the table registers for the route.\<close>

definition dispatch ::
  "Framework \<Rightarrow> 'k ApiEnv \<Rightarrow> ('db, 'nc, 'tc, 'cc, 'ec) StorageEnv \<Rightarrow> ('c, 'x, 'kx) ValidatorEnv \<Rightarrow> BatchConfig \<Rightarrow> 'k ApiState \<Rightarrow> DateTime \<Rightarrow> nat
    \<Rightarrow> HttpRequest \<Rightarrow> (('db, 'nc, 'tc, 'cc, 'ec, 'c) Api, Refusal, Reply) io" where
  "dispatch F A E W config S time tx req =
     (case route_request F routes (http_method req) (http_path req) of
        NotRouted \<Rightarrow> raise NoRoute
      | WrongMethod \<Rightarrow> raise MethodNotAllowed
      | Routed pat params \<Rightarrow>
          (case map_of create_router pat of
             Some (m, ep) \<Rightarrow> run_endpoint F A E W config S time tx req params ep
           | None \<Rightarrow> raise NoRoute))"

section \<open>The metrics middleware\<close>

text \<open>The gauge and the counter of requests, with its labels endpoint, method and status.\<close>

record HttpMetrics =
  active_connections :: int
  requests_total :: "(string \<times> string \<times> string) \<Rightarrow> nat"

definition starts_with :: "string \<Rightarrow> string \<Rightarrow> bool" where
  "starts_with p s \<longleftrightarrow> take (length p) s = p"

definition is_static_ct_endpoint :: "string \<Rightarrow> bool" where
  "is_static_ct_endpoint p \<longleftrightarrow> p = ''/checkpoint'' \<or> starts_with ''/tile/'' p \<or> starts_with ''/issuer/'' p"

definition normalize_path_for_metrics :: "string \<Rightarrow> string" where
  "normalize_path_for_metrics p =
     (if p = ''/checkpoint'' then p
      else if starts_with ''/tile/'' p then ''/tile''
      else if starts_with ''/issuer/'' p then ''/issuer''
      else p)"

definition tracked :: "string \<Rightarrow> bool" where
  "tracked p \<longleftrightarrow> starts_with ''/ct/v1/'' p \<or> is_static_ct_endpoint p"

text \<open>The middleware before and after the inner service; a request whose connection is closed in between never gets to the second part.\<close>

definition middleware_enter :: "HttpMetrics \<Rightarrow> HttpMetrics" where
  "middleware_enter m = m\<lparr>active_connections := active_connections m + 1\<rparr>"

definition middleware_leave :: "HttpRequest \<Rightarrow> string \<Rightarrow> HttpMetrics \<Rightarrow> HttpMetrics" where
  "middleware_leave req status m =
     (let m' = (if tracked (http_path req)
                then let labels = (normalize_path_for_metrics (http_path req), http_method req, status)
                     in m\<lparr>requests_total := (requests_total m)(labels := requests_total m labels + 1)\<rparr>
                else m)
      in m'\<lparr>active_connections := active_connections m' - 1\<rparr>)"

datatype http_event = Enter HttpRequest | Leave HttpRequest string | Cancel HttpRequest

text \<open>The requests between the two parts are kept beside the metrics.\<close>

inductive http_step :: "http_event \<Rightarrow> HttpMetrics \<times> HttpRequest list \<Rightarrow> HttpMetrics \<times> HttpRequest list \<Rightarrow> bool" where
  enter: "http_step (Enter r) (m, rs) (middleware_enter m, r # rs)"
| leave: "r \<in> set rs \<Longrightarrow> http_step (Leave r status) (m, rs) (middleware_leave r status m, remove1 r rs)"
| cancel: "r \<in> set rs \<Longrightarrow> http_step (Cancel r) (m, rs) (m, remove1 r rs)"

inductive http_run :: "http_event list \<Rightarrow> HttpMetrics \<times> HttpRequest list \<Rightarrow> HttpMetrics \<times> HttpRequest list \<Rightarrow> bool" where
  http_start: "http_run [] s s"
| http_more: "http_run evs s s' \<Longrightarrow> http_step ev s' s'' \<Longrightarrow> http_run (evs @ [ev]) s s''"

inductive_cases http_stepE: "http_step ev s s'"

end
