(* ===== verification/Api_Answers.thy ===== *)
theory Api_Answers
  imports Api_Read
begin

text \<open>
  What the reads of the handlers answer over a log that the storage holds, on a store that does not fail: the reads of single values,
  the reads of many indices (one contract for all of them), and the rendering of a logged entry with a reader for it.
\<close>

section \<open>Single reads\<close>

lemma answers_log:
  assumes "\<And>M. log_ok E ps P M \<Longrightarrow> answers (log_at E V ps P M) m r X"
  shows "answers (log_holds E V ps P) m r X"
  unfolding answers_def
proof (rule tripleI)
  fix s assume "log_holds E V ps P s"
  then obtain M where M: "log_ok E ps P M" "log_at E V ps P M s" by (auto simp: log_holds_def)
  from tripleD [OF assms [OF M(1), unfolded answers_def] M(2)] M(1)
  show "case m s of (Inr a, s') \<Rightarrow> log_holds E V ps P s' \<and> r = Inr a
      | (Inl (Err e), s') \<Rightarrow> log_holds E V ps P s' \<and> (r = Inl e \<or> e \<in> X) | (Inl Panic, s') \<Rightarrow> False"
    by (auto simp: log_holds_def intro!: exI [of _ M])
qed

text \<open>The result as an equation.\<close>

lemma answers_eq:
  "answers T m r {} \<Longrightarrow> T s \<Longrightarrow> \<exists>s'. m s = (map_sum Err id r, s') \<and> T s'"
  by (drule (1) answers_outcome) auto

lemma answers_map_err_none: "answers T m r {} \<Longrightarrow> answers T (map_err g m) (map_sum g id r) {}"
  using answers_map_err [of T m r "{}" g] by simp

abbreviation log_leaves :: "Prepared list \<Rightarrow> bytes list" where
  "log_leaves ps \<equiv> map prep_leaf ps"

abbreviation head_of :: "('db, 'nc, 'tc, 'cc, 'ec) StorageEnv \<Rightarrow> Prepared list \<Rightarrow> RootHash" where
  "head_of E ps \<equiv> \<lparr>root_hash = mth (sha256 E) (log_leaves ps), num_leaves = of_nat (length ps)\<rparr>"

lemma log_tree_answers:
  assumes "storage_ok E V {}"
  shows "answers (log_holds E V ps P) (on_tree (ms_committed_root (slate_debug E) (tree_env E))) (Inr (head_of E ps)) {}"
    "answers (log_holds E V ps P) (on_tree (ms_size (slate_debug E) (tree_env E))) (Inr (of_nat (length ps))) {}"
    "answers (log_holds E V ps P) (on_tree (prove_inclusion_efficient (slate_debug E) (tree_env E) w i))
       (spec_ms_inclusion (sha256 E) (log_leaves ps) P w i) {}"
    "answers (log_holds E V ps P) (on_tree (consistency_proof_between_sizes (slate_debug E) (tree_env E) a b))
       (spec_ms_consistency (sha256 E) (log_leaves ps) P a b) {}"
    "answers (log_holds E V ps P) (on_tree (ms_get_tile (slate_debug E) (tree_env E) l t))
       (Inr (if unat l \<le> 5 \<and> tile_full (length ps) (unat l) (unat t)
             then Some (concat (tile_hashes (sha256 E) (log_leaves ps) (unat l) (unat t))) else None)) {}"
proof -
  have inv: "store_inv (digest_of (tree_env E)) (to_stdvec (tree_env E)) (log_leaves ps) P M" if "log_ok E ps P M" for M
    by (rule log_okD(1) [OF that])
  note on = answers_log [OF answers_on_tree] and env = storage_okD(1) [OF assms]
  show "answers (log_holds E V ps P) (on_tree (ms_committed_root (slate_debug E) (tree_env E))) (Inr (head_of E ps)) {}"
    using on [OF ms_root_answers [OF env inv]] by (simp add: sha256_def)
  show "answers (log_holds E V ps P) (on_tree (ms_size (slate_debug E) (tree_env E))) (Inr (of_nat (length ps))) {}"
    using on [OF ms_answers(1) [OF env inv]] by simp
  show "answers (log_holds E V ps P) (on_tree (prove_inclusion_efficient (slate_debug E) (tree_env E) w i))
       (spec_ms_inclusion (sha256 E) (log_leaves ps) P w i) {}"
    using on [OF ms_inclusion_answers [OF env inv]] by (simp add: sha256_def)
  show "answers (log_holds E V ps P) (on_tree (consistency_proof_between_sizes (slate_debug E) (tree_env E) a b))
       (spec_ms_consistency (sha256 E) (log_leaves ps) P a b) {}"
    using on [OF ms_consistency_answers [OF env inv]] by (simp add: sha256_def)
  show "answers (log_holds E V ps P) (on_tree (ms_get_tile (slate_debug E) (tree_env E) l t))
       (Inr (if unat l \<le> 5 \<and> tile_full (length ps) (unat l) (unat t)
             then Some (concat (tile_hashes (sha256 E) (log_leaves ps) (unat l) (unat t))) else None)) {}"
    using on [OF ms_answers(3) [OF env inv]] by (simp only: sha256_def length_map)
qed

lemma log_reads:
  assumes "storage_ok E V {}"
  shows "answers (log_holds E V ps P) (find_index_by_hash E h)
      (Inr (map_option of_nat (latest (\<lambda>p. leaf_hash_of (sha256 E) p = h) ps))) {}"
    "answers (log_holds E V ps P) (get_sct_by_cert_hash E h)
      (Inr (map_option (\<lambda>i. sct_record i (ps ! i)) (latest (\<lambda>p. prep_cert_hash p = h) ps))) {}"
    "answers (log_holds E V ps P) (get_entry E i) (Inr (if unat i < length ps then Some (prep_entry (ps ! unat i)) else None)) {}"
    "answers (log_holds E V ps P) (get_deduplicated_entry E i)
      (Inr (if unat i < length ps then from_log_entry (sha256 E) (prep_entry (ps ! unat i)) else None)) {}"
  using answers_log [OF answers_find_index [OF assms, unfolded image_empty]] answers_log [OF answers_get_sct [OF assms, unfolded image_empty]]
    answers_log [OF answers_get_entry [OF assms, unfolded image_empty]] answers_log [OF answers_get_dedup [OF assms, unfolded image_empty]]
  by blast+

text \<open>The certificate store is read by content.\<close>

definition cert_lookup :: "digest_fun \<Rightarrow> Prepared list \<Rightarrow> bytes \<Rightarrow> bytes option" where
  "cert_lookup H ps h = List.find (\<lambda>c. H c = h) (log_certs ps)"

lemma cert_lookup_Some: "cert_lookup H ps h = Some c \<Longrightarrow> c \<in> set (log_certs ps) \<and> H c = h"
  by (auto simp: cert_lookup_def find_Some_iff)

lemma cert_lookup_None: "cert_lookup H ps h = None \<longleftrightarrow> (\<forall>c \<in> set (log_certs ps). H c \<noteq> h)"
  by (auto simp: cert_lookup_def find_None_iff)

lemma certs_ok_lookup:
  assumes "certs_ok E ps M"
  shows "M (cert_key h) = cert_lookup (sha256 E) ps h"
proof (cases "cert_lookup (sha256 E) ps h")
  case None
  have "M (cert_key h) \<noteq> Some c" for c using assms None by (auto simp: certs_ok_def cert_lookup_None)
  with None show ?thesis by (cases "M (cert_key h)") auto
next
  case (Some c)
  with cert_lookup_Some [OF Some] assms show ?thesis by (simp add: certs_ok_def)
qed

lemma log_certificate:
  assumes "storage_ok E V {}"
  shows "answers (log_holds E V ps P) (get_certificate E h) (Inr (cert_lookup (sha256 E) ps h)) {}"
proof (rule answers_log)
  fix M assume "log_ok E ps P M"
  then have "M (CERT @ h) = cert_lookup (sha256 E) ps h" using certs_ok_lookup [OF log_okD(3)] by (simp add: cert_key_def)
  with answers_storage_get [OF assms, of ps P M "CERT @ h"] show "answers (log_at E V ps P M) (get_certificate E h) (Inr (cert_lookup (sha256 E) ps h)) {}"
    by (simp add: get_certificate_def)
qed

section \<open>Reads of many indices\<close>

text \<open>
  The contract of a read by index: on the good states it answers with the value of the index and keeps them. The handlers use such
  reads under \<^verbatim>\<open>join_all\<close>, under \<^verbatim>\<open>try_join_all\<close> and in loops.
\<close>

locale indexed_read =
  fixes relied :: "'p \<Rightarrow> bool" and good :: "'p \<Rightarrow> 's \<Rightarrow> bool" and read :: "'p \<Rightarrow> u64 \<Rightarrow> ('s, 'e, 'a) io"
    and inside :: "'p \<Rightarrow> u64 \<Rightarrow> bool" and val :: "'p \<Rightarrow> u64 \<Rightarrow> 'a"
  assumes read_law: "relied p \<Longrightarrow> inside p i \<Longrightarrow> answers (good p) (read p i) (Inr (val p i)) {}"
begin

lemma joined:
  assumes "relied p" "\<And>i. i \<in> set js \<Longrightarrow> inside p i"
  shows "answers (good p) (join_all (read p) js) (Inr (map (\<lambda>i. Inr (val p i)) js)) {}"
proof -
  have "triple (good p) (join_all (read p) js)
    (\<lambda>rs s. good p s \<and> list_all2 (\<lambda>i r. r = Inr (val p i) \<or> r \<in> Inl ` {}) js rs) (\<lambda>e s. good p s \<and> e \<in> {})"
    by (rule triple_join_all) (auto intro: read_law assms)
  moreover have "list_all2 (\<lambda>i r. r = Inr (val p i) \<or> r \<in> Inl ` {}) js rs \<Longrightarrow> rs = map (\<lambda>i. Inr (val p i)) js" for rs
    by (auto simp: list_all2_conv_all_nth list_eq_iff_nth_eq)
  ultimately show ?thesis by (intro answersI) (erule triple_conseq, auto)
qed

lemma in_turn:
  "relied p \<Longrightarrow> (\<And>i. i \<in> set js \<Longrightarrow> inside p i) \<Longrightarrow> answers (good p) (map_io (read p) js) (Inr (map (val p) js)) {}"
  by (rule answers_map_io) (auto intro: read_law)

end

type_synonym ('db, 'nc, 'tc, 'cc, 'ec) log_state =
  "('db, 'nc, 'tc, 'cc, 'ec) StorageEnv \<times> ('db, 'nc, 'cc, 'ec) StorageView \<times> Prepared list \<times> nat set"

fun log_relied :: "('db, 'nc, 'tc, 'cc, 'ec) log_state \<Rightarrow> bool" where
  "log_relied (E, V, ps, P) = storage_ok E V {}"

fun log_good :: "('db, 'nc, 'tc, 'cc, 'ec) log_state \<Rightarrow> ('db, 'nc, 'tc, 'cc, 'ec) CtStorage \<Rightarrow> bool" where
  "log_good (E, V, ps, P) = log_holds E V ps P"

abbreviation log_env :: "('db, 'nc, 'tc, 'cc, 'ec) log_state \<Rightarrow> ('db, 'nc, 'tc, 'cc, 'ec) StorageEnv" where
  "log_env p \<equiv> fst p"

abbreviation log_entries :: "('db, 'nc, 'tc, 'cc, 'ec) log_state \<Rightarrow> Prepared list" where
  "log_entries p \<equiv> fst (snd (snd p))"

interpretation entry_read: indexed_read log_relied log_good "\<lambda>p. get_entry (log_env p)" "\<lambda>p i. True"
  "\<lambda>p i. if unat i < length (log_entries p) then Some (prep_entry (log_entries p ! unat i)) else None"
  by unfold_locales (clarsimp simp only: log_relied.simps log_good.simps fst_conv snd_conv split_paired_all, rule log_reads(3))

section \<open>Rendering of entries\<close>

abbreviation chain_list :: "LogEntry \<Rightarrow> bytes list" where
  "chain_list e \<equiv> (case chain e of Some chn \<Rightarrow> chn | None \<Rightarrow> [])"

lemma chain_vector_eq: "chain_vector chn = vec24 (concat (map vec24 chn))"
proof -
  have total: "foldl (\<lambda>acc cert. acc + (3 + of_nat (length cert))) (of_nat n :: u32) chn = of_nat (n + length (concat (map vec24 chn)))" for n
  proof (induction chn arbitrary: n)
    case (Cons c chn)
    show ?case using Cons.IH [of "n + (3 + length c)"] by (simp add: vec24_def ac_simps)
  qed simp
  have "(\<lambda>cert. be_bytes 3 (of_nat (length cert) :: u32) @ cert) = vec24" by (simp add: vec24_def fun_eq_iff)
  then show ?thesis using total [of 0] by (simp add: chain_vector_def vec24_def [of "concat _"])
qed

text \<open>The extra data of an entry, as RFC 6962 describes it.\<close>

definition extra_bytes :: "LogEntry \<Rightarrow> bytes" where
  "extra_bytes e =
     (case entry_type e of X509Entry \<Rightarrow> [] | PrecertEntry \<Rightarrow> vec24 (the (original_precert e)))
     @ vec24 (concat (map vec24 (chain_list e)))"

lemma build_extra_data_eq:
  "entry_type e = PrecertEntry \<longrightarrow> original_precert e \<noteq> None \<Longrightarrow> build_extra_data e = Inr (extra_bytes e)"
  by (cases "entry_type e"; cases "chain e")
    (auto simp: build_extra_data_def extra_bytes_def chain_vector_eq vec24_def be_bytes_3)

text \<open>A reader of extra data: the pre-certificate, if there is one, and the chain.\<close>

fun read_certs :: "bytes \<Rightarrow> bytes list option" where
  "read_certs bs =
     (if bs = [] then Some []
      else case read_vec 3 bs of
          None \<Rightarrow> None
        | Some (c, r) \<Rightarrow> if length r < length bs then map_option ((#) c) (read_certs r) else None)"

declare read_certs.simps [simp del]

definition parse_extra_data :: "LogEntryType \<Rightarrow> bytes \<Rightarrow> (bytes option \<times> bytes list) option" where
  "parse_extra_data ty bs = do {
     (pre, r1) \<leftarrow> (case ty of X509Entry \<Rightarrow> Some (None, bs) | PrecertEntry \<Rightarrow> map_option (\<lambda>(c, r). (Some c, r)) (read_vec 3 bs));
     (v, r2) \<leftarrow> read_vec 3 r1;
     certs \<leftarrow> read_certs v;
     if r2 = [] then Some (pre, certs) else None }"

lemma read_certs_concat: "\<forall>c \<in> set cs. length c < 2 ^ 24 \<Longrightarrow> read_certs (concat (map vec24 cs)) = Some cs"
proof (induction cs)
  case Nil
  show ?case by (simp add: read_certs.simps)
next
  case (Cons c cs)
  have "vec24 c @ r \<noteq> []" "length r < length (vec24 c @ r)" for r by (simp_all add: vec24_def be_bytes_3)
  with Cons show ?case by (simp add: read_certs.simps [of "vec24 c @ _"])
qed

text \<open>The entries whose parts fit their length fields.\<close>

definition entry_fits :: "LogEntry \<Rightarrow> bool" where
  "entry_fits e \<longleftrightarrow>
     key_hash_ok (entry_type e) (issuer_key_hash e) \<and> length (certificate e) < 2 ^ 24 \<and>
     (case original_precert e of None \<Rightarrow> True | Some c \<Rightarrow> length c < 2 ^ 24) \<and>
     length (concat (map vec24 (chain_list e))) < 2 ^ 24 \<and> length (chain_list e) < 2048"

lemma chain_fits: "length (concat (map vec24 cs)) < 2 ^ 24 \<Longrightarrow> c \<in> set cs \<Longrightarrow> length c < 2 ^ 24"
  by (induction cs) (auto simp: vec24_def)

lemma parse_extra_bytes:
  assumes "entry_fits e" "readable X e"
  shows "parse_extra_data (entry_type e) (extra_bytes e) = Some (original_precert e, chain_list e)"
proof -
  have "length (concat (map vec24 (chain_list e))) < 2 ^ 24" using assms(1) by (simp add: entry_fits_def)
  then have c: "read_certs (concat (map vec24 (chain_list e))) = Some (chain_list e)"
    by (intro read_certs_concat ballI) (rule chain_fits)
  have "read_vec 3 (vec24 (concat (map vec24 (chain_list e)))) = Some (concat (map vec24 (chain_list e)), [])"
    using assms(1) read_vec_vec(2) [of "concat (map vec24 (chain_list e))" "[]"] by (simp add: entry_fits_def)
  with c assms show ?thesis
    by (cases "entry_type e") (auto simp: parse_extra_data_def extra_bytes_def readable_def entry_fits_def split: option.splits)
qed

lemma of_exc_Inr: "of_exc (Inr a) = ret a"
  by (simp add: of_exc_def ret_def fun_eq_iff)

text \<open>A logged entry is rendered as its leaf and its extra data.\<close>

lemma logged_leaf_bytes:
  assumes "logged_at E i p" "key_hash_ok (entry_type (prep_entry p)) (issuer_key_hash (prep_entry p))"
  shows "leaf_bytes (prep_entry p) = ret (prep_leaf p, extra_bytes (prep_entry p))"
proof -
  let ?e = "prep_entry p"
  have l: "entry_index ?e = of_nat i" "readable (x509_ops E) ?e"
    "serialize_merkle_tree_leaf (certificate ?e) (entry_type ?e) (issuer_key_hash ?e) (entry_timestamp ?e) (Some (of_nat i)) = Some (prep_leaf p)"
    using assms(1) by (simp_all add: logged_at_def compute_leaf_data_with_index_def)
  have "LogEntry_serialize ?e = Inr (prep_leaf p)"
    using l assms(2) by (cases "entry_type ?e") (auto simp: LogEntry_serialize_def key_hash_ok_def split: option.splits)
  moreover have "build_extra_data ?e = Inr (extra_bytes ?e)"
    using l(2) by (intro build_extra_data_eq) (auto simp: readable_def split: option.splits)
  ultimately show ?thesis by (simp add: leaf_bytes_def of_exc_Inr)
qed

end
