(* ===== verification/Api_Read_Props.thy ===== *)
theory Api_Read_Props
  imports Api_Answers
begin

text \<open>
  What the read handlers promise to clients of the log: the entries, tree heads and proofs of the RFC 6962 endpoints fit together, and
  the tiles and pages of the other two interfaces are those of the same log. All are stated for a store that does not fail.
\<close>

section \<open>An instance\<close>

definition mem_api :: "u8 ApiEnv" where
  "mem_api = \<lparr>b64 = toy_b64, b64_decode = toy_b64_decode, b64url_decode = (\<lambda>s. Inr (the (toy_b64_decode s))),
     hex_decode = toy_b64_decode, gz_encode = Inr, to_rfc3339 = (\<lambda>_. []), from_slice = (\<lambda>bs. Some (hd bs)), sign = (\<lambda>k bs. k # bs)\<rparr>"

definition mem_state :: "u8 ApiState" where
  "mem_state = projr (ApiState_new mem_api (LogId (replicate 32 1)) [5] [6] ''https://log.example/'' None)"

section \<open>Entries\<close>










text \<open>The instance serves its two entries.\<close>

lemma mem_log: "\<exists>P. log_holds (mem_storage_env mem_env) mem_view mem_logged P mem_after"
  by (rule mem_after_holds)

lemma mem_fits: "list_all (\<lambda>p. entry_fits (prep_entry p)) mem_logged"
  by (simp add: mem_logged_def mem_stamped_def mem_submitted_def entry_fits_def key_hash_ok_def output_size_def vec24_def Let_def)

lemma mem_codec: "b64_decode mem_api (b64 mem_api b) = Some b"
  by (simp add: mem_api_def)



section \<open>Tree heads and proofs\<close>

lemma proof_texts:
  assumes "digests_ok ds"
  shows "inclusion_proof_to_audit_path f (inclusion_from_digests ds) = map f ds"
    "consistency_proof_to_path f (consistency_from_digests ds) = map f ds"
  using chunks_concat [OF assms]
  by (simp_all add: inclusion_proof_to_audit_path_def inclusion_from_digests_def consistency_proof_to_path_def
      consistency_from_digests_def output_size_def)

lemma rfc_digests_ok:
  assumes "\<And>x. length (H x) = output_size"
  shows "digests_ok (path H i D)" "digests_ok (rfc_proof H m D)"
  using digests_ok_ranges [of H D] assms by (simp_all add: path_ranges_hashes rfc_proof_hashes)

lemma sha256_length: "storage_ok E V F \<Longrightarrow> length (sha256 E x) = output_size"
  by (drule storage_okD(1)) (simp add: sha256_def env_ok_def)

lemma get_sth_answers:
  assumes "storage_ok E V {}"
  shows "answers (log_holds E V ps P) (get_sth A E S time)
    (Inr (to_api_response (b64 A) (create_sth (sign A) time (sth_builder S) (of_nat (length ps)) (mth (sha256 E) (log_leaves ps))
      (Some (timestamp_millis time))))) {}"
  unfolding get_sth_def
  by (rule answers_then, rule answers_map_err_none [OF log_tree_answers(1) [OF assms], simplified]) (simp add: answers_ret)

lemma sth_response_fields:
  "resp_tree_size (to_api_response f (create_sth f_sign time b n root ts)) = n"
  "sha256_root_hash (to_api_response f (create_sth f_sign time b n root ts)) = f root"
  by (simp_all add: to_api_response_def create_sth_def SignedTreeHead_new_def Let_def)

text \<open>The consistency proofs of the endpoint.\<close>

definition spec_api_consistency ::
  "'k ApiEnv \<Rightarrow> digest_fun \<Rightarrow> bytes list \<Rightarrow> nat set \<Rightarrow> u64 \<Rightarrow> u64 \<Rightarrow> api_error + GetConsistencyProofResponse" where
  "spec_api_consistency A H D P a b =
     (case spec_ms_consistency H D P a b of
        Inl e \<Rightarrow> Inl (BAD_REQUEST, ErrorResponse_from_ct e)
      | Inr _ \<Rightarrow> Inr \<lparr>consistency = map (b64 A) (if a = b then [] else rfc_proof H (unat a) (take (unat b) D))\<rparr>)"

lemma get_sth_consistency_answers:
  assumes "storage_ok E V {}"
  shows "answers (log_holds E V ps P) (get_sth_consistency A E \<lparr>first = a, second = b\<rparr>)
    (spec_api_consistency A (sha256 E) (log_leaves ps) P a b) {}"
proof -
  let ?r = "spec_ms_consistency (sha256 E) (log_leaves ps) P a b"
  have "answers (log_holds E V ps P) (get_sth_consistency A E \<lparr>first = a, second = b\<rparr>)
    (res_bind (map_sum proof_error id ?r) (\<lambda>prf. Inr \<lparr>consistency = consistency_proof_to_path (b64 A) prf\<rparr>)) {}"
    unfolding get_sth_consistency_def
    by (rule answers_bind) (simp_all add: answers_map_err_none [OF log_tree_answers(4) [OF assms]] answers_ret)
  moreover have "res_bind (map_sum proof_error id ?r) (\<lambda>prf. Inr \<lparr>consistency = consistency_proof_to_path (b64 A) prf\<rparr>)
      = spec_api_consistency A (sha256 E) (log_leaves ps) P a b"
    using proof_texts(2) [OF rfc_digests_ok(2) [of "sha256 E", OF sha256_length [OF assms]]] proof_texts(2) [of "[]"]
    by (simp add: spec_api_consistency_def spec_ms_consistency_def proof_error_def)
  ultimately show ?thesis by simp
qed

text \<open>C17: two tree heads served at any two times are consistent: for the heads that \<open>get_sth\<close> serves for a log and later for an extension of it, the answer of
  \<open>get_sth_consistency\<close> for the two sizes decodes to a proof that the verifier accepts for the two root hashes. The older size must
  be a published one, which every size is that was served while it was current.\<close>

theorem served_heads_are_consistent:
  assumes "storage_ok E V {}" "log_holds E V ps P s" "log_holds E V (ps @ qs) P' t" "length ps \<in> P'"
    and "\<And>b. b64_decode A (b64 A b) = Some b"
  shows "\<exists>old s' new t1 r t2 old_root new_root prf.
    get_sth A E S time s = (Inr old, s') \<and> get_sth A E S time' t = (Inr new, t1) \<and>
    get_sth_consistency A E \<lparr>first = resp_tree_size old, second = resp_tree_size new\<rparr> t1 = (Inr r, t2) \<and>
    b64_decode A (sha256_root_hash old) = Some old_root \<and> b64_decode A (sha256_root_hash new) = Some new_root \<and>
    map (b64_decode A) (consistency r) = map Some prf \<and>
    consistency_verify (sha256 E) (consistency_from_digests prf) \<lparr>root_hash = old_root, num_leaves = resp_tree_size old\<rparr>
      \<lparr>root_hash = new_root, num_leaves = resp_tree_size new\<rparr> = Some (Inr ())"
proof -
  let ?m = "length ps" and ?n = "length (ps @ qs)" and ?D = "log_leaves (ps @ qs)" and ?H = "sha256 E"
  define old where "old = to_api_response (b64 A) (create_sth (sign A) time (sth_builder S) (of_nat ?m) (mth ?H (log_leaves ps)) (Some (timestamp_millis time)))"
  define new where "new = to_api_response (b64 A) (create_sth (sign A) time' (sth_builder S) (of_nat ?n) (mth ?H ?D) (Some (timestamp_millis time')))"
  obtain s' where s': "get_sth A E S time s = (Inr old, s')"
    using answers_valueD [OF get_sth_answers [OF assms(1)] assms(2)] unfolding old_def by blast
  obtain t1 where t1: "get_sth A E S time' t = (Inr new, t1)" "log_holds E V (ps @ qs) P' t1"
    using answers_valueD [OF get_sth_answers [OF assms(1)] assms(3)] unfolding new_def by blast
  have f: "resp_tree_size old = of_nat ?m" "b64_decode A (sha256_root_hash old) = Some (mth ?H (log_leaves ps))"
    "resp_tree_size new = of_nat ?n" "b64_decode A (sha256_root_hash new) = Some (mth ?H ?D)"
    by (simp_all only: old_def new_def sth_response_fields assms(5))
  note b = tree_holds_bounds [OF log_holds_tree(2) [OF assms(3)]]
  have m: "0 < ?m" "?n \<in> P'" "?n \<le> 2 ^ 63" using b assms(4) by (auto simp: sizes_ok_def)
  have u: "unat (of_nat ?m :: u64) = ?m" "unat (of_nat ?n :: u64) = ?n" by (rule unat_of_nat_u64, use m in simp)+
  let ?pf = "rfc_proof ?H ?m ?D"
  have self: "?pf = []" if "?m = ?n" using that rfc_proof_self [of ?D ?H] m(1) by auto
  have r: "spec_api_consistency A ?H ?D P' (of_nat ?m) (of_nat ?n) = Inr \<lparr>consistency = map (b64 A) ?pf\<rparr>"
  proof (cases "?m = ?n")
    case True
    then show ?thesis using self by (simp add: spec_api_consistency_def spec_ms_consistency_def)
  next
    case False
    then have "(of_nat ?m :: u64) \<noteq> of_nat ?n" "(of_nat ?m :: u64) \<noteq> 0" using u m(1) by (metis, metis unat_0 less_irrefl)
    moreover have "\<not> (of_nat ?n :: u64) < of_nat ?m" unfolding word_less_nat_alt u by simp
    ultimately show ?thesis using u m assms(4)
      by (simp add: spec_api_consistency_def spec_ms_consistency_def del: length_append of_nat_add) simp
  qed
  obtain t2 where t2: "get_sth_consistency A E \<lparr>first = of_nat ?m, second = of_nat ?n\<rparr> t1 = (Inr \<lparr>consistency = map (b64 A) ?pf\<rparr>, t2)"
    using answers_valueD [OF get_sth_consistency_answers [OF assms(1), of "ps @ qs" P' A "of_nat ?m" "of_nat ?n", unfolded r] t1(2)] by blast
  have "consistency_verify ?H (consistency_from_digests ?pf) \<lparr>root_hash = mth ?H (log_leaves ps), num_leaves = of_nat ?m\<rparr>
      \<lparr>root_hash = mth ?H ?D, num_leaves = of_nat ?n\<rparr> = Some (Inr ())"
    using consistency_verify_accepts [of ?H ?m ?D, OF sha256_length [OF assms(1)] m(1)] m(3) by simp
  moreover have "map (b64_decode A) (consistency \<lparr>consistency = map (b64 A) ?pf\<rparr>) = map Some ?pf" by (simp add: assms(5))
  ultimately show ?thesis using s' t1(1) t2 f by (metis (no_types, lifting))
qed

theorem served_heads_are_consistent_witness:
  "\<exists>old s' new t1 r t2 old_root new_root prf.
    get_sth mem_api (mem_storage_env mem_env) mem_state mem_time mem_after = (Inr old, s') \<and>
    get_sth mem_api (mem_storage_env mem_env) mem_state \<lparr>timestamp_millis = 2000, sub_millis_nanos = 0\<rparr> mem_after = (Inr new, t1) \<and>
    get_sth_consistency mem_api (mem_storage_env mem_env) \<lparr>first = resp_tree_size old, second = resp_tree_size new\<rparr> t1 = (Inr r, t2) \<and>
    b64_decode mem_api (sha256_root_hash old) = Some old_root \<and> b64_decode mem_api (sha256_root_hash new) = Some new_root \<and>
    map (b64_decode mem_api) (consistency r) = map Some prf \<and>
    consistency_verify (sha256 (mem_storage_env mem_env)) (consistency_from_digests prf) \<lparr>root_hash = old_root, num_leaves = resp_tree_size old\<rparr>
      \<lparr>root_hash = new_root, num_leaves = resp_tree_size new\<rparr> = Some (Inr ())"
proof -
  obtain P where P: "log_holds (mem_storage_env mem_env) mem_view mem_logged P mem_after" using mem_log by blast
  have "length mem_logged \<in> P"
    using tree_holds_bounds [OF log_holds_tree(2) [OF P]] by (auto simp: sizes_ok_def mem_logged_def)
  with P show ?thesis
    by (intro served_heads_are_consistent [where V = mem_view and ps = mem_logged and qs = "[]" and P = P and P' = P] mem_storage_ok mem_env_ok(1))
      (simp_all add: mem_codec)
qed

text \<open>The inclusion proofs of the two endpoints.\<close>

definition spec_api_proof ::
  "'k ApiEnv \<Rightarrow> digest_fun \<Rightarrow> bytes list \<Rightarrow> nat set \<Rightarrow> u64 \<Rightarrow> u64 \<Rightarrow> api_error + string list" where
  "spec_api_proof A H D P n i =
     (case spec_ms_inclusion H D P n i of
        Inl e \<Rightarrow> Inl (BAD_REQUEST, ErrorResponse_from_ct e)
      | Inr _ \<Rightarrow> Inr (map (b64 A) (path H (unat i) (take (unat n) D))))"

definition spec_proof_by_hash ::
  "'k ApiEnv \<Rightarrow> digest_fun \<Rightarrow> Prepared list \<Rightarrow> nat set \<Rightarrow> string \<Rightarrow> u64 \<Rightarrow> api_error + GetProofByHashResponse" where
  "spec_proof_by_hash A H ps P text n =
     (case b64_decode A text of
        None \<Rightarrow> Inl (api_err BAD_REQUEST ''Invalid base64 hash'')
      | Some h \<Rightarrow>
          (case latest (\<lambda>p. leaf_hash_of H p = h) ps of
             None \<Rightarrow> Inl (api_err NOT_FOUND ''Leaf not found'')
           | Some i \<Rightarrow>
               if n \<le> of_nat i then Inl (api_err NOT_FOUND ''Leaf not found in requested tree size'')
               else res_bind (spec_api_proof A H (log_leaves ps) P n (of_nat i)) (\<lambda>texts.
                 Inr \<lparr>leaf_index = of_nat i, audit_path = texts\<rparr>)))"

definition spec_entry_and_proof ::
  "'k ApiEnv \<Rightarrow> digest_fun \<Rightarrow> Prepared list \<Rightarrow> nat set \<Rightarrow> u64 \<Rightarrow> u64 option \<Rightarrow> api_error + GetEntryAndProofResponse" where
  "spec_entry_and_proof A H ps P i size_opt =
     (let n = (case size_opt of Some n \<Rightarrow> n | None \<Rightarrow> of_nat (length ps)) in
      if n \<le> i then Inl (api_err BAD_REQUEST ''Leaf index out of bounds'')
      else if length ps \<le> unat i then Inl (api_err NOT_FOUND ''Log entry not found'')
      else res_bind (spec_api_proof A H (log_leaves ps) P n i) (\<lambda>texts.
        Inr \<lparr>eap_leaf_input = b64 A (prep_leaf (ps ! unat i)), eap_extra_data = b64 A (extra_bytes (prep_entry (ps ! unat i))),
             eap_audit_path = texts\<rparr>))"

lemma answers_pre: "(\<And>s. T s \<Longrightarrow> B) \<Longrightarrow> (B \<Longrightarrow> answers T m r X) \<Longrightarrow> answers T m r X"
  unfolding answers_def by (rule triple_pre)

lemma proof_answers:
  assumes "storage_ok E V {}"
  shows "answers (log_holds E V ps P)
    (and_then (map_err proof_error (on_tree (prove_inclusion_efficient (slate_debug E) (tree_env E) n i)))
       (\<lambda>prf. ret (f (inclusion_proof_to_audit_path (b64 A) prf))))
    (res_bind (spec_api_proof A (sha256 E) (log_leaves ps) P n i) (\<lambda>texts. Inr (f texts))) {}"
proof -
  let ?r = "spec_ms_inclusion (sha256 E) (log_leaves ps) P n i"
  have "answers (log_holds E V ps P)
      (and_then (map_err proof_error (on_tree (prove_inclusion_efficient (slate_debug E) (tree_env E) n i)))
         (\<lambda>prf. ret (f (inclusion_proof_to_audit_path (b64 A) prf))))
      (res_bind (map_sum proof_error id ?r) (\<lambda>prf. Inr (f (inclusion_proof_to_audit_path (b64 A) prf)))) {}"
    by (rule answers_bind) (simp_all add: answers_map_err_none [OF log_tree_answers(3) [OF assms]] answers_ret)
  moreover have "res_bind (map_sum proof_error id ?r) (\<lambda>prf. Inr (f (inclusion_proof_to_audit_path (b64 A) prf)))
      = res_bind (spec_api_proof A (sha256 E) (log_leaves ps) P n i) (\<lambda>texts. Inr (f texts))"
    using proof_texts(1) [OF rfc_digests_ok(1) [of "sha256 E", OF sha256_length [OF assms]]]
    by (simp add: spec_api_proof_def spec_ms_inclusion_def proof_error_def)
  ultimately show ?thesis by simp
qed

lemma get_proof_by_hash_answers:
  assumes "storage_ok E V {}"
  shows "answers (log_holds E V ps P) (get_proof_by_hash A E \<lparr>req_hash = text, req_tree_size = n\<rparr>)
    (spec_proof_by_hash A (sha256 E) ps P text n) {}"
proof (cases "b64_decode A text")
  case None
  then show ?thesis by (simp add: get_proof_by_hash_def spec_proof_by_hash_def answers_raise)
next
  case (Some h)
  have found: "answers (log_holds E V ps P) (map_err internal_storage (find_index_by_hash E h))
      (Inr (map_option of_nat (latest (\<lambda>p. leaf_hash_of (sha256 E) p = h) ps))) {}"
    using answers_map_err_none [OF log_reads(1) [OF assms]] by simp
  show ?thesis
    unfolding get_proof_by_hash_def spec_proof_by_hash_def
    using Some
    by (cases "latest (\<lambda>p. leaf_hash_of (sha256 E) p = h) ps")
      (auto simp: answers_raise intro!: proof_answers [OF assms] answers_then [OF found])
qed

lemma get_entry_and_proof_answers:
  assumes "storage_ok E V {}" "\<And>p. p \<in> set ps \<Longrightarrow> key_hash_ok (entry_type (prep_entry p)) (issuer_key_hash (prep_entry p))"
  shows "answers (log_holds E V ps P) (get_entry_and_proof A E \<lparr>req_leaf_index = i, req_opt_tree_size = size_opt\<rparr>)
    (spec_entry_and_proof A (sha256 E) ps P i size_opt) {}"
proof (rule answers_pre)
  let ?T = "log_holds E V ps P"
  fix s assume "?T s"
  then obtain M where M: "log_ok E ps P M" by (auto simp: log_holds_def)
  then show "\<forall>j < length ps. logged_at E j (ps ! j)" by (simp add: log_okD(5))
next
  let ?T = "log_holds E V ps P"
  assume lg: "\<forall>j < length ps. logged_at E j (ps ! j)"
  have lb: "leaf_bytes (prep_entry (ps ! j)) = ret (prep_leaf (ps ! j), extra_bytes (prep_entry (ps ! j)))" if "j < length ps" for j
    using logged_leaf_bytes [of E j "ps ! j"] lg assms(2) that by simp
  have size: "answers ?T (map_err internal_ct (on_tree (ms_size (slate_debug E) (tree_env E)))) (Inr (of_nat (length ps))) {}"
    using answers_map_err_none [OF log_tree_answers(2) [OF assms(1)]] by simp
  have entry: "answers ?T (map_err internal_storage (get_entry E i)) (Inr (if unat i < length ps then Some (prep_entry (ps ! unat i)) else None)) {}"
    using answers_map_err_none [OF log_reads(3) [OF assms(1), of ps P i], of internal_storage] by (simp only: map_sum.simps id_apply)
  show "answers ?T (get_entry_and_proof A E \<lparr>req_leaf_index = i, req_opt_tree_size = size_opt\<rparr>) (spec_entry_and_proof A (sha256 E) ps P i size_opt) {}"
    unfolding get_entry_and_proof_def spec_entry_and_proof_def Let_def
    by (rule answers_then [OF size])
      (auto simp: answers_raise lb not_le intro!: proof_answers [OF assms(1)] answers_then [OF entry])
qed

text \<open>An entry of the log can be audited over HTTP. The head that \<open>get_sth\<close> serves and the answer of \<open>get_proof_by_hash\<close> for the leaf hash of
  an entry and the size of that head fit together: the index is that of the entry, and the audit path decodes to a proof that the
  verifier accepts for the leaf and the root hash of the head. The hash is assumed not to collide on the leaves of this log.\<close>

lemma served_entries_are_audited:
  assumes "storage_ok E V {}" "log_holds E V ps P s" "i < length ps"
    and "inj_on (sha256 E) ((\<lambda>p. [0x00] @ prep_leaf p) ` set ps)" "\<And>b. b64_decode A (b64 A b) = Some b"
  shows "\<exists>head s1 resp s2 root prf. get_sth A E S time s = (Inr head, s1) \<and>
    get_proof_by_hash A E \<lparr>req_hash = b64 A (leaf_hash_of (sha256 E) (ps ! i)), req_tree_size = resp_tree_size head\<rparr> s1 = (Inr resp, s2) \<and>
    leaf_index resp = of_nat i \<and> b64_decode A (sha256_root_hash head) = Some root \<and>
    map (b64_decode A) (audit_path resp) = map Some prf \<and>
    inclusion_verify (sha256 E) (inclusion_from_digests prf) (prep_leaf (ps ! i)) (leaf_index resp)
      \<lparr>root_hash = root, num_leaves = resp_tree_size head\<rparr> = Some (Inr ())"
proof -
  let ?D = "log_leaves ps" and ?H = "sha256 E" and ?n = "length ps"
  define head where "head = to_api_response (b64 A) (create_sth (sign A) time (sth_builder S) (of_nat ?n) (mth ?H ?D) (Some (timestamp_millis time)))"
  have f: "resp_tree_size head = of_nat ?n" "b64_decode A (sha256_root_hash head) = Some (mth ?H ?D)"
    by (simp_all only: head_def sth_response_fields assms(5))
  obtain s1 where s1: "get_sth A E S time s = (Inr head, s1)" "log_holds E V ps P s1"
    using answers_valueD [OF get_sth_answers [OF assms(1)] assms(2)] unfolding head_def by blast
  note b = tree_holds_bounds [OF log_holds_tree(2) [OF assms(2)]]
  have P: "?n \<in> P" "?n \<le> 2 ^ 63" using b assms(3) by (auto simp: sizes_ok_def)
  have u: "unat (of_nat ?n :: u64) = ?n" "unat (of_nat i :: u64) = i" by (rule unat_of_nat_u64, use P assms(3) in simp)+
  have "latest (\<lambda>p. leaf_hash_of ?H p = leaf_hash_of ?H (ps ! i)) ps = Some i"
    using assms(2) latest_logged_leaf [OF _ assms(3,4)] by (auto simp: log_holds_def)
  moreover have "\<not> (of_nat ?n :: u64) \<le> of_nat i" using assms(3) by (simp add: word_le_nat_alt u)
  ultimately have r: "spec_proof_by_hash A ?H ps P (b64 A (leaf_hash_of ?H (ps ! i))) (of_nat ?n)
      = Inr \<lparr>leaf_index = of_nat i, audit_path = map (b64 A) (path ?H i ?D)\<rparr>"
    using P u assms(5) by (simp add: spec_proof_by_hash_def spec_api_proof_def spec_ms_inclusion_def)
  obtain s2 where s2: "get_proof_by_hash A E \<lparr>req_hash = b64 A (leaf_hash_of ?H (ps ! i)), req_tree_size = of_nat ?n\<rparr> s1
      = (Inr \<lparr>leaf_index = of_nat i, audit_path = map (b64 A) (path ?H i ?D)\<rparr>, s2)"
    using answers_valueD [OF get_proof_by_hash_answers [OF assms(1), of ps P A "b64 A (leaf_hash_of ?H (ps ! i))" "of_nat ?n", unfolded r] s1(2)]
    by blast
  have "inclusion_verify ?H (inclusion_from_digests (path ?H i ?D)) (prep_leaf (ps ! i)) (of_nat i)
      \<lparr>root_hash = mth ?H ?D, num_leaves = of_nat ?n\<rparr> = Some (Inr ())"
    using inclusion_verify_accepts [of ?H i ?D, OF sha256_length [OF assms(1)]] assms(3) P(2) by simp
  with s1(1) s2 f show ?thesis
    by (intro exI [of _ head] exI [of _ s1] exI [of _ "\<lparr>leaf_index = of_nat i, audit_path = map (b64 A) (path ?H i ?D)\<rparr>"] exI [of _ s2]
        exI [of _ "mth ?H ?D"] exI [of _ "path ?H i ?D"]) (simp add: assms(5))
qed

lemma mem_leaves_inj: "inj_on (sha256 (mem_storage_env mem_env)) ((\<lambda>p. [0x00] @ prep_leaf p) ` set mem_logged)"
proof -
  have H: "sha256 (mem_storage_env mem_env) = toy_hash" by (simp add: sha256_def mem_storage_env_def)
  have "toy_hash ([0x00] @ prep_leaf (mem_logged ! 0)) \<noteq> toy_hash ([0x00] @ prep_leaf (mem_logged ! 1))" by code_simp
  moreover have "set mem_logged = {mem_logged ! 0, mem_logged ! 1}" by (simp add: mem_logged_def)
  ultimately show ?thesis unfolding H inj_on_def by auto
qed

text \<open>C29: every request for a proof is answered by its specification. \<open>get_proof_by_hash\<close>: a bad request for text that is not base64, not found
  for a hash that is no leaf of the log or a leaf past the requested size, a bad request naming the reason for a size beyond
  the log or never published, and otherwise the index of the latest entry with that leaf hash and its RFC 6962 audit path. \<open>get_entry_and_proof\<close>
  gives the entry and the path for its index in the requested size, by default the whole log. \<open>get_sth_consistency\<close> gives
  the RFC 6962 consistency proof, and a bad request whenever there is none.\<close>

theorem proof_requests_answered:
  assumes "storage_ok E V {}" "log_holds E V ps P s" "list_all (\<lambda>p. entry_fits (prep_entry p)) ps"
  shows "(\<exists>s'. get_proof_by_hash A E \<lparr>req_hash = text, req_tree_size = n\<rparr> s
      = (map_sum Err id (spec_proof_by_hash A (sha256 E) ps P text n), s') \<and> log_holds E V ps P s') \<and>
   (\<exists>s'. get_entry_and_proof A E \<lparr>req_leaf_index = i, req_opt_tree_size = size_opt\<rparr> s
      = (map_sum Err id (spec_entry_and_proof A (sha256 E) ps P i size_opt), s') \<and> log_holds E V ps P s') \<and>
   (\<exists>s'. get_sth_consistency A E \<lparr>first = a, second = b\<rparr> s
      = (map_sum Err id (spec_api_consistency A (sha256 E) (log_leaves ps) P a b), s') \<and> log_holds E V ps P s')"
proof -
  have k: "key_hash_ok (entry_type (prep_entry p)) (issuer_key_hash (prep_entry p))" if "p \<in> set ps" for p
    using assms(3) that by (auto simp: list_all_iff entry_fits_def)
  show ?thesis
    using answers_eq [OF get_proof_by_hash_answers [OF assms(1)] assms(2)] answers_eq [OF get_entry_and_proof_answers [OF assms(1) k] assms(2)]
      answers_eq [OF get_sth_consistency_answers [OF assms(1)] assms(2)] by blast
qed

theorem proof_requests_answered_witness:
  "\<exists>P. (\<exists>s'. get_proof_by_hash mem_api (mem_storage_env mem_env) \<lparr>req_hash = ''none'', req_tree_size = 2\<rparr> mem_after
      = (map_sum Err id (spec_proof_by_hash mem_api (sha256 (mem_storage_env mem_env)) mem_logged P ''none'' 2), s') \<and>
        log_holds (mem_storage_env mem_env) mem_view mem_logged P s') \<and>
   (\<exists>s'. get_entry_and_proof mem_api (mem_storage_env mem_env) \<lparr>req_leaf_index = 1, req_opt_tree_size = None\<rparr> mem_after
      = (map_sum Err id (spec_entry_and_proof mem_api (sha256 (mem_storage_env mem_env)) mem_logged P 1 None), s') \<and>
        log_holds (mem_storage_env mem_env) mem_view mem_logged P s') \<and>
   (\<exists>s'. get_sth_consistency mem_api (mem_storage_env mem_env) \<lparr>first = 1, second = 2\<rparr> mem_after
      = (map_sum Err id (spec_api_consistency mem_api (sha256 (mem_storage_env mem_env)) (log_leaves mem_logged) P 1 2), s') \<and>
        log_holds (mem_storage_env mem_env) mem_view mem_logged P s')"
proof -
  obtain P where P: "log_holds (mem_storage_env mem_env) mem_view mem_logged P mem_after" using mem_log by blast
  show ?thesis by (rule exI [of _ P], rule proof_requests_answered [OF mem_storage_ok [OF mem_env_ok(1)] P mem_fits])
qed

end
