(* ===== verification/Api_Static_Props.thy ===== *)
theory Api_Static_Props
  imports Api_Read_Props
begin

text \<open>
  What the Static CT and the pages endpoints promise: hash tiles are those of the tree, complete ones never change, and data tiles
  and pages can be read back as the entries of the log.
\<close>

section \<open>Hash tiles\<close>

text \<open>The hash at a position of a level: the subtree there, cut off at the end of the log.\<close>

definition position_hash :: "digest_fun \<Rightarrow> bytes list \<Rightarrow> nat \<Rightarrow> nat \<Rightarrow> bytes" where
  "position_hash H D l q = range_hash H D (q * width l) (min (Suc q * width l) (length D))"

definition spec_tile :: "digest_fun \<Rightarrow> bytes list \<Rightarrow> nat \<Rightarrow> nat \<Rightarrow> nat \<Rightarrow> bytes list" where
  "spec_tile H D l start w = map (position_hash H D l) [start..<min (start + w) (positions (length D) l)]"

definition tile_width :: "u16 option \<Rightarrow> nat" where
  "tile_width width_opt = (case width_opt of Some w \<Rightarrow> unat w | None \<Rightarrow> 256)"

lemma tile_width_bounds: "valid_width w \<Longrightarrow> 0 < tile_width w \<and> tile_width w \<le> 256"
  by (auto simp: valid_width_def tile_width_def unat_gt_0 word_less_nat_alt split: option.splits)

lemma tile_hash_answers:
  assumes "storage_ok E V {}" "l \<le> 5" "q < positions (length ps) l"
  shows "answers (log_holds E V ps P) (tile_hash E (of_nat (length ps)) (of_nat (width l)) (of_nat q))
    (Inr (Some (position_hash (sha256 E) (log_leaves ps) l q))) {}"
proof (rule answers_log)
  fix M assume M: "log_ok E ps P M"
  let ?n = "length ps" and ?lo = "q * width l" and ?hi = "min (Suc q * width l) (length ps)"
  note inv = log_okD(1) [OF M]
  have n: "?n \<le> 2 ^ 63" by (rule log_okD(6) [OF M])
  have lo: "?lo < ?n" using assms(3) by (simp add: positions_less)
  have P: "?n \<in> P" using store_invD(2) [OF inv] lo by (auto simp: sizes_ok_def)
  have w: "width l \<le> 2 ^ 40" by (rule width_bound(2) [OF assms(2)])
  have tr: "trange ?n ?lo ?hi" using tile_trange [OF n, of l 0 q] lo by (simp add: tile_lo_def tile_hi_def add.commute)
  have b: "?lo + width l < 2 ^ 64" using lo n w by simp
  have words: "of_nat q * of_nat (width l) = (of_nat ?lo :: u64)" by simp
  have mn: "min ((of_nat ?lo :: u64) + of_nat (width l)) (of_nat ?n) = of_nat ?hi"
    using of_nat_u64_min [OF b, of ?n] n by (simp add: add.commute)
  have le: "\<not> (of_nat ?n :: u64) \<le> of_nat ?lo" using of_nat_u64_le_iff [of ?n ?lo] lo n by simp
  have "answers (tree_at (tree_env E) (v_db V) (v_nodes V) (log_leaves ps) P M)
      (ms_get_node_hash_at_version (slate_debug E) (tree_env E) (node_of ?lo ?hi) (of_nat ?n))
      (Inr (range_hash (sha256 E) (log_leaves ps) ?lo ?hi)) {}"
    using answers_map_err_none [OF answers_range_hash [OF storage_okD(1) [OF assms(1)] inv P tr, unfolded image_empty],
        of "storage_failure (slate_debug E) ''Failed to get node hash at version: ''"]
    by (simp add: ms_get_node_hash_at_version_def sha256_def)
  then show "answers (log_at E V ps P M) (tile_hash E (of_nat ?n) (of_nat (width l)) (of_nat q))
      (Inr (Some (position_hash (sha256 E) (log_leaves ps) l q))) {}"
    unfolding tile_hash_def Let_def words mn
    by (simp only: le if_False compute_subtree_root_eq [OF tr] pure_ops and_then_ret position_hash_def length_map)
      (rule answers_then [OF answers_on_tree], assumption, rule answers_ret)
qed

lemma u64_range_0: "n < 2 ^ 64 \<Longrightarrow> u64_range 0 (of_nat n) = map of_nat [0..<n]"
  by (simp add: u64_range_def unat_of_nat_u64)

lemma map_filter_Some: "List.map_filter id (map (\<lambda>x. Some (f x)) xs) = map f xs"
  by (induction xs) (simp_all add: List.map_filter_simps)

lemma map_shift_upt: "map (\<lambda>i. f (a + i)) [0..<b - a] = map f [a..<b]"
  by (rule nth_equalityI) simp_all

lemma Tile_new_ok: "0 < length hs \<Longrightarrow> length hs \<le> 256 \<Longrightarrow> Tile_new hs = Some \<lparr>hashes = hs\<rparr>"
  by (simp add: Tile_new_def word_less_nat_alt word_le_nat_alt unat_of_nat)

text \<open>The reads of one tile.\<close>

lemma tile_hashes_answers:
  assumes "storage_ok E V {}" "l \<le> 5" "start + k \<le> positions (length ps) l" "k < 2 ^ 64"
  shows "answers (log_holds E V ps P)
    (map_io (\<lambda>i. tile_hash E (of_nat (length ps)) (of_nat (width l)) (of_nat start + i)) (u64_range 0 (of_nat k)))
    (Inr (map (\<lambda>i. Some (position_hash (sha256 E) (log_leaves ps) l (start + i))) [0..<k])) {}"
  unfolding u64_range_0 [OF assms(4)] map_io_map of_nat_add [symmetric]
  by (rule answers_map_io, rule tile_hash_answers [OF assms(1,2)]) (use assms(3) in simp)

lemma generate_merkle_tile_answers:
  assumes "storage_ok E V {}" "unat lvl \<le> 5" "valid_width w" "length ps \<le> 2 ^ 63"
  shows "answers (log_holds E V ps P) (generate_merkle_tile E lvl t (of_nat (length ps)) w)
    (if positions (length ps) (unat lvl) \<le> unat (t * 256) then Inl (api_err NOT_FOUND ''Tile not found'')
     else Inr \<lparr>hashes = spec_tile (sha256 E) (log_leaves ps) (unat lvl) (unat (t * 256)) (tile_width w)\<rparr>) {}"
proof -
  let ?l = "unat lvl" and ?n = "length ps" and ?st = "unat (t * 256)" and ?pos = "positions (length ps) (unat lvl)"
  have pos: "?pos \<le> 2 ^ 63" using positions_le [of ?n ?l] assms(4) by simp
  have tot: "(of_nat ?n :: u64) div 256 ^ ?l + (if 0 < (of_nat ?n :: u64) mod 256 ^ ?l then 1 else 0) = of_nat ?pos"
    unfolding width_word by (rule of_nat_positions [OF assms(4,2)])
  have st: "t * 256 = of_nat ?st" by simp
  show ?thesis
  proof (cases "?pos \<le> ?st")
    case True
    then have "(of_nat ?pos :: u64) \<le> t * 256" using pos by (simp add: word_le_nat_alt unat_of_nat_u64)
    with True show ?thesis unfolding generate_merkle_tile_def Let_def tot by (simp add: answers_raise)
  next
    case False
    let ?k = "min (?st + tile_width w) ?pos - ?st"
    have w: "0 < tile_width w" "tile_width w \<le> 256" using tile_width_bounds [OF assms(3)] by simp_all
    have k: "0 < ?k" "?k \<le> 256" "?st + ?k \<le> ?pos" "?k < 2 ^ 64" using False w by auto
    have gt: "\<not> (of_nat ?pos :: u64) \<le> t * 256" using False pos by (simp add: word_le_nat_alt unat_of_nat_u64)
    have "min (t * 256 + 256) (of_nat ?pos) = (of_nat (min (?st + 256) ?pos) :: u64)"
      using of_nat_u64_min [of "?st + 256" ?pos] False pos by simp
    then have e: "min (t * 256 + 256) (of_nat ?pos) - t * 256 = (of_nat (min (?st + 256) ?pos - ?st) :: u64)"
      using of_nat_u64_diff [of ?st "min (?st + 256) ?pos"] False st by (simp add: min_def)
    have m: "(case w of Some w \<Rightarrow> min (ucast w) (min (t * 256 + 256) (of_nat ?pos) - t * 256)
        | None \<Rightarrow> min (t * 256 + 256) (of_nat ?pos) - t * 256) = (of_nat ?k :: u64)"
    proof (cases w)
      case None
      then show ?thesis by (simp add: e tile_width_def)
    next
      case (Some v)
      have "(ucast v :: u64) = of_nat (unat v)" by simp
      moreover have "min (unat v) (min (?st + 256) ?pos - ?st) = ?k" using Some w by (auto simp: tile_width_def)
      ultimately show ?thesis using Some of_nat_u64_min [of "unat v" "min (?st + 256) ?pos - ?st"] w False
        by (simp add: e tile_width_def)
    qed
    let ?hs = "map (\<lambda>i. position_hash (sha256 E) (log_leaves ps) ?l (?st + i)) [0..<?k]"
    have hs: "?hs = spec_tile (sha256 E) (log_leaves ps) ?l ?st (tile_width w)"
      by (simp only: spec_tile_def length_map map_shift_upt)
    have "length ?hs = ?k" by (simp only: length_map length_upt diff_zero)
    then have "?hs \<noteq> []" "Tile_new ?hs = Some \<lparr>hashes = ?hs\<rparr>"
      using k(1,2) by (simp only: length_greater_0_conv [symmetric], simp only: Tile_new_ok)
    moreover have "answers (log_holds E V ps P) (map_err f
        (map_io (\<lambda>i. tile_hash E (of_nat ?n) (256 ^ ?l) (t * 256 + i)) (u64_range 0 (of_nat ?k))))
        (Inr (map (\<lambda>i. Some (position_hash (sha256 E) (log_leaves ps) ?l (?st + i))) [0..<?k])) {}" for f
      using answers_map_err_none [OF tile_hashes_answers [OF assms(1,2) k(3,4), where P = P], of f] unfolding width_word st [symmetric] by (simp only: map_sum.simps id_apply)
    ultimately show ?thesis
      unfolding generate_merkle_tile_def Let_def tot m hs [symmetric] using False gt
      by (simp only: if_False) (rule answers_then, assumption, simp only: map_filter_Some if_False pure_ops answers_ret)
  qed
qed

text \<open>A full tile is the tile that is stored.\<close>

lemma tile_hashes_spec:
  assumes "tile_full (length D) l t"
  shows "tile_hashes H D l t = spec_tile H D l (t * 256) 256"
proof -
  have w: "0 < width l" by (simp add: width_def)
  have full: "(t * 256 + i + 1) * width l \<le> length D" if "i < 256" for i
  proof -
    have "(t * 256 + i + 1) * width l \<le> (Suc t * 256) * width l" using that by (intro mult_le_mono1) simp
    also have "(Suc t * 256) * width l = Suc t * (256 * width l)" by (rule mult.assoc)
    finally show ?thesis using assms by (simp only: tile_full_width)
  qed
  have "t * 256 + 255 < positions (length D) l" unfolding positions_less using full [of 255] w by (simp add: add_mult_distrib)
  then have "min (t * 256 + 256) (positions (length D) l) = t * 256 + 256" by simp
  moreover have "position_hash H D l (t * 256 + i) = range_hash H D ((t * 256 + i) * 256 ^ l) ((t * 256 + i + 1) * 256 ^ l)" if "i < 256" for i
    using full [OF that] by (simp add: position_hash_def width_def min_absorb1)
  ultimately show ?thesis
    by (simp add: spec_tile_def tile_hashes_def map_shift_upt [of _ "t * 256" "t * 256 + 256", symmetric, simplified])
qed

lemma res_bind_if: "res_bind (if c then Inl e else Inr a) f = (if c then Inl e else f a)"
  by simp

definition tile_response :: "bytes list \<Rightarrow> Response" where
  "tile_response hs = \<lparr>headers = [(''content-type'', ''application/octet-stream''), (''cache-control'', immutable)], body = concat hs\<rparr>"

definition spec_api_tile :: "digest_fun \<Rightarrow> bytes list \<Rightarrow> nat \<Rightarrow> nat \<Rightarrow> nat \<Rightarrow> api_error + Response" where
  "spec_api_tile H D l start w =
     (if positions (length D) l \<le> start then Inl (api_err NOT_FOUND ''Tile not found'') else Inr (tile_response (spec_tile H D l start w)))"

lemma api_get_tile_answers:
  assumes "storage_ok E V {}" "unat lvl \<le> 5" "parse_tile_index ip = Inr t" "valid_width w"
  shows "answers (log_holds E V ps P) (api_get_tile E lvl ip w)
    (spec_api_tile (sha256 E) (log_leaves ps) (unat lvl) (unat (t * 256)) (tile_width w)) {}"
proof (rule answers_pre)
  fix s assume "log_holds E V ps P s"
  then show "length ps \<le> 2 ^ 63" using log_okD(6) by (auto simp: log_holds_def)
next
  let ?T = "log_holds E V ps P" and ?n = "length ps" and ?D = "log_leaves ps" and ?l = "unat lvl" and ?st = "unat (t * 256)"
  assume n: "?n \<le> 2 ^ 63"
  have root: "answers ?T (map_err internal_ct (on_tree (ms_committed_root (slate_debug E) (tree_env E)))) (Inr (head_of E ps)) {}"
    using answers_map_err_none [OF log_tree_answers(1) [OF assms(1)]] by simp
  define pos where "pos = positions (length ?D) ?l"
  have gen: "answers ?T (and_then (generate_merkle_tile E lvl t (of_nat ?n) w) (\<lambda>tile. ret (Tile_to_bytes tile)))
      (if pos \<le> ?st then Inl (api_err NOT_FOUND ''Tile not found'') else Inr (concat (spec_tile (sha256 E) ?D ?l ?st (tile_width w)))) {}"
    using answers_bind [OF generate_merkle_tile_answers [OF assms(1,2,4) n, of P t], of "\<lambda>tile. ret (Tile_to_bytes tile)" "\<lambda>tile. Inr (Tile_to_bytes tile)"]
    by (simp add: answers_ret pos_def Tile_to_bytes_def split: if_splits)
  have stored: "answers ?T (map_err f (on_tree (ms_get_tile (slate_debug E) (tree_env E) lvl t)))
      (Inr (if tile_full ?n ?l (unat t) then Some (concat (tile_hashes (sha256 E) ?D ?l (unat t))) else None)) {}" for f
    using answers_map_err_none [OF log_tree_answers(5) [OF assms(1), of ps P lvl t], of f] assms(2) by (simp only: map_sum.simps id_apply simp_thms)
  have full: "?st = unat t * 256" "\<not> pos \<le> ?st" "concat (tile_hashes (sha256 E) ?D ?l (unat t)) = concat (spec_tile (sha256 E) ?D ?l ?st 256)"
    if "tile_full ?n ?l (unat t)"
  proof -
    have w: "1 \<le> width ?l" by (simp add: width_def Suc_leI)
    have f: "Suc (unat t) * (256 * width ?l) \<le> ?n" using that by (simp add: tile_full_width)
    have "unat t * 256 * width ?l < Suc (unat t) * (256 * width ?l)" using w by simp
    with f have p: "unat t * 256 < pos" by (simp only: pos_def positions_less length_map)
    then have "unat t * 256 < 2 ^ 64" using positions_le [of ?n ?l] n by (simp add: pos_def)
    then show st: "?st = unat t * 256" using unat_of_nat_u64 [of "unat t * 256"] by simp
    show "\<not> pos \<le> ?st" using p st by simp
    show "concat (tile_hashes (sha256 E) ?D ?l (unat t)) = concat (spec_tile (sha256 E) ?D ?l ?st 256)"
      using tile_hashes_spec [of ?D ?l "unat t"] that st by simp
  qed
  have lvl: "\<not> 5 < lvl" using assms(2) by (simp add: word_less_nat_alt)
  have data: "answers ?T
      (if w \<noteq> None then and_then (generate_merkle_tile E lvl t (of_nat ?n) w) (\<lambda>tile. ret (Tile_to_bytes tile))
       else and_then (map_err (\<lambda>_. api_err INTERNAL_SERVER_ERROR ''Failed to retrieve tile'') (on_tree (ms_get_tile (slate_debug E) (tree_env E) lvl t)))
         (\<lambda>stored. case stored of Some data \<Rightarrow> ret data
          | None \<Rightarrow> and_then (generate_merkle_tile E lvl t (of_nat ?n) w) (\<lambda>tile. ret (Tile_to_bytes tile))))
      (if pos \<le> ?st then Inl (api_err NOT_FOUND ''Tile not found'') else Inr (concat (spec_tile (sha256 E) ?D ?l ?st (tile_width w)))) {}"
  proof (cases w)
    case (Some v)
    with gen show ?thesis by simp
  next
    case None
    show ?thesis
    proof (cases "tile_full ?n ?l (unat t)")
      case True
      with full None show ?thesis by (simp add: tile_width_def answers_then [OF stored] answers_ret)
    next
      case False
      with gen None show ?thesis by (simp add: answers_then [OF stored])
    qed
  qed
  show "answers ?T (api_get_tile E lvl ip w) (spec_api_tile (sha256 E) ?D ?l ?st (tile_width w)) {}"
    unfolding api_get_tile_def Let_def assms(3) spec_api_tile_def pos_def [symmetric] tile_response_def
    using lvl assms(4)
    by (simp only: if_False pure_ops map_err_pure and_then_ret simp_thms)
      (rule answers_then [OF root], simp only: RootHash.simps, rule answers_bind [OF data answers_ret, unfolded res_bind_if])
qed

lemma spec_tile_complete:
  assumes "(start + w) * width l \<le> length D" "0 < w"
  shows "spec_api_tile H (D @ D') l start w = Inr (tile_response (map (\<lambda>q. range_hash H D (q * width l) (Suc q * width l)) [start..<start + w]))"
proof -
  have q: "Suc q * width l \<le> length D" if "q < start + w" for q
  proof -
    have "Suc q * width l \<le> (start + w) * width l" using that by (intro mult_le_mono1) simp
    with assms(1) show ?thesis by (rule order_trans [rotated])
  qed
  have w: "0 < width l" by (simp add: width_def)
  have "(start + w - 1) * width l < Suc (start + w - 1) * width l" using w by (simp only: mult_less_cancel2) simp
  also have "\<dots> \<le> length D" by (rule q) (use assms(2) in simp)
  also have "\<dots> \<le> length (D @ D')" by simp
  finally have "start + w - 1 < positions (length (D @ D')) l" by (simp only: positions_less)
  then have p: "min (start + w) (positions (length (D @ D')) l) = start + w" "\<not> positions (length (D @ D')) l \<le> start"
    using assms(2) by auto
  have "position_hash H (D @ D') l j = range_hash H D (j * width l) (Suc j * width l)" if "j \<in> set [start..<start + w]" for j
    using q [of j] that range_hash_append [of "Suc j * width l" D H D'] by (simp add: position_hash_def min_absorb1)
  then have "map (position_hash H (D @ D') l) [start..<start + w] = map (\<lambda>q. range_hash H D (q * width l) (Suc q * width l)) [start..<start + w]"
    by (rule map_cong [OF refl])
  then show ?thesis by (simp only: spec_api_tile_def spec_tile_def p if_False)
qed

text \<open>The start of a tile wraps: indices that differ by a multiple of \<open>2 ^ 56\<close> are the same tile.\<close>

lemma tile_start: "unat (t * 256 :: u64) = unat t mod 2 ^ 56 * 256"
proof -
  have "unat (t * 256) = unat t * 256 mod (2 ^ 56 * 256)" by (simp add: unat_word_ariths)
  then show ?thesis by (simp only: mult_mod_left)
qed

text \<open>The answer to any tile request, with the statuses and messages of the refused ones.\<close>

definition spec_tile_request :: "digest_fun \<Rightarrow> bytes list \<Rightarrow> u8 \<Rightarrow> string \<Rightarrow> u16 option \<Rightarrow> api_error + Response" where
  "spec_tile_request H D lvl ip w =
     (if 5 < unat lvl then Inl (api_err BAD_REQUEST ''Invalid tile level, must be 0-5'')
      else case parse_tile_index ip of
          Inl e \<Rightarrow> Inl (api_err BAD_REQUEST (''Invalid tile index: '' @ ct_error_display e))
        | Inr t \<Rightarrow>
            if tile_width w \<notin> {1..256} then Inl (api_err BAD_REQUEST ''Invalid tile width, must be 1-256'')
            else spec_api_tile H D (unat lvl) (unat t mod 2 ^ 56 * 256) (tile_width w))"

lemma valid_width_iff: "valid_width w \<longleftrightarrow> tile_width w \<in> {1..256}"
proof (cases w)
  case (Some k)
  have "k = 0 \<longleftrightarrow> unat k = 0" by (simp only: unat_eq_0)
  with Some show ?thesis by (auto simp: valid_width_def tile_width_def word_less_nat_alt)
qed (simp add: valid_width_def tile_width_def)

lemma tile_request_answers:
  assumes "storage_ok E V {}"
  shows "answers (log_holds E V ps P) (api_get_tile E lvl ip w) (spec_tile_request (sha256 E) (log_leaves ps) lvl ip w) {}"
proof -
  have lvl: "5 < lvl \<longleftrightarrow> 5 < unat lvl" by (simp add: word_less_nat_alt)
  show ?thesis
  proof (cases "5 < unat lvl")
    case True
    then show ?thesis by (simp add: api_get_tile_def spec_tile_request_def lvl answers_raise)
  next
    case False
    show ?thesis
    proof (cases "parse_tile_index ip")
      case (Inl e)
      with False show ?thesis by (simp add: api_get_tile_def spec_tile_request_def lvl answers_raise)
    next
      case (Inr t)
      show ?thesis
      proof (cases "valid_width w")
        case True
        have "unat lvl \<le> 5" using False by simp
        from api_get_tile_answers [OF assms this Inr True, of ps P] True False Inr show ?thesis
          by (simp add: spec_tile_request_def valid_width_iff tile_start)
      next
        case invalid: False
        with False Inr show ?thesis by (simp add: api_get_tile_def spec_tile_request_def lvl valid_width_iff answers_raise)
      qed
    qed
  qed
qed

text \<open>C20: every tile request is answered, whatever its level, index and width. A level above 5, an index that does not parse and a width outside 1 to 256 are
  bad requests, in this order of precedence and with these messages. Otherwise \<open>get_tile\<close> answers with the hashes of the subtrees at the positions
  of the tile, as many as asked for and as there are, whether the tile was precomputed or is generated, and with not found when the
  tile starts past the end. The tile that is answered is the one of the index modulo \<open>2 ^ 56\<close>, since the product with 256 wraps: below \<open>2 ^ 56\<close>
  it is the requested one, from there on a smaller one. The last hash may be that of an incomplete subtree. The request changes nothing
  but caches.\<close>

theorem tiles_served:
  assumes "storage_ok E V {}" "log_holds E V ps P s"
  shows "\<exists>s'. api_get_tile E lvl ip w s = (map_sum Err id (spec_tile_request (sha256 E) (log_leaves ps) lvl ip w), s') \<and> log_holds E V ps P s'"
  by (rule answers_eq [OF tile_request_answers [OF assms(1)] assms(2)])

theorem tiles_served_witness:
  "\<exists>P s' s''. api_get_tile (mem_storage_env mem_env) 1 ''000'' None mem_after
      = (Inr (tile_response (spec_tile (sha256 (mem_storage_env mem_env)) (log_leaves mem_logged) 1 0 256)), s') \<and>
    log_holds (mem_storage_env mem_env) mem_view mem_logged P s' \<and>
    api_get_tile (mem_storage_env mem_env) 6 ''000'' None mem_after
      = (Inl (Err (api_err BAD_REQUEST ''Invalid tile level, must be 0-5'')), s'') \<and>
    log_holds (mem_storage_env mem_env) mem_view mem_logged P s''"
proof -
  obtain P where P: "log_holds (mem_storage_env mem_env) mem_view mem_logged P mem_after" using mem_log by blast
  have "parse_tile_index ''000'' = Inr 0" by (simp add: parse_tile_index_def parse_u64_def digits_value_def digit_value_def)
  moreover have "0 < positions (length (log_leaves mem_logged)) 1" by (simp add: positions_less mem_logged_def)
  ultimately have
    "spec_tile_request (sha256 (mem_storage_env mem_env)) (log_leaves mem_logged) 1 ''000'' None
      = Inr (tile_response (spec_tile (sha256 (mem_storage_env mem_env)) (log_leaves mem_logged) 1 0 256))"
    "spec_tile_request (sha256 (mem_storage_env mem_env)) (log_leaves mem_logged) 6 ''000'' None
      = Inl (api_err BAD_REQUEST ''Invalid tile level, must be 0-5'')"
    by (simp_all add: spec_tile_request_def spec_api_tile_def tile_width_def)
  with tiles_served [OF mem_storage_ok [OF mem_env_ok(1)] P, of 1 "''000''" None] tiles_served [OF mem_storage_ok [OF mem_env_ok(1)] P, of 6 "''000''" None]
  show ?thesis by auto
qed

text \<open>C21: a complete tile never changes. When all the subtrees a request asks for are full, the response is the same for the log and for every later
  extension of it, as its cache header says: the bytes of the subtree hashes of RFC 6962.\<close>

theorem complete_tiles_immutable:
  assumes "storage_ok E V {}" "log_holds E V ps P s" "log_holds E V (ps @ qs) P' s2" "unat lvl \<le> 5" "parse_tile_index ip = Inr t" "valid_width w"
    and "(unat (t * 256) + tile_width w) * 256 ^ unat lvl \<le> length ps"
  shows "\<exists>r s' s2'. api_get_tile E lvl ip w s = (Inr r, s') \<and> api_get_tile E lvl ip w s2 = (Inr r, s2') \<and>
    body r = concat (map (\<lambda>q. mth (sha256 E) (take (256 ^ unat lvl) (drop (q * 256 ^ unat lvl) (log_leaves ps))))
      [unat (t * 256)..<unat (t * 256) + tile_width w])"
proof -
  let ?l = "unat lvl" and ?st = "unat (t * 256)" and ?w = "tile_width w" and ?D = "log_leaves ps"
  let ?r = "tile_response (map (\<lambda>q. range_hash (sha256 E) ?D (q * width ?l) (Suc q * width ?l)) [?st..<?st + ?w])"
  have c: "(?st + ?w) * width ?l \<le> length ?D" "0 < ?w" using assms(7) tile_width_bounds [OF assms(6)] by (simp_all add: width_def)
  have "spec_api_tile (sha256 E) ?D ?l ?st ?w = Inr ?r" "spec_api_tile (sha256 E) (log_leaves (ps @ qs)) ?l ?st ?w = Inr ?r"
    using spec_tile_complete [OF c, of "sha256 E" "[]"] spec_tile_complete [OF c, of "sha256 E" "log_leaves qs"] by simp_all
  with answers_eq [OF api_get_tile_answers [OF assms(1,4-6)] assms(2)] answers_eq [OF api_get_tile_answers [OF assms(1,4-6)] assms(3)]
  obtain s' s2' where "api_get_tile E lvl ip w s = (Inr ?r, s')" "api_get_tile E lvl ip w s2 = (Inr ?r, s2')" by auto
  moreover have "range_hash (sha256 E) ?D (q * width ?l) (Suc q * width ?l) = mth (sha256 E) (take (256 ^ ?l) (drop (q * 256 ^ ?l) ?D))" for q
    by (simp add: range_hash_def seg_def width_def)
  ultimately show ?thesis by (intro exI [of _ ?r] exI) (simp add: tile_response_def)
qed

theorem complete_tiles_immutable_witness:
  "\<exists>r s' s2'. api_get_tile (mem_storage_env mem_env) 0 ''000'' (Some 2) mem_after = (Inr r, s') \<and>
    api_get_tile (mem_storage_env mem_env) 0 ''000'' (Some 2) mem_after = (Inr r, s2') \<and>
    body r = concat (map (\<lambda>q. mth (sha256 (mem_storage_env mem_env)) (take (256 ^ unat (0::u8)) (drop (q * 256 ^ unat (0::u8)) (log_leaves mem_logged))))
      [unat ((0::u64) * 256)..<unat ((0::u64) * 256) + tile_width (Some 2)])"
proof -
  obtain P where P: "log_holds (mem_storage_env mem_env) mem_view mem_logged P mem_after" using mem_log by blast
  have "parse_tile_index ''000'' = Inr 0" by (simp add: parse_tile_index_def parse_u64_def digits_value_def digit_value_def)
  with P show ?thesis
    by (intro complete_tiles_immutable [where V = mem_view and ps = mem_logged and qs = "[]" and P = P and P' = P and t = 0] mem_storage_ok mem_env_ok(1))
      (simp_all add: valid_width_def tile_width_def mem_logged_def)
qed

end
