(* ===== verification/Api_Pages_Props.thy ===== *)
theory Api_Pages_Props
  imports Api_Static_Props
begin

text \<open>
  Data tiles and pages: what the two binary formats carry for the entries of the log, and that a reader gets them back.
\<close>

section \<open>Data tiles\<close>

text \<open>The bytes of an entry in a data tile.\<close>

definition data_leaf :: "digest_fun \<Rightarrow> LogEntry \<Rightarrow> bytes" where
  "data_leaf H e =
     drop 2 (leaf_data e)
     @ (case entry_type e of X509Entry \<Rightarrow> [] | PrecertEntry \<Rightarrow> vec24 (the (original_precert e)))
     @ be_bytes 2 (of_nat (length (chain_list e) * 32) :: u16) @ concat (map H (chain_list e))"

lemma logged_dedup:
  assumes "logged_at E i p"
  obtains d where "from_log_entry (sha256 E) (prep_entry p) = Some d" "dedup_leaf_data d = prep_leaf p"
    "dedup_entry_type d = entry_type (prep_entry p)" "chain_hashes d = map_option (map (sha256 E)) (chain (prep_entry p))"
    "original_precert_hash d = map_option (sha256 E) (original_precert (prep_entry p))"
  using assms
  by (auto simp: logged_at_def from_log_entry_def readable_def hash_certificate_def split: option.splits if_splits LogEntryType.splits)

lemma logged_leaf_length:
  assumes "logged_at E i p"
  shows "2 \<le> length (prep_leaf p)" "leaf_data (prep_entry p) = prep_leaf p"
    "prep_leaf p = [0, 0] @ entry_bytes (certificate (prep_entry p)) (entry_type (prep_entry p)) (issuer_key_hash (prep_entry p))
       (timestamp_millis (entry_timestamp (prep_entry p))) (leaf_index_extension (of_nat i))"
proof -
  show l: "prep_leaf p = [0, 0] @ entry_bytes (certificate (prep_entry p)) (entry_type (prep_entry p)) (issuer_key_hash (prep_entry p))
       (timestamp_millis (entry_timestamp (prep_entry p))) (leaf_index_extension (of_nat i))"
    using assms by (auto simp: logged_at_def compute_leaf_data_with_index_def serialize_eq index_extension_def split: if_splits)
  show "2 \<le> length (prep_leaf p)" unfolding l by simp
  show "leaf_data (prep_entry p) = prep_leaf p" using assms by (simp add: logged_at_def)
qed

lemma data_tile_leaf_answers:
  assumes "storage_ok E V {}" "length ps \<le> 2 ^ 63"
  shows "answers (log_holds E V ps P) (data_tile_leaf E (of_nat (length ps)) i)
    (Inr (if unat i < length ps then Some (data_leaf (sha256 E) (prep_entry (ps ! unat i))) else None)) {}"
proof (cases "unat i < length ps")
  case False
  then have "(of_nat (length ps) :: u64) \<le> i" using assms(2) by (simp add: word_le_nat_alt unat_of_nat_u64)
  with False show ?thesis by (simp add: data_tile_leaf_def answers_ret)
next
  case True
  let ?T = "log_holds E V ps P" and ?p = "ps ! unat i" and ?H = "sha256 E"
  have lt: "\<not> (of_nat (length ps) :: u64) \<le> i" using True assms(2) by (simp add: word_le_nat_alt unat_of_nat_u64)
  show ?thesis
  proof (rule answers_pre)
    fix s assume "?T s"
    then show "logged_at E (unat i) ?p \<and> set (entry_certs (prep_entry ?p)) \<subseteq> set (log_certs ps) \<and> inj_on ?H (set (log_certs ps))"
      using True log_okD(4,5) by (auto simp: log_holds_def dest: log_certs_entry)
  next
    assume lg: "logged_at E (unat i) ?p \<and> set (entry_certs (prep_entry ?p)) \<subseteq> set (log_certs ps) \<and> inj_on ?H (set (log_certs ps))"
    obtain d where d: "from_log_entry ?H (prep_entry ?p) = Some d" "dedup_leaf_data d = prep_leaf ?p"
      "dedup_entry_type d = entry_type (prep_entry ?p)" "chain_hashes d = map_option (map ?H) (chain (prep_entry ?p))"
      "original_precert_hash d = map_option ?H (original_precert (prep_entry ?p))"
      by (rule logged_dedup [OF conjunct1 [OF lg]])
    note lf = logged_leaf_length [OF conjunct1 [OF lg]]
    have rd: "answers ?T (map_err Storage (get_deduplicated_entry E i)) (Inr (Some d)) {}"
      using answers_map_err_none [OF log_reads(4) [OF assms(1), of ps P i], of Storage] True d(1) by simp
    have cert: "answers ?T (map_err Storage (get_certificate E (?H c))) (Inr (Some c)) {}" if "c \<in> set (entry_certs (prep_entry ?p))" for c
    proof -
      have "c \<in> set (log_certs ps)" using lg that by auto
      then have "cert_lookup ?H ps (?H c) = Some c"
        using lg cert_lookup_Some [of ?H ps "?H c"] cert_lookup_None [of ?H ps "?H c"] by (cases "cert_lookup ?H ps (?H c)") (auto simp: inj_on_def)
      with answers_map_err_none [OF log_certificate [OF assms(1), of ps P "?H c"], of Storage] show ?thesis by simp
    qed
    have pre: "answers ?T (case (dedup_entry_type d, original_precert_hash d) of
        (PrecertEntry, Some h) \<Rightarrow> map_err Storage (get_certificate E h) | _ \<Rightarrow> ret None)
        (Inr (if entry_type (prep_entry ?p) = PrecertEntry then original_precert (prep_entry ?p) else None)) {}"
      using d(3,5) cert
      by (cases "entry_type (prep_entry ?p)"; cases "original_precert (prep_entry ?p)") (simp_all add: answers_ret entry_certs_def)
    have readable: "readable (x509_ops E) (prep_entry ?p)" using lg by (simp add: logged_at_def)
    have leaf: "TileLeaf_from_entry d (if entry_type (prep_entry ?p) = PrecertEntry then original_precert (prep_entry ?p) else None)
        = Some \<lparr>timestamped_entry_raw = drop 2 (prep_leaf ?p),
            pre_certificate = (if entry_type (prep_entry ?p) = PrecertEntry then original_precert (prep_entry ?p) else None),
            certificate_chain = map ?H (chain_list (prep_entry ?p))\<rparr>"
      using d lf(1) by (cases "chain (prep_entry ?p)") (auto simp: TileLeaf_from_entry_def)
    have "TileLeaf_to_bytes \<lparr>timestamped_entry_raw = drop 2 (prep_leaf ?p),
            pre_certificate = (if entry_type (prep_entry ?p) = PrecertEntry then original_precert (prep_entry ?p) else None),
            certificate_chain = map ?H (chain_list (prep_entry ?p))\<rparr> = data_leaf ?H (prep_entry ?p)"
      using lf(2) readable
      by (cases "entry_type (prep_entry ?p)"; cases "original_precert (prep_entry ?p)")
        (auto simp: TileLeaf_to_bytes_def data_leaf_def vec24_def Ct_Storage_Inv.readable_def)
    then show "answers ?T (data_tile_leaf E (of_nat (length ps)) i)
        (Inr (if unat i < length ps then Some (data_leaf ?H (prep_entry ?p)) else None)) {}"
      unfolding data_tile_leaf_def using lt True
      by (simp only: if_False if_True)
        (rule answers_then [OF rd], simp only: pure_ops and_then_ret, rule answers_then [OF pre], simp only: leaf pure_ops and_then_ret answers_ret)
  qed
qed

interpretation leaf_read: indexed_read "\<lambda>p. log_relied p \<and> length (log_entries p) \<le> 2 ^ 63" log_good
  "\<lambda>p. data_tile_leaf (log_env p) (of_nat (length (log_entries p)))" "\<lambda>p i. True"
  "\<lambda>p i. if unat i < length (log_entries p) then Some (data_leaf (sha256 (log_env p)) (prep_entry (log_entries p ! unat i))) else None"
  by unfold_locales (clarsimp simp only: log_relied.simps log_good.simps fst_conv snd_conv split_paired_all, rule data_tile_leaf_answers)

text \<open>The first index of a tile leaves room for the rest of it.\<close>

lemma tile_index_add:
  assumes "k < 256"
  shows "unat (t * 256 + of_nat k :: u64) = unat (t * 256) + k"
proof -
  have "unat t mod 2 ^ 56 \<le> 2 ^ 56 - 1" using mod_less_divisor [of "2 ^ 56" "unat t"] by simp
  then have "unat (t * 256) + k < 2 ^ 64" unfolding tile_start using assms by simp
  then have "unat (of_nat (unat (t * 256) + k) :: u64) = unat (t * 256) + k" by (rule unat_of_nat_u64)
  then show ?thesis by simp
qed

lemma map_filter_below:
  "List.map_filter id (map (\<lambda>j. if a + j < n then Some (f (a + j)) else None) [0..<k]) = map f [a..<min (a + k) n]"
proof (induction k)
  case (Suc k)
  have "List.map_filter (\<lambda>a. a) (xs @ ys) = List.map_filter (\<lambda>a. a) xs @ List.map_filter (\<lambda>a. a) ys" for xs ys :: "'a option list"
    by (induction xs) (simp_all add: List.map_filter_simps split: option.split)
  with Suc show ?case by (cases "a + k < n") (auto simp: List.map_filter_simps min_def)
qed (simp add: List.map_filter_simps)

lemma generate_data_tile_answers:
  assumes "storage_ok E V {}" "valid_width w" "length ps \<le> 2 ^ 63"
  shows "answers (log_holds E V ps P) (generate_data_tile E t (of_nat (length ps)) w)
    (if length ps \<le> unat (t * 256) then Inl (api_err NOT_FOUND ''Data tile not found'')
     else Inr (concat (map (\<lambda>j. data_leaf (sha256 E) (prep_entry (ps ! j))) [unat (t * 256)..<min (unat (t * 256) + tile_width w) (length ps)]))) {}"
proof -
  let ?st = "unat (t * 256)" and ?k = "tile_width w" and ?leaf = "\<lambda>j. data_leaf (sha256 E) (prep_entry (ps ! j))"
  have k: "0 < ?k" "?k \<le> 256" using tile_width_bounds [OF assms(2)] by simp_all
  have m: "(case w of Some w \<Rightarrow> ucast w | None \<Rightarrow> 256) = (of_nat ?k :: u64)" by (simp add: tile_width_def split: option.split)
  have r: "u64_range 0 (of_nat ?k) = map of_nat [0..<?k]" by (rule u64_range_0) (use k in simp)
  have vals: "map (\<lambda>i. if unat i < length ps then Some (?leaf (unat i)) else None) (map (\<lambda>i. t * 256 + i) (map of_nat [0..<?k]))
      = map (\<lambda>j. if ?st + j < length ps then Some (?leaf (?st + j)) else None) [0..<?k]"
    unfolding map_map by (rule map_cong [OF refl]) (use k(2) in \<open>simp add: tile_index_add\<close>)
  have "answers (log_holds E V ps P) (map_io (\<lambda>i. data_tile_leaf E (of_nat (length ps)) (t * 256 + i)) (u64_range 0 (of_nat ?k)))
      (Inr (map (\<lambda>j. if ?st + j < length ps then Some (?leaf (?st + j)) else None) [0..<?k])) {}"
    using leaf_read.in_turn [of "(E, V, ps, P)" "map (\<lambda>i. t * 256 + i) (map of_nat [0..<?k])"] assms(1,3)
    unfolding fst_conv snd_conv vals log_good.simps log_relied.simps r map_io_map by simp
  from answers_map_err_none [OF this]
  have rd: "answers (log_holds E V ps P) (map_err f (map_io (\<lambda>i. data_tile_leaf E (of_nat (length ps)) (t * 256 + i)) (u64_range 0 (of_nat ?k))))
      (Inr (map (\<lambda>j. if ?st + j < length ps then Some (?leaf (?st + j)) else None) [0..<?k])) {}" for f
    by (simp only: map_sum.simps id_apply)
  have ne: "map ?leaf [?st..<min (?st + ?k) (length ps)] = [] \<longleftrightarrow> length ps \<le> ?st" using k(1) by auto
  show ?thesis
    unfolding generate_data_tile_def Let_def m
    by (rule answers_then [OF rd], unfold map_filter_below [of ?st "length ps" ?leaf ?k] ne) (simp add: answers_ret answers_raise)
qed

text \<open>Reading a data tile: leaves one after the other.\<close>

fun read_tile_leaves :: "nat \<Rightarrow> bytes \<Rightarrow> (ParsedLeaf \<times> bytes option \<times> bytes list) list option" where
  "read_tile_leaves 0 bs = (if bs = [] then Some [] else None)"
| "read_tile_leaves (Suc n) bs = do {
     (p, pre, fps, r) \<leftarrow> parse_tile_leaf bs;
     ls \<leftarrow> read_tile_leaves n r;
     Some ((p, pre, fps) # ls) }"

definition leaf_view :: "nat \<Rightarrow> LogEntry \<Rightarrow> ParsedLeaf" where
  "leaf_view i e = \<lparr>parsed_timestamp = timestamp_millis (entry_timestamp e), parsed_entry_type = entry_type e,
     parsed_key_hash = issuer_key_hash e, parsed_certificate = certificate e, parsed_extensions = leaf_index_extension (of_nat i)\<rparr>"

lemma parse_data_leaf:
  assumes "logged_at E i p" "entry_fits (prep_entry p)" "storage_ok E V F"
  shows "parse_tile_leaf (data_leaf (sha256 E) (prep_entry p) @ rest)
    = Some (leaf_view i (prep_entry p), original_precert (prep_entry p), map (sha256 E) (chain_list (prep_entry p)), rest)"
proof -
  let ?e = "prep_entry p" and ?hs = "map (sha256 E) (chain_list (prep_entry p))"
  have hs: "digests_ok ?hs" using sha256_length [OF assms(3)] by (auto simp: digests_ok_def)
  then have n: "length (concat ?hs) = length (chain_list ?e) * 32" using length_concat_digests [OF hs] by (simp add: output_size_def)
  have l: "drop 2 (leaf_data ?e) = entry_bytes (certificate ?e) (entry_type ?e) (issuer_key_hash ?e) (timestamp_millis (entry_timestamp ?e)) (leaf_index_extension (of_nat i))"
    using logged_leaf_length(2,3) [OF assms(1)] by simp
  have "data_leaf (sha256 E) ?e @ rest = entry_bytes (certificate ?e) (entry_type ?e) (issuer_key_hash ?e) (timestamp_millis (entry_timestamp ?e)) (leaf_index_extension (of_nat i))
      @ (case entry_type ?e of X509Entry \<Rightarrow> [] | PrecertEntry \<Rightarrow> vec24 (the (original_precert ?e))) @ vec16 (concat ?hs) @ rest"
    unfolding data_leaf_def l vec16_def n by simp
  moreover have "readable (x509_ops E) ?e" using assms(1) by (simp add: logged_at_def)
  ultimately show ?thesis
    using assms(2) n chunks_concat [OF hs]
    by (cases "entry_type ?e"; cases "original_precert ?e")
      (auto simp: parse_tile_leaf_def parse_entry_bytes entry_fits_def Ct_Storage_Inv.readable_def leaf_view_def)
qed

lemma read_tile_leaves_concat:
  assumes "\<And>j r. j \<in> set js \<Longrightarrow> parse_tile_leaf (f j @ r) = Some (a j, b j, c j, r)"
  shows "read_tile_leaves (length js) (concat (map f js)) = Some (map (\<lambda>j. (a j, b j, c j)) js)"
  using assms by (induction js) simp_all

lemma get_data_tile_answers:
  assumes "storage_ok E V {}" "parse_tile_index ip = Inr t" "valid_width w" "\<And>x. gz_encode A x = Inr (gz x)"
  shows "answers (log_holds E V ps P) (get_data_tile A E ip w)
    (if length ps \<le> unat (t * 256) then Inl (api_err NOT_FOUND ''Data tile not found'')
     else Inr \<lparr>headers = [(''content-type'', ''application/octet-stream''), (''content-encoding'', ''gzip''), (''cache-control'', immutable)],
       body = gz (concat (map (\<lambda>j. data_leaf (sha256 E) (prep_entry (ps ! j))) [unat (t * 256)..<min (unat (t * 256) + tile_width w) (length ps)]))\<rparr>) {}"
proof (rule answers_pre)
  fix s assume "log_holds E V ps P s"
  then show "length ps \<le> 2 ^ 63" using log_okD(6) by (auto simp: log_holds_def)
next
  let ?T = "log_holds E V ps P" and ?st = "unat (t * 256)"
  assume n: "length ps \<le> 2 ^ 63"
  have root: "answers ?T (map_err internal_ct (on_tree (ms_committed_root (slate_debug E) (tree_env E)))) (Inr (head_of E ps)) {}"
    using answers_map_err_none [OF log_tree_answers(1) [OF assms(1)]] by simp
  let ?ls = "map (\<lambda>j. data_leaf (sha256 E) (prep_entry (ps ! j))) [?st..<min (?st + tile_width w) (length ps)]"
  let ?resp = "\<lambda>c. \<lparr>headers = [(''content-type'', ''application/octet-stream''), (''content-encoding'', ''gzip''), (''cache-control'', immutable)], body = c\<rparr>"
  show "answers ?T (get_data_tile A E ip w)
    (if length ps \<le> ?st then Inl (api_err NOT_FOUND ''Data tile not found'') else Inr (?resp (gz (concat ?ls)))) {}"
    unfolding get_data_tile_def assms(2) using assms(3)
    by (simp only: pure_ops map_err_pure and_then_ret simp_thms if_False)
      (rule answers_then [OF root], simp only: RootHash.simps assms(4) pure_ops map_err_pure and_then_ret,
       rule answers_bind [OF generate_data_tile_answers [OF assms(1,3) n] answers_ret, unfolded res_bind_if])
qed

text \<open>C26: a data tile can be read back. For a tile that starts inside the log, \<open>get_data_tile\<close> compresses the leaves of the entries of the tile, as
  many as asked for and as there are, and a reader of the decompressed bytes gets for each, in order, the timestamped entry with its leaf index, the original
  pre-certificate and the fingerprints of the chain, with nothing left over.\<close>

theorem data_tiles_readable:
  assumes "storage_ok E V {}" "log_holds E V ps P s" "parse_tile_index ip = Inr t" "valid_width w" "unat (t * 256) < length ps"
    and "list_all (\<lambda>p. entry_fits (prep_entry p)) ps" "\<And>x. gz_encode A x = Inr (gz x)" "\<And>x. gunzip (gz x) = x"
  shows "\<exists>r s'. get_data_tile A E ip w s = (Inr r, s') \<and> log_holds E V ps P s' \<and>
    read_tile_leaves (min (tile_width w) (length ps - unat (t * 256))) (gunzip (body r))
      = Some (map (\<lambda>j. (leaf_view j (prep_entry (ps ! j)), original_precert (prep_entry (ps ! j)), map (sha256 E) (chain_list (prep_entry (ps ! j)))))
          [unat (t * 256)..<min (unat (t * 256) + tile_width w) (length ps)])"
proof -
  let ?js = "[unat (t * 256)..<min (unat (t * 256) + tile_width w) (length ps)]" and ?leaf = "\<lambda>j. data_leaf (sha256 E) (prep_entry (ps ! j))"
  obtain r s' where r: "get_data_tile A E ip w s = (Inr r, s')" "log_holds E V ps P s'" "body r = gz (concat (map ?leaf ?js))"
    using answers_eq [OF get_data_tile_answers [OF assms(1,3,4,7)] assms(2)] assms(5) by auto
  obtain M where M: "log_ok E ps P M" using assms(2) by (auto simp: log_holds_def)
  have leaves: "read_tile_leaves (length ?js) (concat (map ?leaf ?js))
      = Some (map (\<lambda>j. (leaf_view j (prep_entry (ps ! j)), original_precert (prep_entry (ps ! j)), map (sha256 E) (chain_list (prep_entry (ps ! j))))) ?js)"
    by (rule read_tile_leaves_concat, rule parse_data_leaf [OF log_okD(5) [OF M] _ assms(1)])
      (use assms(6) in \<open>auto simp: list_all_length\<close>)
  have "length ?js = min (tile_width w) (length ps - unat (t * 256))" by simp
  with r leaves assms(8) show ?thesis by (intro exI [of _ r] exI [of _ s']) simp
qed

theorem data_tiles_readable_witness:
  "\<exists>P r s'. get_data_tile mem_api (mem_storage_env mem_env) ''000'' (Some 2) mem_after = (Inr r, s') \<and>
    log_holds (mem_storage_env mem_env) mem_view mem_logged P s' \<and>
    read_tile_leaves (min (tile_width (Some 2)) (length mem_logged - unat ((0::u64) * 256))) (id (body r))
      = Some (map (\<lambda>j. (leaf_view j (prep_entry (mem_logged ! j)), original_precert (prep_entry (mem_logged ! j)),
            map (sha256 (mem_storage_env mem_env)) (chain_list (prep_entry (mem_logged ! j)))))
          [unat ((0::u64) * 256)..<min (unat ((0::u64) * 256) + tile_width (Some 2)) (length mem_logged)])"
proof -
  obtain P where P: "log_holds (mem_storage_env mem_env) mem_view mem_logged P mem_after" using mem_log by blast
  have "parse_tile_index ''000'' = Inr 0" by (simp add: parse_tile_index_def parse_u64_def digits_value_def digit_value_def)
  with P show ?thesis
    by (intro exI [of _ P] data_tiles_readable [where gz = id] mem_storage_ok mem_env_ok(1) mem_fits)
      (simp_all add: valid_width_def mem_logged_def mem_api_def)
qed

section \<open>Pages\<close>

lemma answers_fold:
  assumes "\<And>i a. i \<in> set js \<Longrightarrow> answers T (f i a) (Inr (g i a)) {}"
  shows "answers T (fold_io f js a) (Inr (fold g js a)) {}"
  using assms
proof (induction js arbitrary: a)
  case (Cons j js)
  then show ?case by (simp add: answers_then [of T "f j a" "g j a"])
qed (simp add: answers_ret)

text \<open>An entry of a page, and the entries of the page that starts at an index.\<close>

definition page_entry_of :: "digest_fun \<Rightarrow> LogEntry \<Rightarrow> PageEntry" where
  "page_entry_of H e = \<lparr>timestamped_entry = drop 2 (leaf_data e), issuer_hashes = map H (chain_list e)\<rparr>"

definition page_of :: "digest_fun \<Rightarrow> Prepared list \<Rightarrow> nat \<Rightarrow> PageEntry list" where
  "page_of H ps st = map (\<lambda>j. page_entry_of H (prep_entry (ps ! j))) [st..<min (st + 1000) (length ps)]"

definition page_response :: "digest_fun \<Rightarrow> Prepared list \<Rightarrow> nat \<Rightarrow> Response" where
  "page_response H ps st =
     \<lparr>headers = [(''content-type'', ''application/octet-stream''), (''CT-Page-Size'', dec (1000 :: u64)),
        (''CT-Entry-Range'', dec (of_nat st :: u64) @ ''-'' @ dec (of_nat (min (st + 1000) (length ps) - 1) :: u64)),
        (''cache-control'', if st + 1000 < length ps then ''public, max-age=31536000, immutable'' else ''no-store'')],
      body = EntriesPage_to_binary (build_page (of_nat st) (page_of H ps st))\<rparr>"

definition spec_page :: "digest_fun \<Rightarrow> Prepared list \<Rightarrow> u64 \<Rightarrow> api_error + Response" where
  "spec_page H ps k =
     (let st = unat (k * 1000) in
      if length ps \<le> st
      then Inl (api_err NOT_FOUND (''Page not found. Page number: '' @ dec k @ '', tree size: '' @ dec (of_nat (length ps) :: u64)
             @ '', max page: '' @ dec (of_nat (length ps) div 1000 :: u64)))
      else Inr (page_response H ps st))"

lemma add_page_entry_answers:
  assumes "storage_ok E V {}" "unat i < length ps"
  shows "answers (log_holds E V ps P) (add_page_entry E i page)
    (Inr (EntriesPage_add_entry (timestamped_entry (page_entry_of (sha256 E) (prep_entry (ps ! unat i))))
       (issuer_hashes (page_entry_of (sha256 E) (prep_entry (ps ! unat i)))) page)) {}"
proof (rule answers_pre)
  fix s assume "log_holds E V ps P s"
  then show "logged_at E (unat i) (ps ! unat i)" using assms(2) log_okD(5) by (auto simp: log_holds_def)
next
  let ?p = "ps ! unat i"
  assume lg: "logged_at E (unat i) ?p"
  obtain d where d: "from_log_entry (sha256 E) (prep_entry ?p) = Some d" "dedup_leaf_data d = prep_leaf ?p"
      "chain_hashes d = map_option (map (sha256 E)) (chain (prep_entry ?p))"
    by (rule logged_dedup [OF lg])
  have rd: "answers (log_holds E V ps P) (map_err f (get_deduplicated_entry E i)) (Inr (Some d)) {}" for f :: "StorageError \<Rightarrow> api_error"
    using answers_map_err_none [OF log_reads(4) [OF assms(1), of ps P i], of f] assms(2) d(1) by simp
  have "serialize_timestamped_entry d = Inr (drop 2 (prep_leaf ?p))"
    using logged_leaf_length(1) [OF lg] d(2) by (simp add: serialize_timestamped_entry_def)
  moreover have "(case chain_hashes d of Some hs \<Rightarrow> hs | None \<Rightarrow> []) = map (sha256 E) (chain_list (prep_entry ?p))"
    by (simp add: d(3) split: option.split)
  ultimately show "answers (log_holds E V ps P) (add_page_entry E i page)
    (Inr (EntriesPage_add_entry (timestamped_entry (page_entry_of (sha256 E) (prep_entry ?p)))
       (issuer_hashes (page_entry_of (sha256 E) (prep_entry ?p))) page)) {}"
    unfolding add_page_entry_def using logged_leaf_length(2) [OF lg]
    by (intro answers_then [OF rd]) (simp add: answers_ret page_entry_of_def)
qed

lemma page_bounds:
  assumes "n \<le> 2 ^ 63" "unat (k * PAGE_SIZE) < n"
  shows "unat (k * PAGE_SIZE + PAGE_SIZE) = unat (k * PAGE_SIZE) + 1000"
    "min (k * PAGE_SIZE + PAGE_SIZE) (of_nat n) = of_nat (min (unat (k * PAGE_SIZE) + 1000) n)"
    "unat (of_nat (min (unat (k * PAGE_SIZE) + 1000) n) :: u64) = min (unat (k * PAGE_SIZE) + 1000) n"
proof -
  define st where "st = k * PAGE_SIZE"
  have "unat st + 1000 < 2 ^ 64" using assms by (simp add: st_def)
  then have "unat (of_nat (unat st + 1000) :: u64) = unat st + 1000" by (rule unat_of_nat_u64)
  then have e: "unat (st + PAGE_SIZE) = unat st + 1000" by (simp add: PAGE_SIZE_def)
  have n: "unat (of_nat n :: u64) = n" using assms(1) by (intro unat_of_nat_u64) simp
  have w: "st + PAGE_SIZE = of_nat (unat st + 1000)" by (simp add: PAGE_SIZE_def)
  show "unat (k * PAGE_SIZE + PAGE_SIZE) = unat (k * PAGE_SIZE) + 1000" using e by (simp add: st_def)
  have "min (st + PAGE_SIZE) (of_nat n) = of_nat (min (unat st + 1000) n)"
    using e n by (cases "unat st + 1000 \<le> n") (simp_all only: min_def word_le_nat_alt w if_True if_False)
  then show "min (k * PAGE_SIZE + PAGE_SIZE) (of_nat n) = of_nat (min (unat (k * PAGE_SIZE) + 1000) n)" by (simp add: st_def)
  show "unat (of_nat (min (unat (k * PAGE_SIZE) + 1000) n) :: u64) = min (unat (k * PAGE_SIZE) + 1000) n"
    using assms(1) by (intro unat_of_nat_u64) simp
qed

lemma get_page_answers:
  assumes "storage_ok E V {}"
  shows "answers (log_holds E V ps P) (get_page E k) (spec_page (sha256 E) ps k) {}"
proof (rule answers_pre)
  fix s assume "log_holds E V ps P s"
  then show "length ps \<le> 2 ^ 63" using log_okD(6) by (auto simp: log_holds_def)
next
  let ?T = "log_holds E V ps P"
  define st where "st = k * PAGE_SIZE"
  assume n: "length ps \<le> 2 ^ 63"
  have un: "unat (of_nat (length ps) :: u64) = length ps" using n by (intro unat_of_nat_u64) simp
  have size: "answers ?T (map_err f (on_tree (ms_size (slate_debug E) (tree_env E)))) (Inr (of_nat (length ps))) {}" for f :: "CtError \<Rightarrow> api_error"
    using answers_map_err_none [OF log_tree_answers(2) [OF assms]] by simp
  show "answers ?T (get_page E k) (spec_page (sha256 E) ps k) {}"
  proof (cases "length ps \<le> unat st")
    case True
    then have "(of_nat (length ps) :: u64) \<le> st" by (simp add: word_le_nat_alt un)
    with True show ?thesis
      unfolding get_page_def Let_def st_def
      by (intro answers_then [OF size]) (simp add: spec_page_def PAGE_SIZE_def answers_raise)
  next
    case False
    then have lt: "unat (k * PAGE_SIZE) < length ps" by (simp add: st_def)
    define en where "en = min (unat st + 1000) (length ps)"
    note pb = page_bounds [OF n lt, folded st_def, folded en_def]
    have le: "\<not> (of_nat (length ps) :: u64) \<le> st" using False by (simp add: word_le_nat_alt un)
    have en: "unat st < en" "en \<le> length ps" "en \<le> unat st + 1000" using False by (auto simp: en_def)
    have u: "unat (of_nat j :: u64) = j" if "j \<in> set [unat st..<en]" for j
      using that en(2) n by (intro unat_of_nat_u64) simp
    have fld: "fold (\<lambda>i. EntriesPage_add_entry (timestamped_entry (page_entry_of (sha256 E) (prep_entry (ps ! unat (i :: u64)))))
        (issuer_hashes (page_entry_of (sha256 E) (prep_entry (ps ! unat i))))) (u64_range st (of_nat en)) (EntriesPage_new st)
      = build_page st (page_of (sha256 E) ps (unat st))"
      unfolding build_page_def page_of_def u64_range_def pb(3) fold_map en_def [symmetric]
      by (rule fold_cong) (simp_all add: u fun_eq_iff)
    have "answers ?T (fold_io (add_page_entry E) (u64_range st (of_nat en)) (EntriesPage_new st))
        (Inr (build_page st (page_of (sha256 E) ps (unat st)))) {}"
      unfolding fld [symmetric]
      by (intro answers_fold add_page_entry_answers [OF assms]) (use u en(2) in \<open>auto simp: u64_range_def pb(3)\<close>)
    moreover have "(of_nat en - 1 :: u64) = of_nat (en - 1)" using en(1) by (simp add: of_nat_diff)
    moreover have "((of_nat en :: u64) = st + PAGE_SIZE \<and> (of_nat en :: u64) < of_nat (length ps)) \<longleftrightarrow> unat st + 1000 < length ps"
      unfolding word_unat_eq_iff [of "of_nat en"] word_less_nat_alt pb un by (auto simp: en_def)
    moreover have "spec_page (sha256 E) ps k = Inr (page_response (sha256 E) ps (unat st))"
      using False by (simp add: spec_page_def st_def PAGE_SIZE_def)
    moreover have "of_nat (unat st) = st" by simp
    ultimately show ?thesis
      unfolding get_page_def Let_def st_def [symmetric]
      by (intro answers_then [OF size], simp only: if_False le pb(2))
        (erule answers_then, simp only: PAGE_SIZE_def page_response_def en_def [symmetric] answers_ret)
  qed
qed

lemma logged_page_entry_ok:
  assumes "logged_at E i p" "entry_fits (prep_entry p)" "storage_ok E V F"
  shows "page_entry_ok (page_entry_of (sha256 E) (prep_entry p))"
proof -
  let ?e = "prep_entry p"
  have "length (drop 2 (leaf_data ?e)) < 2 ^ 32"
    using logged_leaf_length(2,3) [OF assms(1)] assms(2)
    by (cases "entry_type ?e"; cases "issuer_key_hash ?e")
      (auto simp: entry_bytes_def entry_fits_def key_hash_ok_def vec24_def vec16_def length_leaf_index_extension output_size_def)
  moreover have "digests_ok (map (sha256 E) (chain_list ?e))" using sha256_length [OF assms(3)] by (auto simp: digests_ok_def)
  ultimately show ?thesis using assms(2) by (simp add: page_entry_ok_def page_entry_of_def entry_fits_def)
qed

lemma page_of_append: "st + 1000 \<le> length ps \<Longrightarrow> page_of H (ps @ qs) st = page_of H ps st"
  by (simp add: page_of_def nth_append)

text \<open>The page that section 2.2 of \<^verbatim>\<open>RFC6962_pages_extension_specification_proposal.md\<close> prescribes: a timestamped entry is followed by its chain
  length and the hashes, and nothing comes before it.\<close>

definition proposal_page :: "u64 \<Rightarrow> PageEntry list \<Rightarrow> bytes" where
  "proposal_page idx es =
     [0] @ be64 (of_nat (length es)) @ be64 idx
     @ concat (map (\<lambda>e. timestamped_entry e @ be_bytes 2 (of_nat (length (issuer_hashes e)) :: u16) @ concat (issuer_hashes e)) es)"

lemma proposal_page_length:
  "length (EntriesPage_to_binary (build_page idx es)) = length (proposal_page idx es) + 4 * length es"
proof -
  have "length (concat (map page_entry_bytes es))
    = length (concat (map (\<lambda>e. timestamped_entry e @ be_bytes 2 (of_nat (length (issuer_hashes e)) :: u16) @ concat (issuer_hashes e)) es)) + 4 * length es"
    by (induction es) (simp_all add: page_entry_bytes_def)
  then show ?thesis by (simp add: build_page_eq EntriesPage_to_binary_def proposal_page_def be64_def)
qed

text \<open>C27: \<open>get_page\<close> serves the log in pages of a thousand entries. The page starts at the page number times a thousand, modulo $2^{64}$; past
  the end of the log the answer is 404. A reader of the format that \<open>to_binary\<close> writes, with a four-byte length before each timestamped entry, gets
  from the body the first index and, for every entry of the page that is logged, the timestamped entry and the hashes of its chain, with
  nothing left over. This is not the format of the proposal in the repository, which has no such length: the body is longer than the page that the proposal
  prescribes for the same entries, by four bytes for each of them, and so never equal to it. A response is marked immutable
  exactly when the log reaches beyond the page, and then the same request gets the same response, headers included, in every later state of the log.\<close>

theorem pages_served:
  assumes "storage_ok E V {}" "log_holds E V ps P s" "list_all (\<lambda>p. entry_fits (prep_entry p)) ps"
  shows "if length ps \<le> unat (k * 1000)
    then \<exists>m s'. get_page E k s = (Inl (Err (api_err NOT_FOUND m)), s') \<and> log_holds E V ps P s'
    else \<exists>r s' es. get_page E k s = (Inr r, s') \<and> log_holds E V ps P s' \<and>
      es = map (\<lambda>j. page_entry_of (sha256 E) (prep_entry (ps ! j))) [unat (k * 1000)..<min (unat (k * 1000) + 1000) (length ps)] \<and>
      parse_page (body r) = Some (k * 1000, es) \<and>
      length (body r) = length (proposal_page (k * 1000) es) + 4 * length es \<and> body r \<noteq> proposal_page (k * 1000) es \<and>
      ((''cache-control'', ''public, max-age=31536000, immutable'') \<in> set (headers r) \<longleftrightarrow> unat (k * 1000) + 1000 < length ps) \<and>
      (unat (k * 1000) + 1000 < length ps \<longrightarrow>
        (\<forall>qs P' t. log_holds E V (ps @ qs) P' t \<longrightarrow> (\<exists>t'. get_page E k t = (Inr r, t'))))"
proof (cases "length ps \<le> unat (k * 1000)")
  case True
  with answers_eq [OF get_page_answers [OF assms(1), of ps P k] assms(2)] show ?thesis by (auto simp: spec_page_def Let_def)
next
  case False
  define st where "st = unat (k * 1000)"
  define r where "r = page_response (sha256 E) ps st"
  obtain s' where s': "get_page E k s = (Inr r, s')" "log_holds E V ps P s'"
    using answers_eq [OF get_page_answers [OF assms(1), of ps P k] assms(2)] False by (auto simp: spec_page_def Let_def r_def st_def)
  obtain M where M: "log_ok E ps P M" using assms(2) by (auto simp: log_holds_def)
  have "\<forall>e \<in> set (page_of (sha256 E) ps st). page_entry_ok e"
    using logged_page_entry_ok [OF log_okD(5) [OF M] _ assms(1)] assms(3) by (auto simp: page_of_def list_all_length)
  moreover have "length (page_of (sha256 E) ps st) \<le> 1000" by (simp add: page_of_def)
  moreover have "of_nat st = k * 1000" by (simp add: st_def)
  ultimately have parse: "parse_page (body r) = Some (k * 1000, page_of (sha256 E) ps st)"
    and len: "length (body r) = length (proposal_page (k * 1000) (page_of (sha256 E) ps st)) + 4 * length (page_of (sha256 E) ps st)"
    using entries_page_roundtrip [of "page_of (sha256 E) ps st" "k * 1000"] proposal_page_length [of "k * 1000" "page_of (sha256 E) ps st"]
    by (simp_all add: r_def page_response_def)
  have "0 < length (page_of (sha256 E) ps st)" using False by (simp add: page_of_def st_def)
  with len have differs: "body r \<noteq> proposal_page (k * 1000) (page_of (sha256 E) ps st)" by auto
  have later: "\<exists>t'. get_page E k t = (Inr r, t')" if "st + 1000 < length ps" "log_holds E V (ps @ qs) P' t" for qs P' t
    using answers_eq [OF get_page_answers [OF assms(1), of "ps @ qs" P' k] that(2)] that(1)
    by (auto simp: spec_page_def Let_def r_def page_response_def page_of_append st_def [symmetric])
  have "(''cache-control'', ''public, max-age=31536000, immutable'') \<in> set (headers r) \<longleftrightarrow> st + 1000 < length ps"
    by (simp add: r_def page_response_def)
  with s' parse len differs later False show ?thesis
    unfolding st_def [symmetric] page_of_def [symmetric] by simp
qed

theorem pages_served_witness:
  "\<exists>P. log_holds (mem_storage_env mem_env) mem_view mem_logged P mem_after \<and>
    (\<exists>r s' es. get_page (mem_storage_env mem_env) (2 ^ 61) mem_after = (Inr r, s') \<and>
      log_holds (mem_storage_env mem_env) mem_view mem_logged P s' \<and>
      es = map (\<lambda>j. page_entry_of (sha256 (mem_storage_env mem_env)) (prep_entry (mem_logged ! j))) [0..<2] \<and>
      parse_page (body r) = Some (0, es) \<and> length (body r) = length (proposal_page 0 es) + 8 \<and> body r \<noteq> proposal_page 0 es \<and>
      (''cache-control'', ''public, max-age=31536000, immutable'') \<notin> set (headers r))"
proof -
  obtain P where P: "log_holds (mem_storage_env mem_env) mem_view mem_logged P mem_after" using mem_log by blast
  have wrap: "(2 ^ 61 * 1000 :: u64) = 0" by (simp add: word_unat_eq_iff)
  have "length mem_logged = 2" by (simp add: mem_logged_def)
  then show ?thesis
    using P pages_served [OF mem_storage_ok [OF mem_env_ok(1)] P mem_fits, of "2 ^ 61", unfolded wrap] by (intro exI [of _ P]) simp
qed

end
