(* ===== verification/Router_Props.thy ===== *)
theory Router_Props
  imports Router Api_Pages_Props
begin

text \<open>
  What the router promises: the URL of a tile, as the Static CT API prescribes it, leads to the handler of that tile with the level, index and
  width it names, so that the answer holds the hashes of the log; and what the metrics of the middleware count.
\<close>

section \<open>Numbers in paths\<close>

lemma digits_value_iff: "digits_value s = Some v \<longleftrightarrow> (\<exists>ds. map digit_value s = map Some ds \<and> v = foldl (\<lambda>acc d. acc * 10 + d) 0 ds)"
  by (auto simp: digits_value_def those_Some)

lemma digits_value_dec: "digits_value (dec_nat n) = Some n"
proof (induction n rule: dec_nat.induct)
  case (1 n)
  show ?case
  proof (cases "n < 10")
    case True
    then show ?thesis by (simp add: dec_nat.simps [of n] digits_value_def digit_value_char)
  next
    case False
    with 1 obtain ds where "map digit_value (dec_nat (n div 10)) = map Some ds" "n div 10 = foldl (\<lambda>acc d. acc * 10 + d) 0 ds"
      by (auto simp: digits_value_iff)
    then have ds: "map digit_value (dec_nat (n div 10)) = map Some ds" "foldl (\<lambda>acc d. acc * 10 + d) 0 ds = n div 10" by simp_all
    have "map digit_value (dec_nat n) = map Some (ds @ [n mod 10])"
      using False ds(1) by (simp add: dec_nat.simps [of n] digit_value_char)
    moreover have "n = foldl (\<lambda>acc d. acc * 10 + d) 0 (ds @ [n mod 10])" unfolding foldl_append ds(2) by simp
    ultimately show ?thesis unfolding digits_value_iff by blast
  qed
qed

lemma dec_nat_digits: "c \<in> set (dec_nat n) \<Longrightarrow> digit_value c \<noteq> None"
  using digits_value_dec [of n] unfolding digits_value_iff
  by (metis (no_types, lifting) ex_map_conv image_eqI list.set_map option.distinct(1))

lemma dec_nat_not_Nil [simp]: "dec_nat n \<noteq> []"
  by (simp add: dec_nat.simps [of n])

lemma parse_u64_dec: "n < 2 ^ 64 \<Longrightarrow> parse_u64 (dec_nat n) = Some (of_nat n)"
proof -
  assume n: "n < 2 ^ 64"
  obtain c cs where c: "dec_nat n = c # cs" by (cases "dec_nat n") simp_all
  then have "c \<noteq> CHR ''+''" using dec_nat_digits [of c n] by (auto simp: digit_value_def)
  with n c show ?thesis unfolding parse_u64_def by (simp add: c digits_value_dec [of n, unfolded c])
qed

lemma parse_dec: "parse_u8 (dec l) = Some l" "parse_u16 (dec w) = Some w" for l :: u8 and w :: u16
proof -
  have l: "unat l < 256" and w: "unat w < 65536" using unsigned_less [of l, where 'a = nat] unsigned_less [of w, where 'a = nat] by simp_all
  have u: "unat (of_nat (unat l) :: u64) = unat l" "unat (of_nat (unat w) :: u64) = unat w" by (rule unat_of_nat_u64, use l in simp) (rule unat_of_nat_u64, use w in simp)
  have "ucast (of_nat (unat l) :: u64) = l" "ucast (of_nat (unat w) :: u64) = w"
    by (simp_all only: word_unat_eq_iff unsigned_ucast_eq u) (use l w in \<open>simp_all add: take_bit_nat_eq_self\<close>)
  moreover have "parse_u64 (dec_nat (unat l)) = Some (of_nat (unat l))" "parse_u64 (dec_nat (unat w)) = Some (of_nat (unat w))"
    by (rule parse_u64_dec, use l in simp) (rule parse_u64_dec, use w in simp)
  ultimately show "parse_u8 (dec l) = Some l" "parse_u16 (dec w) = Some w"
    unfolding parse_u8_def parse_u16_def dec_def using l w u by (simp_all del: of_nat_unat)
qed

section \<open>Paths of tiles\<close>

text \<open>The path of a tile below its level, with the width of a partial one.\<close>

definition tile_suffix :: "u64 \<Rightarrow> u16 option \<Rightarrow> string" where
  "tile_suffix n w = format_tile_index n @ (case w of None \<Rightarrow> [] | Some k \<Rightarrow> ''.p/'' @ dec k)"

definition tile_url :: "u8 \<Rightarrow> u64 \<Rightarrow> u16 option \<Rightarrow> string" where
  "tile_url l n w = ''/tile/'' @ dec l @ ''/'' @ tile_suffix n w"

definition data_tile_url :: "u64 \<Rightarrow> u16 option \<Rightarrow> string" where
  "data_tile_url n w = ''/tile/data/'' @ tile_suffix n w"

lemma str_join_chars: "set (str_join sep ps) \<subseteq> set sep \<union> \<Union> (set (map set ps))"
  by (induction sep ps rule: str_join.induct) auto

lemma format_chars: "c \<in> set (format_tile_index n) \<Longrightarrow> c = CHR ''/'' \<or> c = CHR ''x'' \<or> digit_value c \<noteq> None"
proof (cases "n = 0")
  case True
  then show "c \<in> set (format_tile_index n) \<Longrightarrow> ?thesis" by (auto simp: format_tile_index_def digit_value_def)
next
  case False
  let ?ns = "thousands (unat n)"
  assume c: "c \<in> set (format_tile_index n)"
  have ns: "?ns \<noteq> []" "\<forall>m \<in> set ?ns. m < 1000" using False thousands_props [of "unat n"] by (simp_all add: thousands_eq_Nil unat_eq_0)
  have "c = CHR ''/'' \<or> c = CHR ''x'' \<or> (\<exists>m \<in> set ?ns. c \<in> set (three_digits m))"
    using c False ns(1) subsetD [OF str_join_chars, of c "''/''"] last_in_set [OF ns(1)]
    by (fastforce simp: format_tile_index_def Let_def last_map map_butlast [symmetric] dest: in_set_butlastD)
  moreover have "digit_value c \<noteq> None" if "m < 1000" "c \<in> set (three_digits m)" for m
    using three_digits_chars [OF that] by (auto simp: digit_value_def)
  ultimately show ?thesis using ns(2) by blast
qed

lemma format_no_special: "CHR ''.'' \<notin> set (format_tile_index n)" "CHR ''%'' \<notin> set (format_tile_index n)"
  using format_chars [of "CHR ''.''" n] format_chars [of "CHR ''%''" n] by (auto simp: digit_value_def)

lemma dec_no_special: "CHR ''/'' \<notin> set (dec w)" "CHR ''%'' \<notin> set (dec w)" "dec w \<noteq> []" "dec w \<noteq> ''data''"
proof -
  have "CHR ''d'' \<notin> set (dec w)"
    using dec_nat_digits [of "CHR ''d''" "unat w"] by (auto simp: dec_def digit_value_def)
  then show "dec w \<noteq> ''data''" by force
qed (use dec_nat_digits [of "CHR ''/''" "unat w"] dec_nat_digits [of "CHR ''%''" "unat w"] in \<open>auto simp: dec_def digit_value_def\<close>)

lemma str_rfind_none: "CHR ''.'' \<notin> set s \<Longrightarrow> str_rfind ''.p/'' s = None"
  by (induction s) (auto simp: neq_commute)

lemma str_rfind_no_slash: "CHR ''/'' \<notin> set s \<Longrightarrow> str_rfind ''.p/'' s = None"
proof (induction s)
  case (Cons c s)
  have "take 3 (c # s) \<noteq> ''.p/''"
  proof
    assume "take 3 (c # s) = ''.p/''"
    then have "CHR ''/'' \<in> set (take 3 (c # s))" by simp
    with Cons.prems show False by (meson in_set_takeD)
  qed
  with Cons show ?case by (simp add: numeral_3_eq_3)
qed simp

lemma str_rfind_last: "CHR ''/'' \<notin> set s \<Longrightarrow> str_rfind ''.p/'' (a @ ''.p/'' @ s) = Some (length a)"
  by (induction a) (simp_all add: str_rfind_no_slash)

lemma parse_tile_suffix: "valid_width w \<Longrightarrow> parse_tile_path (tile_suffix n w) = (format_tile_index n, w)"
proof (cases w)
  case None
  then show ?thesis by (simp add: tile_suffix_def parse_tile_path_def str_rfind_none [OF format_no_special(1)])
next
  case (Some k)
  assume "valid_width w"
  then have "0 < k" "k \<le> 256" using Some by (auto simp: valid_width_def word_neq_0_conv)
  moreover have "str_rfind ''.p/'' (tile_suffix n w) = Some (length (format_tile_index n))"
    "drop (length (format_tile_index n) + 3) (tile_suffix n w) = dec k" "take (length (format_tile_index n)) (tile_suffix n w) = format_tile_index n"
    using str_rfind_last [OF dec_no_special(1)] Some by (simp_all add: tile_suffix_def)
  ultimately show ?thesis using Some by (simp add: parse_tile_path_def parse_dec(2))
qed

lemma str_split_Cons: "\<exists>p ps. str_split d s = p # ps"
  by (induction s) auto

lemma str_join_split: "str_join [d] (str_split d s) = s"
proof (induction s)
  case (Cons c s)
  obtain p ps where "str_split d s = p # ps" using str_split_Cons by blast
  with Cons show ?case by (cases ps) auto
qed simp

section \<open>Finding the route\<close>

text \<open>The terms in which axum documents its routing, to state what is relied on. A path fits a pattern with the texts of its parameters: a parameter
  is a segment that is not empty, and so is the rest of a path.\<close>

fun match_segments :: "segment list \<Rightarrow> string list \<Rightarrow> string list option" where
  "match_segments [] [] = Some []"
| "match_segments [Rest _] (s # ss) = (let r = str_join ''/'' (s # ss) in if r = [] then None else Some [r])"
| "match_segments (Lit a # ps) (s # ss) = (if s = a then match_segments ps ss else None)"
| "match_segments (Param _ # ps) (s # ss) = (if s = [] then None else map_option ((#) s) (match_segments ps ss))"
| "match_segments _ _ = None"

definition match_pattern :: "segment list \<Rightarrow> string \<Rightarrow> string list option" where
  "match_pattern pat p =
     (case p of [] \<Rightarrow> None | c # cs \<Rightarrow> if c = CHR ''/'' then match_segments pat (str_split (CHR ''/'') cs) else None)"

text \<open>A literal segment is preferred to a parameter, and a parameter to the rest of a path.\<close>

fun preferred :: "segment list \<Rightarrow> segment list \<Rightarrow> bool" where
  "preferred (Lit a # ps) (q # qs) = (case q of Lit b \<Rightarrow> a = b \<and> preferred ps qs | _ \<Rightarrow> True)"
| "preferred (Param a # ps) (q # qs) = (case q of Lit b \<Rightarrow> False | Param b \<Rightarrow> preferred ps qs | Rest b \<Rightarrow> True)"
| "preferred _ _ = False"

definition patterns :: "segment list list" where
  "patterns = map fst routes"

text \<open>What is relied on of axum: a GET request goes to the GET route its path fits, if that is preferred to every other route that the path
  fits, with the texts of the parameters; and a text without escapes is decoded to itself.\<close>

definition router_ok :: "Framework \<Rightarrow> bool" where
  "router_ok F \<longleftrightarrow>
     (\<forall>pat p params. (pat, ''GET'') \<in> set routes \<and> match_pattern pat p = Some params \<and>
        (\<forall>q \<in> set patterns. match_pattern q p \<noteq> None \<longrightarrow> q = pat \<or> preferred pat q)
        \<longrightarrow> route_request F routes ''GET'' p = Routed pat params) \<and>
     (\<forall>x. CHR ''%'' \<notin> set x \<longrightarrow> percent_decode F x = Some x)"

lemma route_found:
  assumes "router_ok F" "(pat, ''GET'') \<in> set routes" "match_pattern pat p = Some params"
    and "\<And>q. q \<in> set patterns \<Longrightarrow> match_pattern q p \<noteq> None \<Longrightarrow> q = pat \<or> preferred pat q"
  shows "route_request F routes ''GET'' p = Routed pat params"
  using assms unfolding router_ok_def by blast

lemma patterns_eq: "set patterns =
    {ct_v1 ''add-chain'', ct_v1 ''add-pre-chain'', ct_v1 ''get-sth'', ct_v1 ''get-sth-consistency'', ct_v1 ''get-proof-by-hash'', ct_v1 ''get-entries'',
     ct_v1 ''get-roots'', ct_v1 ''get-entry-and-proof'', [Lit ''checkpoint''], [Lit ''tile'', Param ''level'', Rest ''index''],
     [Lit ''tile'', Lit ''data'', Rest ''index''], [Lit ''issuer'', Param ''fingerprint''], [Lit ''inclusion_request.json''],
     [Lit ''ct-pages'', Lit ''v1'', Lit ''discover''], [Lit ''ct-pages'', Lit ''v1'', Lit ''page'', Param ''page_number''],
     [Lit ''ct-pages'', Lit ''v1'', Lit ''certificate'', Param ''hash''], [Lit ''health''], [Lit ''metrics'']}"
  by (simp add: patterns_def routes_def create_router_def)

lemma patterns_literal: "q \<in> set patterns \<Longrightarrow> \<exists>a ps. q = Lit a # ps"
  unfolding patterns_eq ct_v1_def by blast

lemma patterns_tile: "Lit ''tile'' # ps \<in> set patterns \<Longrightarrow> ps = [Param ''level'', Rest ''index''] \<or> ps = [Lit ''data'', Rest ''index'']"
  unfolding patterns_eq ct_v1_def by simp

lemma routes_tile_mem:
  "([Lit ''tile'', Param ''level'', Rest ''index''], ''GET'') \<in> set routes" "([Lit ''tile'', Lit ''data'', Rest ''index''], ''GET'') \<in> set routes"
  by (simp_all add: routes_def create_router_def)

lemma tile_segments:
  "str_split (CHR ''/'') (''tile/'' @ x @ ''/'' @ r) = ''tile'' # x # str_split (CHR ''/'') r" if "CHR ''/'' \<notin> set x"
  using str_split_append [OF that, of r] str_split_append [of "CHR ''/''" "''tile''" "x @ ''/'' @ r"] by simp

lemma match_tile:
  assumes "CHR ''/'' \<notin> set x" "x \<noteq> []" "r \<noteq> []"
  shows "match_pattern [Lit ''tile'', Param l, Rest i] (''/tile/'' @ x @ ''/'' @ r) = Some [x, r]"
    "match_pattern [Lit ''tile'', Lit ''data'', Rest i] (''/tile/'' @ x @ ''/'' @ r) = (if x = ''data'' then Some [r] else None)"
    "q \<in> set patterns \<Longrightarrow> match_pattern q (''/tile/'' @ x @ ''/'' @ r) \<noteq> None \<Longrightarrow>
      q = [Lit ''tile'', Param ''level'', Rest ''index''] \<or> q = [Lit ''tile'', Lit ''data'', Rest ''index'']"
proof -
  obtain s ss where s: "str_split (CHR ''/'') r = s # ss" using str_split_Cons by blast
  have "str_join ''/'' (s # ss) = r" using str_join_split [of "CHR ''/''" r] s by simp
  then have r: "match_segments [Rest i] (s # ss) = Some [r]" for i using assms(3) by simp
  note segs = tile_segments [OF assms(1), of r, unfolded s]
  have m: "match_pattern q (''/tile/'' @ x @ ''/'' @ r) = match_segments q (''tile'' # x # s # ss)" for q
    using segs by (simp add: match_pattern_def)
  show "match_pattern [Lit ''tile'', Param l, Rest i] (''/tile/'' @ x @ ''/'' @ r) = Some [x, r]"
    unfolding m using r assms(2) by (simp del: match_segments.simps(2))
  show "match_pattern [Lit ''tile'', Lit ''data'', Rest i] (''/tile/'' @ x @ ''/'' @ r) = (if x = ''data'' then Some [r] else None)"
    unfolding m using r by (simp del: match_segments.simps(2))
  show "q \<in> set patterns \<Longrightarrow> match_pattern q (''/tile/'' @ x @ ''/'' @ r) \<noteq> None \<Longrightarrow>
      q = [Lit ''tile'', Param ''level'', Rest ''index''] \<or> q = [Lit ''tile'', Lit ''data'', Rest ''index'']"
    unfolding m using patterns_literal [of q] by (auto split: if_splits dest: patterns_tile)
qed

lemma tile_suffix_ok: "tile_suffix n w \<noteq> []" "CHR ''%'' \<notin> set (tile_suffix n w)"
proof -
  have "format_tile_index n \<noteq> []" using parse_format_tile_index [of n] by (auto simp: parse_tile_index_def)
  then show "tile_suffix n w \<noteq> []" by (simp add: tile_suffix_def)
  show "CHR ''%'' \<notin> set (tile_suffix n w)" using format_no_special(2) [of n] dec_no_special(2) by (auto simp: tile_suffix_def split: option.splits)
qed

lemma tile_routes:
  assumes "router_ok F"
  shows "route_request F routes ''GET'' (tile_url l n w) = Routed [Lit ''tile'', Param ''level'', Rest ''index''] [dec l, tile_suffix n w]"
    "route_request F routes ''GET'' (data_tile_url n w) = Routed [Lit ''tile'', Lit ''data'', Rest ''index''] [tile_suffix n w]"
proof -
  note t = match_tile [where x = "dec l" and r = "tile_suffix n w", OF dec_no_special(1,3) tile_suffix_ok(1)]
  have d: "CHR ''/'' \<notin> set ''data''" "''data'' \<noteq> []" by simp_all
  note u = match_tile [where r = "tile_suffix n w", OF d tile_suffix_ok(1)]
  have url: "data_tile_url n w = ''/tile/'' @ ''data'' @ ''/'' @ tile_suffix n w" by (simp add: data_tile_url_def)
  show "route_request F routes ''GET'' (tile_url l n w) = Routed [Lit ''tile'', Param ''level'', Rest ''index''] [dec l, tile_suffix n w]"
    unfolding tile_url_def
  proof (rule route_found [OF assms routes_tile_mem(1) t(1)])
    fix q assume "q \<in> set patterns" "match_pattern q (''/tile/'' @ dec l @ ''/'' @ tile_suffix n w) \<noteq> None"
    with t(3) t(2) [of "''index''"] dec_no_special(4) [of l]
    show "q = [Lit ''tile'', Param ''level'', Rest ''index''] \<or> preferred [Lit ''tile'', Param ''level'', Rest ''index''] q" by fastforce
  qed
  show "route_request F routes ''GET'' (data_tile_url n w) = Routed [Lit ''tile'', Lit ''data'', Rest ''index''] [tile_suffix n w]"
    unfolding url
  proof (rule route_found [OF assms routes_tile_mem(2)])
    fix q assume "q \<in> set patterns" "match_pattern q (''/tile/'' @ ''data'' @ ''/'' @ tile_suffix n w) \<noteq> None"
    with u(3) show "q = [Lit ''tile'', Lit ''data'', Rest ''index''] \<or> preferred [Lit ''tile'', Lit ''data'', Rest ''index''] q" by fastforce
  qed (simp add: u(2) del: append.simps)
qed

section \<open>The dispatch of tile requests\<close>

lemma tile_endpoints:
  "map_of create_router [Lit ''tile'', Param ''level'', Rest ''index''] = Some (''GET'', EpTile)"
  "map_of create_router [Lit ''tile'', Lit ''data'', Rest ''index''] = Some (''GET'', EpDataTile)"
  by (simp_all add: create_router_def ct_v1_def)

lemma tile_params:
  assumes "router_ok F"
  shows "path_params F [dec lvl, tile_suffix n w] level_and_text = ret (lvl, tile_suffix n w)"
    "path_params F [tile_suffix n w] one_text = ret (tile_suffix n w)"
proof -
  have "percent_decode F (dec lvl) = Some (dec lvl)" "percent_decode F (tile_suffix n w) = Some (tile_suffix n w)"
    using assms(1) dec_no_special(2) tile_suffix_ok(2) unfolding router_ok_def by blast+
  then show "path_params F [dec lvl, tile_suffix n w] level_and_text = ret (lvl, tile_suffix n w)"
    "path_params F [tile_suffix n w] one_text = ret (tile_suffix n w)"
    by (simp_all add: path_params_def parse_dec(1))
qed

lemma tile_dispatched:
  assumes "router_ok F" "valid_width w" "http_method req = ''GET''" "http_path req = tile_url lvl n w"
  shows "dispatch F A E W config S time tx req = reply Binary (on_storage (api_get_tile E lvl (format_tile_index n) w))"
  by (simp add: dispatch_def assms(3,4) tile_routes [OF assms(1)] tile_endpoints tile_params [OF assms(1)]
      handle_tile_request_with_path_def parse_tile_suffix [OF assms(2)])

lemma data_tile_dispatched:
  assumes "router_ok F" "valid_width w" "http_method req = ''GET''" "http_path req = data_tile_url n w"
  shows "dispatch F A E W config S time tx req = reply Binary (on_storage (get_data_tile A E (format_tile_index n) w))"
  by (simp add: dispatch_def assms(3,4) tile_routes [OF assms(1)] tile_endpoints tile_params [OF assms(1)]
      handle_data_tile_request_with_path_def parse_tile_suffix [OF assms(2)])

lemma reply_storage:
  assumes "m (store (api_worker a)) = (map_sum Err id r, s')"
  shows "reply f (on_storage m) a = (map_sum (\<lambda>e. Err (Handler e)) f r, a\<lparr>api_worker := (api_worker a)\<lparr>store := s'\<rparr>\<rparr>)"
  using assms by (cases r) (simp_all add: reply_def on_storage_def zoom_def and_then_def map_err_def ret_def)

text \<open>C30: A tile is found under its URL. For every level, every index and every width from 1 to 256 or none, a request for the path that the Static
  CT API gives to the tile is routed to the tile handler, also beside the route of data tiles, and its level, index and width are
  read back as they were written. A level above 5 is a bad request. For the others the answer holds the hashes of the tile of the log whose
  index is the requested one modulo \<open>2 ^ 56\<close>, or is not found past the end of the log: that is the requested tile for indices below \<open>2 ^ 56\<close>, while for
  larger ones, where the code multiplies with wrap-around, it is a tile that was not asked for. The request changes nothing but caches. The path
  of a data tile leads to the handler of data tiles in the same way.\<close>

theorem tile_urls_served:
  assumes "storage_ok E V {}" "log_holds E V ps P (store (api_worker a))" "router_ok F" "valid_width w"
    and "http_method req = ''GET''" "http_path req = tile_url lvl n w" "http_method req' = ''GET''" "http_path req' = data_tile_url n w"
  shows "(\<exists>s'. dispatch F A E W config S time tx req a
      = (map_sum (\<lambda>e. Err (Handler e)) Binary
           (if 5 < unat lvl then Inl (api_err BAD_REQUEST ''Invalid tile level, must be 0-5'')
            else spec_api_tile (sha256 E) (log_leaves ps) (unat lvl) (unat n mod 2 ^ 56 * 256) (tile_width w)),
         a\<lparr>api_worker := (api_worker a)\<lparr>store := s'\<rparr>\<rparr>) \<and> log_holds E V ps P s') \<and>
    dispatch F A E W config S time tx req' = reply Binary (on_storage (get_data_tile A E (format_tile_index n) w)) \<and>
    parse_tile_index (format_tile_index n) = Inr n"
proof -
  have "spec_tile_request (sha256 E) (log_leaves ps) lvl (format_tile_index n) w
      = (if 5 < unat lvl then Inl (api_err BAD_REQUEST ''Invalid tile level, must be 0-5'')
         else spec_api_tile (sha256 E) (log_leaves ps) (unat lvl) (unat n mod 2 ^ 56 * 256) (tile_width w))" (is "_ = ?r")
    using assms(4) by (simp add: spec_tile_request_def valid_width_iff parse_format_tile_index)
  then obtain s' where s: "api_get_tile E lvl (format_tile_index n) w (store (api_worker a)) = (map_sum Err id ?r, s')" "log_holds E V ps P s'"
    using answers_eq [OF tile_request_answers [OF assms(1)] assms(2), of lvl "format_tile_index n" w] by auto
  from reply_storage [of "api_get_tile E lvl (format_tile_index n) w" a, OF s(1), of Binary] s(2)
  show ?thesis
    unfolding tile_dispatched [OF assms(3-6)] data_tile_dispatched [OF assms(3,4,7,8)] by (auto simp: parse_format_tile_index)
qed

section \<open>The metrics of the middleware\<close>

definition entered :: "http_event list \<Rightarrow> nat" where
  "entered evs = length (filter (\<lambda>ev. case ev of Enter _ \<Rightarrow> True | _ \<Rightarrow> False) evs)"

definition cancelled :: "http_event list \<Rightarrow> nat" where
  "cancelled evs = length (filter (\<lambda>ev. case ev of Cancel _ \<Rightarrow> True | _ \<Rightarrow> False) evs)"

fun recorded :: "string \<times> string \<times> string \<Rightarrow> http_event \<Rightarrow> bool" where
  "recorded labels (Leave r status) \<longleftrightarrow> tracked (http_path r) \<and> labels = (normalize_path_for_metrics (http_path r), http_method r, status)"
| "recorded labels _ \<longleftrightarrow> False"

lemma http_step_metrics:
  assumes "http_step ev s s'"
  shows "active_connections (fst s') - int (length (snd s')) = active_connections (fst s) - int (length (snd s)) + int (cancelled [ev])"
    "requests_total (fst s') labels = requests_total (fst s) labels + length (filter (recorded labels) [ev])"
proof -
  have l: "int (length (remove1 r rs)) = int (length rs) - 1" if "r \<in> set rs" for r :: HttpRequest and rs
    using that length_pos_if_in_set [OF that] by (simp add: length_remove1 of_nat_diff Suc_leI)
  show "active_connections (fst s') - int (length (snd s')) = active_connections (fst s) - int (length (snd s)) + int (cancelled [ev])"
    using assms by (cases rule: http_step.cases) (simp_all add: l cancelled_def middleware_enter_def middleware_leave_def Let_def)
  show "requests_total (fst s') labels = requests_total (fst s) labels + length (filter (recorded labels) [ev])"
    using assms by (cases rule: http_step.cases) (simp_all add: middleware_enter_def middleware_leave_def Let_def)
qed

lemma http_run_metrics:
  assumes "http_run evs s s'"
  shows "active_connections (fst s') - int (length (snd s')) = active_connections (fst s) - int (length (snd s)) + int (cancelled evs) \<and>
    requests_total (fst s') labels = requests_total (fst s) labels + length (filter (recorded labels) evs)"
  using assms
proof induction
  case (http_more evs s s' ev s'')
  from http_more.IH http_step_metrics [OF http_more.hyps(2)] show ?case by (simp add: cancelled_def)
qed (simp add: cancelled_def)

lemma normalize_cases:
  "starts_with ''/ct/v1/'' p \<Longrightarrow> normalize_path_for_metrics p = p"
  "is_static_ct_endpoint p \<Longrightarrow> normalize_path_for_metrics p \<in> {''/checkpoint'', ''/tile'', ''/issuer''}"
proof -
  assume "starts_with ''/ct/v1/'' p"
  then obtain r where "p = ''/ct/v1/'' @ r" unfolding starts_with_def by (metis append_take_drop_id)
  then show "normalize_path_for_metrics p = p" by (simp add: normalize_path_for_metrics_def starts_with_def)
qed (auto simp: is_static_ct_endpoint_def normalize_path_for_metrics_def)

text \<open>C34: What the middleware counts. The gauge of active connections is the number of requests being served plus the number of all requests that were
  cancelled while they were served, which never leave it again. The counter of a triple of labels is the number of finished requests with
  that endpoint, method and status. The label of a request for a static endpoint is one of three; every other counted path is a label
  of its own, whether it is routed or not.\<close>

theorem middleware_counts:
  assumes "http_run evs (\<lparr>active_connections = 0, requests_total = \<lambda>_. 0\<rparr>, []) (m, rs)"
  shows "active_connections m = int (length rs) + int (cancelled evs) \<and>
    requests_total m labels = length (filter (recorded labels) evs) \<and>
    (Leave r status \<in> set evs \<longrightarrow> starts_with ''/ct/v1/'' (http_path r) \<longrightarrow> 0 < requests_total m (http_path r, http_method r, status)) \<and>
    (0 < requests_total m (e, me, st) \<longrightarrow> starts_with ''/ct/v1/'' e \<or> e \<in> {''/checkpoint'', ''/tile'', ''/issuer''})"
proof -
  note run = http_run_metrics [OF assms]
  have total: "requests_total m l = length (filter (recorded l) evs)" for l using run [of l] by simp
  have "0 < requests_total m (http_path r, http_method r, status)" if "Leave r status \<in> set evs" "starts_with ''/ct/v1/'' (http_path r)"
    using that normalize_cases(1) [OF that(2)] unfolding total by (auto simp: filter_empty_conv tracked_def intro!: bexI [of _ "Leave r status"])
  moreover have "starts_with ''/ct/v1/'' e \<or> e \<in> {''/checkpoint'', ''/tile'', ''/issuer''}" if "0 < requests_total m (e, me, st)"
  proof -
    from that obtain ev where ev: "ev \<in> set evs" "recorded (e, me, st) ev" unfolding total by (auto simp: filter_empty_conv)
    have "\<exists>q :: HttpRequest. tracked (http_path q) \<and> e = normalize_path_for_metrics (http_path q)" using ev(2) by (cases ev) auto
    then obtain q :: HttpRequest where "tracked (http_path q)" "e = normalize_path_for_metrics (http_path q)" by blast
    then show ?thesis using normalize_cases [of "http_path q"] unfolding tracked_def by auto
  qed
  ultimately show ?thesis using run [of labels] by auto
qed

section \<open>An instance\<close>

definition toy_request :: "string \<Rightarrow> HttpRequest" where
  "toy_request p = \<lparr>http_method = ''GET'', http_path = p, http_query = [], http_body = []\<rparr>"

theorem middleware_counts_witness:
  "\<exists>evs m. http_run evs (\<lparr>active_connections = 0, requests_total = \<lambda>_. 0\<rparr>, []) (m, []) \<and> active_connections m = 1 \<and>
    0 < requests_total m (''/ct/v1/zzz'', ''GET'', ''404'')"
proof -
  let ?r = "toy_request ''/ct/v1/zzz''" and ?start = "\<lparr>active_connections = 0, requests_total = \<lambda>_. 0\<rparr>"
  let ?m = "middleware_leave ?r ''404'' (middleware_enter (middleware_enter ?start))"
  have "http_run [] (?start, []) (?start, [])" by (rule http_start)
  from http_more [OF this http_step.enter [of ?r]] have "http_run [Enter ?r] (?start, []) (middleware_enter ?start, [?r])" by simp
  from http_more [OF this http_step.enter [of ?r]]
  have "http_run [Enter ?r, Enter ?r] (?start, []) (middleware_enter (middleware_enter ?start), [?r, ?r])" by simp
  from http_more [OF this http_step.leave [of ?r _ "''404''"]]
  have "http_run [Enter ?r, Enter ?r, Leave ?r ''404''] (?start, []) (?m, [?r])" by simp
  from http_more [OF this http_step.cancel [of ?r]]
  have run: "http_run [Enter ?r, Enter ?r, Leave ?r ''404'', Cancel ?r] (?start, []) (?m, [])" by simp
  have "starts_with ''/ct/v1/'' (http_path ?r)" by (simp add: starts_with_def toy_request_def)
  moreover have "Leave ?r ''404'' \<in> set [Enter ?r, Enter ?r, Leave ?r ''404'', Cancel ?r]" by simp
  ultimately have "active_connections ?m = int (length ([] :: HttpRequest list)) + int (cancelled [Enter ?r, Enter ?r, Leave ?r ''404'', Cancel ?r])"
    "0 < requests_total ?m (http_path ?r, http_method ?r, ''404'')"
    using middleware_counts [OF run, of _ ?r "''404''"] by blast+
  then have "active_connections ?m = 1" "0 < requests_total ?m (''/ct/v1/zzz'', ''GET'', ''404'')"
    unfolding toy_request_def by (simp_all add: cancelled_def)
  with run show ?thesis by blast
qed

text \<open>A router that tries the route of data tiles first and then the others in order.\<close>

definition toy_framework :: Framework where
  "toy_framework =
     \<lparr>route_request = \<lambda>table m p.
        (case find (\<lambda>(q, _). match_pattern q p \<noteq> None) (([Lit ''tile'', Lit ''data'', Rest ''index''], ''GET'') # table) of
           None \<Rightarrow> NotRouted
         | Some (q, m') \<Rightarrow> if m = m' then Routed q (the (match_pattern q p)) else WrongMethod),
      percent_decode = Some, path_rejection = \<lambda>_. (400, ''Invalid URL''), json_chain = \<lambda>_. Inl (400, ''Failed to parse''),
      query_consistency = \<lambda>_. Inl (400, ''Failed to deserialize''), query_proof = \<lambda>_. Inl (400, ''Failed to deserialize''),
      query_entries = \<lambda>_. Inl (400, ''Failed to deserialize''), query_entry_and_proof = \<lambda>_. Inl (400, ''Failed to deserialize''),
      encode_metrics = Inr [], from_utf8 = \<lambda>_. Inr [], cargo_pkg_version = ''0.1.0''\<rparr>"

lemma match_pattern_Some:
  assumes "match_pattern q p \<noteq> None" "q \<in> set patterns"
  shows "\<exists>a ps ss. q = Lit a # ps \<and> str_split (CHR ''/'') (tl p) = a # ss \<and> match_segments ps ss \<noteq> None"
proof -
  obtain a ps where q: "q = Lit a # ps" using patterns_literal [OF assms(2)] by blast
  with assms(1) show ?thesis
    by (cases "str_split (CHR ''/'') (tl p)") (auto simp: match_pattern_def split: list.splits if_splits)
qed

lemma patterns_ct: "Lit ''ct'' # ps \<in> set patterns \<Longrightarrow> \<exists>n. ps = [Lit ''v1'', Lit n]"
  unfolding patterns_eq ct_v1_def by simp blast

definition page_params :: "string \<Rightarrow> segment list" where
  "page_params b = (if b = ''discover'' then [] else if b = ''page'' then [Param ''page_number''] else [Param ''hash''])"

lemma patterns_pages: "Lit ''ct-pages'' # ps \<in> set patterns \<Longrightarrow> \<exists>b. ps = Lit ''v1'' # Lit b # page_params b"
  unfolding patterns_eq ct_v1_def page_params_def by auto

lemma patterns_single:
  "Lit a # ps \<in> set patterns \<Longrightarrow> Lit a # qs \<in> set patterns \<Longrightarrow> a \<noteq> ''ct'' \<Longrightarrow> a \<noteq> ''ct-pages'' \<Longrightarrow> a \<noteq> ''tile'' \<Longrightarrow> ps = qs"
  unfolding patterns_eq ct_v1_def by auto

lemma match_second: "match_segments (Lit a # Lit b # bs) ss \<noteq> None \<Longrightarrow> hd (tl ss) = b"
  by (cases ss; cases "tl ss") (auto split: if_splits)

lemma routes_overlap:
  assumes "p \<in> set patterns" "q \<in> set patterns" "match_pattern p u \<noteq> None" "match_pattern q u \<noteq> None" "p \<noteq> q"
  shows "{p, q} = {[Lit ''tile'', Param ''level'', Rest ''index''], [Lit ''tile'', Lit ''data'', Rest ''index'']}"
proof -
  obtain a ps ss where p: "p = Lit a # ps" "str_split (CHR ''/'') (tl u) = a # ss" "match_segments ps ss \<noteq> None"
    using match_pattern_Some [OF assms(3,1)] by blast
  obtain qs where q: "q = Lit a # qs" "match_segments qs ss \<noteq> None" using match_pattern_Some [OF assms(4,2)] p(2) by auto
  have ne: "ps \<noteq> qs" using assms(5) p(1) q(1) by simp
  consider "a = ''ct''" | "a = ''ct-pages''" | "a = ''tile''" | "a \<noteq> ''ct''" "a \<noteq> ''ct-pages''" "a \<noteq> ''tile''" by blast
  then show ?thesis
  proof cases
    case 1
    obtain n where n: "ps = [Lit ''v1'', Lit n]" using patterns_ct [of ps] assms(1) p(1) 1 by blast
    obtain k where k: "qs = [Lit ''v1'', Lit k]" using patterns_ct [of qs] assms(2) q(1) 1 by blast
    have "n = k" using match_second p(3) q(2) unfolding n k by blast
    with n k ne show ?thesis by blast
  next
    case 2
    obtain n where n: "ps = Lit ''v1'' # Lit n # page_params n" using patterns_pages [of ps] assms(1) p(1) 2 by blast
    obtain k where k: "qs = Lit ''v1'' # Lit k # page_params k" using patterns_pages [of qs] assms(2) q(1) 2 by blast
    have "n = k" using match_second p(3) q(2) unfolding n k by blast
    with n k ne show ?thesis by blast
  next
    case 3
    with patterns_tile [of ps] patterns_tile [of qs] assms(1,2) p q ne show ?thesis by auto
  next
    case 4
    with patterns_single [of a ps qs] assms(1,2) p q ne show ?thesis by simp
  qed
qed

lemma routes_distinct: "(q, m) \<in> set routes \<Longrightarrow> (q, m') \<in> set routes \<Longrightarrow> m = m'"
proof -
  have "distinct (map fst routes)" by (simp add: routes_def create_router_def ct_v1_def)
  then show "(q, m) \<in> set routes \<Longrightarrow> (q, m') \<in> set routes \<Longrightarrow> m = m'" by (metis map_of_eq_Some_iff option.inject)
qed

lemma toy_router: "router_ok toy_framework"
proof -
  let ?data = "[Lit ''tile'', Lit ''data'', Rest ''index'']" and ?tile = "[Lit ''tile'', Param ''level'', Rest ''index'']"
  have "find (\<lambda>(q, _). match_pattern q p \<noteq> None) ((?data, ''GET'') # routes) = Some (pat, ''GET'')"
    if r: "(pat, ''GET'') \<in> set routes" "match_pattern pat p \<noteq> None"
      and best: "\<And>q. q \<in> set patterns \<Longrightarrow> match_pattern q p \<noteq> None \<Longrightarrow> q = pat \<or> preferred pat q" for pat p
  proof -
    have mem: "pat \<in> set patterns" "?data \<in> set patterns" using r(1) routes_tile_mem(2) by (force simp: patterns_def)+
    obtain q m where f: "find (\<lambda>(q, _). match_pattern q p \<noteq> None) ((?data, ''GET'') # routes) = Some (q, m)"
      using r by (cases "find (\<lambda>(q, _). match_pattern q p \<noteq> None) ((?data, ''GET'') # routes)") (auto simp: find_None_iff split: if_splits)
    then have q: "(q, m) \<in> set routes" "match_pattern q p \<noteq> None" "match_pattern ?data p \<noteq> None \<Longrightarrow> q = ?data"
      using routes_tile_mem(2) by (auto simp: find_Some_iff split: if_splits) (metis nth_mem)
    then have qm: "q \<in> set patterns" by (force simp: patterns_def)
    have "q = pat"
    proof (rule ccontr)
      assume "q \<noteq> pat"
      then have "{q, pat} = {?tile, ?data}" by (rule routes_overlap [OF qm mem(1) q(2) r(2)])
      then have "q = ?data" "pat = ?tile" using q(3) r(2) \<open>q \<noteq> pat\<close> by (auto simp: doubleton_eq_iff)
      with best [OF qm q(2)] show False by simp
    qed
    with f routes_distinct [OF q(1)] r(1) show ?thesis by simp
  qed
  then have "route_request toy_framework routes ''GET'' p = Routed pat params"
    if "(pat, ''GET'') \<in> set routes" "match_pattern pat p = Some params"
      "\<forall>q \<in> set patterns. match_pattern q p \<noteq> None \<longrightarrow> q = pat \<or> preferred pat q" for pat p params
    using that unfolding toy_framework_def by (simp del: find.simps not_None_eq)
  moreover have "percent_decode toy_framework x = Some x" for x by (simp add: toy_framework_def)
  ultimately show ?thesis unfolding router_ok_def by blast
qed

definition toy_server where
  "toy_server = \<lparr>api_worker = worker_new mem_after 7, x509_cache = Map.empty :: bytes \<rightharpoonup> bytes\<rparr>"

definition toy_dispatch where
  "toy_dispatch p = dispatch toy_framework mem_api (mem_storage_env mem_env) toy_venv \<lparr>max_batch_size = 1, max_batch_timeout_ms = 50\<rparr> mem_state mem_time 5 (toy_request p)"

theorem tile_urls_served_witness:
  "\<exists>P s'. toy_dispatch (tile_url 1 (2 ^ 56) None) toy_server
      = (map_sum (\<lambda>e. Err (Handler e)) Binary (spec_api_tile (sha256 (mem_storage_env mem_env)) (log_leaves mem_logged) 1 0 256),
         toy_server\<lparr>api_worker := (api_worker toy_server)\<lparr>store := s'\<rparr>\<rparr>) \<and>
    log_holds (mem_storage_env mem_env) mem_view mem_logged P s' \<and>
    toy_dispatch (data_tile_url (2 ^ 56) None) = reply Binary (on_storage (get_data_tile mem_api (mem_storage_env mem_env) (format_tile_index (2 ^ 56)) None)) \<and>
    parse_tile_index (format_tile_index (2 ^ 56)) = Inr (2 ^ 56) \<and>
    tile_url 1 0 None = ''/tile/1/000'' \<and> data_tile_url 0 None = ''/tile/data/000''"
proof -
  obtain P where P: "log_holds (mem_storage_env mem_env) mem_view mem_logged P mem_after" using mem_log by blast
  then have "log_holds (mem_storage_env mem_env) mem_view mem_logged P (store (api_worker toy_server))" by (simp add: toy_server_def worker_new_def)
  moreover have "http_method (toy_request p) = ''GET''" "http_path (toy_request p) = p" for p by (simp_all add: toy_request_def)
  moreover have "valid_width None" by (simp add: valid_width_def)
  ultimately have "(\<exists>s'. toy_dispatch (tile_url 1 (2 ^ 56) None) toy_server
      = (map_sum (\<lambda>e. Err (Handler e)) Binary
           (if 5 < unat (1 :: u8) then Inl (api_err BAD_REQUEST ''Invalid tile level, must be 0-5'')
            else spec_api_tile (sha256 (mem_storage_env mem_env)) (log_leaves mem_logged) (unat (1 :: u8)) (unat (2 ^ 56 :: u64) mod 2 ^ 56 * 256) (tile_width None)),
         toy_server\<lparr>api_worker := (api_worker toy_server)\<lparr>store := s'\<rparr>\<rparr>) \<and> log_holds (mem_storage_env mem_env) mem_view mem_logged P s') \<and>
    toy_dispatch (data_tile_url (2 ^ 56) None) = reply Binary (on_storage (get_data_tile mem_api (mem_storage_env mem_env) (format_tile_index (2 ^ 56)) None)) \<and>
    parse_tile_index (format_tile_index (2 ^ 56)) = Inr (2 ^ 56)"
    unfolding toy_dispatch_def by (intro tile_urls_served [OF mem_storage_ok [OF mem_env_ok(1)] _ toy_router]) simp_all
  moreover have "tile_url 1 0 None = ''/tile/1/000''" "data_tile_url 0 None = ''/tile/data/000''" by code_simp+
  moreover have "unat (2 ^ 56 :: u64) mod 2 ^ 56 * 256 = 0" "\<not> 5 < unat (1 :: u8)" "unat (1 :: u8) = 1" by simp_all
  ultimately show ?thesis by (simp add: tile_width_def) blast
qed

end
