(* ===== verification/Api_Submit_Props.thy ===== *)
theory Api_Submit_Props
  imports Api_Submit Api_Read_Props
begin

text \<open>
  What the submission handlers promise. The handlers answer as the references \<open>spec_add_chain\<close> and \<open>spec_add_pre_chain\<close> say, functions
  of the log and the request; submissions, validation, batching and logging together are a transition system, in which only
  validated chains are ever logged and every SCT is for the leaf it was issued with.
\<close>

section \<open>References\<close>

definition spec_validated :: "('c, 'x, 'kx) ValidatorEnv \<Rightarrow> 'k ApiState \<Rightarrow> bytes list \<Rightarrow> api_error + unit" where
  "spec_validated W S chn =
     (case validator S of
        None \<Rightarrow> Inr ()
      | Some v \<Rightarrow> map_sum (\<lambda>e. api_err BAD_REQUEST (''Certificate validation failed: '' @ ct_error_display e)) id (spec_validate W v chn))"

text \<open>The SCT issued for the last logged entry with a certificate hash.\<close>

definition issued_sct :: "Prepared list \<Rightarrow> bytes \<Rightarrow> SignedCertificateTimestamp option" where
  "issued_sct ps h = map_option (\<lambda>i. prep_sct (ps ! i)) (latest (\<lambda>p. prep_cert_hash p = h) ps)"

text \<open>A new entry for a certificate, and for a pre-certificate, with the callback that signs its SCT.\<close>

definition x509_entry ::
  "'k ApiEnv \<Rightarrow> ('db, 'nc, 'tc, 'cc, 'ec) StorageEnv \<Rightarrow> 'k ApiState \<Rightarrow> DateTime \<Rightarrow> nat \<Rightarrow> bytes list \<Rightarrow> BatchEntry" where
  "x509_entry A E S time tx chn =
     \<lparr>log_entry = the (new_with_timestamp 0 (chn ! 0) (nonempty_chain (tl chn)) time), batch_cert_hash = sha256 E (chn ! 0),
      sct_callback = sct_callback_for A S (chn ! 0) X509Entry None (timestamp_millis time), completion_tx = tx\<rparr>"

definition precert_entry ::
  "'k ApiEnv \<Rightarrow> ('db, 'nc, 'tc, 'cc, 'ec) StorageEnv \<Rightarrow> 'k ApiState \<Rightarrow> DateTime \<Rightarrow> nat \<Rightarrow> bytes list \<Rightarrow> bytes \<Rightarrow> bytes \<Rightarrow> BatchEntry" where
  "precert_entry A E S time tx chn tbs kh =
     \<lparr>log_entry = the (new_precert_with_timestamp 0 tbs (nonempty_chain (tl chn)) kh (chn ! 0) time), batch_cert_hash = sha256 E (tbs @ kh),
      sct_callback = sct_callback_for A S tbs PrecertEntry (Some kh) (timestamp_millis time), completion_tx = tx\<rparr>"

type_synonym submission_result = "api_error exc + (SignedCertificateTimestamp + BatchEntry)"

definition spec_add_chain ::
  "'k ApiEnv \<Rightarrow> ('db, 'nc, 'tc, 'cc, 'ec) StorageEnv \<Rightarrow> ('c, 'x, 'kx) ValidatorEnv \<Rightarrow> 'k ApiState \<Rightarrow> Prepared list \<Rightarrow> DateTime \<Rightarrow> nat
    \<Rightarrow> string list \<Rightarrow> submission_result" where
  "spec_add_chain A E W S ps time tx certs =
     (if certs = [] then Inl (Err (api_err BAD_REQUEST ''Chain cannot be empty''))
      else
        res_bind (map_sum Err id (decode_chain A certs)) (\<lambda>chn.
        res_bind (map_sum Err id (map_sum (\<lambda>e. api_err BAD_REQUEST (''Invalid certificate format: Failed to parse certificate: '' @ e)) id
          (cert_from_der (x509_ops E) (chn ! 0)))) (\<lambda>_.
        res_bind (map_sum Err id (spec_validated W S chn)) (\<lambda>_.
        case issued_sct ps (sha256 E (chn ! 0)) of
          Some sct \<Rightarrow> Inr (Inl sct)
        | None \<Rightarrow>
            res_bind (map_sum Err id (map_sum bad_request_ct id (LogEntry_is_precertificate (x509_ops E) (chn ! 0)))) (\<lambda>precert.
            if precert then Inl (Err (api_err BAD_REQUEST ''Pre-certificates should be submitted to /ct/v1/add-pre-chain''))
            else
              res_bind (map_sum Err id (check_chain_certs (x509_ops E) (tl chn))) (\<lambda>_.
              Inr (Inr (x509_entry A E S time tx chn))))))))"

definition key_hash_of :: "('db, 'nc, 'tc, 'cc, 'ec) StorageEnv \<Rightarrow> ('c, 'x, 'kx) ValidatorEnv \<Rightarrow> 'k ApiState \<Rightarrow> bytes list \<Rightarrow> CtError exc + bytes" where
  "key_hash_of E W S chn =
     (case validator S of
        Some v \<Rightarrow> v_extract_issuer_key_hash W v chn
      | None \<Rightarrow> map_sum Err id (extract_issuer_key_hash_minimal (sha256 E) (x509_ops E) chn))"

fun exc_map :: "('e \<Rightarrow> 'f) \<Rightarrow> 'e exc \<Rightarrow> 'f exc" where
  "exc_map f (Err e) = Err (f e)"
| "exc_map f Panic = Panic"

definition spec_add_pre_chain ::
  "'k ApiEnv \<Rightarrow> ('db, 'nc, 'tc, 'cc, 'ec) StorageEnv \<Rightarrow> ('c, 'x, 'kx) ValidatorEnv \<Rightarrow> 'k ApiState \<Rightarrow> Prepared list \<Rightarrow> DateTime \<Rightarrow> nat
    \<Rightarrow> string list \<Rightarrow> submission_result" where
  "spec_add_pre_chain A E W S ps time tx certs =
     (if certs = [] then Inl (Err (api_err BAD_REQUEST ''Chain cannot be empty''))
      else
        res_bind (map_sum Err id (decode_chain A certs)) (\<lambda>chn.
        res_bind (map_sum Err id (map_sum bad_request_ct id (LogEntry_is_precertificate (x509_ops E) (chn ! 0)))) (\<lambda>precert.
        if \<not> precert then Inl (Err (api_err BAD_REQUEST ''Certificate is not a pre-certificate (missing poison extension)''))
        else
          res_bind (map_sum Err id (check_chain_certs (x509_ops E) (tl chn))) (\<lambda>_.
          res_bind (map_sum Err id (spec_validated W S chn)) (\<lambda>_.
          res_bind (map_sum (exc_map bad_request_ct) id (key_hash_of E W S chn)) (\<lambda>kh.
          res_bind (map_sum Err id (map_sum bad_request_ct id (extract_tbs_certificate (x509_ops E) (chn ! 0) (tl chn)))) (\<lambda>tbs.
          case issued_sct ps (sha256 E (tbs @ kh)) of
            Some sct \<Rightarrow> Inr (Inl sct)
          | None \<Rightarrow> Inr (Inr (precert_entry A E S time tx chn tbs kh)))))))))"

text \<open>What becomes of the result: the response, and the worker with the entry that was queued.\<close>

fun outcome ::
  "'k ApiEnv \<Rightarrow> BatchConfig \<Rightarrow> submission_result \<Rightarrow> ('db, 'nc, 'tc, 'cc, 'ec) Worker
    \<Rightarrow> (api_error exc + Submission) \<times> ('db, 'nc, 'tc, 'cc, 'ec) Worker" where
  "outcome A config (Inl e) w = (Inl e, w)"
| "outcome A config (Inr (Inl sct)) w = (Inr (Answered (sct_response A sct)), w)"
| "outcome A config (Inr (Inr b)) w =
     (if \<not> running w then (Inl (Err (handle_storage_error (InvalidFormat ''Batch worker not running''))), w)
      else if channel_capacity config \<le> length (channel w) then (Inl (Err (handle_storage_error QueueFull)), w)
      else (Inr Waiting, w\<lparr>channel := channel w @ [b], accepted := accepted w @ [b]\<rparr>))"

section \<open>The handlers\<close>

text \<open>
  The states in which a handler runs: the storage holds the log, the cache of parsed certificates is right, and the rest of the
  worker, with what was sent to submitters, is as it was at the start.
\<close>

definition api_holds ::
  "('db, 'nc, 'tc, 'cc, 'ec) StorageEnv \<Rightarrow> ('db, 'nc, 'cc, 'ec) StorageView \<Rightarrow> ('c, 'x, 'kx) ValidatorEnv \<Rightarrow> ('c \<Rightarrow> bytes \<rightharpoonup> 'x) \<Rightarrow> bytes set
    \<Rightarrow> Prepared list \<Rightarrow> nat set \<Rightarrow> ('db, 'nc, 'tc, 'cc, 'ec) Worker \<Rightarrow> ('db, 'nc, 'tc, 'cc, 'ec, 'c) Api \<Rightarrow> bool" where
  "api_holds E V W held D ps P w a \<longleftrightarrow>
     (\<exists>s. api_worker a = w\<lparr>store := s\<rparr> \<and> log_holds E V ps P s \<and> sent s = sent (store w)) \<and> cache_right W held D (x509_cache a)"

lemma sct_lookup_sent: "get_sct_by_cert_hash E h s = (r, s') \<Longrightarrow> sent s' = sent s"
  by (auto simp: get_sct_by_cert_hash_def storage_get_def and_then_def map_err_def on_tree_def zoom_def ret_def raise_def
      split: prod.splits sum.splits option.splits exc.splits)

lemma lookup_answers:
  assumes "storage_ok E V {}"
  shows "answers (api_holds E V W held D ps P w) (map_err internal_storage (on_storage (get_sct_by_cert_hash E h)))
    (Inr (map_option (\<lambda>i. sct_record i (ps ! i)) (latest (\<lambda>p. prep_cert_hash p = h) ps))) {}"
proof (rule answers_map_err_none [of _ _ "Inr _", simplified])
  show "answers (api_holds E V W held D ps P w) (on_storage (get_sct_by_cert_hash E h))
    (Inr (map_option (\<lambda>i. sct_record i (ps ! i)) (latest (\<lambda>p. prep_cert_hash p = h) ps))) {}"
    unfolding answers_def
  proof (rule tripleI)
    fix a assume "api_holds E V W held D ps P w a"
    then obtain s where s: "api_worker a = w\<lparr>store := s\<rparr>" "log_holds E V ps P s" "sent s = sent (store w)" "cache_right W held D (x509_cache a)"
      by (auto simp: api_holds_def)
    obtain s' where s': "get_sct_by_cert_hash E h s = (Inr (map_option (\<lambda>i. sct_record i (ps ! i)) (latest (\<lambda>p. prep_cert_hash p = h) ps)), s')"
        "log_holds E V ps P s'"
      using answers_eq [OF log_reads(2) [OF assms] s(2)] by auto
    with s sct_lookup_sent [OF s'(1)]
    show "case on_storage (get_sct_by_cert_hash E h) a of
        (Inr r, a') \<Rightarrow> api_holds E V W held D ps P w a' \<and> Inr (map_option (\<lambda>i. sct_record i (ps ! i)) (latest (\<lambda>p. prep_cert_hash p = h) ps)) = Inr r
      | (Inl (Err e), a') \<Rightarrow> api_holds E V W held D ps P w a' \<and> (Inr (map_option (\<lambda>i. sct_record i (ps ! i)) (latest (\<lambda>p. prep_cert_hash p = h) ps)) = Inl e \<or> e \<in> {})
      | (Inl Panic, a') \<Rightarrow> False"
      by (auto simp: on_storage_def zoom_def api_holds_def intro!: exI [of _ s'])
  qed
qed

lemma run_validator_answers:
  assumes "caching_ok W held D" "\<And>v. validator S = Some v \<Longrightarrow> all_encodings W D v chn"
  shows "answers (api_holds E V W held D ps P w) (run_validator W S chn) (spec_validated W S chn) {}"
proof (cases "validator S")
  case None
  then show ?thesis by (simp add: run_validator_def spec_validated_def answers_ret)
next
  case (Some v)
  have "answers (api_holds E V W held D ps P w) (on_cache (validate_chain W v chn)) (spec_validate W v chn) {}"
    unfolding answers_def on_cache_def
    by (rule triple_zoom [OF validate_answers [OF assms(1) assms(2) [OF Some], unfolded answers_def]]) (auto simp: api_holds_def)
  from answers_map_err_none [OF this] Some show ?thesis by (simp add: run_validator_def spec_validated_def)
qed

text \<open>A handler that runs to an outcome.\<close>

definition runs ::
  "'k ApiEnv \<Rightarrow> BatchConfig \<Rightarrow> (('db, 'nc, 'tc, 'cc, 'ec) Worker \<Rightarrow> ('db, 'nc, 'tc, 'cc, 'ec, 'c) Api \<Rightarrow> bool)
    \<Rightarrow> ('db, 'nc, 'tc, 'cc, 'ec, 'c, Submission) submit_op \<Rightarrow> submission_result \<Rightarrow> bool" where
  "runs A config T m r \<longleftrightarrow>
     (\<forall>w a. T w a \<longrightarrow> (\<exists>a'. m a = (fst (outcome A config r w), a') \<and> T (snd (outcome A config r w)) a'))"

lemma runs_bind:
  assumes "\<And>w. answers (T w) m r {}" "\<And>x. r = Inr x \<Longrightarrow> runs A config T (f x) (g x)"
  shows "runs A config T (and_then m f) (res_bind (map_sum Err id r) g)"
  unfolding runs_def
proof (intro allI impI)
  fix w a assume "T w a"
  then obtain a1 where a1: "m a = (map_sum Err id r, a1)" "T w a1" using answers_eq [OF assms(1)] by blast
  show "\<exists>a'. and_then m f a = (fst (outcome A config (res_bind (map_sum Err id r) g) w), a') \<and>
      T (snd (outcome A config (res_bind (map_sum Err id r) g) w)) a'"
    using a1 assms(2) by (cases r) (auto simp: and_then_def runs_def)
qed

lemma runs_pure:
  "runs A config T (raise e) (Inl (Err e))" "runs A config T panic (Inl Panic)" "runs A config T (ret (Answered (sct_response A sct))) (Inr (Inl sct))"
  by (simp_all add: runs_def raise_def panic_def ret_def)

lemma map_err_of_exc:
  "map_err h (of_exc (Inr y)) = ret y" "map_err h (of_exc (Inl (Err e))) = raise (h e)" "map_err h (of_exc (Inl Panic)) = panic" "and_then panic f = panic"
  by (simp_all add: fun_eq_iff map_err_def of_exc_def ret_def raise_def panic_def and_then_def)

lemma runs_exc:
  assumes "\<And>y. x = Inr y \<Longrightarrow> runs A config T (f y) (g y)"
  shows "runs A config T (and_then (map_err h (of_exc x)) f) (res_bind (map_sum (exc_map h) id x) g)"
proof (cases x)
  case (Inl e)
  then show ?thesis by (cases e) (simp_all add: map_err_of_exc runs_pure)
qed (simp add: map_err_of_exc assms)

lemma runs_submit:
  "runs A config (api_holds E V W held D ps P) (and_then (map_err handle_storage_error (submit_entry config b)) (\<lambda>_. ret Waiting)) (Inr (Inr b))"
  unfolding runs_def
proof (intro allI impI)
  fix w a assume "api_holds E V W held D ps P w a"
  then obtain s where "api_worker a = w\<lparr>store := s\<rparr>" "log_holds E V ps P s" "sent s = sent (store w)" "cache_right W held D (x509_cache a)"
    by (auto simp: api_holds_def)
  then show "\<exists>a'. and_then (map_err handle_storage_error (submit_entry config b)) (\<lambda>_. ret Waiting) a = (fst (outcome A config (Inr (Inr b)) w), a') \<and>
      api_holds E V W held D ps P (snd (outcome A config (Inr (Inr b)) w)) a'"
    by (auto simp: api_holds_def and_then_def map_err_def submit_entry_def try_send_def ret_def intro!: exI [of _ s])
qed

lemma answers_pure: "answers T (map_err f (of_result r)) (map_sum f id r) {}"
  by (intro answers_map_err_none answers_of_result)

lemma new_entries:
  "of_option (new_with_timestamp i cert chn time) = ret (the (new_with_timestamp i cert chn time))"
  "of_option (new_precert_with_timestamp i cert chn kh precert time) = ret (the (new_precert_with_timestamp i cert chn kh precert time))"
  by (simp_all add: new_with_timestamp_def new_precert_with_timestamp_def compute_leaf_data_def serialize_eq)

lemma check_chain_certs_eq: "check_chain_certs X certs = Inr certs' \<Longrightarrow> certs' = certs"
proof (induction certs arbitrary: certs')
  case (Cons c certs)
  then show ?case by (auto simp: check_chain_certs_def split: sum.splits)
qed (simp add: check_chain_certs_def)

lemma runs_lookup:
  assumes "storage_ok E V {}" "runs A config (api_holds E V W held D ps P) m r"
  shows "runs A config (api_holds E V W held D ps P) (and_then (map_err internal_storage (on_storage (get_sct_by_cert_hash E h))) (\<lambda>found.
      case found of Some e \<Rightarrow> ret (Answered (sct_response A (cse_sct e))) | None \<Rightarrow> m))
    (case issued_sct ps h of Some sct \<Rightarrow> Inr (Inl sct) | None \<Rightarrow> r)"
proof -
  have "runs A config (api_holds E V W held D ps P) (and_then (map_err internal_storage (on_storage (get_sct_by_cert_hash E h))) (\<lambda>found.
      case found of Some e \<Rightarrow> ret (Answered (sct_response A (cse_sct e))) | None \<Rightarrow> m))
    (res_bind (map_sum Err id (Inr (map_option (\<lambda>i. sct_record i (ps ! i)) (latest (\<lambda>p. prep_cert_hash p = h) ps))))
      (\<lambda>found. case found of Some e \<Rightarrow> Inr (Inl (cse_sct e)) | None \<Rightarrow> r))"
    by (rule runs_bind [OF lookup_answers [OF assms(1)]]) (auto simp: runs_pure assms(2) split: option.splits)
  then show ?thesis by (auto simp: issued_sct_def sct_record_def split: option.splits)
qed

lemma runs_if: "(b \<Longrightarrow> runs A config T m r) \<Longrightarrow> (\<not> b \<Longrightarrow> runs A config T n q) \<Longrightarrow> runs A config T (if b then m else n) (if b then r else q)"
  by simp

lemma add_chain_runs:
  assumes "storage_ok E V {}" "caching_ok W held D"
    and enc: "\<And>v chn. validator S = Some v \<Longrightarrow> decode_chain A (req_chain req) = Inr chn \<Longrightarrow> all_encodings W D v chn"
  shows "runs A config (api_holds E V W held D ps P) (add_chain A E W config S time tx req) (spec_add_chain A E W S ps time tx (req_chain req))"
  unfolding add_chain_def spec_add_chain_def Let_def
proof (intro runs_if runs_pure, rule runs_bind [OF answers_of_result], rule runs_bind [OF answers_pure], rule runs_bind)
  fix chn assume "decode_chain A (req_chain req) = Inr chn"
  then show "answers (api_holds E V W held D ps P w) (run_validator W S chn) (spec_validated W S chn) {}" for w
    by (intro run_validator_answers [OF assms(2)] enc)
qed (intro runs_lookup [OF assms(1)] runs_bind [OF answers_pure] runs_bind [OF answers_of_result] runs_if runs_pure,
  drule check_chain_certs_eq, simp only: x509_entry_def new_entries and_then_ret runs_submit)

lemma add_pre_chain_runs:
  assumes "storage_ok E V {}" "caching_ok W held D"
    and enc: "\<And>v chn. validator S = Some v \<Longrightarrow> decode_chain A (req_chain req) = Inr chn \<Longrightarrow> all_encodings W D v chn"
  shows "runs A config (api_holds E V W held D ps P) (add_pre_chain A E W config S time tx req) (spec_add_pre_chain A E W S ps time tx (req_chain req))"
  unfolding add_pre_chain_def spec_add_pre_chain_def Let_def
proof (intro runs_if runs_pure, rule runs_bind [OF answers_of_result], rule runs_bind [OF answers_pure], intro runs_if runs_pure,
    rule runs_bind [OF answers_of_result], goal_cases)
  case prems: (1 chn precert pc)
  have "chn \<noteq> []" using prems(1,2) by (cases "req_chain req") (auto simp: decode_chain_def split: sum.splits)
  then have c: "chn ! 0 # tl chn = chn" by (cases chn) simp_all
  have kh: "(case validator S of
          Some v \<Rightarrow> of_exc (v_extract_issuer_key_hash W v chn)
        | None \<Rightarrow> of_result (extract_issuer_key_hash_minimal (sha256 E) (x509_ops E) chn)) = of_exc (key_hash_of E W S chn)"
    by (cases "extract_issuer_key_hash_minimal (sha256 E) (x509_ops E) chn")
      (simp_all add: key_hash_of_def of_exc_def of_result_def ret_def raise_def fun_eq_iff split: option.split)
  show ?case
    unfolding check_chain_certs_eq [OF prems(5)] c kh new_entries and_then_ret
    by (rule runs_bind [OF run_validator_answers [OF assms(2) enc [OF _ prems(2)]]], assumption)
      (intro runs_exc runs_bind [OF answers_pure] runs_lookup [OF assms(1)], unfold precert_entry_def, rule runs_submit)
qed

section \<open>The server\<close>

text \<open>Submissions interleaved with the iterations of the worker and the passing of time.\<close>

datatype server_event = AddChain DateTime nat "string list" | AddPreChain DateTime nat "string list" | Work event

fun submitted_certs :: "server_event \<Rightarrow> string list set" where
  "submitted_certs (AddChain _ _ certs) = {certs}"
| "submitted_certs (AddPreChain _ _ certs) = {certs}"
| "submitted_certs (Work _) = {}"

inductive server_step ::
  "'k ApiEnv \<Rightarrow> ('db, 'nc, 'tc, 'cc, 'ec) StorageEnv \<Rightarrow> ('c, 'x, 'kx) ValidatorEnv \<Rightarrow> BatchConfig \<Rightarrow> 'k ApiState \<Rightarrow> server_event
    \<Rightarrow> ('db, 'nc, 'tc, 'cc, 'ec, 'c) Api \<Rightarrow> ('db, 'nc, 'tc, 'cc, 'ec, 'c) Api \<Rightarrow> bool"
  for A E W config S where
  chain_request: "add_chain A E W config S time tx \<lparr>req_chain = certs\<rparr> a = (r, a') \<Longrightarrow> server_step A E W config S (AddChain time tx certs) a a'"
| pre_chain_request: "add_pre_chain A E W config S time tx \<lparr>req_chain = certs\<rparr> a = (r, a') \<Longrightarrow> server_step A E W config S (AddPreChain time tx certs) a a'"
| work: "worker_step E config ev (api_worker a) w \<Longrightarrow> (\<And>b. ev \<noteq> Submit b) \<Longrightarrow> server_step A E W config S (Work ev) a (a\<lparr>api_worker := w\<rparr>)"

inductive server_run ::
  "'k ApiEnv \<Rightarrow> ('db, 'nc, 'tc, 'cc, 'ec) StorageEnv \<Rightarrow> ('c, 'x, 'kx) ValidatorEnv \<Rightarrow> BatchConfig \<Rightarrow> 'k ApiState \<Rightarrow> server_event list
    \<Rightarrow> ('db, 'nc, 'tc, 'cc, 'ec, 'c) Api \<Rightarrow> ('db, 'nc, 'tc, 'cc, 'ec, 'c) Api \<Rightarrow> bool"
  for A E W config S where
  server_start: "server_run A E W config S [] a a"
| server_more: "server_run A E W config S evs a a' \<Longrightarrow> server_step A E W config S ev a' a'' \<Longrightarrow> server_run A E W config S (evs @ [ev]) a a''"

text \<open>An entry made for a chain.\<close>

definition made_for ::
  "'k ApiEnv \<Rightarrow> ('db, 'nc, 'tc, 'cc, 'ec) StorageEnv \<Rightarrow> ('c, 'x, 'kx) ValidatorEnv \<Rightarrow> 'k ApiState \<Rightarrow> bytes list \<Rightarrow> BatchEntry \<Rightarrow> bool" where
  "made_for A E W S chn b \<longleftrightarrow>
     chain (log_entry b) = nonempty_chain (tl chn) \<and>
     sct_callback b = sct_callback_for A S (certificate (log_entry b)) (entry_type (log_entry b)) (issuer_key_hash (log_entry b))
       (timestamp_millis (entry_timestamp (log_entry b))) \<and>
     (case entry_type (log_entry b) of
        X509Entry \<Rightarrow> certificate (log_entry b) = chn ! 0 \<and> LogEntry_is_precertificate (x509_ops E) (chn ! 0) = Inr False
      | PrecertEntry \<Rightarrow> original_precert (log_entry b) = Some (chn ! 0) \<and> LogEntry_is_precertificate (x509_ops E) (chn ! 0) = Inr True \<and>
          extract_tbs_certificate (x509_ops E) (chn ! 0) (tl chn) = Inr (certificate (log_entry b)) \<and>
          (\<exists>kh. issuer_key_hash (log_entry b) = Some kh \<and> key_hash_of E W S chn = Inr kh))"

text \<open>A submission that passed the checks.\<close>

definition vouched ::
  "'k ApiEnv \<Rightarrow> ('db, 'nc, 'tc, 'cc, 'ec) StorageEnv \<Rightarrow> ('c, 'x, 'kx) ValidatorEnv \<Rightarrow> 'k ApiState \<Rightarrow> string list \<Rightarrow> BatchEntry \<Rightarrow> bool" where
  "vouched A E W S certs b \<longleftrightarrow> (\<exists>chn. decode_chain A certs = Inr chn \<and> spec_validated W S chn = Inr () \<and> made_for A E W S chn b)"

lemma map_sum_Inr: "map_sum f id x = Inr y \<longleftrightarrow> x = Inr y"
  by (cases x) simp_all

lemma spec_vouched:
  "spec_add_chain A E W S ps time tx certs = Inr (Inr b) \<Longrightarrow> vouched A E W S certs b"
  "spec_add_pre_chain A E W S ps time tx certs = Inr (Inr b) \<Longrightarrow> vouched A E W S certs b"
  by (auto simp: spec_add_chain_def spec_add_pre_chain_def res_bind_ok map_sum_Inr vouched_def made_for_def x509_entry_def precert_entry_def
      new_with_timestamp_def new_precert_with_timestamp_def compute_leaf_data_def serialize_eq split: if_splits option.splits)

text \<open>
  The invariant of the server: the worker's, the log behind it, a cache that is right, and vouched entries only. The validator may be
  exchanged while the server runs, so entries are vouched for by one of a set of states.
\<close>

definition server_inv ::
  "'k ApiEnv \<Rightarrow> ('db, 'nc, 'tc, 'cc, 'ec) StorageEnv \<Rightarrow> ('db, 'nc, 'cc, 'ec) StorageView \<Rightarrow> ('c, 'x, 'kx) ValidatorEnv \<Rightarrow> ('c \<Rightarrow> bytes \<rightharpoonup> 'x)
    \<Rightarrow> bytes set \<Rightarrow> BatchConfig \<Rightarrow> 'k ApiState set \<Rightarrow> Prepared list \<Rightarrow> (nat \<times> completion) list \<Rightarrow> string list set
    \<Rightarrow> ('db, 'nc, 'tc, 'cc, 'ec, 'c) Api \<Rightarrow> bool" where
  "server_inv A E V W held D config Ss ps msgs R a \<longleftrightarrow>
     worker_inv config (api_worker a) \<and>
     worker_log E V ps msgs (concat (flushed (api_worker a))) (store (api_worker a)) \<and> cache_right W held D (x509_cache a) \<and>
     list_all (\<lambda>b. \<exists>S \<in> Ss. \<exists>certs \<in> R. vouched A E W S certs b) (accepted (api_worker a))"

lemma server_inv_mono: "server_inv A E V W held D config Ss ps msgs R a \<Longrightarrow> Ss \<subseteq> Ts \<Longrightarrow> server_inv A E V W held D config Ts ps msgs R a"
  unfolding server_inv_def list_all_iff by blast

lemma worker_inv_store: "worker_inv config (w\<lparr>store := s\<rparr>) = worker_inv config w"
  by (simp add: worker_inv_def cong: option.case_cong)

lemma handler_inv:
  assumes inv: "server_inv A E V W held D config Ss ps msgs R a"
    and runs: "\<And>qs P. runs A config (api_holds E V W held D qs P) m (spec qs)"
    and S: "S \<in> Ss" and spec: "\<And>qs b. spec qs = Inr (Inr b) \<Longrightarrow> vouched A E W S certs b"
    and step: "m a = (r, a')"
  shows "server_inv A E V W held D config Ss ps msgs (insert certs R) a'"
proof -
  let ?w = "api_worker a"
  obtain qs P where q: "log_holds E V (ps @ qs) P (store ?w)" "length qs = length (concat (flushed ?w))"
    "\<forall>j < length qs. logs (length ps + j) (concat (flushed ?w) ! j) (qs ! j)"
    "sent (store ?w) = msgs @ map (\<lambda>j. (completion_tx (concat (flushed ?w) ! j), Inr (of_nat (length ps + j), prep_sct (qs ! j)))) [0..<length qs]"
    using inv unfolding server_inv_def worker_log_def by blast
  have h: "api_holds E V W held D (ps @ qs) P ?w a" using inv q(1) by (auto simp: api_holds_def server_inv_def intro: exI [of _ "store ?w"])
  define w' where "w' = snd (outcome A config (spec (ps @ qs)) ?w)"
  have w': "api_holds E V W held D (ps @ qs) P w' a'"
    using runs [of "ps @ qs" P, unfolded runs_def, rule_format, OF h] step by (auto simp: w'_def)
  then obtain s where s: "api_worker a' = w'\<lparr>store := s\<rparr>" "log_holds E V (ps @ qs) P s" "sent s = sent (store w')" "cache_right W held D (x509_cache a')"
    by (auto simp: api_holds_def)
  consider "w' = ?w" | b where "spec (ps @ qs) = Inr (Inr b)" "running ?w" "length (channel ?w) < channel_capacity config"
      "w' = ?w\<lparr>channel := channel ?w @ [b], accepted := accepted ?w @ [b]\<rparr>"
    using w'_def by (cases "(A, config, spec (ps @ qs), ?w)" rule: outcome.cases) (auto split: if_splits)
  then have "worker_inv config w' \<and> flushed w' = flushed ?w \<and> store w' = store ?w \<and>
      list_all (\<lambda>b. \<exists>S \<in> Ss. \<exists>certs \<in> insert certs R. vouched A E W S certs b) (accepted w')"
  proof cases
    case 1
    with inv show ?thesis unfolding server_inv_def list_all_iff by blast
  next
    case (2 b)
    let ?Q = "\<lambda>b. \<exists>S \<in> Ss. \<exists>certs \<in> insert certs R. vouched A E W S certs b"
    have "list_all ?Q (accepted ?w)" "?Q b" using inv S spec [OF 2(1)] unfolding server_inv_def list_all_iff by blast+
    then have "list_all ?Q (accepted w')" using 2(4) by simp
    moreover from 2 inv have "worker_inv config w'" by (auto simp: server_inv_def worker_inv_def split: option.splits)
    ultimately show ?thesis using 2(4) by simp
  qed
  moreover have "worker_log E V ps msgs (concat (flushed ?w)) s" if "store w' = store ?w"
    unfolding worker_log_def using q s(2,3) that by (intro exI [of _ qs] exI [of _ P]) simp
  ultimately show ?thesis using s(1,4) by (simp add: server_inv_def worker_inv_store)
qed

lemma work_accepted: "worker_step E config ev w w' \<Longrightarrow> (\<And>b. ev \<noteq> Submit b) \<Longrightarrow> accepted w' = accepted w"
  by (cases rule: worker_step.cases) (auto simp: worker_defs Let_def split: prod.splits)

text \<open>Whatever a handler does, it only adds to the accepted entries.\<close>

definition grows :: "(('db, 'nc, 'tc, 'cc, 'ec, 'c) Api, 'e, 'a) io \<Rightarrow> bool" where
  "grows m \<longleftrightarrow> (\<forall>a r a'. m a = (r, a') \<longrightarrow> (\<exists>xs. accepted (api_worker a') = accepted (api_worker a) @ xs))"

lemma grows_pure:
  "grows (ret x)" "grows (raise e)" "grows panic" "grows (of_result q)" "grows (of_option y)" "grows (of_exc z)"
  by (auto simp: grows_def ret_def raise_def panic_def of_result_def of_option_def of_exc_def split: sum.splits option.splits)

lemma grows_ops:
  "grows m \<Longrightarrow> grows (map_err f m)" "grows (on_storage n)" "grows (on_cache k)" "grows (submit_entry config b)"
  by (auto simp: grows_def map_err_def on_storage_def on_cache_def zoom_def submit_entry_def try_send_def split: prod.splits sum.splits exc.splits if_splits)

lemma grows_then:
  assumes "grows m" "\<And>x. grows (f x)"
  shows "grows (and_then m f)"
  unfolding grows_def
proof (intro allI impI)
  fix a r a' assume "and_then m f a = (r, a')"
  then consider r' where "m a = (r', a')" | x a1 where "m a = (Inr x, a1)" "f x a1 = (r, a')"
    by (auto simp: and_then_def split: prod.splits sum.splits)
  then show "\<exists>xs. accepted (api_worker a') = accepted (api_worker a) @ xs"
    using assms by cases (fastforce simp: grows_def)+
qed

lemma grows_cases:
  "grows m \<Longrightarrow> grows n \<Longrightarrow> grows (if b then m else n)"
  "grows m \<Longrightarrow> (\<And>y. grows (f y)) \<Longrightarrow> grows (case x of None \<Rightarrow> m | Some y \<Rightarrow> f y)"
  by (simp_all split: option.split)

lemma handlers_grow: "grows (add_chain A E W config S time tx req)" "grows (add_pre_chain A E W config S time tx req)"
  unfolding add_chain_def add_pre_chain_def run_validator_def Let_def
  by (intro grows_cases grows_then grows_ops grows_pure)+

lemma server_step_grows: "server_step A E W config S ev a a' \<Longrightarrow> \<exists>xs. accepted (api_worker a') = accepted (api_worker a) @ xs"
proof (induction rule: server_step.induct)
  case (work ev a w)
  then show ?case using work_accepted [OF work] by simp
qed (erule handlers_grow(1) [unfolded grows_def, rule_format], erule handlers_grow(2) [unfolded grows_def, rule_format])

text \<open>The requests of a run encode certificates for which the cache was shown right.\<close>

definition requests_ok :: "'k ApiEnv \<Rightarrow> ('c, 'x, 'kx) ValidatorEnv \<Rightarrow> 'k ApiState \<Rightarrow> bytes set \<Rightarrow> string list set \<Rightarrow> bool" where
  "requests_ok A W S D R \<longleftrightarrow> (\<forall>certs \<in> R. \<forall>v chn. validator S = Some v \<longrightarrow> decode_chain A certs = Inr chn \<longrightarrow> all_encodings W D v chn)"

lemma server_step_inv:
  assumes "server_step A E W config S ev a a'" "storage_ok E V {}" "caching_ok W held D" "requests_ok A W S D (submitted_certs ev)"
    and "server_inv A E V W held D config Ss ps msgs R a" "loggable E ps (accepted (api_worker a'))" "S \<in> Ss"
  shows "server_inv A E V W held D config Ss ps msgs (submitted_certs ev \<union> R) a'"
  using assms(1)
proof (cases rule: server_step.cases)
  case (chain_request time tx certs r)
  have "runs A config (api_holds E V W held D qs P) (add_chain A E W config S time tx \<lparr>req_chain = certs\<rparr>) (spec_add_chain A E W S qs time tx certs)" for qs P
    using add_chain_runs [OF assms(2,3), of S A "\<lparr>req_chain = certs\<rparr>"] assms(4) chain_request(1) by (simp add: requests_ok_def)
  from handler_inv [OF assms(5) this assms(7) spec_vouched(1) chain_request(2)] chain_request(1) show ?thesis by simp
next
  case (pre_chain_request time tx certs r)
  have "runs A config (api_holds E V W held D qs P) (add_pre_chain A E W config S time tx \<lparr>req_chain = certs\<rparr>) (spec_add_pre_chain A E W S qs time tx certs)" for qs P
    using add_pre_chain_runs [OF assms(2,3), of S A "\<lparr>req_chain = certs\<rparr>"] assms(4) pre_chain_request(1) by (simp add: requests_ok_def)
  from handler_inv [OF assms(5) this assms(7) spec_vouched(2) pre_chain_request(2)] pre_chain_request(1) show ?thesis by simp
next
  case (work ev' w)
  note i = assms(5) [unfolded server_inv_def]
  have "accepted w = accepted (api_worker a)" by (rule work_accepted [OF work(3,4)])
  then show ?thesis
    using worker_step_inv [OF work(3)] worker_step_log [OF work(3) assms(2)] i assms(6) work(1,2) by (auto simp: server_inv_def)
qed

lemma server_run_inv:
  assumes "server_run A E W config S evs a a'" "storage_ok E V {}" "caching_ok W held D" "requests_ok A W S D (\<Union> (submitted_certs ` set evs))"
    and "server_inv A E V W held D config Ss ps msgs {} a" "loggable E ps (accepted (api_worker a'))" "S \<in> Ss"
  shows "server_inv A E V W held D config Ss ps msgs (\<Union> (submitted_certs ` set evs)) a'"
  using assms
proof (induction rule: server_run.induct)
  case (server_more evs a a' ev a'')
  have req: "requests_ok A W S D (\<Union> (submitted_certs ` set evs))" "requests_ok A W S D (submitted_certs ev)"
    using server_more.prems(3) by (auto simp: requests_ok_def)
  obtain xs where "accepted (api_worker a'') = accepted (api_worker a') @ xs" using server_step_grows [OF server_more.hyps(2)] by blast
  then have "loggable E ps (accepted (api_worker a'))" using server_more.prems(5) loggable_prefix by fastforce
  then have "server_inv A E V W held D config Ss ps msgs (\<Union> (submitted_certs ` set evs)) a'" using server_more req by blast
  from server_step_inv [OF server_more.hyps(2) assms(2,3) req(2) this server_more.prems(5,6)] show ?case by (simp add: Un_commute)
qed simp

text \<open>
  What the log holds for a chain: its certificate, or the TBS certificate of the pre-certificate with the key hash of its issuer, the rest of the
  chain, and an SCT of this log that carries the index and signs the leaf.
\<close>

definition entry_for ::
  "'k ApiEnv \<Rightarrow> ('db, 'nc, 'tc, 'cc, 'ec) StorageEnv \<Rightarrow> ('c, 'x, 'kx) ValidatorEnv \<Rightarrow> 'k ApiState \<Rightarrow> bytes list \<Rightarrow> nat \<Rightarrow> Prepared \<Rightarrow> bool" where
  "entry_for A E W S chn i p \<longleftrightarrow>
     (let e = prep_entry p; sct = prep_sct p in
       chain_list e = tl chn \<and> entry_index e = of_nat i \<and>
       (case entry_type e of
          X509Entry \<Rightarrow> certificate e = chn ! 0 \<and> LogEntry_is_precertificate (x509_ops E) (chn ! 0) = Inr False
        | PrecertEntry \<Rightarrow> original_precert e = Some (chn ! 0) \<and> LogEntry_is_precertificate (x509_ops E) (chn ! 0) = Inr True \<and>
            extract_tbs_certificate (x509_ops E) (chn ! 0) (tl chn) = Inr (certificate e) \<and>
            (\<exists>kh. issuer_key_hash e = Some kh \<and> key_hash_of E W S chn = Inr kh)) \<and>
       sct_log_id sct = builder_log_id (sct_builder S) \<and> sct_timestamp sct = timestamp_millis (entry_timestamp e) \<and>
       sct_extensions sct = leaf_index_extension (of_nat i) \<and>
       sct_signature sct = [4, 3] @ vec16 (sign A (signing_key (sct_builder S)) (prep_leaf p)))"

lemma logged_entry_for:
  assumes "made_for A E W S chn b" "logs i b p" "logged_at E i p"
  shows "entry_for A E W S chn i p"
proof -
  let ?b = "log_entry b"
  have e: "prep_entry p = ?b\<lparr>entry_index := of_nat i, leaf_data := prep_leaf p\<rparr>" "sct_callback b (of_nat i) = Some (prep_sct p)"
    using assms(2) by (simp_all add: logs_def)
  have leaf: "prep_leaf p = [0, 0] @ entry_bytes (certificate ?b) (entry_type ?b) (issuer_key_hash ?b) (timestamp_millis (entry_timestamp ?b)) (leaf_index_extension (of_nat i))"
    using assms(3) e(1) by (auto simp: logged_at_def compute_leaf_data_with_index_def serialize_eq index_extension_def split: if_splits)
  have sct: "prep_sct p = \<lparr>sct_version = V1, sct_log_id = builder_log_id (sct_builder S), sct_timestamp = timestamp_millis (entry_timestamp ?b),
      sct_extensions = leaf_index_extension (of_nat i), sct_signature = [4, 3] @ vec16 (sign A (signing_key (sct_builder S)) (prep_leaf p))\<rparr>"
    using e(2) assms(1) by (auto simp: made_for_def sct_callback_for_def create_sct_eq leaf split: if_splits)
  have "chain_list (prep_entry p) = tl chn" using assms(1) e(1) by (simp add: made_for_def nonempty_chain_def)
  with assms(1) e(1) sct show ?thesis by (simp add: entry_for_def made_for_def cong: LogEntryType.case_cong)
qed

text \<open>What the invariant says of the log: it is the old one followed by entries of vouched chains, whose SCTs have been sent.\<close>

lemma server_inv_log:
  assumes "server_inv A E V W held D config Ss ps msgs R a"
  shows "\<exists>qs P' txs. log_holds E V (ps @ qs) P' (store (api_worker a)) \<and>
    (\<forall>j < length qs. \<exists>S \<in> Ss. \<exists>certs \<in> R. \<exists>chn. decode_chain A certs = Inr chn \<and> spec_validated W S chn = Inr () \<and>
      entry_for A E W S chn (length ps + j) (qs ! j)) \<and>
    length txs = length qs \<and>
    sent (store (api_worker a)) = msgs @ map (\<lambda>j. (txs ! j, Inr (of_nat (length ps + j), prep_sct (qs ! j)))) [0..<length qs]"
proof -
  let ?w = "api_worker a" and ?bs = "concat (flushed (api_worker a))"
  obtain qs P' where q: "log_holds E V (ps @ qs) P' (store ?w)" "length qs = length ?bs"
    "\<And>j. j < length qs \<Longrightarrow> logs (length ps + j) (?bs ! j) (qs ! j)"
    "sent (store ?w) = msgs @ map (\<lambda>j. (completion_tx (?bs ! j), Inr (of_nat (length ps + j), prep_sct (qs ! j)))) [0..<length qs]"
    using assms unfolding server_inv_def worker_log_def by blast
  obtain M where M: "log_ok E (ps @ qs) P' M" using q(1) by (auto simp: log_holds_def)
  have "\<exists>S \<in> Ss. \<exists>certs \<in> R. \<exists>chn. decode_chain A certs = Inr chn \<and> spec_validated W S chn = Inr () \<and>
      entry_for A E W S chn (length ps + j) (qs ! j)" if j: "j < length qs" for j
  proof -
    have "accepted ?w = ?bs @ pending_entries ?w @ channel ?w" using assms by (simp add: server_inv_def worker_inv_def)
    then have "?bs ! j \<in> set (accepted ?w)" using nth_mem [of j ?bs] j q(2) by simp
    then obtain S certs chn where c: "S \<in> Ss" "certs \<in> R" "decode_chain A certs = Inr chn" "spec_validated W S chn = Inr ()" "made_for A E W S chn (?bs ! j)"
      using assms unfolding server_inv_def list_all_iff vouched_def by blast
    have "logged_at E (length ps + j) (qs ! j)" using log_okD(5) [OF M, of "length ps + j"] j by (simp add: nth_append)
    then show ?thesis using logged_entry_for [OF c(5) q(3) [OF j]] c(1-4) by blast
  qed
  with q show ?thesis by (intro exI [of _ qs] exI [of _ P'] exI [of _ "map completion_tx ?bs"]) (simp del: map_concat)
qed

lemma server_new_inv:
  assumes "log_holds E V ps P s" "cache_right W held D c"
  shows "server_inv A E V W held D config Ss ps (sent s) R \<lparr>api_worker = worker_new s t, x509_cache = c\<rparr>"
  using worker_new_inv worker_new_log [OF assms(1), of t] assms(2) by (auto simp: server_inv_def worker_new_def)

text \<open>With one validator for the whole run, every new entry belongs to a submitted chain that is valid for its roots.\<close>

lemma server_logs_only_valid_chains:
  assumes "storage_ok E V {}" "log_holds E V ps P s" "caching_ok W held D" "cache_right W held D c"
    and "with_trusted_roots W conf roots = Inr v" "validator S = Some v"
    and "server_run A E W config S evs \<lparr>api_worker = worker_new s t, x509_cache = c\<rparr> a"
    and "requests_ok A W S D (\<Union> (submitted_certs ` set evs))" "loggable E ps (accepted (api_worker a))"
  shows "\<exists>qs P'. log_holds E V (ps @ qs) P' (store (api_worker a)) \<and>
    (\<forall>j < length qs. \<exists>certs \<in> \<Union> (submitted_certs ` set evs). \<exists>chn parsed xs. decode_chain A certs = Inr chn \<and>
      parse_chain (der_ops W) 0 chn = Inr parsed \<and> chain_valid W conf roots parsed xs \<and> entry_for A E W S chn (length ps + j) (qs ! j)) \<and>
    (\<exists>txs. length txs = length qs \<and>
      sent (store (api_worker a)) = sent s @ map (\<lambda>j. (txs ! j, Inr (of_nat (length ps + j), prep_sct (qs ! j)))) [0..<length qs])"
proof -
  have inv: "server_inv A E V W held D config {S} ps (sent s) (\<Union> (submitted_certs ` set evs)) a"
    by (rule server_run_inv [OF assms(7,1,3,8) server_new_inv [OF assms(2,4)] assms(9)]) simp
  from server_inv_log [OF inv] obtain qs P' txs where q: "log_holds E V (ps @ qs) P' (store (api_worker a))"
    and e: "\<And>j. j < length qs \<Longrightarrow> \<exists>S \<in> {S}. \<exists>certs \<in> \<Union> (submitted_certs ` set evs). \<exists>chn. decode_chain A certs = Inr chn \<and>
      spec_validated W S chn = Inr () \<and> entry_for A E W S chn (length ps + j) (qs ! j)" and x: "length txs = length qs"
    "sent (store (api_worker a)) = sent s @ map (\<lambda>j. (txs ! j, Inr (of_nat (length ps + j), prep_sct (qs ! j)))) [0..<length qs]"
    by blast
  have "spec_validated W S chn = Inr () \<Longrightarrow> \<exists>parsed xs. parse_chain (der_ops W) 0 chn = Inr parsed \<and> chain_valid W conf roots parsed xs" for chn
    using spec_validate_valid [OF _ assms(5)] assms(6) by (simp add: spec_validated_def map_sum_Inr)
  with e q x show ?thesis by blast
qed

section \<open>An instance\<close>

text \<open>A server with a validator for the toy certificates, and a submission of the toy pre-certificate with its chain.\<close>

definition api_venv :: "(bytes \<rightharpoonup> bytes, bytes, bytes) ValidatorEnv" where
  "api_venv = toy_venv\<lparr>v_sha256 := toy_hash\<rparr>"

definition api_root :: Certificate where
  "api_root = toy_cert [30] [30] []"

definition api_validator :: Rfc6962Validator where
  "api_validator = projr (with_trusted_roots api_venv Rfc6962ValidationConfig_default [api_root])"

definition sub_state :: "u8 ApiState" where
  "sub_state = projr (ApiState_new mem_api (LogId (replicate 32 1)) [5] [6] ''https://log.example/'' (Some api_validator))"

definition api_request :: "string list" where
  "api_request = map toy_b64 [[1], [2], [3]]"

definition api_batch_entry :: BatchEntry where
  "api_batch_entry = projr (projr (spec_add_pre_chain mem_api (mem_storage_env mem_env) api_venv sub_state [] mem_time 5 api_request))"

definition api_stamped :: LogEntry where
  "api_stamped =
     (let e = log_entry api_batch_entry
      in e\<lparr>entry_index := 0,
          leaf_data := the (compute_leaf_data_with_index (certificate e) (entry_type e) (issuer_key_hash e) (entry_timestamp e) 0)\<rparr>)"

definition api_env :: mem_storage_env where
  "api_env = (let es = [the (from_log_entry toy_hash api_stamped)];
       scts = [\<lparr>cse_index = 0, cse_sct = the (sct_callback api_batch_entry 0), cse_timestamp = 1000\<rparr>] in
     (mem_storage_env mem_env)\<lparr>ser_entry := toy_ser es, de_entry := toy_de es, ser_sct := toy_ser scts, de_sct := toy_de scts\<rparr>)"

definition api_config :: BatchConfig where
  "api_config = \<lparr>max_batch_size = 1, max_batch_timeout_ms = 50\<rparr>"

lemma api_storage_ok: "storage_ok api_env mem_view {}"
  using mem_storage_ok [OF mem_env_ok(1)]
  by (auto simp: storage_ok_def api_env_def Let_def intro: toy_de_ser)

lemma api_validator_ok:
  "with_trusted_roots api_venv Rfc6962ValidationConfig_default [api_root] = Inr api_validator" "validator sub_state = Some api_validator"
  by code_simp+

lemma api_caching: "caching_ok api_venv id toy_encodings" "cache_right api_venv id toy_encodings Map.empty"
  by (simp_all add: caching_ok_def cache_ok_def api_venv_def toy_venv_def toy_encodings_def inj_on_def toy_hash_def cache_right_def)

lemma api_decode: "decode_chain mem_api api_request = Inr [[1], [2], [3]]"
  by code_simp

lemma api_entry: "spec_add_pre_chain mem_api api_env api_venv sub_state [] mem_time 5 api_request = Inr (Inr api_batch_entry)"
proof -
  have "sha256 api_env = sha256 (mem_storage_env mem_env)" "x509_ops api_env = x509_ops (mem_storage_env mem_env)"
    by (simp_all add: api_env_def sha256_def Let_def)
  then have "spec_add_pre_chain mem_api api_env api_venv sub_state [] mem_time 5 api_request
      = spec_add_pre_chain mem_api (mem_storage_env mem_env) api_venv sub_state [] mem_time 5 api_request"
    by (simp only: spec_add_pre_chain_def precert_entry_def key_hash_of_def)
  moreover have "case spec_add_pre_chain mem_api (mem_storage_env mem_env) api_venv sub_state [] mem_time 5 api_request of
      Inr (Inr b) \<Rightarrow> True | _ \<Rightarrow> False"
    by code_simp
  ultimately show ?thesis by (auto simp: api_batch_entry_def split: sum.splits)
qed

lemma api_loggable: "loggable api_env [] [api_batch_entry]"
proof -
  have "entry_ready api_env 0 api_batch_entry" by code_simp
  moreover have "batch_certs [api_batch_entry] = [[2], [3], [1]]" by code_simp
  moreover have "inj_on toy_hash {[2], [3], [1]}" by (simp add: inj_on_def toy_hash_def)
  moreover have "sha256 api_env = toy_hash" by (simp add: api_env_def mem_storage_env_def sha256_def Let_def)
  ultimately show ?thesis by (simp add: loggable_def log_certs_def insert_commute)
qed

lemma api_encodings: "requests_ok mem_api api_venv sub_state toy_encodings {api_request}"
proof -
  have "parse_chain toy_x509 0 [[1], [2], [3]] = Inr [toy_cert [20] [10] [toy_poison], toy_cert [30] [20] [], toy_cert [30] [30] []]"
    by (rule toy_parse)
  moreover have "trusted_roots api_validator = [api_root]" by code_simp
  ultimately have "all_encodings api_venv toy_encodings api_validator [[1], [2], [3]]"
    by (simp add: all_encodings_def api_venv_def encodings_in_def toy_encodings_def api_root_def)
      (auto simp: toy_venv_def toy_x509_def toy_cert_def)
  then show ?thesis by (simp add: requests_ok_def api_decode api_validator_ok)
qed

text \<open>The state after the submission, and after the worker has received it.\<close>

definition api_start :: "(key_values, u64 \<times> u64 \<rightharpoonup> bytes, u8 \<times> u64 \<rightharpoonup> bool, bytes \<rightharpoonup> bytes, u64 \<rightharpoonup> LogEntry, bytes \<rightharpoonup> bytes) Api" where
  "api_start = \<lparr>api_worker = worker_new mem_storage 7, x509_cache = Map.empty\<rparr>"

definition api_queued :: "(key_values, u64 \<times> u64 \<rightharpoonup> bytes, u8 \<times> u64 \<rightharpoonup> bool, bytes \<rightharpoonup> bytes, u64 \<rightharpoonup> LogEntry, bytes \<rightharpoonup> bytes) Api" where
  "api_queued = snd (add_pre_chain mem_api api_env api_venv api_config sub_state mem_time 5 \<lparr>req_chain = api_request\<rparr> api_start)"

definition api_after :: "(key_values, u64 \<times> u64 \<rightharpoonup> bytes, u8 \<times> u64 \<rightharpoonup> bool, bytes \<rightharpoonup> bytes, u64 \<rightharpoonup> LogEntry, bytes \<rightharpoonup> bytes) Api" where
  "api_after = api_queued\<lparr>api_worker := received api_env api_config 3 1 api_batch_entry [] (api_worker api_queued)\<rparr>"

lemma api_empty: "log_holds api_env mem_view [] {} mem_storage"
  by (rule empty_log [of _ mem_slate]) (simp add: api_env_def mem_storage_env_def mem_env_def Let_def)

lemma api_queued: "channel (api_worker api_queued) = [api_batch_entry] \<and> accepted (api_worker api_queued) = [api_batch_entry] \<and> running (api_worker api_queued)"
proof -
  have "runs mem_api api_config (api_holds api_env mem_view api_venv id toy_encodings [] {})
      (add_pre_chain mem_api api_env api_venv api_config sub_state mem_time 5 \<lparr>req_chain = api_request\<rparr>)
      (Inr (Inr api_batch_entry))"
    using add_pre_chain_runs [OF api_storage_ok api_caching(1), of sub_state mem_api "\<lparr>req_chain = api_request\<rparr>" api_config "[]" "{}" mem_time 5]
      api_encodings by (simp add: api_entry requests_ok_def)
  moreover have "api_holds api_env mem_view api_venv id toy_encodings [] {} (worker_new mem_storage 7) api_start"
    using api_empty api_caching(2) by (auto simp: api_holds_def api_start_def worker_new_def)
  ultimately have "api_holds api_env mem_view api_venv id toy_encodings [] {}
      (snd (outcome mem_api api_config (Inr (Inr api_batch_entry)) (worker_new mem_storage 7))) api_queued"
    unfolding runs_def api_queued_def by (metis snd_conv)
  then show ?thesis by (auto simp: api_holds_def worker_new_def channel_capacity_def)
qed

lemma api_steps:
  "server_step mem_api api_env api_venv api_config sub_state (AddPreChain mem_time 5 api_request) api_start api_queued"
  "server_step mem_api api_env api_venv api_config sub_state (Work (Receive 3 1)) api_queued api_after"
proof -
  show "server_step mem_api api_env api_venv api_config sub_state (AddPreChain mem_time 5 api_request) api_start api_queued"
    by (rule pre_chain_request) (simp add: api_queued_def prod_eq_iff)
  show "server_step mem_api api_env api_venv api_config sub_state (Work (Receive 3 1)) api_queued api_after"
    unfolding api_after_def by (rule work, rule worker_step.receive) (simp_all add: api_queued)
qed

lemma api_accepted: "accepted (api_worker api_after) = [api_batch_entry]"
  by (simp add: api_after_def received_def api_queued Let_def split: prod.split)

section \<open>The answers to submissions\<close>

text \<open>C15: both submission endpoints answer as their references say, on every branch. The order of the checks is that of the references:
  decoding, parsing, validation, then the lookup of an SCT issued before, which is returned without logging anything; only then
  is the kind of the certificate checked and an entry made. That entry, with the callback that will sign its SCT, goes to the end of
  the queue, unless the queue is full, which is a 503, or the worker has ended, a 500. Nothing else of the worker changes, the log stays
  as it was, no message is sent, and the cache of certificates stays right.\<close>

theorem submissions_answered:
  assumes "storage_ok E V {}" "log_holds E V ps P (store (api_worker a))" "caching_ok W held D" "cache_right W held D (x509_cache a)"
    and "requests_ok A W S D {req_chain req}"
  shows "(\<exists>a' s'. add_chain A E W config S time tx req a = (fst (outcome A config (spec_add_chain A E W S ps time tx (req_chain req)) (api_worker a)), a') \<and>
      api_worker a' = (snd (outcome A config (spec_add_chain A E W S ps time tx (req_chain req)) (api_worker a)))\<lparr>store := s'\<rparr> \<and>
      log_holds E V ps P s' \<and> sent s' = sent (store (api_worker a)) \<and> cache_right W held D (x509_cache a')) \<and>
    (\<exists>a' s'. add_pre_chain A E W config S time tx req a = (fst (outcome A config (spec_add_pre_chain A E W S ps time tx (req_chain req)) (api_worker a)), a') \<and>
      api_worker a' = (snd (outcome A config (spec_add_pre_chain A E W S ps time tx (req_chain req)) (api_worker a)))\<lparr>store := s'\<rparr> \<and>
      log_holds E V ps P s' \<and> sent s' = sent (store (api_worker a)) \<and> cache_right W held D (x509_cache a'))"
proof -
  have h: "api_holds E V W held D ps P (api_worker a) a" using assms(2,4) by (auto simp: api_holds_def intro: exI [of _ "store (api_worker a)"])
  have run: "\<exists>a' s'. m a = (fst (outcome A config r (api_worker a)), a') \<and> api_worker a' = (snd (outcome A config r (api_worker a)))\<lparr>store := s'\<rparr> \<and>
      log_holds E V ps P s' \<and> sent s' = sent (store (api_worker a)) \<and> cache_right W held D (x509_cache a')"
    if "runs A config (api_holds E V W held D ps P) m r" for m r
  proof -
    have "store (snd (outcome A config r w)) = store w" for w :: "('a, 'b, 'c, 'd, 'e) Worker"
      by (cases "(A, config, r, w)" rule: outcome.cases) auto
    with that [unfolded runs_def, rule_format, OF h] show ?thesis by (auto simp: api_holds_def)
  qed
  have enc: "all_encodings W D v chn" if "validator S = Some v" "decode_chain A (req_chain req) = Inr chn" for v chn
    using assms(5) that by (simp add: requests_ok_def)
  show ?thesis
    by (intro conjI run add_chain_runs [OF assms(1,3) enc] add_pre_chain_runs [OF assms(1,3) enc])
qed

theorem submissions_answered_witness:
  "(\<exists>a' s'. add_chain mem_api api_env api_venv api_config sub_state mem_time 5 \<lparr>req_chain = api_request\<rparr> api_start
        = (fst (outcome mem_api api_config (spec_add_chain mem_api api_env api_venv sub_state [] mem_time 5 (req_chain \<lparr>req_chain = api_request\<rparr>)) (api_worker api_start)), a') \<and>
      api_worker a' = (snd (outcome mem_api api_config (spec_add_chain mem_api api_env api_venv sub_state [] mem_time 5 (req_chain \<lparr>req_chain = api_request\<rparr>)) (api_worker api_start)))\<lparr>store := s'\<rparr> \<and>
      log_holds api_env mem_view [] {} s' \<and> sent s' = sent (store (api_worker api_start)) \<and> cache_right api_venv id toy_encodings (x509_cache a')) \<and>
    (\<exists>a' s'. add_pre_chain mem_api api_env api_venv api_config sub_state mem_time 5 \<lparr>req_chain = api_request\<rparr> api_start
        = (fst (outcome mem_api api_config (spec_add_pre_chain mem_api api_env api_venv sub_state [] mem_time 5 (req_chain \<lparr>req_chain = api_request\<rparr>)) (api_worker api_start)), a') \<and>
      api_worker a' = (snd (outcome mem_api api_config (spec_add_pre_chain mem_api api_env api_venv sub_state [] mem_time 5 (req_chain \<lparr>req_chain = api_request\<rparr>)) (api_worker api_start)))\<lparr>store := s'\<rparr> \<and>
      log_holds api_env mem_view [] {} s' \<and> sent s' = sent (store (api_worker api_start)) \<and> cache_right api_venv id toy_encodings (x509_cache a'))"
  by (rule submissions_answered [OF api_storage_ok])
    (use api_empty api_caching api_encodings in \<open>simp_all add: api_start_def worker_new_def\<close>)

end
