(* ===== verification/Ccadb.thy ===== *)
theory Ccadb
  imports Validator Tile_Leaf
begin

text \<open>
  \<^verbatim>\<open>src/src/ccadb.rs\<close>: the store of trusted roots, kept in a directory of PEM files and extended from the CSV reports of the
  CCADB, and the worker that rebuilds the validator from it. Parameters (\<open>CcadbEnv\<close>): the CSV reader, the PEM codec, hex, the rendering
  of names and the order of a hash map; \<open>FsOps\<close>: the file system; the answer to a download is an argument. Texts are ASCII here, and so
  are the standard library's operations on them. Tracing is left out.
\<close>

section \<open>Texts and paths of the standard library\<close>

definition upper_char :: "char \<Rightarrow> char" where
  "upper_char c = (let n = of_char c :: nat in if 97 \<le> n \<and> n \<le> 122 then char_of (n - 32) else c)"

definition to_uppercase :: "string \<Rightarrow> string" where
  "to_uppercase s = map upper_char s"

definition is_whitespace :: "char \<Rightarrow> bool" where
  "is_whitespace c = (let n = of_char c :: nat in n = 32 \<or> (9 \<le> n \<and> n \<le> 13))"

definition str_trim :: "string \<Rightarrow> string" where
  "str_trim s = rev (dropWhile is_whitespace (rev (dropWhile is_whitespace s)))"

definition lower_char :: "char \<Rightarrow> char" where
  "lower_char c = (let n = of_char c :: nat in if 65 \<le> n \<and> n \<le> 90 then char_of (n + 32) else c)"

definition to_lowercase :: "string \<Rightarrow> string" where
  "to_lowercase s = map lower_char s"

definition newline :: char where
  "newline = char_of (10 :: nat)"

definition carriage_return :: char where
  "carriage_return = char_of (13 :: nat)"

definition tabulator :: char where
  "tabulator = char_of (9 :: nat)"

text \<open>\<^verbatim>\<open>str::lines\<close>: an empty last part is no line, and a carriage return before the line feed is dropped.\<close>

definition str_lines :: "string \<Rightarrow> string list" where
  "str_lines s =
     (let parts = str_split newline s;
          kept = (if last parts = [] then butlast parts else parts)
      in map (\<lambda>l. if l \<noteq> [] \<and> last l = carriage_return then butlast l else l) kept)"

fun str_join :: "string \<Rightarrow> string list \<Rightarrow> string" where
  "str_join sep [] = []"
| "str_join sep [s] = s"
| "str_join sep (s # ss) = s @ sep @ str_join sep ss"

definition starts_with :: "string \<Rightarrow> string \<Rightarrow> bool" where
  "starts_with s p = (take (length p) s = p)"

definition path_join :: "string \<Rightarrow> string \<Rightarrow> string" where
  "path_join dir name = (if dir = [] \<or> last dir = CHR ''/'' then dir @ name else dir @ ''/'' @ name)"

text \<open>\<^verbatim>\<open>Path::extension\<close> of a file name: what follows the last dot, unless that is the first character.\<close>

definition path_extension :: "string \<Rightarrow> string option" where
  "path_extension name =
     (let rest = dropWhile (\<lambda>c. c \<noteq> CHR ''.'') (rev name)
      in if length rest \<le> 1 then None else Some (rev (takeWhile (\<lambda>c. c \<noteq> CHR ''.'') (rev name))))"

section \<open>State\<close>

record CcadbRootEntry =
  root_subject :: string
  root_ca_owner :: string
  root_certificate :: Certificate
  root_fingerprint :: string

text \<open>The hash map from fingerprints to entries, as a list of its bindings.\<close>

type_synonym RootCertificateStore = "(string \<times> CcadbRootEntry) list"

definition RootCertificateStore_new :: RootCertificateStore where
  "RootCertificateStore_new = []"

record CcadbEnv =
  csv_records :: "string \<Rightarrow> (string + string list) list"
  pem_decode :: "string \<Rightarrow> string + string \<times> bytes"
  pem_encode :: "string \<Rightarrow> bytes \<Rightarrow> string + string"
  name_string :: "bytes \<Rightarrow> string"
  hex_encode :: "bytes \<Rightarrow> string"
  map_order :: "RootCertificateStore \<Rightarrow> RootCertificateStore"
  root_x509 :: X509Ops
  root_sha256 :: digest_fun

record 'f FsOps =
  fs_exists :: "string \<Rightarrow> 'f \<Rightarrow> bool"
  fs_read_dir :: "string \<Rightarrow> 'f \<Rightarrow> string + (string + string \<times> bool) list"
  fs_read :: "string \<Rightarrow> 'f \<Rightarrow> string + string"
  fs_create_dir_all :: "string \<Rightarrow> 'f \<Rightarrow> (string + unit) \<times> 'f"
  fs_write :: "string \<Rightarrow> string \<Rightarrow> 'f \<Rightarrow> (string + unit) \<times> 'f"

text \<open>The store and the file system, and for the worker also the validator that it shares with the server.\<close>

record 'f RootState =
  root_store :: RootCertificateStore
  files :: 'f

record 'f CcadbState = "'f RootState" +
  shared_validator :: Rfc6962Validator

type_synonym ('f, 'z, 'a) root_op = "(('f, 'z) RootState_scheme, CtError, 'a) io"

type_synonym ('f, 'a) ccadb_op = "('f CcadbState, CtError, 'a) io"

section \<open>The store\<close>

definition fingerprint_of :: "CcadbEnv \<Rightarrow> bytes \<Rightarrow> string" where
  "fingerprint_of E der = to_uppercase (hex_encode E (root_sha256 E der))"

text \<open>\<^verbatim>\<open>contains_key\<close>, then \<^verbatim>\<open>insert\<close>.\<close>

definition insert_new :: "string \<Rightarrow> CcadbRootEntry \<Rightarrow> RootCertificateStore \<Rightarrow> RootCertificateStore" where
  "insert_new fp entry certs = (if map_of certs fp \<noteq> None then certs else certs @ [(fp, entry)])"

definition load_pem_certificate :: "CcadbEnv \<Rightarrow> 'f FsOps \<Rightarrow> string \<Rightarrow> 'f \<Rightarrow> CtError + Certificate \<times> string" where
  "load_pem_certificate E F p f =
     (case fs_read F p f of
        Inl e \<Rightarrow> Inl (Internal (''Failed to read PEM file '' @ debug_str p @ '': '' @ e))
      | Inr pem_data \<Rightarrow>
          (case pem_decode E pem_data of
             Inl e \<Rightarrow> Inl (Internal (''Failed to parse PEM file '' @ debug_str p @ '': '' @ e))
           | Inr (label, der_bytes) \<Rightarrow>
               if label \<noteq> ''CERTIFICATE''
               then Inl (Internal (''Invalid PEM label in '' @ debug_str p @ '': expected CERTIFICATE, got '' @ label))
               else
                 (case cert_from_der (root_x509 E) der_bytes of
                    Inl e \<Rightarrow> Inl (Internal (''Failed to parse certificate from '' @ debug_str p @ '': '' @ e))
                  | Inr cert \<Rightarrow> Inr (cert, fingerprint_of E der_bytes))))"

text \<open>One directory entry: a file that does not load is skipped.\<close>

definition load_file :: "CcadbEnv \<Rightarrow> 'f FsOps \<Rightarrow> string \<Rightarrow> string \<times> bool \<Rightarrow> 'f \<Rightarrow> RootCertificateStore \<Rightarrow> RootCertificateStore" where
  "load_file E F dir entry f certs =
     (case entry of (name, is_file) \<Rightarrow>
        if is_file \<and> path_extension name = Some ''pem''
        then
          (case load_pem_certificate E F (path_join dir name) f of
             Inr (cert, fp) \<Rightarrow>
               insert_new fp \<lparr>root_subject = name_string E (subject (tbs_certificate cert)), root_ca_owner = ''Local'',
                 root_certificate = cert, root_fingerprint = fp\<rparr> certs
           | Inl e \<Rightarrow> certs)
        else certs)"

primrec load_entries :: "CcadbEnv \<Rightarrow> 'f FsOps \<Rightarrow> string \<Rightarrow> (string + string \<times> bool) list \<Rightarrow> ('f, 'z, unit) root_op" where
  "load_entries E F dir [] = ret ()"
| "load_entries E F dir (r # rs) =
     (case r of
        Inl e \<Rightarrow> raise (Internal (''Failed to read directory entry: '' @ e))
      | Inr entry \<Rightarrow>
          and_then (modify (\<lambda>s. s\<lparr>root_store := load_file E F dir entry (files s) (root_store s)\<rparr>)) (\<lambda>_.
          load_entries E F dir rs))"

definition load_from_directory :: "CcadbEnv \<Rightarrow> 'f FsOps \<Rightarrow> string \<Rightarrow> ('f, 'z, unit) root_op" where
  "load_from_directory E F dir =
     and_then (gets files) (\<lambda>f.
     if \<not> fs_exists F dir f then ret ()
     else
       (case fs_read_dir F dir f of
          Inl e \<Rightarrow> raise (Internal (''Failed to read directory '' @ debug_str dir @ '': '' @ e))
        | Inr entries \<Rightarrow> load_entries E F dir entries))"

section \<open>Reports of the CCADB\<close>

definition csv_field :: "string list \<Rightarrow> nat \<Rightarrow> string" where
  "csv_field rec i = (if i < length rec then rec ! i else [])"

definition cleaned_pem :: "string \<Rightarrow> string" where
  "cleaned_pem pem =
     str_join [newline] (filter (\<lambda>l. l \<noteq> []) (map str_trim (str_lines (filter (\<lambda>c. c \<noteq> tabulator \<and> c \<noteq> carriage_return) pem))))"

text \<open>The markers are completed when only the first one is missing.\<close>

definition marked_pem :: "string \<Rightarrow> string option" where
  "marked_pem pem =
     (if \<not> starts_with pem ''-----BEGIN''
      then (if str_contains pem ''-----END CERTIFICATE-----'' then Some (''-----BEGIN CERTIFICATE-----'' @ [newline] @ pem) else None)
      else Some pem)"

definition add_record :: "CcadbEnv \<Rightarrow> string list \<Rightarrow> RootCertificateStore \<Rightarrow> RootCertificateStore" where
  "add_record E rec certs =
     (let subject = csv_field rec 0; ca_owner = csv_field rec 1; pem_cert = csv_field rec 2; sha256_fingerprint = csv_field rec 3 in
      if pem_cert = [] then certs
      else
        (case marked_pem (cleaned_pem pem_cert) of
           None \<Rightarrow> certs
         | Some pem \<Rightarrow>
             (case pem_decode E pem of
                Inl e \<Rightarrow> certs
              | Inr (label, der_bytes) \<Rightarrow>
                  if label \<noteq> ''CERTIFICATE'' then certs
                  else
                    (case cert_from_der (root_x509 E) der_bytes of
                       Inl e \<Rightarrow> certs
                     | Inr cert \<Rightarrow>
                         let calculated_fingerprint = fingerprint_of E der_bytes;
                             provided_fingerprint = to_uppercase (filter (\<lambda>c. c \<noteq> CHR '':'') sha256_fingerprint) in
                         if calculated_fingerprint \<noteq> provided_fingerprint then certs
                         else insert_new calculated_fingerprint \<lparr>root_subject = subject, root_ca_owner = ca_owner,
                           root_certificate = cert, root_fingerprint = calculated_fingerprint\<rparr> certs))))"

primrec add_records :: "CcadbEnv \<Rightarrow> (string + string list) list \<Rightarrow> ('f, 'z, unit) root_op" where
  "add_records E [] = ret ()"
| "add_records E (r # rs) =
     (case r of
        Inl e \<Rightarrow> raise (Internal (''Failed to parse CSV record: '' @ e))
      | Inr rec \<Rightarrow> and_then (modify (\<lambda>s. s\<lparr>root_store := add_record E rec (root_store s)\<rparr>)) (\<lambda>_. add_records E rs))"

definition add_from_ccadb_csv :: "CcadbEnv \<Rightarrow> string \<Rightarrow> ('f, 'z, unit) root_op" where
  "add_from_ccadb_csv E csv_data = add_records E (csv_records E csv_data)"

definition get_all_certificates :: "CcadbEnv \<Rightarrow> RootCertificateStore \<Rightarrow> Certificate list" where
  "get_all_certificates E certs = map (\<lambda>(_, entry). root_certificate entry) (map_order E certs)"

definition root_count :: "RootCertificateStore \<Rightarrow> nat" where
  "root_count certs = length certs"

section \<open>Persisting\<close>

text \<open>The slice of the fingerprint panics when it is shorter than 16 bytes.\<close>

definition persist_entry :: "CcadbEnv \<Rightarrow> 'f FsOps \<Rightarrow> string \<Rightarrow> string \<times> CcadbRootEntry \<Rightarrow> ('f, 'z, unit) root_op" where
  "persist_entry E F dir binding =
     (case binding of (fp, entry) \<Rightarrow>
        if length fp < 16 then panic
        else
          let p = path_join dir (take 16 fp @ ''.pem'') in
          and_then (gets files) (\<lambda>f.
          if fs_exists F p f then ret ()
          else
            and_then (map_err (\<lambda>e. Internal (''Failed to encode certificate: '' @ e))
              (of_result (cert_to_der (root_x509 E) (root_certificate entry)))) (\<lambda>der_bytes.
            and_then (map_err (\<lambda>e. Internal (''Failed to encode PEM: '' @ e)) (of_result (pem_encode E ''CERTIFICATE'' der_bytes))) (\<lambda>pem.
            map_err (\<lambda>e. Internal (''Failed to write certificate to '' @ debug_str p @ '': '' @ e))
              (zoom files (\<lambda>f s. s\<lparr>files := f\<rparr>) (\<lambda>f. case fs_write F p pem f of (r, f') \<Rightarrow> (map_sum Err id r, f')))))))"

definition persist_to_directory :: "CcadbEnv \<Rightarrow> 'f FsOps \<Rightarrow> string \<Rightarrow> ('f, 'z, unit) root_op" where
  "persist_to_directory E F dir =
     and_then (map_err (\<lambda>e. Internal (''Failed to create directory '' @ debug_str dir @ '': '' @ e))
       (zoom files (\<lambda>f s. s\<lparr>files := f\<rparr>) (\<lambda>f. case fs_create_dir_all F dir f of (r, f') \<Rightarrow> (map_sum Err id r, f')))) (\<lambda>_.
     and_then (gets root_store) (\<lambda>certs.
     fold_io (\<lambda>binding _. persist_entry E F dir binding) (map_order E certs) ()))"

section \<open>The worker\<close>

text \<open>\<open>updates_validator\<close> is set together with the configuration, by \<^verbatim>\<open>with_validator\<close>.\<close>

record CcadbWorker =
  environment :: CcadbEnvironment
  roots_dir :: string
  updates_validator :: bool
  validation_config :: "Rfc6962ValidationConfig option"

definition CcadbWorker_new :: "CcadbEnvironment \<Rightarrow> string \<Rightarrow> CcadbWorker" where
  "CcadbWorker_new env dir = \<lparr>environment = env, roots_dir = dir, updates_validator = False, validation_config = None\<rparr>"

definition with_validator :: "Rfc6962ValidationConfig \<Rightarrow> CcadbWorker \<Rightarrow> CcadbWorker" where
  "with_validator conf self = self\<lparr>updates_validator := True, validation_config := Some conf\<rparr>"

text \<open>The answer to the download: an error, or a response with its status and its text or an error in reading it.\<close>

datatype Download = RequestFailed string | Responded bool string "string + string"

definition downloaded :: "Download \<Rightarrow> CtError + string" where
  "downloaded d =
     (case d of
        RequestFailed e \<Rightarrow> Inl (Internal (''Failed to fetch CCADB data: '' @ e))
      | Responded ok status txt \<Rightarrow>
          if \<not> ok then Inl (Internal (''CCADB request failed with status: '' @ status))
          else (case txt of Inl e \<Rightarrow> Inl (Internal (''Failed to read CCADB response: '' @ e)) | Inr csv_data \<Rightarrow> Inr csv_data))"

definition replace_validator ::
  "CcadbEnv \<Rightarrow> ('c, 'x, 'k) ValidatorEnv \<Rightarrow> Rfc6962ValidationConfig \<Rightarrow> 'f CcadbState \<Rightarrow> 'f CcadbState" where
  "replace_validator E W conf s =
     (case with_trusted_roots W conf (get_all_certificates E (root_store s)) of
        Inr new_validator \<Rightarrow> s\<lparr>shared_validator := new_validator\<rparr>
      | Inl e \<Rightarrow> s)"

definition update_roots ::
  "CcadbEnv \<Rightarrow> 'f FsOps \<Rightarrow> ('c, 'x, 'k) ValidatorEnv \<Rightarrow> CcadbWorker \<Rightarrow> (string \<Rightarrow> Download) \<Rightarrow> ('f, unit) ccadb_op" where
  "update_roots E F W self http_get =
     and_then (of_result (downloaded (http_get (ccadb_url (environment self))))) (\<lambda>csv_data.
     and_then (add_from_ccadb_csv E csv_data) (\<lambda>_.
     and_then (persist_to_directory E F (roots_dir self)) (\<lambda>_.
     (case validation_config self of
        Some conf \<Rightarrow> if updates_validator self then modify (replace_validator E W conf) else ret ()
      | None \<Rightarrow> ret ()))))"

text \<open>The periodic updates: an error is only logged. A panic would end the task.\<close>

fun run_periodic ::
  "CcadbEnv \<Rightarrow> 'f FsOps \<Rightarrow> ('c, 'x, 'k) ValidatorEnv \<Rightarrow> CcadbWorker \<Rightarrow> (string \<Rightarrow> Download) list \<Rightarrow> ('f, unit) ccadb_op" where
  "run_periodic E F W self [] = ret ()"
| "run_periodic E F W self (d # ds) =
     and_then (attempt (update_roots E F W self d)) (\<lambda>_. run_periodic E F W self ds)"

end
