(* ===== verification/Startup.thy ===== *)
theory Startup
  imports Ccadb Api_State Merkle_Storage
begin

text \<open>
  \<^verbatim>\<open>src/src/main.rs\<close>: reading or creating the configuration and the key pair, choosing the storage, setting up the validation of chains
  and the CCADB worker. Parameters: the TOML reader and writer and the P-256 and PKCS#8 codecs and the reading of times (\<open>StartEnv\<close>), the
  file system (\<open>FsOps\<close>), object stores and SlateDB. Errors are the texts that they display. A new key is an argument of the
  operations that may draw one. Tracing, metrics, the runtime and the listening socket are left out.
\<close>

section \<open>Configuration\<close>

record AzureConfig =
  azure_account :: string
  azure_access_key :: string
  azure_container_name :: string

record AwsConfig =
  aws_region :: string
  aws_bucket :: string
  aws_access_key_id :: string
  aws_secret_access_key :: string

record LocalConfig =
  local_path :: string

record StorageConfig =
  provider :: string
  azure :: "AzureConfig option"
  aws :: "AwsConfig option"
  local_storage :: "LocalConfig option"

record ServerConfig =
  bind_addr :: string
  server_base_url :: string
  static_endpoint :: "string option"

record KeysConfig =
  private_key_path :: string
  public_key_path :: string

definition DEFAULT_MEMORY_BLOCK_CACHE_CAPACITY_MB :: u64 where
  "DEFAULT_MEMORY_BLOCK_CACHE_CAPACITY_MB = 64"

record ValidationConfig =
  enabled :: bool
  config_ccadb :: "string option"
  config_trusted_roots_dir :: string
  temporal_window_start :: "string option"
  temporal_window_end :: "string option"
  config_max_chain_length :: "nat option"
  config_signature_algorithms :: "string list option"

record CacheConfig =
  root_folder :: "string option"
  max_cache_size_gb :: "u64 option"
  memory_block_cache_capacity_mb :: u64

record AppConfig =
  server_config :: ServerConfig
  storage_config :: StorageConfig
  keys_config :: KeysConfig
  cache_config :: "CacheConfig option"
  app_validation :: "ValidationConfig option"

record 'k StartEnv =
  parse_config :: "string \<Rightarrow> string + AppConfig"
  toml_to_string :: "AppConfig \<Rightarrow> string + string"
  to_pkcs8_pem :: "'k \<Rightarrow> string + string"
  to_public_key_pem :: "'k \<Rightarrow> string + string"
  from_pkcs8_pem :: "string \<Rightarrow> string + 'k"
  to_public_key_der :: "'k \<Rightarrow> string + bytes"
  secret_key_bytes :: "'k \<Rightarrow> bytes"
  parse_from_rfc3339 :: "string \<Rightarrow> string + DateTime"
  start_sha256 :: digest_fun

type_synonym ('f, 'a) start_op = "('f, string, 'a) io"

definition fs_op :: "('f \<Rightarrow> (string + 'a) \<times> 'f) \<Rightarrow> ('f, 'a) start_op" where
  "fs_op m f = (case m f of (r, f') \<Rightarrow> (map_sum Err id r, f'))"

text \<open>\<^verbatim>\<open>Path::parent\<close>, for paths without \<^verbatim>\<open>.\<close> components.\<close>

definition path_parent :: "string \<Rightarrow> string option" where
  "path_parent p =
     (let q = trim_end_matches (CHR ''/'') p;
          dir = rev (dropWhile (\<lambda>c. c \<noteq> CHR ''/'') (rev q))
      in if q = [] then None
         else if trim_end_matches (CHR ''/'') dir = [] then Some (take 1 dir)
         else Some (trim_end_matches (CHR ''/'') dir))"

text \<open>A text in single quotes.\<close>

definition quoted :: "string \<Rightarrow> string" where
  "quoted s = CHR 0x27 # s @ [CHR 0x27]"

section \<open>Keys\<close>

definition generate_and_save_keys :: "'k StartEnv \<Rightarrow> 'f FsOps \<Rightarrow> 'k \<Rightarrow> KeysConfig \<Rightarrow> ('f, unit) start_op" where
  "generate_and_save_keys A F new_key keys =
     and_then (of_result (to_pkcs8_pem A new_key)) (\<lambda>private_key_pem.
     and_then (of_result (to_public_key_pem A new_key)) (\<lambda>public_key_pem.
     and_then (fs_op (fs_write F (private_key_path keys) private_key_pem)) (\<lambda>_.
     fs_op (fs_write F (public_key_path keys) public_key_pem))))"

definition ensure_keys_exist :: "'k StartEnv \<Rightarrow> 'f FsOps \<Rightarrow> 'k \<Rightarrow> KeysConfig \<Rightarrow> ('f, unit) start_op" where
  "ensure_keys_exist A F new_key keys =
     and_then (gets (\<lambda>f. \<not> fs_exists F (private_key_path keys) f \<or> \<not> fs_exists F (public_key_path keys) f)) (\<lambda>missing.
     if missing
     then
       and_then (case path_parent (private_key_path keys) of Some dir \<Rightarrow> fs_op (fs_create_dir_all F dir) | None \<Rightarrow> ret ()) (\<lambda>_.
       generate_and_save_keys A F new_key keys)
     else ret ())"

definition load_private_key :: "'k StartEnv \<Rightarrow> 'f FsOps \<Rightarrow> string \<Rightarrow> ('f, 'k) start_op" where
  "load_private_key A F p =
     and_then (gets (fs_read F p)) (\<lambda>r.
     and_then (of_result r) (\<lambda>pem_content. of_result (from_pkcs8_pem A pem_content)))"

text \<open>The \<^verbatim>\<open>unwrap\<close> panics when the key cannot be encoded.\<close>

definition derive_public_key_der_from_p256 :: "'k StartEnv \<Rightarrow> 'k \<Rightarrow> ('f, bytes) start_op" where
  "derive_public_key_der_from_p256 A key = (case to_public_key_der A key of Inl e \<Rightarrow> panic | Inr der \<Rightarrow> ret der)"

section \<open>Loading the configuration\<close>

definition default_config :: AppConfig where
  "default_config =
     \<lparr>server_config = \<lparr>bind_addr = ''0.0.0.0:8080'', server_base_url = ''http://localhost:8080/'', static_endpoint = None\<rparr>,
      storage_config = \<lparr>provider = ''local'', azure = None, aws = None, local_storage = Some \<lparr>local_path = ''/tmp/ct-log-storage''\<rparr>\<rparr>,
      keys_config = \<lparr>private_key_path = ''keys/private_key.pem'', public_key_path = ''keys/public_key.pem''\<rparr>,
      cache_config = None,
      app_validation = Some \<lparr>enabled = True, config_ccadb = Some ''Production'', config_trusted_roots_dir = ''trusted_roots'',
        temporal_window_start = None, temporal_window_end = None, config_max_chain_length = Some 10, config_signature_algorithms = None\<rparr>\<rparr>"

definition initialize_config :: "'k StartEnv \<Rightarrow> 'f FsOps \<Rightarrow> 'k \<Rightarrow> ('f, AppConfig) start_op" where
  "initialize_config A F new_key =
     and_then (fs_op (fs_create_dir_all F ''keys'')) (\<lambda>_.
     and_then (generate_and_save_keys A F new_key (keys_config default_config)) (\<lambda>_.
     and_then (of_result (toml_to_string A default_config)) (\<lambda>config_content.
     and_then (fs_op (fs_write F ''Config.toml'' config_content)) (\<lambda>_.
     ret default_config))))"

definition load_config :: "'k StartEnv \<Rightarrow> 'f FsOps \<Rightarrow> 'k \<Rightarrow> ('f, AppConfig) start_op" where
  "load_config A F new_key =
     and_then (gets (fs_exists F ''Config.toml'')) (\<lambda>found.
     if \<not> found then initialize_config A F new_key
     else
       and_then (gets (fs_read F ''Config.toml'')) (\<lambda>r.
       and_then (of_result r) (\<lambda>content.
       and_then (of_result (parse_config A content)) (\<lambda>app_config.
       and_then (ensure_keys_exist A F new_key (keys_config app_config)) (\<lambda>_.
       ret app_config)))))"

section \<open>Storage\<close>

record ObjectStoreCacheOptions =
  cache_root_folder :: "string option"
  max_cache_size_bytes :: "u64 option"

record SlateDefaults =
  default_l0_sst_size_bytes :: u64
  default_max_sst_size :: u64
  default_cache_options :: ObjectStoreCacheOptions

record Settings =
  l0_sst_size_bytes :: u64
  max_sst_size :: u64
  max_concurrent_compactions :: nat
  gc_min_age_secs :: u64
  object_store_cache_options :: ObjectStoreCacheOptions
  max_unflushed_bytes :: u64
  block_cache_capacity :: u64

text \<open>The object stores that the builders are given. All retry with the same policy.\<close>

datatype BlobStore = Azure string string string | Aws string string string string | Local string

definition cache_options :: "SlateDefaults \<Rightarrow> CacheConfig option \<Rightarrow> ObjectStoreCacheOptions" where
  "cache_options D conf =
     (case conf of
        Some cache \<Rightarrow>
          (case (root_folder cache, max_cache_size_gb cache) of
             (Some folder, Some gb) \<Rightarrow>
               (default_cache_options D)\<lparr>cache_root_folder := Some folder, max_cache_size_bytes := Some (gb * 1024 * 1024 * 1024)\<rparr>
           | (Some folder, None) \<Rightarrow> (default_cache_options D)\<lparr>cache_root_folder := Some folder\<rparr>
           | _ \<Rightarrow> default_cache_options D)
      | None \<Rightarrow> default_cache_options D)"

definition db_options :: "SlateDefaults \<Rightarrow> CacheConfig option \<Rightarrow> Settings" where
  "db_options D conf =
     (let memory_block_cache_mb =
            (case conf of Some c \<Rightarrow> memory_block_cache_capacity_mb c | None \<Rightarrow> DEFAULT_MEMORY_BLOCK_CACHE_CAPACITY_MB)
      in \<lparr>l0_sst_size_bytes = default_l0_sst_size_bytes D * 2, max_sst_size = default_max_sst_size D * 2, max_concurrent_compactions = 32,
          gc_min_age_secs = 60 * 60 * 12, object_store_cache_options = cache_options D conf, max_unflushed_bytes = 128 * 1024 * 1024,
          block_cache_capacity = memory_block_cache_mb * 1024 * 1024\<rparr>)"

definition blob_store :: "StorageConfig \<Rightarrow> string + BlobStore" where
  "blob_store conf =
     (if provider conf = ''azure''
      then (case azure conf of
              None \<Rightarrow> Inl (''Azure configuration is required when provider is '' @ quoted ''azure'')
            | Some c \<Rightarrow> Inr (Azure (azure_account c) (azure_access_key c) (azure_container_name c)))
      else if provider conf = ''aws''
      then (case aws conf of
              None \<Rightarrow> Inl (''AWS configuration is required when provider is '' @ quoted ''aws'')
            | Some c \<Rightarrow> Inr (Aws (aws_region c) (aws_bucket c) (aws_access_key_id c) (aws_secret_access_key c)))
      else if provider conf = ''local''
      then (case local_storage conf of
              None \<Rightarrow> Inl (''Local configuration is required when provider is '' @ quoted ''local'')
            | Some c \<Rightarrow> Inr (Local (local_path c)))
      else Inl (''Unsupported storage provider: '' @ provider conf))"

definition initialize_storage ::
  "(BlobStore \<Rightarrow> string + 'o) \<Rightarrow> (string \<Rightarrow> 'o \<Rightarrow> Settings \<Rightarrow> string + 'db) \<Rightarrow> SlateDefaults \<Rightarrow> StorageConfig \<Rightarrow> CacheConfig option
    \<Rightarrow> string + 'db \<times> string \<times> 'o" where
  "initialize_storage build open_db D conf caches =
     (case blob_store conf of
        Inl e \<Rightarrow> Inl e
      | Inr b \<Rightarrow>
          (case build b of
             Inl e \<Rightarrow> Inl e
           | Inr obj \<Rightarrow>
               (case open_db ''ct_log'' obj (db_options D caches) of
                  Inl e \<Rightarrow> Inl (''Failed to open database: '' @ e)
                | Inr db \<Rightarrow> Inr (db, ''ct_log'', obj))))"

section \<open>Validation\<close>

definition parse_ccadb :: "string option \<Rightarrow> string + CcadbEnvironment" where
  "parse_ccadb setting =
     (case setting of
        Some name \<Rightarrow>
          if to_lowercase name = ''production'' then Inr Production
          else if to_lowercase name = ''test'' then Inr Test
          else Inl (''Invalid CCADB environment '' @ quoted name @ ''. Must be '' @ quoted ''Production'' @ '' or '' @ quoted ''Test'')
      | None \<Rightarrow> Inl ''CCADB environment must be specified when validation is enabled'')"

definition parse_window :: "'k StartEnv \<Rightarrow> ValidationConfig \<Rightarrow> string + TemporalWindow option" where
  "parse_window A conf =
     (case (temporal_window_start conf, temporal_window_end conf) of
        (Some start, Some ending) \<Rightarrow>
          (case parse_from_rfc3339 A start of
             Inl e \<Rightarrow> Inl (''Failed to parse temporal_window_start: '' @ e)
           | Inr start_dt \<Rightarrow>
               (case parse_from_rfc3339 A ending of
                  Inl e \<Rightarrow> Inl (''Failed to parse temporal_window_end: '' @ e)
                | Inr end_dt \<Rightarrow> Inr (Some \<lparr>window_start = start_dt, window_end = end_dt\<rparr>)))
      | _ \<Rightarrow> Inr None)"

definition rfc6962_config :: "'k StartEnv \<Rightarrow> ValidationConfig \<Rightarrow> string + Rfc6962ValidationConfig" where
  "rfc6962_config A conf =
     (case parse_ccadb (config_ccadb conf) of
        Inl e \<Rightarrow> Inl e
      | Inr env \<Rightarrow>
          (case parse_window A conf of
             Inl e \<Rightarrow> Inl e
           | Inr window \<Rightarrow>
               Inr (Rfc6962ValidationConfig_default\<lparr>trusted_roots_dir := config_trusted_roots_dir conf, ccadb := env,
                 max_chain_length := (case config_max_chain_length conf of Some n \<Rightarrow> n | None \<Rightarrow> 10), temporal_window := window\<rparr>)))"

definition load_roots :: "CcadbEnv \<Rightarrow> 'f FsOps \<Rightarrow> string \<Rightarrow> ('f, RootCertificateStore) start_op" where
  "load_roots E F dir =
     map_err ct_error_display (zoom (\<lambda>f. \<lparr>root_store = RootCertificateStore_new, files = f\<rparr>) (\<lambda>s _. files s)
       (and_then (load_from_directory E F dir) (\<lambda>_. gets root_store)))"

definition setup_validation ::
  "'k StartEnv \<Rightarrow> CcadbEnv \<Rightarrow> 'f FsOps \<Rightarrow> ('c, 'x, 'kx) ValidatorEnv \<Rightarrow> ValidationConfig option
    \<Rightarrow> ('f, (Rfc6962Validator \<times> RootCertificateStore \<times> Rfc6962ValidationConfig) option) start_op" where
  "setup_validation A E F W conf =
     (case conf of
        Some vc \<Rightarrow>
          if \<not> enabled vc then ret None
          else
            and_then (of_result (rfc6962_config A vc)) (\<lambda>rfc_config.
            and_then (load_roots E F (trusted_roots_dir rfc_config)) (\<lambda>root_certs.
            and_then (map_err ct_error_display (of_result (with_trusted_roots W rfc_config (get_all_certificates E root_certs)))) (\<lambda>val.
            ret (Some (val, root_certs, rfc_config)))))
      | None \<Rightarrow> ret None)"

section \<open>The server\<close>

definition open_tree ::
  "(SlateDBError \<Rightarrow> string) \<Rightarrow> ('db, 'nc, 'tc) TreeEnv \<Rightarrow> 'nc \<Rightarrow> 'tc \<Rightarrow> 'db \<Rightarrow> ('f, ('db, 'nc, 'tc) Tree) start_op" where
  "open_tree dbg T nc tc db f =
     (case ms_new dbg T \<lparr>tree_db = RateLimitedDb_new db, node_cache = nc, tile_cache = tc\<rparr> of
        (Inl (Err e), _) \<Rightarrow> (Inl (Err (ct_error_display e)), f)
      | (Inl Panic, _) \<Rightarrow> (Inl Panic, f)
      | (Inr _, t) \<Rightarrow> (Inr t, f))"

record ('s, 't) Started =
  api_state :: "'s ApiState"
  log_tree :: 't
  ccadb_worker :: "(CcadbWorker \<times> RootCertificateStore) option"
  listen_addr :: string

definition start_worker :: "Rfc6962Validator option \<Rightarrow> (Rfc6962Validator \<times> RootCertificateStore \<times> Rfc6962ValidationConfig) option
    \<Rightarrow> (CcadbWorker \<times> RootCertificateStore) option" where
  "start_worker val context =
     (case (val, context) of
        (Some _, Some (_, root_certs, conf)) \<Rightarrow>
          Some (with_validator conf (CcadbWorker_new (ccadb conf) (trusted_roots_dir conf)), root_certs)
      | _ \<Rightarrow> None)"

definition main_start ::
  "'k StartEnv \<Rightarrow> CcadbEnv \<Rightarrow> 'f FsOps \<Rightarrow> ('c, 'x, 'kx) ValidatorEnv \<Rightarrow> 's ApiEnv \<Rightarrow> (SlateDBError \<Rightarrow> string) \<Rightarrow> ('db, 'nc, 'tc) TreeEnv \<Rightarrow> 'nc \<Rightarrow> 'tc
    \<Rightarrow> (BlobStore \<Rightarrow> string + 'o) \<Rightarrow> (string \<Rightarrow> 'o \<Rightarrow> Settings \<Rightarrow> string + 'db) \<Rightarrow> SlateDefaults \<Rightarrow> 'k
    \<Rightarrow> ('f, ('s, ('db, 'nc, 'tc) Tree) Started) start_op" where
  "main_start A E F W P dbg T nc tc build open_db D new_key =
     and_then (load_config A F new_key) (\<lambda>conf.
     and_then (of_result (initialize_storage build open_db D (storage_config conf) (cache_config conf))) (\<lambda>(db, _, _).
     and_then (load_private_key A F (private_key_path (keys_config conf))) (\<lambda>private_key.
     and_then (derive_public_key_der_from_p256 A private_key) (\<lambda>pub_der.
     let lid = LogId_new (start_sha256 A) pub_der in
     and_then (open_tree dbg T nc tc db) (\<lambda>tree.
     and_then (setup_validation A E F W (app_validation conf)) (\<lambda>context.
     and_then (map_err ct_error_display (of_result (ApiState_new P lid (secret_key_bytes A private_key) pub_der
       (server_base_url (server_config conf)) (map_option fst context)))) (\<lambda>state.
     ret \<lparr>api_state = state, log_tree = tree, ccadb_worker = start_worker (validator state) context,
       listen_addr = bind_addr (server_config conf)\<rparr>)))))))"

text \<open>The task of the worker: an update at once, then the periodic ones.\<close>

definition ccadb_task ::
  "CcadbEnv \<Rightarrow> 'f FsOps \<Rightarrow> ('c, 'x, 'k) ValidatorEnv \<Rightarrow> CcadbWorker \<Rightarrow> (string \<Rightarrow> Download) \<Rightarrow> (string \<Rightarrow> Download) list \<Rightarrow> ('f, unit) ccadb_op" where
  "ccadb_task E F W self at_start downloads =
     and_then (attempt (update_roots E F W self at_start)) (\<lambda>_. run_periodic E F W self downloads)"

end
