(* ===== verification/Root_Files.thy ===== *)
theory Root_Files
  imports Ccadb Validator_Props
begin

text \<open>
  Files in memory, and codecs that the kernel can run, for the concrete runs of the root store and of the start-up: certificates are named by
  their encoding, PEM wraps the bytes as characters, a hash pads with zeros, and a report has one record per semicolon.
\<close>

section \<open>Files\<close>

definition file_name :: "string \<Rightarrow> bool" where
  "file_name n \<longleftrightarrow> n \<noteq> [] \<and> CHR ''/'' \<notin> set n"

definition mem_roots_dir :: string where
  "mem_roots_dir = ''trusted_roots''"

text \<open>Whether the directory of the roots exists, and the files by their paths.\<close>

type_synonym mem_files = "bool \<times> (string \<times> string) list"

definition listing :: "string \<Rightarrow> (string \<times> string) list \<Rightarrow> (string \<times> bool) list" where
  "listing d fs = map (\<lambda>(p, _). (drop (length d) p, True)) (filter (\<lambda>(p, _). starts_with p d \<and> file_name (drop (length d) p)) fs)"

definition mem_fs :: "mem_files FsOps" where
  "mem_fs =
     \<lparr>fs_exists = (\<lambda>p f. p = mem_roots_dir \<and> fst f \<or> map_of (snd f) p \<noteq> None),
      fs_read_dir = (\<lambda>dir f. Inr (map Inr (listing (dir @ ''/'') (snd f)))),
      fs_read = (\<lambda>p f. case map_of (snd f) p of Some t \<Rightarrow> Inr t | None \<Rightarrow> Inl ''not found''),
      fs_create_dir_all = (\<lambda>p f. (Inr (), (fst f \<or> p = mem_roots_dir, snd f))),
      fs_write = (\<lambda>p t f. (Inr (), (fst f, (p, t) # snd f)))\<rparr>"

section \<open>Codecs\<close>

definition pem_begin :: string where
  "pem_begin = ''-----BEGIN CERTIFICATE-----'' @ [newline]"

definition pem_end :: string where
  "pem_end = [newline] @ ''-----END CERTIFICATE-----''"

definition mem_pem :: "bytes \<Rightarrow> string" where
  "mem_pem der = pem_begin @ map (\<lambda>b. char_of (unat b)) der @ pem_end"

definition mem_unpem :: "string \<Rightarrow> string + string \<times> bytes" where
  "mem_unpem t =
     (if take (length pem_begin) t = pem_begin \<and> drop (length t - length pem_end) t = pem_end
      then Inr (''CERTIFICATE'', ascii (take (length t - length pem_begin - length pem_end) (drop (length pem_begin) t)))
      else Inl ''no PEM'')"

definition hex_digits :: string where
  "hex_digits = ''0123456789abcdef''"

definition mem_hex :: "bytes \<Rightarrow> string" where
  "mem_hex bs = concat (map (\<lambda>b. [hex_digits ! (unat b div 16), hex_digits ! (unat b mod 16)]) bs)"

definition mem_root_x509 :: X509Ops where
  "mem_root_x509 = toy_x509\<lparr>cert_from_der := (\<lambda>der. Inr (toy_cert der der [])), cert_to_der := (\<lambda>c. Inr (subject (tbs_certificate c)))\<rparr>"

definition root_env :: CcadbEnv where
  "root_env =
     \<lparr>csv_records = (\<lambda>t. map (\<lambda>l. Inr (str_split (CHR '','') l)) (tl (str_split (CHR '';'') t))),
      pem_decode = mem_unpem, pem_encode = (\<lambda>_ der. Inr (mem_pem der)),
      name_string = map (\<lambda>b. char_of (unat b)), hex_encode = mem_hex, map_order = rev,
      root_x509 = mem_root_x509, root_sha256 = (\<lambda>der. take 32 (der @ replicate 32 0))\<rparr>"

definition root_venv :: "(bytes \<rightharpoonup> bytes, bytes, bytes) ValidatorEnv" where
  "root_venv = toy_venv\<lparr>der_ops := mem_root_x509\<rparr>"

text \<open>A report with one root, the certificate encoded by the byte 65.\<close>

definition root_report :: string where
  "root_report = ''Subject;Root A,Owner,'' @ mem_pem [65] @ '',41'' @ replicate 62 (CHR ''0'')"

definition root_config :: Rfc6962ValidationConfig where
  "root_config = Rfc6962ValidationConfig_default"

definition root_worker :: CcadbWorker where
  "root_worker = with_validator root_config (CcadbWorker_new Test mem_roots_dir)"

definition root_state :: "mem_files CcadbState" where
  "root_state = \<lparr>root_store = [], files = (False, []), shared_validator = projr (with_trusted_roots root_venv root_config [])\<rparr>"

definition root_download :: "string \<Rightarrow> Download" where
  "root_download url = (if url = CCADB_TEST_URL then Responded True ''200 OK'' (Inr root_report) else RequestFailed ''no host'')"

lemma unat_u8: "unat (b :: u8) < 256"
  using unsigned_less [of b, where ?'a = nat] by simp

lemma mem_unpem_pem: "mem_unpem (mem_pem der) = Inr (''CERTIFICATE'', der)"
proof -
  have "(of_char (char_of (unat b)) :: u8) = b" for b
    using of_nat_of_char [of "char_of (unat b)", where ?'a = u8] by (simp add: unat_u8)
  then have "ascii (map (\<lambda>b. char_of (unat b)) der) = der" by (simp add: ascii_def o_def)
  then show ?thesis by (simp add: mem_unpem_def mem_pem_def)
qed

lemma mem_hex_shape: "length (mem_hex bs) = 2 * length bs" "set (mem_hex bs) \<subseteq> set hex_digits"
proof -
  show "length (mem_hex bs) = 2 * length bs" by (induction bs) (simp_all add: mem_hex_def)
  have "hex_digits ! n \<in> set hex_digits" if "n < 16" for n using that by (intro nth_mem) (simp add: hex_digits_def)
  moreover have "unat b div 16 < 16" "unat b mod 16 < 16" for b :: u8 using unat_u8 [of b] by simp_all
  ultimately show "set (mem_hex bs) \<subseteq> set hex_digits" unfolding mem_hex_def by auto
qed

end
