(* ===== verification/Ccadb_Props.thy ===== *)
theory Ccadb_Props
  imports Root_Files "HOL-Library.Multiset"
begin

text \<open>
  What the root store and its worker promise: every entry is filed under the fingerprint of the certificate it holds, entries are only
  ever added, the set of roots the validator trusts never shrinks, a CCADB report contributes exactly the certificates whose stated
  fingerprint is the right one, and what was written to the directory is what a restarted server reads from it.
\<close>

section \<open>Operations that relate their states by a preorder\<close>

definition relates :: "('s \<Rightarrow> 's \<Rightarrow> bool) \<Rightarrow> ('s, 'e, 'a) io \<Rightarrow> bool" where
  "relates R m \<longleftrightarrow> (\<forall>s. R s (snd (m s)))"

lemma relatesD: "relates R m \<Longrightarrow> m s = (r, s') \<Longrightarrow> R s s'"
  unfolding relates_def by (metis snd_conv)

locale state_preorder =
  fixes R :: "'s \<Rightarrow> 's \<Rightarrow> bool"
  assumes refl_R: "R s s" and trans_R: "R s t \<Longrightarrow> R t u \<Longrightarrow> R s u"
begin

lemma relates_pure: "relates R (ret a)" "relates R (raise e)" "relates R panic" "relates R (gets g)" "relates R (of_result x)"
  by (simp_all add: relates_def ret_def raise_def panic_def gets_def of_result_def refl_R split: sum.split)

lemma relates_modify: "(\<And>s. R s (f s)) \<Longrightarrow> relates R (modify f)"
  by (simp add: relates_def modify_def)

lemma relates_and_then: "relates R m \<Longrightarrow> (\<And>a. relates R (f a)) \<Longrightarrow> relates R (and_then m f)"
proof -
  assume m: "relates R m" and f: "\<And>a. relates R (f a)"
  have "R s (snd (and_then m f s))" for s
  proof (cases "m s")
    case (Pair r t)
    with m have "R s t" by (rule relatesD)
    moreover have "R t (snd (f a t))" for a using f by (simp add: relates_def)
    ultimately show ?thesis using Pair trans_R by (cases r) (auto simp: and_then_def)
  qed
  then show ?thesis by (simp add: relates_def)
qed

lemma relates_map_err: "relates R m \<Longrightarrow> relates R (map_err g m)"
  unfolding relates_def map_err_def by (auto split: prod.split sum.split exc.split) (metis snd_conv)+

lemma relates_attempt: "relates R m \<Longrightarrow> relates R (attempt m)"
  unfolding relates_def attempt_def by (auto split: prod.split sum.split exc.split) (metis snd_conv)+

lemma relates_fold_io: "(\<And>x a. relates R (f x a)) \<Longrightarrow> relates R (fold_io f xs a)"
  by (induction xs arbitrary: a) (simp_all add: relates_pure relates_and_then)

lemmas relates_rules = relates_pure relates_and_then relates_map_err relates_attempt relates_fold_io

end

section \<open>Well-formed stores\<close>

text \<open>The iterators of a hash map visit every binding once, in some order.\<close>

definition map_iterates :: "CcadbEnv \<Rightarrow> bool" where
  "map_iterates E \<longleftrightarrow> (\<forall>certs. mset (map_order E certs) = mset certs)"

lemma map_order_set: "map_iterates E \<Longrightarrow> set (map_order E certs) = set certs"
  unfolding map_iterates_def by (metis set_mset_mset)

text \<open>Distinct keys, each the fingerprint of an encoding of the certificate it leads to.\<close>

definition entry_ok :: "CcadbEnv \<Rightarrow> string \<times> CcadbRootEntry \<Rightarrow> bool" where
  "entry_ok E b \<longleftrightarrow>
     root_fingerprint (snd b) = fst b \<and>
     (\<exists>der. cert_from_der (root_x509 E) der = Inr (root_certificate (snd b)) \<and> fingerprint_of E der = fst b)"

definition store_ok :: "CcadbEnv \<Rightarrow> RootCertificateStore \<Rightarrow> bool" where
  "store_ok E certs \<longleftrightarrow> distinct (map fst certs) \<and> list_all (entry_ok E) certs"

definition store_roots :: "RootCertificateStore \<Rightarrow> Certificate set" where
  "store_roots certs = root_certificate ` snd ` set certs"

text \<open>The validator is one that \<^verbatim>\<open>with_trusted_roots\<close> built, and its roots are in the store.\<close>

definition ccadb_ok :: "CcadbEnv \<Rightarrow> ('c, 'x, 'k) ValidatorEnv \<Rightarrow> 'f CcadbState \<Rightarrow> bool" where
  "ccadb_ok E W s \<longleftrightarrow>
     store_ok E (root_store s) \<and>
     (let v = shared_validator s in
      with_trusted_roots W (v_config v) (trusted_roots v) = Inr v \<and> set (trusted_roots v) \<subseteq> store_roots (root_store s))"

definition roots_grow :: "CcadbEnv \<Rightarrow> ('c, 'x, 'k) ValidatorEnv \<Rightarrow> 'f CcadbState \<Rightarrow> 'f CcadbState \<Rightarrow> bool" where
  "roots_grow E W s s' \<longleftrightarrow>
     (\<exists>added. root_store s' = root_store s @ added) \<and>
     (ccadb_ok E W s \<longrightarrow>
        ccadb_ok E W s' \<and> set (trusted_roots (shared_validator s)) \<subseteq> set (trusted_roots (shared_validator s')))"

interpretation growth: state_preorder "roots_grow E W" for E W
  by unfold_locales (auto simp: roots_grow_def)

text \<open>What a directory entry and what a CSV record contribute.\<close>

definition file_root :: "CcadbEnv \<Rightarrow> 'f FsOps \<Rightarrow> string \<Rightarrow> 'f \<Rightarrow> string \<times> bool \<Rightarrow> (string \<times> CcadbRootEntry) option" where
  "file_root E F dir f b =
     (if snd b \<and> path_extension (fst b) = Some ''pem''
      then
        case_sum Map.empty (\<lambda>(cert, fp). Some (fp, \<lparr>root_subject = name_string E (subject (tbs_certificate cert)),
          root_ca_owner = ''Local'', root_certificate = cert, root_fingerprint = fp\<rparr>))
          (load_pem_certificate E F (path_join dir (fst b)) f)
      else None)"

definition record_certificate :: "CcadbEnv \<Rightarrow> string list \<Rightarrow> (Certificate \<times> string) option" where
  "record_certificate E rec =
     Option.bind (if csv_field rec 2 = [] then None else marked_pem (cleaned_pem (csv_field rec 2))) (\<lambda>pem.
     Option.bind (case pem_decode E pem of Inr (label, der) \<Rightarrow> if label = ''CERTIFICATE'' then Some der else None | Inl _ \<Rightarrow> None) (\<lambda>der.
     case cert_from_der (root_x509 E) der of Inr cert \<Rightarrow> Some (cert, fingerprint_of E der) | Inl _ \<Rightarrow> None))"

definition record_root :: "CcadbEnv \<Rightarrow> string list \<Rightarrow> (string \<times> CcadbRootEntry) option" where
  "record_root E rec =
     (case record_certificate E rec of
        Some (cert, fp) \<Rightarrow>
          if to_uppercase (filter (\<lambda>c. c \<noteq> CHR '':'') (csv_field rec 3)) = fp
          then Some (fp, \<lparr>root_subject = csv_field rec 0, root_ca_owner = csv_field rec 1, root_certificate = cert, root_fingerprint = fp\<rparr>)
          else None
      | None \<Rightarrow> None)"

definition insert_root :: "(string \<times> CcadbRootEntry) option \<Rightarrow> RootCertificateStore \<Rightarrow> RootCertificateStore" where
  "insert_root x certs = (case x of None \<Rightarrow> certs | Some (fp, e) \<Rightarrow> insert_new fp e certs)"

lemma load_file_root: "load_file E F dir b f certs = insert_root (file_root E F dir f b) certs"
  by (cases b) (auto simp: load_file_def file_root_def insert_root_def split: sum.split)

lemma add_record_root: "add_record E rec certs = insert_root (record_root E rec) certs"
  unfolding add_record_def record_root_def record_certificate_def insert_root_def Let_def
  by (auto split: sum.split option.split)

lemma file_root_ok: "file_root E F dir f b = Some x \<Longrightarrow> entry_ok E x"
  by (auto simp: file_root_def load_pem_certificate_def entry_ok_def split: sum.splits if_splits)

lemma record_root_ok: "record_root E rec = Some x \<Longrightarrow> entry_ok E x"
  by (fastforce simp: record_root_def record_certificate_def entry_ok_def
    split: option.splits if_splits sum.splits bind_splits)

lemma insert_root_ext: "\<exists>added. insert_root x certs = certs @ added"
  by (simp add: insert_root_def insert_new_def split: option.split)

lemma insert_root_ok:
  assumes "store_ok E certs" "\<And>b. x = Some b \<Longrightarrow> entry_ok E b"
  shows "store_ok E (insert_root x certs)"
  using assms by (auto simp: store_ok_def insert_root_def insert_new_def map_of_eq_None_iff split: option.split)

lemma roots_grow_insert:
  assumes "\<And>b. x = Some b \<Longrightarrow> entry_ok E b"
  shows "roots_grow E W s (s\<lparr>root_store := insert_root x (root_store s)\<rparr>)"
proof -
  obtain added where added: "insert_root x (root_store s) = root_store s @ added" using insert_root_ext by metis
  have "store_ok E (root_store s @ added)" if "store_ok E (root_store s)"
    using insert_root_ok [OF that, of x] assms added by simp
  moreover have "store_roots (root_store s) \<subseteq> store_roots (root_store s @ added)" by (auto simp: store_roots_def)
  ultimately show ?thesis by (auto simp: roots_grow_def ccadb_ok_def Let_def added)
qed

lemma roots_grow_files: "roots_grow E W s (s\<lparr>files := f\<rparr>)"
  by (simp add: roots_grow_def ccadb_ok_def)

lemma load_entries_grows: "relates (roots_grow E W) (load_entries E F dir rs)"
proof (induction rs)
  case (Cons r rs)
  have "roots_grow E W s (s\<lparr>root_store := load_file E F dir b (files s) (root_store s)\<rparr>)" for s b
    unfolding load_file_root by (rule roots_grow_insert) (rule file_root_ok)
  then show ?case
    using Cons by (auto split: sum.split intro!: growth.relates_rules growth.relates_modify)
qed (simp add: growth.relates_pure)

lemma load_entries_store:
  "store_ok E (root_store s) \<Longrightarrow> load_entries E F dir rs s = (r, s') \<Longrightarrow> store_ok E (root_store s')"
proof (induction rs arbitrary: s)
  case (Cons x xs)
  show ?case
  proof (cases x)
    case (Inr b)
    let ?s = "s\<lparr>root_store := insert_root (file_root E F dir (files s) b) (root_store s)\<rparr>"
    have "store_ok E (root_store ?s)" using insert_root_ok [OF Cons.prems(1)] file_root_ok [of E F dir "files s" b] by simp
    moreover have "load_entries E F dir xs ?s = (r, s')" using Cons.prems(2) Inr by (simp add: modify_def and_then_def load_file_root)
    ultimately show ?thesis by (rule Cons.IH)
  qed (use Cons.prems in \<open>auto simp: raise_def\<close>)
qed (simp add: ret_def)

lemma load_from_directory_store:
  "load_from_directory E F dir s = (r, s') \<Longrightarrow> store_ok E (root_store s) \<Longrightarrow> store_ok E (root_store s')"
  using load_entries_store by (fastforce simp: load_from_directory_def and_then_def gets_def ret_def raise_def split: if_splits sum.splits)

lemma load_from_directory_grows: "relates (roots_grow E W) (load_from_directory E F dir)"
  unfolding load_from_directory_def
  by (auto split: sum.split intro!: growth.relates_rules load_entries_grows)

lemma add_records_grows: "relates (roots_grow E W) (add_records E rs)"
proof (induction rs)
  case (Cons r rs)
  have "roots_grow E W s (s\<lparr>root_store := add_record E rec (root_store s)\<rparr>)" for s rec
    unfolding add_record_root by (rule roots_grow_insert) (rule record_root_ok)
  then show ?case
    using Cons by (auto split: sum.split intro!: growth.relates_rules growth.relates_modify)
qed (simp add: growth.relates_pure)

text \<open>Writing the directory changes the file system only.\<close>

definition same_roots :: "'f CcadbState \<Rightarrow> 'f CcadbState \<Rightarrow> bool" where
  "same_roots s s' \<longleftrightarrow> (\<exists>f. s' = s\<lparr>files := f\<rparr>)"

lemma same_roots_iff: "same_roots (s :: 'f CcadbState) s' \<longleftrightarrow> root_store s' = root_store s \<and> shared_validator s' = shared_validator s"
  by (cases s; cases s') (simp add: same_roots_def)

interpretation frame: state_preorder same_roots
  by unfold_locales (simp_all add: same_roots_iff)

lemma persist_frame: "relates same_roots (persist_to_directory E F dir)"
proof -
  have fs: "relates same_roots (zoom files (\<lambda>f s. s\<lparr>files := f\<rparr>) m)" for m :: "('a, 'e, unit) io"
    unfolding relates_def zoom_def by (auto split: prod.split simp: same_roots_iff)
  have "relates same_roots (persist_entry E F dir b)" for b
    unfolding persist_entry_def Let_def by (auto split: prod.split intro!: frame.relates_rules fs)
  then show ?thesis
    unfolding persist_to_directory_def by (auto intro!: frame.relates_rules fs)
qed

lemma persist_grows: "relates (roots_grow E W) (persist_to_directory E F dir)"
  using persist_frame roots_grow_files unfolding relates_def same_roots_def by metis

lemma store_roots_all:
  assumes "map_iterates E"
  shows "set (get_all_certificates E certs) = store_roots certs"
  using map_order_set [OF assms, of certs] by (force simp: get_all_certificates_def store_roots_def image_image)

lemma with_trusted_roots_fields:
  assumes "with_trusted_roots W conf roots = Inr v"
  shows "v_config v = conf" "trusted_roots v = roots"
  using assms by (auto simp: with_trusted_roots_def split: sum.splits)

lemma replace_validator_grows:
  assumes "map_iterates E"
  shows "roots_grow E W s (replace_validator E W conf s)"
  using store_roots_all [OF assms, of "root_store s"]
  by (auto simp: replace_validator_def roots_grow_def ccadb_ok_def Let_def with_trusted_roots_fields split: sum.split)

lemma update_roots_grows:
  assumes "map_iterates E"
  shows "relates (roots_grow E W) (update_roots E F W self http_get)"
  unfolding update_roots_def add_from_ccadb_csv_def
  by (auto split: option.split intro!: growth.relates_rules growth.relates_modify replace_validator_grows assms add_records_grows persist_grows)

section \<open>Histories of the store\<close>

text \<open>Loading a directory, an update of a worker, and changes of the file system by others.\<close>

inductive ccadb_step :: "CcadbEnv \<Rightarrow> 'f FsOps \<Rightarrow> ('c, 'x, 'k) ValidatorEnv \<Rightarrow> 'f CcadbState \<Rightarrow> 'f CcadbState \<Rightarrow> bool" for E F W where
  load: "load_from_directory E F dir s = (r, s') \<Longrightarrow> ccadb_step E F W s s'"
| update: "update_roots E F W self http_get s = (r, s') \<Longrightarrow> ccadb_step E F W s s'"
| periodic: "run_periodic E F W self downloads s = (r, s') \<Longrightarrow> ccadb_step E F W s s'"
| other: "ccadb_step E F W s (s\<lparr>files := f\<rparr>)"

lemma run_periodic_grows:
  assumes "map_iterates E"
  shows "relates (roots_grow E W) (run_periodic E F W self downloads)"
  by (induction downloads) (auto intro!: growth.relates_rules update_roots_grows assms)

lemma ccadb_step_grows:
  assumes "ccadb_step E F W s s'" "map_iterates E"
  shows "roots_grow E W s s'"
  using assms(1)
proof cases
  case (load dir r)
  then show ?thesis using load_from_directory_grows relatesD by metis
next
  case (update self http_get r)
  then show ?thesis using update_roots_grows [OF assms(2)] relatesD by metis
next
  case (periodic self downloads r)
  then show ?thesis using run_periodic_grows [OF assms(2)] relatesD by metis
qed (simp add: roots_grow_files)

lemma ccadb_steps_grow:
  assumes "(ccadb_step E F W)\<^sup>*\<^sup>* s s'" "map_iterates E"
  shows "roots_grow E W s s'"
  using assms(1)
proof induction
  case (step t u)
  then show ?case using ccadb_step_grows [OF step.hyps(2) assms(2)] growth.trans_R by blast
qed (simp add: growth.refl_R)

text \<open>C22: Along any history of directory loads, CCADB updates (failed and panicking ones too) and foreign changes to the files, the root
  store stays well-formed: one entry per fingerprint, and each filed under the SHA-256 fingerprint of a DER encoding of the certificate
  it holds. Entries are only added, the shared validator is always one built from certificates of the store, and the set of roots it
  trusts never shrinks.
\<close>

theorem root_store_well_formed:
  assumes "map_iterates E"
    and "(ccadb_step E F W)\<^sup>*\<^sup>* s s'" "ccadb_ok E W s"
  shows "ccadb_ok E W s' \<and> (\<exists>added. root_store s' = root_store s @ added) \<and>
    set (trusted_roots (shared_validator s)) \<subseteq> set (trusted_roots (shared_validator s'))"
  using ccadb_steps_grow [OF assms(2,1)] assms(3) by (simp add: roots_grow_def)

text \<open>An update from the report with one root, started with no roots.\<close>

definition root_updated :: "mem_files CcadbState" where
  "root_updated = snd (update_roots root_env mem_fs root_venv root_worker root_download root_state)"

lemma root_iterates: "map_iterates root_env"
  by (simp add: map_iterates_def root_env_def)

lemma root_state_ok: "ccadb_ok root_env root_venv root_state"
  by (simp add: ccadb_ok_def store_ok_def root_state_def with_trusted_roots_def)

lemma root_run: "update_roots root_env mem_fs root_venv root_worker root_download root_state = (Inr (), root_updated)"
proof -
  have "fst (update_roots root_env mem_fs root_venv root_worker root_download root_state) = Inr ()" by code_simp
  then show ?thesis by (simp add: root_updated_def prod_eq_iff)
qed

theorem root_store_well_formed_witness:
  "map fst (root_store root_updated) = [''41'' @ replicate 62 (CHR ''0'')] \<and> ccadb_ok root_env root_venv root_updated \<and>
    (\<exists>added. root_store root_updated = root_store root_state @ added) \<and>
    set (trusted_roots (shared_validator root_state)) \<subseteq> set (trusted_roots (shared_validator root_updated))"
proof -
  have "(ccadb_step root_env mem_fs root_venv)\<^sup>*\<^sup>* root_state root_updated"
    by (rule r_into_rtranclp) (rule ccadb_step.update [OF root_run])
  moreover have "map fst (root_store root_updated) = [''41'' @ replicate 62 (CHR ''0'')]" by code_simp
  ultimately show ?thesis using root_store_well_formed [OF root_iterates _ root_state_ok] by blast
qed

section \<open>What a report contributes\<close>

text \<open>The records before the first one that cannot be read, and the roots they describe.\<close>

definition report_records :: "CcadbEnv \<Rightarrow> string \<Rightarrow> string list list" where
  "report_records E csv = map projr (takeWhile (\<lambda>r. \<not> isl r) (csv_records E csv))"

definition report_roots :: "CcadbEnv \<Rightarrow> string \<Rightarrow> (string \<times> CcadbRootEntry) list" where
  "report_roots E csv = List.map_filter (record_root E) (report_records E csv)"

lemma insert_root_map: "map_of (insert_root x certs) = map_of (case x of None \<Rightarrow> [] | Some b \<Rightarrow> [b]) ++ map_of certs"
  by (auto simp: insert_root_def insert_new_def map_add_def fun_eq_iff split: option.split)

lemma fold_insert_root_map: "map_of (fold (\<lambda>x. insert_root (g x)) xs certs) = map_of (List.map_filter g xs) ++ map_of certs"
proof (induction xs arbitrary: certs)
  case (Cons x xs)
  show ?case
    by (simp add: Cons insert_root_map map_add_assoc map_filter_simps split: option.split)
      (auto simp: map_add_def fun_eq_iff split: option.split)
qed (simp add: map_filter_simps)

lemma add_records_run:
  "add_records E rs s =
     ((case dropWhile (\<lambda>r. \<not> isl r) rs of [] \<Rightarrow> Inr () | r # _ \<Rightarrow> Inl (Err (Internal (''Failed to parse CSV record: '' @ projl r)))),
      s\<lparr>root_store := fold (\<lambda>rec. insert_root (record_root E rec)) (map projr (takeWhile (\<lambda>r. \<not> isl r) rs)) (root_store s)\<rparr>)"
  by (induction rs arbitrary: s) (auto simp: ret_def raise_def modify_def and_then_def add_record_root split: sum.split)

lemma add_from_ccadb_csv_map:
  assumes "add_from_ccadb_csv E csv s = (r, s')"
  shows "map_of (root_store s') = map_of (report_roots E csv) ++ map_of (root_store s)"
    and "shared_validator s' = shared_validator s"
    and "r = Inr () \<longleftrightarrow> list_all (\<lambda>r. \<not> isl r) (csv_records E csv)"
proof -
  have none: "dropWhile (\<lambda>r. \<not> isl r) (csv_records E csv) = [] \<longleftrightarrow> list_all (\<lambda>r. \<not> isl r) (csv_records E csv)"
    by (simp add: dropWhile_eq_Nil_conv list_all_iff)
  show "r = Inr () \<longleftrightarrow> list_all (\<lambda>r. \<not> isl r) (csv_records E csv)"
    using assms unfolding none [symmetric] by (auto simp: add_from_ccadb_csv_def add_records_run simp del: dropWhile_eq_Nil_conv split: list.splits)
qed (use assms fold_insert_root_map [of "record_root E" "report_records E csv" "root_store s"] in
  \<open>auto simp: add_from_ccadb_csv_def add_records_run report_records_def report_roots_def\<close>)

text \<open>C23: A CCADB update either fails before it touched anything, or leaves in the store what was there together with exactly the reported
  certificates: the readable records whose PEM text, after cleaning, decodes to a certificate with the fingerprint that the record
  states; existing entries win, then earlier records. When it succeeds, every record was readable and the validator that the server
  uses is the one for all certificates of the store, if one can be built; when it fails, the validator is the old one.
\<close>

theorem update_roots_effect:
  assumes "map_iterates E" "update_roots E F W self http_get s = (r, s')"
  shows "case downloaded (http_get (ccadb_url (environment self))) of
      Inl e \<Rightarrow> r = Inl (Err e) \<and> s' = s
    | Inr csv \<Rightarrow>
        map_of (root_store s') = map_of (report_roots E csv) ++ map_of (root_store s) \<and>
        (r = Inr () \<longrightarrow> list_all (\<lambda>x. \<not> isl x) (csv_records E csv) \<and>
          (\<forall>conf v. updates_validator self \<and> validation_config self = Some conf \<and>
             with_trusted_roots W conf (get_all_certificates E (root_store s')) = Inr v \<longrightarrow>
             shared_validator s' = v \<and> set (trusted_roots v) = store_roots (root_store s'))) \<and>
        (r \<noteq> Inr () \<longrightarrow> shared_validator s' = shared_validator s)"
proof (cases "downloaded (http_get (ccadb_url (environment self)))")
  case (Inl e)
  then show ?thesis using assms(2) by (simp add: update_roots_def raise_def)
next
  case (Inr csv)
  obtain r1 s1 where a: "add_from_ccadb_csv E csv s = (r1, s1)" by fastforce
  obtain r2 s2 where b: "persist_to_directory E F (roots_dir self) s1 = (r2, s2)" by fastforce
  note added = add_from_ccadb_csv_map [OF a]
  have kept: "root_store s2 = root_store s1" "shared_validator s2 = shared_validator s1"
    using relatesD [OF persist_frame b] by (simp_all add: same_roots_iff)
  consider (report) x where "r1 = Inl x" | (persist) x where "r1 = Inr ()" "r2 = Inl x" | (ok) "r1 = Inr ()" "r2 = Inr ()"
    by (cases r1; cases r2) auto
  then show ?thesis
  proof cases
    case report
    with Inr a assms(2) added show ?thesis by (auto simp: update_roots_def and_then_def)
  next
    case persist
    with Inr a b assms(2) added kept show ?thesis by (auto simp: update_roots_def and_then_def)
  next
    case ok
    define m :: "('a CcadbState, CtError, unit) io" where "m = (case validation_config self of
        Some conf \<Rightarrow> if updates_validator self then modify (replace_validator E W conf) else ret () | None \<Rightarrow> ret ())"
    have "m s2 = (r, s')" using Inr a b ok assms(2) unfolding m_def by (simp add: update_roots_def and_then_def)
    then have "root_store s' = root_store s2" "r = Inr ()"
      and v: "\<And>conf v. updates_validator self \<Longrightarrow> validation_config self = Some conf \<Longrightarrow>
        with_trusted_roots W conf (get_all_certificates E (root_store s2)) = Inr v \<Longrightarrow> shared_validator s' = v"
      unfolding m_def by (auto simp: ret_def modify_def replace_validator_def split: option.splits if_splits sum.splits)
    moreover have "set (trusted_roots v) = store_roots certs" if "with_trusted_roots W conf (get_all_certificates E certs) = Inr v" for conf v certs
      using with_trusted_roots_fields(2) [OF that] store_roots_all [OF assms(1)] by simp
    ultimately show ?thesis using added kept ok Inr by simp blast
  qed
qed

theorem update_roots_effect_witness:
  "map fst (report_roots root_env root_report) = [''41'' @ replicate 62 (CHR ''0'')] \<and>
    map_of (root_store root_updated) = map_of (report_roots root_env root_report) ++ map_of (root_store root_state) \<and>
    with_trusted_roots root_venv root_config (get_all_certificates root_env (root_store root_updated)) = Inr (shared_validator root_updated) \<and>
    set (trusted_roots (shared_validator root_updated)) = store_roots (root_store root_updated)"
proof -
  have d: "downloaded (root_download (ccadb_url (environment root_worker))) = Inr root_report" by code_simp
  have w: "updates_validator root_worker" "validation_config root_worker = Some root_config" by code_simp+
  have v: "with_trusted_roots root_venv root_config (get_all_certificates root_env (root_store root_updated)) = Inr (shared_validator root_updated)"
    by code_simp
  have "map fst (report_roots root_env root_report) = [''41'' @ replicate 62 (CHR ''0'')]" by code_simp
  with update_roots_effect [OF root_iterates root_run] d w v show ?thesis by simp
qed

end
