(* ===== verification/Ccadb_Persist.thy ===== *)
theory Ccadb_Persist
  imports Ccadb_Props
begin

text \<open>
  Persisting the root store and reading it back: the directory is a mirror of the store, one PEM file per root, and loading a mirror into
  an empty store gives the same certificates under the same fingerprints.
\<close>

section \<open>What is assumed of the file system and the codecs\<close>

text \<open>\<open>content f n\<close> is the content of the file \<open>n\<close> of the directory; the operations on it do not fail.\<close>

definition directory_ok :: "'f FsOps \<Rightarrow> string \<Rightarrow> ('f \<Rightarrow> string \<rightharpoonup> string) \<Rightarrow> bool" where
  "directory_ok F dir content \<longleftrightarrow>
     (\<forall>f. \<exists>f'. fs_create_dir_all F dir f = (Inr (), f') \<and> fs_exists F dir f' \<and> content f' = content f) \<and>
     (\<forall>f n. file_name n \<longrightarrow> fs_exists F (path_join dir n) f = (content f n \<noteq> None)) \<and>
     (\<forall>f n t. file_name n \<longrightarrow> fs_exists F dir f \<longrightarrow>
        (\<exists>f'. fs_write F (path_join dir n) t f = (Inr (), f') \<and> fs_exists F dir f' \<and> content f' = (content f)(n \<mapsto> t))) \<and>
     (\<forall>f. fs_exists F dir f \<longrightarrow>
        (\<exists>xs. fs_read_dir F dir f = Inr (map Inr xs) \<and> (\<forall>n. (n, True) \<in> set xs \<longleftrightarrow> content f n \<noteq> None))) \<and>
     (\<forall>f n t. content f n = Some t \<longrightarrow> fs_read F (path_join dir n) f = Inr t)"

definition codecs_ok :: "CcadbEnv \<Rightarrow> bool" where
  "codecs_ok E \<longleftrightarrow>
     (\<forall>der. \<exists>t. pem_encode E ''CERTIFICATE'' der = Inr t \<and> pem_decode E t = Inr (''CERTIFICATE'', der)) \<and>
     (\<forall>der cert. cert_from_der (root_x509 E) der = Inr cert \<longrightarrow> cert_to_der (root_x509 E) cert = Inr der) \<and>
     (\<forall>bs. length (hex_encode E bs) = 2 * length bs \<and> set (hex_encode E bs) \<subseteq> set ''0123456789abcdef'') \<and>
     (\<forall>bs. length (root_sha256 E bs) = 32)"

section \<open>Mirrors\<close>

definition pem_name :: "string \<Rightarrow> string" where
  "pem_name fp = take 16 fp @ ''.pem''"

definition pem_of :: "CcadbEnv \<Rightarrow> string \<times> CcadbRootEntry \<Rightarrow> string \<Rightarrow> bool" where
  "pem_of E b t \<longleftrightarrow>
     (\<exists>der. pem_decode E t = Inr (''CERTIFICATE'', der) \<and> cert_from_der (root_x509 E) der = Inr (root_certificate (snd b)) \<and>
        fingerprint_of E der = fst b)"

text \<open>Every file of the directory holds the root after whose fingerprint it is named.\<close>

definition mirrors :: "CcadbEnv \<Rightarrow> RootCertificateStore \<Rightarrow> (string \<rightharpoonup> string) \<Rightarrow> bool" where
  "mirrors E certs c \<longleftrightarrow> (\<forall>n t. c n = Some t \<longrightarrow> (\<exists>b \<in> set certs. n = pem_name (fst b) \<and> pem_of E b t))"

definition mirrored :: "(string \<times> CcadbRootEntry) list \<Rightarrow> (string \<rightharpoonup> string) \<Rightarrow> bool" where
  "mirrored certs c \<longleftrightarrow> (\<forall>b \<in> set certs. c (pem_name (fst b)) \<noteq> None)"

lemma fingerprint_shape:
  assumes "codecs_ok E"
  shows "length (fingerprint_of E der) = 64" "CHR ''/'' \<notin> set (fingerprint_of E der)"
proof -
  have "list_all (\<lambda>c. upper_char c \<noteq> CHR ''/'') ''0123456789abcdef''" by code_simp
  moreover have "set (hex_encode E bs) \<subseteq> set ''0123456789abcdef''" for bs using assms unfolding codecs_ok_def by blast
  ultimately have "upper_char c \<noteq> CHR ''/''" if "c \<in> set (hex_encode E bs)" for c bs using that unfolding list_all_iff by blast
  then show "CHR ''/'' \<notin> set (fingerprint_of E der)" unfolding fingerprint_of_def to_uppercase_def by fastforce
  show "length (fingerprint_of E der) = 64" using assms by (simp add: codecs_ok_def fingerprint_of_def to_uppercase_def)
qed

lemma entry_ok_name:
  assumes "codecs_ok E" "entry_ok E b"
  shows "16 \<le> length (fst b)" "file_name (pem_name (fst b))" "path_extension (pem_name (fst b)) = Some ''pem''"
proof -
  obtain der where "fst b = fingerprint_of E der" using assms(2) unfolding entry_ok_def by metis
  then have b: "length (fst b) = 64" "CHR ''/'' \<notin> set (fst b)" using fingerprint_shape [OF assms(1)] by simp_all
  then show "16 \<le> length (fst b)" "file_name (pem_name (fst b))"
    using set_take_subset [of 16 "fst b"] by (auto simp: file_name_def pem_name_def)
  show "path_extension (pem_name (fst b)) = Some ''pem''"
    using b(1) by (simp add: path_extension_def pem_name_def Let_def)
qed

lemma entry_encodes:
  assumes "codecs_ok E" "entry_ok E b"
  obtains der t where "cert_to_der (root_x509 E) (root_certificate (snd b)) = Inr der" "pem_encode E ''CERTIFICATE'' der = Inr t" "pem_of E b t"
  using assms unfolding codecs_ok_def entry_ok_def pem_of_def by metis

section \<open>Writing\<close>

lemma persist_entry_mirrors:
  assumes d: "directory_ok F dir content" and c: "codecs_ok E" and b: "entry_ok E b" "b \<in> set certs"
    and s: "fs_exists F dir (files s)" "mirrors E certs (content (files s))"
  shows "\<exists>f. persist_entry E F dir b s = (Inr (), s\<lparr>files := f\<rparr>) \<and> fs_exists F dir f \<and> mirrors E certs (content f) \<and>
    content f (pem_name (fst b)) \<noteq> None \<and> dom (content (files s)) \<subseteq> dom (content f)"
proof (cases "content (files s) (pem_name (fst b))")
  case None
  obtain der t where e: "cert_to_der (root_x509 E) (root_certificate (snd b)) = Inr der" "pem_encode E ''CERTIFICATE'' der = Inr t" "pem_of E b t"
    using entry_encodes [OF c b(1)] .
  note n = entry_ok_name [OF c b(1)]
  obtain f where f: "fs_write F (path_join dir (pem_name (fst b))) t (files s) = (Inr (), f)" "fs_exists F dir f"
      "content f = (content (files s))(pem_name (fst b) \<mapsto> t)"
    using d n(2) s(1) unfolding directory_ok_def by blast
  have "\<not> fs_exists F (path_join dir (pem_name (fst b))) (files s)"
    using d n(2) None unfolding directory_ok_def by blast
  then have "persist_entry E F dir b s = (Inr (), s\<lparr>files := f\<rparr>)"
    using n(1) e f(1) by (cases b) (simp add: persist_entry_def Let_def pem_name_def and_then_def gets_def map_err_def zoom_def ret_def)
  moreover have "mirrors E certs (content f)" using s(2) f(3) b(2) e(3) unfolding mirrors_def by auto
  ultimately show ?thesis using f by auto
next
  case (Some t)
  then have "fs_exists F (path_join dir (pem_name (fst b))) (files s)"
    using d entry_ok_name(2) [OF c b(1)] unfolding directory_ok_def by blast
  then have "persist_entry E F dir b s = (Inr (), s\<lparr>files := files s\<rparr>)"
    using entry_ok_name(1) [OF c b(1)] by (cases b) (simp add: persist_entry_def Let_def pem_name_def and_then_def gets_def ret_def)
  with Some s show ?thesis by (intro exI [of _ "files s"]) simp
qed

lemma persist_entries_mirror:
  assumes d: "directory_ok F dir content" and c: "codecs_ok E"
  shows "list_all (entry_ok E) bs \<Longrightarrow> set bs \<subseteq> set certs \<Longrightarrow> fs_exists F dir (files s) \<Longrightarrow> mirrors E certs (content (files s)) \<Longrightarrow>
    \<exists>f. fold_io (\<lambda>b _. persist_entry E F dir b) bs () s = (Inr (), s\<lparr>files := f\<rparr>) \<and> fs_exists F dir f \<and>
      mirrors E certs (content f) \<and> mirrored bs (content f) \<and> dom (content (files s)) \<subseteq> dom (content f)"
proof (induction bs arbitrary: s)
  case Nil
  then show ?case by (intro exI [of _ "files s"]) (simp add: ret_def mirrored_def)
next
  case (Cons b bs)
  obtain f where f: "persist_entry E F dir b s = (Inr (), s\<lparr>files := f\<rparr>)" "fs_exists F dir f" "mirrors E certs (content f)"
      "content f (pem_name (fst b)) \<noteq> None" "dom (content (files s)) \<subseteq> dom (content f)"
    using persist_entry_mirrors [OF d c, of b certs s] Cons.prems by auto
  obtain f' where f': "fold_io (\<lambda>b _. persist_entry E F dir b) bs () (s\<lparr>files := f\<rparr>) = (Inr (), s\<lparr>files := f'\<rparr>)" "fs_exists F dir f'"
      "mirrors E certs (content f')" "mirrored bs (content f')" "dom (content f) \<subseteq> dom (content f')"
    using Cons.IH [of "s\<lparr>files := f\<rparr>"] Cons.prems f by auto
  have "mirrored (b # bs) (content f')" using f(4) f'(4,5) unfolding mirrored_def by auto
  with f f' show ?case by (intro exI [of _ f']) (auto simp: and_then_def)
qed

lemma persist_mirrors:
  assumes "directory_ok F dir content" "codecs_ok E" "map_iterates E" "store_ok E (root_store s)" "mirrors E (root_store s) (content (files s))"
  shows "\<exists>f. persist_to_directory E F dir s = (Inr (), s\<lparr>files := f\<rparr>) \<and> fs_exists F dir f \<and>
    mirrors E (root_store s) (content f) \<and> mirrored (root_store s) (content f)"
proof -
  let ?bs = "map_order E (root_store s)"
  obtain f where f: "fs_create_dir_all F dir (files s) = (Inr (), f)" "fs_exists F dir f" "content f = content (files s)"
    using assms(1) unfolding directory_ok_def by blast
  have bs: "set ?bs = set (root_store s)" by (rule map_order_set [OF assms(3)])
  obtain f' where "fold_io (\<lambda>b _. persist_entry E F dir b) ?bs () (s\<lparr>files := f\<rparr>) = (Inr (), s\<lparr>files := f'\<rparr>)" "fs_exists F dir f'"
      "mirrors E (root_store s) (content f')" "mirrored ?bs (content f')"
    using persist_entries_mirror [OF assms(1,2), of ?bs "root_store s" "s\<lparr>files := f\<rparr>"] assms(4,5) f bs
    by (auto simp: store_ok_def list_all_iff)
  with f(1) bs show ?thesis
    by (intro exI [of _ f'])
      (simp add: persist_to_directory_def and_then_def map_err_def zoom_def gets_def mirrored_def)
qed

section \<open>Reading\<close>

lemma load_entries_run:
  "load_entries E F dir (map Inr xs) s =
     (Inr (), s\<lparr>root_store := fold (\<lambda>x. insert_root (file_root E F dir (files s) x)) xs (root_store s)\<rparr>)"
  by (induction xs arbitrary: s) (auto simp: ret_def modify_def and_then_def load_file_root)

lemma file_root_pem:
  assumes "directory_ok F dir content" "codecs_ok E" "entry_ok E b" "content f (pem_name (fst b)) = Some t" "pem_of E b t"
  shows "\<exists>e. file_root E F dir f (pem_name (fst b), True) = Some (fst b, e) \<and> root_certificate e = root_certificate (snd b)"
proof -
  have "fs_read F (path_join dir (pem_name (fst b))) f = Inr t" using assms(1,4) unfolding directory_ok_def by blast
  then show ?thesis
    using assms(5) entry_ok_name(3) [OF assms(2,3)] by (auto simp: file_root_def load_pem_certificate_def pem_of_def)
qed

lemma in_map_filter: "y \<in> set (List.map_filter g xs) \<longleftrightarrow> (\<exists>x \<in> set xs. g x = Some y)"
  by (induction xs) (auto simp: map_filter_simps split: option.split)

lemma mirror_roots:
  assumes d: "directory_ok F dir content" and c: "codecs_ok E" and ok: "store_ok E certs"
    and inj: "inj_on (take 16) (fst ` set certs)" and m: "mirrors E certs (content f)" "mirrored certs (content f)"
    and xs: "\<And>n. (n, True) \<in> set xs \<longleftrightarrow> content f n \<noteq> None"
  shows "map_option root_certificate (map_of (List.map_filter (file_root E F dir f) xs) fp)
    = map_option root_certificate (map_of certs fp)"
proof -
  let ?roots = "List.map_filter (file_root E F dir f) xs"
  have ok': "\<And>b. b \<in> set certs \<Longrightarrow> entry_ok E b" "distinct (map fst certs)" using ok by (simp_all add: store_ok_def list_all_iff)
  have sound: "\<exists>b' \<in> set certs. fst b' = k \<and> root_certificate (snd b') = root_certificate e" if mem: "(k, e) \<in> set ?roots" for k e
  proof -
    obtain n i where n: "(n, i) \<in> set xs" "file_root E F dir f (n, i) = Some (k, e)" using mem unfolding in_map_filter by fast
    then have i by (simp add: file_root_def split: if_splits)
    with n xs obtain t where "content f n = Some t" by auto
    then obtain b where b: "b \<in> set certs" "n = pem_name (fst b)" "pem_of E b t" "content f (pem_name (fst b)) = Some t"
      using m(1) unfolding mirrors_def by blast
    from file_root_pem [OF d c ok'(1) [OF b(1)] b(4,3)] n b \<open>i\<close> show ?thesis by auto
  qed
  show ?thesis
  proof (cases "map_of certs fp")
    case None
    then have "map_of ?roots fp = None" using sound unfolding map_of_eq_None_iff by fastforce
    with None show ?thesis by simp
  next
    case (Some e)
    then have mem: "(fp, e) \<in> set certs" by (rule map_of_SomeD)
    then obtain t where t: "content f (pem_name fp) = Some t" using m(2) unfolding mirrored_def by fastforce
    then obtain b where b: "b \<in> set certs" "pem_name fp = pem_name (fst b)" "pem_of E b t" using m(1) unfolding mirrors_def by blast
    have "take 16 (fst b) = take 16 fp" using b(2) by (simp add: pem_name_def)
    then have "fst b = fp" using inj_onD [OF inj _ imageI [OF b(1)] imageI [OF mem]] by simp
    with t have "content f (pem_name (fst b)) = Some t" by simp
    from file_root_pem [OF d c ok'(1) [OF b(1)] this b(3)]
    obtain e' where "file_root E F dir f (pem_name fp, True) = Some (fp, e')" unfolding \<open>fst b = fp\<close> by blast
    then have "(fp, e') \<in> set ?roots" using xs [of "pem_name fp"] t unfolding in_map_filter by fastforce
    then obtain e2 where e2: "map_of ?roots fp = Some e2" by (metis map_of_SomeD weak_map_of_SomeI)
    then obtain b' where "b' \<in> set certs" "fst b' = fp" "root_certificate (snd b') = root_certificate e2"
      using sound [OF map_of_SomeD] by blast
    then have "snd b' = e" using mem ok'(2) by (metis eq_key_imp_eq_value prod.collapse)
    with Some e2 \<open>root_certificate (snd b') = _\<close> show ?thesis by simp
  qed
qed

lemma load_mirror:
  assumes "directory_ok F dir content" "codecs_ok E" "store_ok E certs" "inj_on (take 16) (fst ` set certs)"
    and "fs_exists F dir (files s)" "mirrors E certs (content (files s))" "mirrored certs (content (files s))" "root_store s = []"
  shows "\<exists>loaded. load_from_directory E F dir s = (Inr (), s\<lparr>root_store := loaded\<rparr>) \<and>
    (\<forall>fp. map_option root_certificate (map_of loaded fp) = map_option root_certificate (map_of certs fp))"
proof -
  obtain xs where xs: "fs_read_dir F dir (files s) = Inr (map Inr xs)" "\<And>n. (n, True) \<in> set xs \<longleftrightarrow> content (files s) n \<noteq> None"
    using assms(1,5) unfolding directory_ok_def by blast
  let ?loaded = "fold (\<lambda>x. insert_root (file_root E F dir (files s) x)) xs []"
  have "load_from_directory E F dir s = (Inr (), s\<lparr>root_store := ?loaded\<rparr>)"
    using assms(5,8) xs(1) by (simp add: load_from_directory_def and_then_def gets_def load_entries_run)
  moreover have "map_option root_certificate (map_of ?loaded fp) = map_option root_certificate (map_of certs fp)" for fp
    using mirror_roots [OF assms(1,2,3,4,6,7) xs(2)] by (simp add: fold_insert_root_map)
  ultimately show ?thesis by blast
qed

end
