(* ===== verification/Startup_Props.thy ===== *)
theory Startup_Props
  imports Startup Ccadb_Persist Api_Read_Props 
begin

text \<open>
  What survives a restart: the roots that the server trusts, which the CCADB worker has written to the directory, and the identity of
  the log, its configuration and its key. The last part holds the file system and the codecs of the concrete runs.
\<close>

section \<open>Trusted roots\<close>

lemma with_trusted_roots_total:
  assumes "\<And>cert. cert \<in> set roots \<Longrightarrow> \<exists>der. cert_to_der (der_ops W) cert = Inr der"
  shows "\<exists>v. with_trusted_roots W conf roots = Inr v"
proof -
  have "\<exists>hs. collect_results (v_certificate_hash W) roots = Inr hs"
    using assms by (induction roots) (fastforce simp: v_certificate_hash_def v_cert_der_def)+
  then show ?thesis by (auto simp: with_trusted_roots_def)
qed

lemma store_roots_encode:
  assumes "codecs_ok E" "store_ok E certs" "cert \<in> store_roots certs"
  shows "\<exists>der. cert_to_der (root_x509 E) cert = Inr der"
proof -
  obtain b where "b \<in> set certs" "cert = root_certificate (snd b)" using assms(3) by (auto simp: store_roots_def)
  with assms(2) have "entry_ok E b" by (auto simp: store_ok_def list_all_iff)
  from entry_encodes [OF assms(1) this] \<open>cert = _\<close> show ?thesis by blast
qed

lemma same_certificates:
  assumes "\<And>fp. map_option root_certificate (map_of a fp) = map_option root_certificate (map_of b fp)"
    and "distinct (map fst a)" "distinct (map fst b)"
  shows "store_roots a = store_roots b"
proof -
  have roots: "cert \<in> store_roots c \<longleftrightarrow> (\<exists>fp. map_option root_certificate (map_of c fp) = Some cert)" if "distinct (map fst c)" for c cert
  proof -
    have "cert \<in> store_roots c \<longleftrightarrow> (\<exists>fp e. (fp, e) \<in> set c \<and> root_certificate e = cert)" by (force simp: store_roots_def)
    also have "\<dots> \<longleftrightarrow> (\<exists>fp e. map_of c fp = Some e \<and> root_certificate e = cert)" using that by simp
    finally show ?thesis by simp
  qed
  show ?thesis unfolding set_eq_iff roots [OF assms(2)] roots [OF assms(3)] assms(1) by simp
qed

lemma mirrors_more: "mirrors E certs c \<Longrightarrow> mirrors E (certs @ added) c"
  unfolding mirrors_def by auto

lemma update_roots_ok:
  assumes "downloaded (http_get (ccadb_url (environment self))) = Inr csv" "list_all (\<lambda>x. \<not> isl x) (csv_records E csv)"
    and d: "directory_ok F (roots_dir self) content" and c: "codecs_ok E" "map_iterates E" and w: "der_ops W = root_x509 E"
    and s: "ccadb_ok E W s" "mirrors E (root_store s) (content (files s))"
    and conf: "updates_validator self" "validation_config self = Some conf"
  shows "\<exists>s'. update_roots E F W self http_get s = (Inr (), s') \<and> store_ok E (root_store s') \<and>
    map_of (root_store s') = map_of (report_roots E csv) ++ map_of (root_store s) \<and>
    fs_exists F (roots_dir self) (files s') \<and> mirrors E (root_store s') (content (files s')) \<and> mirrored (root_store s') (content (files s')) \<and>
    with_trusted_roots W conf (get_all_certificates E (root_store s')) = Inr (shared_validator s')"
proof -
  obtain r s1 where a: "add_from_ccadb_csv E csv s = (r, s1)" by fastforce
  then have r: "r = Inr ()" using add_from_ccadb_csv_map(3) [OF a] assms(2) by simp
  have "files s1 = files s" using a by (auto simp: add_from_ccadb_csv_def add_records_run)
  have g: "roots_grow E W s s1" using relatesD [OF add_records_grows] a by (simp add: add_from_ccadb_csv_def)
  then obtain added where "root_store s1 = root_store s @ added" by (auto simp: roots_grow_def)
  then have m: "mirrors E (root_store s1) (content (files s1))" using s(2) mirrors_more \<open>files s1 = files s\<close> by simp
  have ok: "store_ok E (root_store s1)" using g s(1) by (simp add: roots_grow_def ccadb_ok_def)
  obtain f where f: "persist_to_directory E F (roots_dir self) s1 = (Inr (), s1\<lparr>files := f\<rparr>)" "fs_exists F (roots_dir self) f"
      "mirrors E (root_store s1) (content f)" "mirrored (root_store s1) (content f)"
    using persist_mirrors [OF d c ok m] by blast
  have "\<exists>der. cert_to_der (der_ops W) cert = Inr der" if "cert \<in> set (get_all_certificates E (root_store s1))" for cert
    using that store_roots_encode [OF c(1) ok] by (simp add: store_roots_all [OF c(2)] w)
  then obtain v where v: "with_trusted_roots W conf (get_all_certificates E (root_store s1)) = Inr v"
    using with_trusted_roots_total by metis
  have "update_roots E F W self http_get s = (Inr (), s1\<lparr>files := f, shared_validator := v\<rparr>)"
    using assms(1) a r f(1) conf v by (simp add: update_roots_def and_then_def modify_def replace_validator_def)
  with ok f v add_from_ccadb_csv_map(1) [OF a] show ?thesis by (intro exI [of _ "s1\<lparr>files := f, shared_validator := v\<rparr>"]) simp
qed

lemma load_roots_mirror:
  assumes "directory_ok F dir content" "codecs_ok E" "store_ok E certs" "inj_on (take 16) (fst ` set certs)"
    and "fs_exists F dir f" "mirrors E certs (content f)" "mirrored certs (content f)"
  shows "\<exists>loaded. load_roots E F dir f = (Inr loaded, f) \<and> store_ok E loaded \<and> store_roots loaded = store_roots certs"
proof -
  let ?s = "\<lparr>root_store = RootCertificateStore_new, files = f\<rparr>"
  obtain loaded where l: "load_from_directory E F dir ?s = (Inr (), ?s\<lparr>root_store := loaded\<rparr>)"
      "\<And>fp. map_option root_certificate (map_of loaded fp) = map_option root_certificate (map_of certs fp)"
    using load_mirror [OF assms(1-4), of ?s] assms(5-7) by (auto simp: RootCertificateStore_new_def)
  have "store_ok E loaded"
    using load_from_directory_store [OF l(1)] by (simp add: RootCertificateStore_new_def store_ok_def)
  moreover from this have "store_roots loaded = store_roots certs"
    using same_certificates [OF l(2)] assms(3) by (simp add: store_ok_def)
  moreover have "load_roots E F dir f = (Inr loaded, f)"
    using l(1) by (simp add: load_roots_def map_err_def zoom_def and_then_def gets_def)
  ultimately show ?thesis by blast
qed

text \<open>C24: The trusted roots survive a restart. Let the CCADB worker of a server update from a report that can be read, starting with a directory
  that holds nothing but roots of the store, on a file system that does not fail. Then the update succeeds, and a server that
  is started afterwards with the same directory trusts exactly the roots that the running server trusts: all the certificates of its store.
  The fingerprints of the roots must differ in their first 16 digits, since the files are named after these.
\<close>

theorem roots_survive_restart:
  assumes "downloaded (http_get (ccadb_url (environment self))) = Inr csv" "list_all (\<lambda>x. \<not> isl x) (csv_records E csv)"
    and "directory_ok F (roots_dir self) content" "codecs_ok E" "map_iterates E" "der_ops W = root_x509 E"
    and "ccadb_ok E W s" "mirrors E (root_store s) (content (files s))"
    and "updates_validator self" "validation_config self = Some conf"
    and "inj_on (take 16) (fst ` (set (root_store s) \<union> set (report_roots E csv)))"
    and "enabled vc" "rfc6962_config A vc = Inr conf'" "trusted_roots_dir conf' = roots_dir self"
  shows "\<exists>s' v loaded. update_roots E F W self http_get s = (Inr (), s') \<and>
    setup_validation A E F W (Some vc) (files s') = (Inr (Some (v, loaded, conf')), files s') \<and>
    set (trusted_roots v) = set (trusted_roots (shared_validator s')) \<and> set (trusted_roots v) = store_roots (root_store s')"
proof -
  let ?dir = "roots_dir self"
  obtain s' where s': "update_roots E F W self http_get s = (Inr (), s')" "store_ok E (root_store s')" "fs_exists F ?dir (files s')"
      "mirrors E (root_store s') (content (files s'))" "mirrored (root_store s') (content (files s'))"
      "with_trusted_roots W conf (get_all_certificates E (root_store s')) = Inr (shared_validator s')"
      and "map_of (root_store s') = map_of (report_roots E csv) ++ map_of (root_store s)"
    using update_roots_ok [of http_get self csv E F content W s conf, OF assms(1-10)] by blast
  then have "dom (map_of (root_store s')) = dom (map_of (root_store s)) \<union> dom (map_of (report_roots E csv))" by simp
  then have "fst ` set (root_store s') = fst ` (set (root_store s) \<union> set (report_roots E csv))"
    by (simp only: dom_map_of_conv_image_fst image_Un)
  then have inj: "inj_on (take 16) (fst ` set (root_store s'))" using assms(11) by simp
  obtain loaded where l: "load_roots E F ?dir (files s') = (Inr loaded, files s')" "store_ok E loaded" "store_roots loaded = store_roots (root_store s')"
    using load_roots_mirror [OF assms(3,4) s'(2) inj s'(3-5)] by blast
  have "\<exists>der. cert_to_der (der_ops W) cert = Inr der" if "cert \<in> set (get_all_certificates E loaded)" for cert
    using that store_roots_encode [OF assms(4) l(2)] by (simp add: store_roots_all [OF assms(5)] assms(6))
  then obtain v where v: "with_trusted_roots W conf' (get_all_certificates E loaded) = Inr v"
    using with_trusted_roots_total by metis
  have "setup_validation A E F W (Some vc) (files s') = (Inr (Some (v, loaded, conf')), files s')"
    using assms(12-14) l(1) v by (simp add: setup_validation_def and_then_def ret_def)
  moreover have "set (trusted_roots v) = store_roots (root_store s')" "set (trusted_roots (shared_validator s')) = store_roots (root_store s')"
    using with_trusted_roots_fields(2) [OF v] with_trusted_roots_fields(2) [OF s'(6)] l(3) by (simp_all add: store_roots_all [OF assms(5)])
  ultimately show ?thesis using s'(1) by auto
qed

text \<open>The roots of the instance: the update of its worker, and a start with the files it has left.\<close>

definition mem_content :: "mem_files \<Rightarrow> string \<rightharpoonup> string" where
  "mem_content f n = (if file_name n then map_of (snd f) (path_join mem_roots_dir n) else None)"

lemma mem_path: "path_join mem_roots_dir n = ''trusted_roots/'' @ n"
  by (simp add: path_join_def mem_roots_dir_def)

lemma in_listing: "(n, True) \<in> set (listing d fs) \<longleftrightarrow> file_name n \<and> map_of fs (d @ n) \<noteq> None"
proof -
  have eq: "starts_with p d \<and> drop (length d) p = n \<longleftrightarrow> p = d @ n" for p
    by (auto simp: starts_with_def) (metis append_take_drop_id)
  have "(n, True) \<in> set (listing d fs) \<longleftrightarrow> (\<exists>p t. (p, t) \<in> set fs \<and> (starts_with p d \<and> drop (length d) p = n) \<and> file_name n)"
    by (force simp: listing_def)
  also have "\<dots> \<longleftrightarrow> file_name n \<and> d @ n \<in> fst ` set fs" unfolding eq by force
  finally show ?thesis by (simp add: map_of_eq_None_iff)
qed

lemma mem_directory_ok: "directory_ok mem_fs mem_roots_dir mem_content"
  unfolding directory_ok_def
proof (intro conjI allI impI)
  show "\<exists>f'. fs_create_dir_all mem_fs mem_roots_dir f = (Inr (), f') \<and> fs_exists mem_fs mem_roots_dir f' \<and> mem_content f' = mem_content f" for f
    by (simp add: mem_fs_def mem_content_def fun_eq_iff)
  show "fs_exists mem_fs (path_join mem_roots_dir n) f = (mem_content f n \<noteq> None)" if "file_name n" for f n
    using that by (simp add: mem_fs_def mem_content_def mem_path) (simp add: mem_roots_dir_def)
  show "\<exists>f'. fs_write mem_fs (path_join mem_roots_dir n) t f = (Inr (), f') \<and> fs_exists mem_fs mem_roots_dir f' \<and>
      mem_content f' = (mem_content f)(n \<mapsto> t)" if "file_name n" "fs_exists mem_fs mem_roots_dir f" for f n t
    using that by (auto simp: mem_fs_def mem_content_def mem_path fun_eq_iff)
  show "\<exists>xs. fs_read_dir mem_fs mem_roots_dir f = Inr (map Inr xs) \<and> (\<forall>n. ((n, True) \<in> set xs) = (mem_content f n \<noteq> None))" for f
    using in_listing [of _ "mem_roots_dir @ ''/''" "snd f"]
    by (intro exI [of _ "listing (mem_roots_dir @ ''/'') (snd f)"]) (simp add: mem_fs_def mem_content_def mem_path, simp add: mem_roots_dir_def)
  show "fs_read mem_fs (path_join mem_roots_dir n) f = Inr t" if "mem_content f n = Some t" for f n t
    using that by (auto simp: mem_fs_def mem_content_def split: if_splits)
qed

lemma root_codecs_ok: "codecs_ok root_env"
  using mem_unpem_pem mem_hex_shape
  by (auto simp: codecs_ok_def root_env_def mem_root_x509_def toy_cert_def hex_digits_def)

definition root_start :: "u8 StartEnv" where
  "root_start =
     \<lparr>parse_config = (\<lambda>t. if t = ''default'' then Inr default_config else Inl ''bad configuration''),
      toml_to_string = (\<lambda>c. if c = default_config then Inr ''default'' else Inl ''not supported''),
      to_pkcs8_pem = (\<lambda>k. Inr [char_of (unat k)]), to_public_key_pem = (\<lambda>k. Inr [char_of (unat (k + 1))]),
      from_pkcs8_pem = (\<lambda>t. case t of [c] \<Rightarrow> Inr (of_char c) | _ \<Rightarrow> Inl ''bad key''), to_public_key_der = (\<lambda>k. Inr [k + 1]),
      secret_key_bytes = (\<lambda>k. [k]), parse_from_rfc3339 = (\<lambda>_. Inl ''bad time''), start_sha256 = (\<lambda>der. take 32 (der @ replicate 32 0))\<rparr>"

definition root_validation :: ValidationConfig where
  "root_validation = the (app_validation default_config)"

theorem roots_survive_restart_witness:
  "\<exists>v loaded conf. update_roots root_env mem_fs root_venv root_worker root_download root_state = (Inr (), root_updated) \<and>
    setup_validation root_start root_env mem_fs root_venv (Some root_validation) (files root_updated) = (Inr (Some (v, loaded, conf)), files root_updated) \<and>
    set (trusted_roots v) = set (trusted_roots (shared_validator root_updated)) \<and> set (trusted_roots v) = store_roots (root_store root_updated)"
proof -
  have d: "downloaded (root_download (ccadb_url (environment root_worker))) = Inr root_report" by code_simp
  have r: "list_all (\<lambda>x. \<not> isl x) (csv_records root_env root_report)" by code_simp
  have w: "roots_dir root_worker = mem_roots_dir" "updates_validator root_worker" "validation_config root_worker = Some root_config" by code_simp+
  have v: "enabled root_validation" "trusted_roots_dir (projr (rfc6962_config root_start root_validation)) = roots_dir root_worker"
    "\<not> isl (rfc6962_config root_start root_validation)" by code_simp+
  then have c: "rfc6962_config root_start root_validation = Inr (projr (rfc6962_config root_start root_validation))" by simp
  have m: "mirrors root_env (root_store root_state) (mem_content (files root_state))"
    by (simp add: mirrors_def mem_content_def root_state_def)
  have x: "der_ops root_venv = root_x509 root_env" by (simp add: root_venv_def root_env_def)
  have "inj_on (take 16) (fst ` (set (root_store root_state) \<union> set (report_roots root_env root_report)))"
  proof -
    have "map fst (report_roots root_env root_report) = [''41'' @ replicate 62 (CHR ''0'')]" by code_simp
    then have "fst ` set (report_roots root_env root_report) = {''41'' @ replicate 62 (CHR ''0'')}" by (metis list.set(1,2) set_map)
    then show ?thesis by (simp add: root_state_def)
  qed
  from roots_survive_restart [of root_download root_worker, OF d r mem_directory_ok [folded w(1)] root_codecs_ok root_iterates x root_state_ok m w(2,3) this v(1) c v(2)]
  show ?thesis using root_run by auto
qed

section \<open>The identity of the log\<close>

text \<open>\<open>tree f p\<close> is the content of the file at a path. Operations may fail, but do what they say when they return.\<close>

definition files_ok :: "'f FsOps \<Rightarrow> ('f \<Rightarrow> string \<rightharpoonup> string) \<Rightarrow> bool" where
  "files_ok F tree \<longleftrightarrow>
     (\<forall>f p r f'. fs_create_dir_all F p f = (r, f') \<longrightarrow> tree f' = tree f) \<and>
     (\<forall>f p t f'. fs_write F p t f = (Inr (), f') \<longrightarrow> tree f' = (tree f)(p \<mapsto> t)) \<and>
     (\<forall>f p. tree f p \<noteq> None \<longrightarrow> fs_exists F p f) \<and>
     (\<forall>f p t. fs_read F p f = Inr t \<longleftrightarrow> tree f p = Some t)"

definition start_codecs_ok :: "'k StartEnv \<Rightarrow> bool" where
  "start_codecs_ok A \<longleftrightarrow> (\<forall>conf t. toml_to_string A conf = Inr t \<longrightarrow> parse_config A t = Inr conf)"

lemma and_thenE:
  assumes "and_then m g s = (Inr b, s')"
  obtains a t where "m s = (Inr a, t)" "g a t = (Inr b, s')"
  using assms by (auto simp: and_then_def split: prod.splits sum.splits)

lemma op_valueD:
  "of_result x s = (Inr b, s') \<Longrightarrow> x = Inr b \<and> s' = s"
  "gets g s = (Inr b, s') \<Longrightarrow> b = g s \<and> s' = s"
  "ret a s = (Inr b, s') \<Longrightarrow> b = a \<and> s' = s"
  "map_err h n s = (Inr b, s') \<Longrightarrow> n s = (Inr b, s')"
  by (auto simp: of_result_def gets_def ret_def raise_def map_err_def split: prod.splits sum.splits exc.splits)

lemma fs_op_valueD: "fs_op m f = (Inr a, f') \<Longrightarrow> m f = (Inr a, f')"
  by (cases "m f"; cases "fst (m f)") (auto simp: fs_op_def)

lemma generate_keys_files:
  assumes "generate_and_save_keys A F k keys f = (Inr (), f')" "files_ok F tree"
  obtains priv pub where "tree f' = (tree f)(private_key_path keys \<mapsto> priv, public_key_path keys \<mapsto> pub)" "to_pkcs8_pem A k = Inr priv"
proof -
  obtain priv pub f1 where "to_pkcs8_pem A k = Inr priv" "fs_write F (private_key_path keys) priv f = (Inr (), f1)"
      "fs_write F (public_key_path keys) pub f1 = (Inr (), f')"
    using assms(1) unfolding generate_and_save_keys_def by (elim and_thenE) (auto dest!: op_valueD fs_op_valueD)
  with assms(2) that show thesis unfolding files_ok_def by metis
qed

text \<open>The configuration and both keys are in their files.\<close>

definition configured :: "'k StartEnv \<Rightarrow> 'f FsOps \<Rightarrow> 'f \<Rightarrow> AppConfig \<Rightarrow> bool" where
  "configured A F f conf \<longleftrightarrow>
     (\<exists>t. fs_read F ''Config.toml'' f = Inr t \<and> parse_config A t = Inr conf) \<and> fs_exists F ''Config.toml'' f \<and>
     fs_exists F (private_key_path (keys_config conf)) f \<and> fs_exists F (public_key_path (keys_config conf)) f"

lemma configured_load: "configured A F f conf \<Longrightarrow> load_config A F k f = (Inr conf, f)"
  by (auto simp: configured_def load_config_def ensure_keys_exist_def and_then_def gets_def ret_def)

definition separate_keys :: "AppConfig \<Rightarrow> bool" where
  "separate_keys conf \<longleftrightarrow> private_key_path (keys_config conf) \<noteq> ''Config.toml'' \<and> public_key_path (keys_config conf) \<noteq> ''Config.toml''"

lemma configured_tree:
  assumes "files_ok F tree" "tree f ''Config.toml'' = Some t" "parse_config A t = Inr conf"
    and "tree f (private_key_path (keys_config conf)) \<noteq> None" "tree f (public_key_path (keys_config conf)) \<noteq> None"
  shows "configured A F f conf"
proof -
  have "\<And>p. tree f p \<noteq> None \<Longrightarrow> fs_exists F p f" "fs_read F ''Config.toml'' f = Inr t" using assms(1,2) unfolding files_ok_def by blast+
  with assms show ?thesis unfolding configured_def by simp
qed

lemma load_config_configured:
  assumes "load_config A F k f = (Inr conf, f')" "files_ok F tree" "start_codecs_ok A" "separate_keys conf"
  shows "configured A F f' conf"
proof (cases "fs_exists F ''Config.toml'' f")
  case True
  let ?keys = "keys_config conf"
  from assms(1) True obtain t where t: "fs_read F ''Config.toml'' f = Inr t" "parse_config A t = Inr conf" "ensure_keys_exist A F k ?keys f = (Inr (), f')"
    unfolding load_config_def by (elim and_thenE) (auto dest!: op_valueD elim!: and_thenE)
  show ?thesis
  proof (cases "fs_exists F (private_key_path ?keys) f \<and> fs_exists F (public_key_path ?keys) f")
    case False
    then obtain f1 r where "(case path_parent (private_key_path ?keys) of Some dir \<Rightarrow> fs_op (fs_create_dir_all F dir) | None \<Rightarrow> ret ()) f = (Inr r, f1)"
        and g: "generate_and_save_keys A F k ?keys f1 = (Inr (), f')"
      using t(3) unfolding ensure_keys_exist_def by (elim and_thenE) (auto dest!: op_valueD elim!: and_thenE)
    then have "tree f1 = tree f" using assms(2) unfolding files_ok_def by (auto split: option.splits dest!: op_valueD fs_op_valueD)
    with generate_keys_files [OF g assms(2)] obtain priv pub where
      "tree f' = (tree f)(private_key_path ?keys \<mapsto> priv, public_key_path ?keys \<mapsto> pub)" by metis
    then show ?thesis
      using configured_tree [OF assms(2) _ t(2), of f'] t(1) assms(2,4) unfolding files_ok_def separate_keys_def by auto
  next
    case keys: True
    then have "f' = f" using t(3) by (simp add: ensure_keys_exist_def and_then_def gets_def ret_def)
    with True keys t show ?thesis by (simp add: configured_def)
  qed
next
  case False
  let ?keys = "keys_config default_config"
  from assms(1) False obtain r f1 f2 t where d: "fs_create_dir_all F ''keys'' f = (r, f1)" "generate_and_save_keys A F k ?keys f1 = (Inr (), f2)"
      "toml_to_string A default_config = Inr t" "fs_write F ''Config.toml'' t f2 = (Inr (), f')" "conf = default_config"
    unfolding load_config_def initialize_config_def by (elim and_thenE) (auto dest!: op_valueD fs_op_valueD elim!: and_thenE)
  obtain priv pub where "tree f2 = (tree f1)(private_key_path ?keys \<mapsto> priv, public_key_path ?keys \<mapsto> pub)"
    using generate_keys_files [OF d(2) assms(2)] by metis
  moreover have "tree f' = (tree f2)(''Config.toml'' \<mapsto> t)" using d(4) assms(2) unfolding files_ok_def by blast
  moreover have "parse_config A t = Inr conf" using d(3,5) assms(3) unfolding start_codecs_ok_def by blast
  ultimately show ?thesis using configured_tree [OF assms(2), of f' t A conf] d(5) by (simp add: default_config_def)
qed

text \<open>What does not depend on the trusted roots.\<close>

definition identity :: "('s, 't) Started \<Rightarrow> LogId \<times> bytes \<times> 's SctBuilder \<times> 's SthBuilder \<times> string \<times> string" where
  "identity st =
     (let a = api_state st in (log_id a, public_key_der a, sct_builder a, sth_builder a, base_url a, listen_addr st))"

lemma load_entries_files: "load_entries E F dir rs s = (r, s') \<Longrightarrow> files s' = files s"
  by (induction rs arbitrary: s) (fastforce simp: ret_def raise_def modify_def and_then_def split: sum.splits)+

lemma load_roots_files: "load_roots E F dir f = (r, f') \<Longrightarrow> f' = f"
  using load_entries_files
  by (fastforce simp: load_roots_def load_from_directory_def map_err_def zoom_def and_then_def gets_def ret_def raise_def
    split: prod.splits sum.splits exc.splits if_splits)

lemma setup_validation_files: "setup_validation A E F W conf f = (Inr x, f') \<Longrightarrow> f' = f"
  unfolding setup_validation_def
  by (auto split: option.splits if_splits elim!: and_thenE dest!: op_valueD load_roots_files)

lemma ApiState_new_identity:
  assumes "ApiState_new P lid sk der url val = Inr a" "ApiState_new P lid sk der url val' = Inr a'"
  shows "log_id a' = log_id a \<and> public_key_der a' = public_key_der a \<and> sct_builder a' = sct_builder a \<and> sth_builder a' = sth_builder a \<and>
    base_url a' = base_url a"
  using assms by (auto simp: ApiState_new_def split: sum.splits)

lemma main_startD:
  assumes "main_start A E F W P dbg T nc tc build open_db D k f = (Inr st, f')"
  obtains conf pem key der val where "load_config A F k f = (Inr conf, f')"
    "fs_read F (private_key_path (keys_config conf)) f' = Inr pem" "from_pkcs8_pem A pem = Inr key"
    "to_public_key_der A key = Inr der"
    "ApiState_new P (LogId_new (start_sha256 A) der) (secret_key_bytes A key) der (server_base_url (server_config conf)) val = Inr (api_state st)"
    "listen_addr st = bind_addr (server_config conf)"
proof -
  have key: "load_private_key A F p g = (Inr key, g') \<Longrightarrow> g' = g \<and> (\<exists>pem. fs_read F p g = Inr pem \<and> from_pkcs8_pem A pem = Inr key)" for p g key g'
    by (auto simp: load_private_key_def elim!: and_thenE dest!: op_valueD)
  have tree: "open_tree dbg T nc tc db g = (Inr x, g') \<Longrightarrow> g' = g" for db g x g'
    by (auto simp: open_tree_def split: prod.splits sum.splits exc.splits)
  have der: "derive_public_key_der_from_p256 A key g = (Inr der, g') \<Longrightarrow> to_public_key_der A key = Inr der \<and> g' = g" for key g der g'
    by (auto simp: derive_public_key_der_from_p256_def panic_def ret_def split: sum.splits)
  show thesis
    using assms unfolding main_start_def Let_def
    by (auto elim!: and_thenE dest!: op_valueD key der tree setup_validation_files intro: that split: prod.splits)
qed

definition same_file :: "'f FsOps \<Rightarrow> 'f \<Rightarrow> 'f \<Rightarrow> string \<Rightarrow> bool" where
  "same_file F f f' p \<longleftrightarrow> fs_exists F p f' = fs_exists F p f \<and> fs_read F p f' = fs_read F p f"

definition same_setup :: "'f FsOps \<Rightarrow> 'f \<Rightarrow> 'f \<Rightarrow> AppConfig \<Rightarrow> bool" where
  "same_setup F f f' conf \<longleftrightarrow>
     same_file F f f' ''Config.toml'' \<and> same_file F f f' (private_key_path (keys_config conf)) \<and> same_file F f f' (public_key_path (keys_config conf))"

text \<open>C25: The identity of the log survives restarts. After a start that succeeded (a first start, which writes a default configuration
  and draws the key, or one with an existing configuration), any later start that finds the same configuration and key files
  reads the same configuration and private key and leaves all files as they are, whatever new key it could draw; when it succeeds, the log
  has the same log id, public key, signers and addresses. Starting again at once gives the very same server.
\<close>

theorem log_identity_survives_restart:
  assumes "files_ok F tree" "start_codecs_ok A"
    and "main_start A E F W P dbg T nc tc build open_db D k f = (Inr st, f1)"
    and "\<And>conf. fst (load_config A F k f) = Inr conf \<Longrightarrow> separate_keys conf \<and> same_setup F f1 f2 conf"
  shows "main_start A E F W P dbg T nc tc build open_db D k' f1 = (Inr st, f1) \<and>
    (\<exists>conf key. load_config A F k f = (Inr conf, f1) \<and> load_config A F k' f2 = (Inr conf, f2) \<and>
      load_private_key A F (private_key_path (keys_config conf)) f1 = (Inr key, f1) \<and>
      load_private_key A F (private_key_path (keys_config conf)) f2 = (Inr key, f2)) \<and>
    (\<forall>st' f3. main_start A E F W P dbg T nc tc build open_db D k' f2 = (Inr st', f3) \<longrightarrow> f3 = f2 \<and> identity st' = identity st)"
proof -
  obtain conf pem key der val where c: "load_config A F k f = (Inr conf, f1)"
      "fs_read F (private_key_path (keys_config conf)) f1 = Inr pem" "from_pkcs8_pem A pem = Inr key" "to_public_key_der A key = Inr der"
      "ApiState_new P (LogId_new (start_sha256 A) der) (secret_key_bytes A key) der (server_base_url (server_config conf)) val = Inr (api_state st)"
      "listen_addr st = bind_addr (server_config conf)"
    using main_startD [OF assms(3)] .
  have sep: "separate_keys conf" and same: "same_setup F f1 f2 conf" using assms(4) [of conf] c(1) by simp_all
  have f1: "configured A F f1 conf" by (rule load_config_configured [OF c(1) assms(1,2) sep])
  then have f2: "configured A F f2 conf" using same unfolding configured_def same_setup_def same_file_def by simp
  note again = configured_load [OF f1, of k'] configured_load [OF f2, of k']
  have pem: "fs_read F (private_key_path (keys_config conf)) f2 = Inr pem" using same c(2) by (simp add: same_setup_def same_file_def)
  have "main_start A E F W P dbg T nc tc build open_db D k' f1 = (Inr st, f1)"
    using assms(3) c(1) again(1) unfolding main_start_def and_then_def by simp
  moreover have "load_private_key A F (private_key_path (keys_config conf)) f1 = (Inr key, f1)"
      "load_private_key A F (private_key_path (keys_config conf)) f2 = (Inr key, f2)"
    using c(2,3) pem by (simp_all add: load_private_key_def and_then_def gets_def ret_def)
  moreover have "f3 = f2 \<and> identity st' = identity st" if "main_start A E F W P dbg T nc tc build open_db D k' f2 = (Inr st', f3)" for st' f3
  proof (rule main_startD [OF that])
    fix conf' pem' key' der' val'
    assume r: "load_config A F k' f2 = (Inr conf', f3)" "fs_read F (private_key_path (keys_config conf')) f3 = Inr pem'"
      "from_pkcs8_pem A pem' = Inr key'" "to_public_key_der A key' = Inr der'"
      "ApiState_new P (LogId_new (start_sha256 A) der') (secret_key_bytes A key') der' (server_base_url (server_config conf')) val' = Inr (api_state st')"
      "listen_addr st' = bind_addr (server_config conf')"
    then have e: "conf' = conf" "f3 = f2" "key' = key" "der' = der" using again(2) pem c(3,4) by auto
    with ApiState_new_identity [OF c(5) r(5) [unfolded e]] r(6) c(6) show ?thesis by (simp add: identity_def Let_def)
  qed
  ultimately show ?thesis using c(1) again(2) by blast
qed

text \<open>With only the public key file missing, a new pair is drawn and the private key of the log is overwritten.\<close>

lemma missing_public_key_replaces_private_key:
  assumes "files_ok F tree" "\<not> fs_exists F (public_key_path keys) f" "ensure_keys_exist A F k keys f = (Inr (), f')"
    and "private_key_path keys \<noteq> public_key_path keys"
  shows "\<exists>pem. to_pkcs8_pem A k = Inr pem \<and> tree f' (private_key_path keys) = Some pem"
proof -
  obtain f1 where "generate_and_save_keys A F k keys f1 = (Inr (), f')"
    using assms(2,3) unfolding ensure_keys_exist_def by (elim and_thenE) (auto dest!: op_valueD elim!: and_thenE)
  then obtain priv pub where "tree f' = (tree f1)(private_key_path keys \<mapsto> priv, public_key_path keys \<mapsto> pub)" "to_pkcs8_pem A k = Inr priv"
    by (rule generate_keys_files [OF _ assms(1)])
  with assms(4) show ?thesis by simp
qed

text \<open>A first start of the instance with no files draws the key 7; the next one could draw the key 9.\<close>

definition root_main :: "u8 \<Rightarrow> mem_files \<Rightarrow> (string exc + (u8, mem_tree) Started) \<times> mem_files" where
  "root_main = main_start root_start root_env mem_fs root_venv mem_api (\<lambda>_. []) mem_env Map.empty Map.empty Inr (\<lambda>_ _ _. Inr Map.empty)
     \<lparr>default_l0_sst_size_bytes = 1, default_max_sst_size = 1, default_cache_options = \<lparr>cache_root_folder = None, max_cache_size_bytes = None\<rparr>\<rparr>"

definition first_started :: "(u8, mem_tree) Started" where
  "first_started = projr (fst (root_main 7 (False, [])))"

definition first_files :: mem_files where
  "first_files = snd (root_main 7 (False, []))"

definition later_files :: mem_files where
  "later_files = (True, (''trusted_roots/a.pem'', []) # snd first_files)"

definition later_started :: "(u8, mem_tree) Started" where
  "later_started = projr (fst (root_main 9 later_files))"

lemma mem_files_ok: "files_ok mem_fs (\<lambda>f. map_of (snd f))"
  by (auto simp: files_ok_def mem_fs_def split: option.splits)

lemma root_start_codecs: "start_codecs_ok root_start"
  by (simp add: start_codecs_ok_def root_start_def)

lemma root_first_start: "root_main 7 (False, []) = (Inr first_started, first_files)"
proof -
  have "\<not> isl (fst (root_main 7 (False, [])))" by code_simp
  then show ?thesis by (simp add: first_started_def first_files_def prod_eq_iff)
qed

lemma root_later_start: "root_main 9 later_files = (Inr later_started, snd (root_main 9 later_files))"
proof -
  have "\<not> isl (fst (root_main 9 later_files))" by code_simp
  then show ?thesis by (simp add: later_started_def prod_eq_iff)
qed

theorem log_identity_survives_restart_witness:
  "root_main 9 first_files = (Inr first_started, first_files) \<and> log_id (api_state first_started) = LogId (8 # replicate 31 0) \<and>
    root_main 9 later_files = (Inr later_started, later_files) \<and> identity later_started = identity first_started"
proof -
  have "conf = default_config" if "fst (load_config root_start mem_fs 7 (False, [])) = Inr conf" for conf
  proof -
    have "fst (load_config root_start mem_fs 7 (False, [])) = Inr default_config" by code_simp
    with that show ?thesis by simp
  qed
  moreover have "separate_keys default_config" by code_simp
  moreover have "same_setup mem_fs first_files later_files default_config" by code_simp
  ultimately have "fst (load_config root_start mem_fs 7 (False, [])) = Inr conf \<Longrightarrow> separate_keys conf \<and> same_setup mem_fs first_files later_files conf" for conf
    by blast
  from log_identity_survives_restart [OF mem_files_ok root_start_codecs root_first_start [unfolded root_main_def] this, of 9]
  have "root_main 9 first_files = (Inr first_started, first_files) \<and>
      (\<forall>st' f3. root_main 9 later_files = (Inr st', f3) \<longrightarrow> f3 = later_files \<and> identity st' = identity first_started)"
    unfolding root_main_def by blast
  moreover have "log_id (api_state first_started) = LogId (8 # replicate 31 0)" by code_simp
  ultimately show ?thesis using root_later_start by metis
qed

end
