(* ===== verification/Server.thy ===== *)
theory Server
  imports Api_Submit_Props Startup_Props
begin

text \<open>
  The running system as \<^verbatim>\<open>main\<close> of \<^verbatim>\<open>src/src/main.rs\<close> puts it together: the handlers and the batch worker on one side, the task of the
  CCADB worker on the other, which share the validator. Every entry that is logged belongs to a chain that leads to a root of the store,
  although the validator is exchanged while the server runs, and every SCT that was sent can be audited.
\<close>

section \<open>The system\<close>

record ('f, 'db, 'nc, 'tc, 'cc, 'ec, 'c) System =
  server :: "('db, 'nc, 'tc, 'cc, 'ec, 'c) Api"
  root_task :: "'f CcadbState"

text \<open>The handlers read the validator that the lock holds.\<close>

definition with_current :: "'k ApiState \<Rightarrow> Rfc6962Validator \<Rightarrow> 'k ApiState" where
  "with_current S v = S\<lparr>validator := Some v\<rparr>"

datatype 'f system_event = Serve server_event | Update "string \<Rightarrow> Download" | FilesChanged 'f

primrec system_certs :: "'f system_event \<Rightarrow> string list set" where
  "system_certs (Serve ev) = submitted_certs ev"
| "system_certs (Update _) = {}"
| "system_certs (FilesChanged _) = {}"

text \<open>A validator that is installed by an update has its own cache, which is \<open>fresh\<close> as that of the first one was.\<close>

inductive system_step ::
  "'k ApiEnv \<Rightarrow> ('db, 'nc, 'tc, 'cc, 'ec) StorageEnv \<Rightarrow> ('c, 'x, 'kx) ValidatorEnv \<Rightarrow> BatchConfig \<Rightarrow> 'k ApiState \<Rightarrow> CcadbEnv \<Rightarrow> 'f FsOps \<Rightarrow> CcadbWorker \<Rightarrow> 'c
    \<Rightarrow> 'f system_event \<Rightarrow> ('f, 'db, 'nc, 'tc, 'cc, 'ec, 'c) System \<Rightarrow> ('f, 'db, 'nc, 'tc, 'cc, 'ec, 'c) System \<Rightarrow> bool"
  for A E W config S B F self fresh where
  serve: "server_step A E W config (with_current S (shared_validator (root_task g))) ev (server g) a
    \<Longrightarrow> system_step A E W config S B F self fresh (Serve ev) g (g\<lparr>server := a\<rparr>)"
| update: "update_roots B F W self http_get (root_task g) = (r, c) \<Longrightarrow> x \<in> {x509_cache (server g), fresh}
    \<Longrightarrow> (shared_validator c \<noteq> shared_validator (root_task g) \<Longrightarrow> x = fresh)
    \<Longrightarrow> system_step A E W config S B F self fresh (Update http_get) g (g\<lparr>root_task := c, server := (server g)\<lparr>x509_cache := x\<rparr>\<rparr>)"
| foreign: "system_step A E W config S B F self fresh (FilesChanged f) g (g\<lparr>root_task := (root_task g)\<lparr>files := f\<rparr>\<rparr>)"

inductive system_run ::
  "'k ApiEnv \<Rightarrow> ('db, 'nc, 'tc, 'cc, 'ec) StorageEnv \<Rightarrow> ('c, 'x, 'kx) ValidatorEnv \<Rightarrow> BatchConfig \<Rightarrow> 'k ApiState \<Rightarrow> CcadbEnv \<Rightarrow> 'f FsOps \<Rightarrow> CcadbWorker \<Rightarrow> 'c
    \<Rightarrow> 'f system_event list \<Rightarrow> ('f, 'db, 'nc, 'tc, 'cc, 'ec, 'c) System \<Rightarrow> ('f, 'db, 'nc, 'tc, 'cc, 'ec, 'c) System \<Rightarrow> bool"
  for A E W config S B F self fresh where
  system_start: "system_run A E W config S B F self fresh [] g g"
| system_more: "system_run A E W config S B F self fresh evs g g' \<Longrightarrow> system_step A E W config S B F self fresh ev g' g''
    \<Longrightarrow> system_run A E W config S B F self fresh (evs @ [ev]) g g''"

inductive_cases system_stepE: "system_step A E W config S B F self fresh ev g g'"

section \<open>The validators of a run\<close>

text \<open>The states of the handlers whose validator was built for roots among a set of certificates.\<close>

definition trusting :: "('c, 'x, 'kx) ValidatorEnv \<Rightarrow> Rfc6962ValidationConfig \<Rightarrow> 'k ApiState \<Rightarrow> Certificate set \<Rightarrow> 'k ApiState set" where
  "trusting W conf S X = {with_current S v | v roots. with_trusted_roots W conf roots = Inr v \<and> set roots \<subseteq> X}"

lemma trusting_mono: "X \<subseteq> Y \<Longrightarrow> trusting W conf S X \<subseteq> trusting W conf S Y"
  unfolding trusting_def by blast

lemma chain_valid_mono: "chain_valid W conf roots parsed xs \<Longrightarrow> set roots \<subseteq> set roots' \<Longrightarrow> chain_valid W conf roots' parsed xs"
  unfolding chain_valid_def by blast

definition store_list :: "RootCertificateStore \<Rightarrow> Certificate list" where
  "store_list certs = map (\<lambda>b. root_certificate (snd b)) certs"

lemma set_store_list: "set (store_list certs) = store_roots certs"
  by (simp add: store_list_def store_roots_def image_image)

lemma trusting_valid:
  assumes "T \<in> trusting W conf S (store_roots certs)" "spec_validated W T chn = Inr ()"
  shows "\<exists>parsed xs. parse_chain (der_ops W) 0 chn = Inr parsed \<and> chain_valid W conf (store_list certs) parsed xs"
proof -
  obtain v roots where v: "T = with_current S v" "with_trusted_roots W conf roots = Inr v" "set roots \<subseteq> set (store_list certs)"
    using assms(1) by (auto simp: trusting_def set_store_list)
  then have "spec_validate W v chn = Inr ()" using assms(2) by (simp add: spec_validated_def with_current_def map_sum_Inr)
  from spec_validate_valid [OF this v(2)] chain_valid_mono [OF _ v(3)] show ?thesis by blast
qed

text \<open>An update installs validators for the configuration of the worker only.\<close>

definition same_config :: "Rfc6962ValidationConfig \<Rightarrow> 'f CcadbState \<Rightarrow> 'f CcadbState \<Rightarrow> bool" where
  "same_config conf s s' \<longleftrightarrow> (v_config (shared_validator s) = conf \<longrightarrow> v_config (shared_validator s') = conf)"

interpretation conf_kept: state_preorder "same_config conf" for conf
  by unfold_locales (simp_all add: same_config_def)

lemma update_roots_config:
  assumes "validation_config self = Some conf"
  shows "relates (same_config conf) (update_roots B F W self http_get)"
proof -
  have "relates (same_config conf) (add_records B rs)" for rs
    by (simp add: relates_def same_config_def add_records_run)
  moreover have "relates (same_config conf) (persist_to_directory B F dir)" for dir
    using persist_frame [of B F dir] by (auto simp: relates_def same_config_def same_roots_iff)
  moreover have "same_config conf s (replace_validator B W conf s)" for s
    by (auto simp: same_config_def replace_validator_def with_trusted_roots_fields split: sum.split)
  ultimately show ?thesis
    unfolding update_roots_def add_from_ccadb_csv_def
    by (auto simp: assms intro!: conf_kept.relates_rules conf_kept.relates_modify)
qed

section \<open>The invariant\<close>

definition system_inv ::
  "'k ApiEnv \<Rightarrow> ('db, 'nc, 'tc, 'cc, 'ec) StorageEnv \<Rightarrow> ('db, 'nc, 'cc, 'ec) StorageView \<Rightarrow> ('c, 'x, 'kx) ValidatorEnv \<Rightarrow> ('c \<Rightarrow> bytes \<rightharpoonup> 'x)
    \<Rightarrow> bytes set \<Rightarrow> BatchConfig \<Rightarrow> 'k ApiState \<Rightarrow> CcadbEnv \<Rightarrow> Rfc6962ValidationConfig \<Rightarrow> Prepared list \<Rightarrow> (nat \<times> completion) list \<Rightarrow> string list set
    \<Rightarrow> ('f, 'db, 'nc, 'tc, 'cc, 'ec, 'c) System \<Rightarrow> bool" where
  "system_inv A E V W held D config S B conf ps msgs R g \<longleftrightarrow>
     ccadb_ok B W (root_task g) \<and> v_config (shared_validator (root_task g)) = conf \<and>
     server_inv A E V W held D config (trusting W conf S (store_roots (root_store (root_task g)))) ps msgs R (server g)"

lemma current_trusting:
  assumes "ccadb_ok B W s" "v_config (shared_validator s) = conf"
  shows "with_current S (shared_validator s) \<in> trusting W conf S (store_roots (root_store s))"
  using assms unfolding ccadb_ok_def trusting_def Let_def by blast

lemma system_step_grows:
  assumes "system_step A E W config S B F self fresh ev g g'" "map_iterates B"
  shows "roots_grow B W (root_task g) (root_task g')"
  using assms(1)
proof (cases rule: system_step.cases)
  case (update http_get r c x)
  then show ?thesis using relatesD [OF update_roots_grows [OF assms(2)]] by simp
qed (simp_all add: growth.refl_R roots_grow_files)

lemma roots_grow_store: "roots_grow B W s s' \<Longrightarrow> store_roots (root_store s) \<subseteq> store_roots (root_store s')"
  unfolding roots_grow_def store_roots_def by (metis Un_upper1 image_mono set_append)

lemma system_step_inv:
  assumes step: "system_step A E W config S B F self fresh ev g g'" and env: "storage_ok E V {}" "caching_ok W held D" "map_iterates B"
    and worker: "validation_config self = Some conf" and new: "cache_right W held D fresh"
    and req: "\<And>T. T \<in> trusting W conf S (store_roots (root_store (root_task g'))) \<Longrightarrow> requests_ok A W T D (system_certs ev)"
    and inv: "system_inv A E V W held D config S B conf ps msgs R g" and log: "loggable E ps (accepted (api_worker (server g')))"
  shows "system_inv A E V W held D config S B conf ps msgs (system_certs ev \<union> R) g'"
proof -
  let ?s = "root_task g" and ?X = "\<lambda>g. trusting W conf S (store_roots (root_store (root_task g)))"
  have grow: "roots_grow B W ?s (root_task g')" by (rule system_step_grows [OF step env(3)])
  have ok: "ccadb_ok B W (root_task g')" using grow inv by (simp add: roots_grow_def system_inv_def)
  have si: "server_inv A E V W held D config (?X g) ps msgs R (server g)" using inv by (simp add: system_inv_def)
  have sub: "?X g \<subseteq> ?X g'" by (rule trusting_mono [OF roots_grow_store [OF grow]])
  from step show ?thesis
  proof (cases rule: system_step.cases)
    case (serve sev a)
    let ?T = "with_current S (shared_validator ?s)"
    have T: "?T \<in> ?X g" using inv current_trusting unfolding system_inv_def by blast
    have "server_inv A E V W held D config (?X g) ps msgs (submitted_certs sev \<union> R) a"
      using server_step_inv [OF serve(3) env(1,2) _ si _ T] req [of ?T] T sub log serve by auto
    with serve inv show ?thesis by (simp add: system_inv_def)
  next
    case (update http_get r c x)
    have "cache_right W held D x" using update(4) new si by (auto simp: server_inv_def)
    with server_inv_mono [OF si sub] have "server_inv A E V W held D config (?X g') ps msgs R ((server g)\<lparr>x509_cache := x\<rparr>)"
      by (simp add: server_inv_def)
    moreover have "v_config (shared_validator c) = conf"
      using relatesD [OF update_roots_config [OF worker] update(3)] inv by (simp add: same_config_def system_inv_def)
    ultimately show ?thesis using update ok by (simp add: system_inv_def)
  next
    case (foreign f)
    with server_inv_mono [OF si sub] ok inv show ?thesis by (simp add: system_inv_def)
  qed
qed

lemma system_run_grows:
  assumes "system_run A E W config S B F self fresh evs g g'" "map_iterates B"
  shows "roots_grow B W (root_task g) (root_task g')"
  using assms(1)
proof induction
  case (system_more evs g g' ev g'')
  from growth.trans_R [OF system_more.IH system_step_grows [OF system_more.hyps(2) assms(2)]] show ?case .
qed (rule growth.refl_R)

lemma system_step_accepts:
  assumes "system_step A E W config S B F self fresh ev g g'"
  shows "\<exists>xs. accepted (api_worker (server g')) = accepted (api_worker (server g)) @ xs"
  using assms by (cases rule: system_step.cases) (auto dest: server_step_grows)

lemma system_run_inv:
  assumes "system_run A E W config S B F self fresh evs g g'" "storage_ok E V {}" "caching_ok W held D" "map_iterates B" "validation_config self = Some conf"
    and "cache_right W held D fresh"
    and "\<And>T. T \<in> trusting W conf S (store_roots (root_store (root_task g'))) \<Longrightarrow> requests_ok A W T D (\<Union> (system_certs ` set evs))"
    and "system_inv A E V W held D config S B conf ps msgs {} g" "loggable E ps (accepted (api_worker (server g')))"
  shows "system_inv A E V W held D config S B conf ps msgs (\<Union> (system_certs ` set evs)) g'"
  using assms(1,7,8,9)
proof induction
  case (system_more evs g g' ev g'')
  have "trusting W conf S (store_roots (root_store (root_task g'))) \<subseteq> trusting W conf S (store_roots (root_store (root_task g'')))"
    by (rule trusting_mono [OF roots_grow_store [OF system_step_grows [OF system_more.hyps(2) assms(4)]]])
  with system_more.prems(1) have req: "\<And>T. T \<in> trusting W conf S (store_roots (root_store (root_task g'))) \<Longrightarrow> requests_ok A W T D (\<Union> (system_certs ` set evs))"
    "\<And>T. T \<in> trusting W conf S (store_roots (root_store (root_task g''))) \<Longrightarrow> requests_ok A W T D (system_certs ev)"
    by (force simp: requests_ok_def)+
  obtain xs where "accepted (api_worker (server g'')) = accepted (api_worker (server g')) @ xs" using system_step_accepts [OF system_more.hyps(2)] by blast
  then have "loggable E ps (accepted (api_worker (server g')))" using system_more.prems(3) loggable_prefix by fastforce
  from system_more.IH [OF req(1) system_more.prems(2) this]
  have "system_inv A E V W held D config S B conf ps msgs (\<Union> (system_certs ` set evs)) g'" .
  from system_step_inv [OF system_more.hyps(2) assms(2-6) req(2) this system_more.prems(3)] show ?case by (simp add: Un_commute)
qed simp

section \<open>What the system promises\<close>

lemma system_log:
  assumes "system_run A E W config S B F self c evs \<lparr>server = \<lparr>api_worker = worker_new s t, x509_cache = c\<rparr>, root_task = d\<rparr> g"
    and "storage_ok E V {}" "caching_ok W held D" "map_iterates B" "validation_config self = Some conf"
    and "log_holds E V ps P s" "cache_right W held D c" "ccadb_ok B W d" "v_config (shared_validator d) = conf"
    and "\<And>T. T \<in> trusting W conf S (store_roots (root_store (root_task g))) \<Longrightarrow> requests_ok A W T D (\<Union> (system_certs ` set evs))"
    and "loggable E ps (accepted (api_worker (server g)))"
  shows "\<exists>qs P' txs. log_holds E V (ps @ qs) P' (store (api_worker (server g))) \<and>
    (\<forall>j < length qs. \<exists>certs \<in> \<Union> (system_certs ` set evs). \<exists>chn parsed xs v. decode_chain A certs = Inr chn \<and>
      parse_chain (der_ops W) 0 chn = Inr parsed \<and> chain_valid W conf (store_list (root_store (root_task g))) parsed xs \<and>
      entry_for A E W (with_current S v) chn (length ps + j) (qs ! j)) \<and>
    length txs = length qs \<and>
    sent (store (api_worker (server g))) = sent s @ map (\<lambda>j. (txs ! j, Inr (of_nat (length ps + j), prep_sct (qs ! j)))) [0..<length qs]"
proof -
  let ?X = "trusting W conf S (store_roots (root_store (root_task g)))" and ?R = "\<Union> (system_certs ` set evs)"
  have "system_inv A E V W held D config S B conf ps (sent s) {} \<lparr>server = \<lparr>api_worker = worker_new s t, x509_cache = c\<rparr>, root_task = d\<rparr>"
    using assms(8,9) server_new_inv [OF assms(6,7)] by (simp add: system_inv_def)
  from system_run_inv [OF assms(1-5,7,10) this assms(11)]
  have "server_inv A E V W held D config ?X ps (sent s) ?R (server g)" by (simp add: system_inv_def)
  from server_inv_log [OF this] obtain qs P' txs where q: "log_holds E V (ps @ qs) P' (store (api_worker (server g)))"
    and e: "\<And>j. j < length qs \<Longrightarrow> \<exists>T \<in> ?X. \<exists>certs \<in> ?R. \<exists>chn. decode_chain A certs = Inr chn \<and>
      spec_validated W T chn = Inr () \<and> entry_for A E W T chn (length ps + j) (qs ! j)" and x: "length txs = length qs"
    "sent (store (api_worker (server g))) = sent s @ map (\<lambda>j. (txs ! j, Inr (of_nat (length ps + j), prep_sct (qs ! j)))) [0..<length qs]"
    by blast
  have "\<exists>certs \<in> ?R. \<exists>chn parsed xs v. decode_chain A certs = Inr chn \<and> parse_chain (der_ops W) 0 chn = Inr parsed \<and>
      chain_valid W conf (store_list (root_store (root_task g))) parsed xs \<and> entry_for A E W (with_current S v) chn (length ps + j) (qs ! j)"
    if j: "j < length qs" for j
  proof -
    obtain T certs chn where T: "T \<in> ?X" "certs \<in> ?R" "decode_chain A certs = Inr chn" "spec_validated W T chn = Inr ()"
        "entry_for A E W T chn (length ps + j) (qs ! j)" using e [OF j] by blast
    obtain v where "T = with_current S v" using T(1) by (auto simp: trusting_def)
    with trusting_valid [OF T(1,4)] T show ?thesis by blast
  qed
  with q x show ?thesis by blast
qed

text \<open>C1: Only chains that lead to a root of the store are ever logged. Let the system run, with submissions on both endpoints, iterations of the
  batch worker, waiting, CCADB updates that exchange the validator (also failing ones) and changes to the root files, in any order,
  on a store that does not fail. Then the log is the log at the start followed by new entries, and every new entry belongs to a submitted
  chain that decodes, parses, is within the limits, is signed link by link and is anchored at a certificate of the root store. The entry
  holds the submitted certificate, or the final TBS certificate of the pre-certificate with the key hash of its issuer, and its
  SCT, which is what the submitter has been sent, carries the index of the entry and a signature of the log over its leaf.\<close>

theorem system_logs_only_trusted_chains:
  assumes "storage_ok E V {}" "caching_ok W held D" "map_iterates B" "validation_config self = Some conf"
    and "log_holds E V ps P s" "cache_right W held D c" "ccadb_ok B W d" "v_config (shared_validator d) = conf"
    and "system_run A E W config S B F self c evs \<lparr>server = \<lparr>api_worker = worker_new s t, x509_cache = c\<rparr>, root_task = d\<rparr> g"
    and "\<And>T. T \<in> trusting W conf S (store_roots (root_store (root_task g))) \<Longrightarrow> requests_ok A W T D (\<Union> (system_certs ` set evs))"
    and "loggable E ps (accepted (api_worker (server g)))"
  shows "\<exists>qs P'. log_holds E V (ps @ qs) P' (store (api_worker (server g))) \<and>
    (\<forall>j < length qs. \<exists>certs \<in> \<Union> (system_certs ` set evs). \<exists>chn parsed xs v. decode_chain A certs = Inr chn \<and>
      parse_chain (der_ops W) 0 chn = Inr parsed \<and> chain_valid W conf (store_list (root_store (root_task g))) parsed xs \<and>
      entry_for A E W (with_current S v) chn (length ps + j) (qs ! j)) \<and>
    (\<exists>txs. length txs = length qs \<and>
      sent (store (api_worker (server g))) = sent s @ map (\<lambda>j. (txs ! j, Inr (of_nat (length ps + j), prep_sct (qs ! j)))) [0..<length qs])"
  using system_log [OF assms(9,1-8,10,11)] by blast

text \<open>The leaf that a client computes from a chain and the SCT it got for it.\<close>

definition promised_leaf ::
  "('db, 'nc, 'tc, 'cc, 'ec) StorageEnv \<Rightarrow> ('c, 'x, 'kx) ValidatorEnv \<Rightarrow> 'k ApiState \<Rightarrow> bytes list \<Rightarrow> SignedCertificateTimestamp \<Rightarrow> bytes \<Rightarrow> bool" where
  "promised_leaf E W S chn sct leaf \<longleftrightarrow>
     (LogEntry_is_precertificate (x509_ops E) (chn ! 0) = Inr False \<and>
        leaf = [0, 0] @ entry_bytes (chn ! 0) X509Entry None (sct_timestamp sct) (sct_extensions sct)) \<or>
     (LogEntry_is_precertificate (x509_ops E) (chn ! 0) = Inr True \<and>
        (\<exists>tbs kh. extract_tbs_certificate (x509_ops E) (chn ! 0) (tl chn) = Inr tbs \<and> key_hash_of E W S chn = Inr kh \<and>
           leaf = [0, 0] @ entry_bytes tbs PrecertEntry (Some kh) (sct_timestamp sct) (sct_extensions sct)))"

text \<open>The audit of a leaf over HTTP: the tree head, then the proof for its hash and the size of the head, which the verifier accepts.\<close>

definition audited ::
  "'k ApiEnv \<Rightarrow> ('db, 'nc, 'tc, 'cc, 'ec) StorageEnv \<Rightarrow> 'k ApiState \<Rightarrow> DateTime \<Rightarrow> bytes \<Rightarrow> u64 \<Rightarrow> ('db, 'nc, 'tc, 'cc, 'ec) CtStorage \<Rightarrow> bool" where
  "audited A E S time leaf i s \<longleftrightarrow>
     (\<exists>head s1 resp s2 root digests. get_sth A E S time s = (Inr head, s1) \<and>
        get_proof_by_hash A E \<lparr>req_hash = b64 A (sha256 E ([0x00] @ leaf)), req_tree_size = resp_tree_size head\<rparr> s1 = (Inr resp, s2) \<and>
        leaf_index resp = i \<and> b64_decode A (sha256_root_hash head) = Some root \<and> map (b64_decode A) (audit_path resp) = map Some digests \<and>
        inclusion_verify (sha256 E) (inclusion_from_digests digests) leaf i \<lparr>root_hash = root, num_leaves = resp_tree_size head\<rparr> = Some (Inr ()))"

lemma entry_promised:
  assumes "entry_for A E W S chn i p" "logged_at E i p"
  shows "promised_leaf E W S chn (prep_sct p) (prep_leaf p)"
proof -
  let ?e = "prep_entry p" and ?t = "timestamp_millis (entry_timestamp (prep_entry p))"
  have "prep_leaf p = [0, 0] @ entry_bytes (certificate ?e) (entry_type ?e) (issuer_key_hash ?e) ?t (leaf_index_extension (of_nat i))"
    using assms(2) by (auto simp: logged_at_def compute_leaf_data_with_index_def serialize_eq index_extension_def split: if_splits)
  moreover have "entry_bytes cert X509Entry kh ms ext = entry_bytes cert X509Entry None ms ext" for cert kh ms ext
    by (simp add: entry_bytes_def)
  ultimately show ?thesis
    using assms(1) by (cases "entry_type ?e") (auto simp: entry_for_def promised_leaf_def Let_def)
qed

text \<open>C2: Every SCT is honoured. Whatever the system has done since, an SCT that it has sent to a submitter names the index in its extension and signs
  the leaf that a client computes from the submitted chain and the SCT, the chain is valid for the roots of the store, and auditing that leaf
  over HTTP succeeds: the log serves a tree head and, for the hash of the leaf, the index of the SCT with a path that the verifier
  accepts against the head. The hash is assumed not to collide on the leaves of the final log.\<close>

theorem issued_scts_are_honoured:
  assumes "storage_ok E V {}" "caching_ok W held D" "map_iterates B" "validation_config self = Some conf"
    and "log_holds E V ps P s" "cache_right W held D c" "ccadb_ok B W d" "v_config (shared_validator d) = conf"
    and "system_run A E W config S B F self c evs \<lparr>server = \<lparr>api_worker = worker_new s t, x509_cache = c\<rparr>, root_task = d\<rparr> g"
    and "\<And>T. T \<in> trusting W conf S (store_roots (root_store (root_task g))) \<Longrightarrow> requests_ok A W T D (\<Union> (system_certs ` set evs))"
    and "loggable E ps (accepted (api_worker (server g)))"
    and "\<And>b. b64_decode A (b64 A b) = Some b"
    and "\<And>all P'. log_holds E V all P' (store (api_worker (server g))) \<Longrightarrow> inj_on (sha256 E) ((\<lambda>p. [0x00] @ prep_leaf p) ` set all)"
    and "(tx, Inr (i, sct)) \<in> set (drop (length (sent s)) (sent (store (api_worker (server g)))))"
  shows "\<exists>certs \<in> \<Union> (system_certs ` set evs). \<exists>chn parsed xs v leaf. decode_chain A certs = Inr chn \<and>
    parse_chain (der_ops W) 0 chn = Inr parsed \<and> chain_valid W conf (store_list (root_store (root_task g))) parsed xs \<and>
    promised_leaf E W (with_current S v) chn sct leaf \<and> sct_extensions sct = leaf_index_extension i \<and>
    sct_log_id sct = builder_log_id (sct_builder S) \<and> sct_signature sct = [4, 3] @ vec16 (sign A (signing_key (sct_builder S)) leaf) \<and>
    audited A E S time leaf i (store (api_worker (server g)))"
proof -
  let ?s = "store (api_worker (server g))"
  obtain qs P' txs where q: "log_holds E V (ps @ qs) P' ?s"
      "\<And>j. j < length qs \<Longrightarrow> \<exists>certs \<in> \<Union> (system_certs ` set evs). \<exists>chn parsed xs v. decode_chain A certs = Inr chn \<and>
        parse_chain (der_ops W) 0 chn = Inr parsed \<and> chain_valid W conf (store_list (root_store (root_task g))) parsed xs \<and>
        entry_for A E W (with_current S v) chn (length ps + j) (qs ! j)"
      "sent ?s = sent s @ map (\<lambda>j. (txs ! j, Inr (of_nat (length ps + j), prep_sct (qs ! j)))) [0..<length qs]"
    using system_log [OF assms(9,1-8,10,11)] by blast
  obtain j where j: "j < length qs" "i = of_nat (length ps + j)" "sct = prep_sct (qs ! j)" using assms(14) q(3) by auto
  obtain certs chn parsed xs v where c: "certs \<in> \<Union> (system_certs ` set evs)" "decode_chain A certs = Inr chn"
      "parse_chain (der_ops W) 0 chn = Inr parsed" "chain_valid W conf (store_list (root_store (root_task g))) parsed xs"
      "entry_for A E W (with_current S v) chn (length ps + j) (qs ! j)" using q(2) [OF j(1)] by blast
  obtain M where M: "log_ok E (ps @ qs) P' M" using q(1) by (auto simp: log_holds_def)
  have "logged_at E (length ps + j) (qs ! j)" using log_okD(5) [OF M, of "length ps + j"] j by (simp add: nth_append)
  from entry_promised [OF c(5) this] j(3)
  have "promised_leaf E W (with_current S v) chn sct (prep_leaf (qs ! j))" by simp
  moreover have "audited A E S time (prep_leaf (qs ! j)) i ?s"
    using served_entries_are_audited [OF assms(1) q(1) _ assms(13) [OF q(1)] assms(12), of "length ps + j" S time] j
    by (auto simp: audited_def nth_append leaf_hash_of_def)
  moreover have "sct_extensions sct = leaf_index_extension i" "sct_log_id sct = builder_log_id (sct_builder S)"
      "sct_signature sct = [4, 3] @ vec16 (sign A (signing_key (sct_builder S)) (prep_leaf (qs ! j)))"
    using c(5) j by (simp_all add: entry_for_def Let_def with_current_def)
  ultimately show ?thesis using c(1-4) by blast
qed

text \<open>A state determines the length of its log.\<close>

lemma log_length_unique:
  assumes "storage_ok E V {}" "log_holds E V ps P s" "log_holds E V qs Q s"
  shows "length ps = length qs"
proof -
  have "\<exists>s'. on_tree (ms_size (slate_debug E) (tree_env E)) s = (Inr (of_nat (length zs)), s')" if "log_holds E V zs Z s" for zs Z
    using tripleD [OF log_tree_answers(2) [OF assms(1), of zs Z, unfolded answers_def] that] by auto
  from this [OF assms(2)] this [OF assms(3)] have "(of_nat (length ps) :: u64) = of_nat (length qs)" by auto
  moreover have "length ps \<le> 2 ^ 63" "length qs \<le> 2 ^ 63" using assms(2,3) log_okD(6) by (auto simp: log_holds_def)
  ultimately show ?thesis by (simp add: of_nat_u64_eq_iff)
qed

section \<open>An instance\<close>

text \<open>The server of the submission instance starts with no roots; an update brings the root of the toy certificates.\<close>

definition sys_env :: CcadbEnv where
  "sys_env = root_env\<lparr>root_x509 := toy_x509\<rparr>"

definition sys_download :: "string \<Rightarrow> Download" where
  "sys_download url = Responded True ''200 OK'' (Inr (''Subject;Root,Owner,'' @ mem_pem [3] @ '',03'' @ replicate 62 (CHR ''0'')))"

definition sys_roots :: "mem_files CcadbState" where
  "sys_roots = \<lparr>root_store = [], files = (False, []), shared_validator = projr (with_trusted_roots api_venv root_config [])\<rparr>"

definition sys_updated :: "mem_files CcadbState" where
  "sys_updated = snd (update_roots sys_env mem_fs api_venv root_worker sys_download sys_roots)"

lemma sys_env_ok: "map_iterates sys_env" "validation_config root_worker = Some root_config"
  by (simp_all add: map_iterates_def sys_env_def root_env_def root_worker_def with_validator_def)

lemma sys_roots_ok: "ccadb_ok sys_env api_venv sys_roots" "v_config (shared_validator sys_roots) = root_config"
  by (simp_all add: ccadb_ok_def store_ok_def sys_roots_def with_trusted_roots_def)

lemma sys_validator: "with_current sub_state (shared_validator sys_updated) = sub_state" "store_list (root_store sys_updated) = [api_root]"
proof -
  have "shared_validator sys_updated = api_validator" by code_simp
  then show "with_current sub_state (shared_validator sys_updated) = sub_state" by (simp add: with_current_def flip: api_validator_ok(2))
  show "store_list (root_store sys_updated) = [api_root]" by code_simp
qed

definition sys_events :: "mem_files system_event list" where
  "sys_events = [Update sys_download, Serve (AddPreChain mem_time 5 api_request), Serve (Work (Receive 3 1))]"

lemma sys_run:
  "system_run mem_api api_env api_venv api_config sub_state sys_env mem_fs root_worker Map.empty sys_events
     \<lparr>server = api_start, root_task = sys_roots\<rparr> \<lparr>server = api_after, root_task = sys_updated\<rparr>"
proof -
  let ?step = "system_step mem_api api_env api_venv api_config sub_state sys_env mem_fs root_worker Map.empty"
  and ?run = "system_run mem_api api_env api_venv api_config sub_state sys_env mem_fs root_worker Map.empty"
  have s: "?step (Update sys_download) \<lparr>server = api_start, root_task = sys_roots\<rparr> \<lparr>server = api_start, root_task = sys_updated\<rparr>"
  proof -
    have "update_roots sys_env mem_fs api_venv root_worker sys_download (root_task \<lparr>server = api_start, root_task = sys_roots\<rparr>)
        = (fst (update_roots sys_env mem_fs api_venv root_worker sys_download sys_roots), sys_updated)" by (simp add: sys_updated_def)
    from system_step.update [OF this, where x = Map.empty and fresh = Map.empty] show ?thesis by (simp add: api_start_def)
  qed
  have served: "?step (Serve ev) \<lparr>server = a, root_task = sys_updated\<rparr> \<lparr>server = a', root_task = sys_updated\<rparr>"
    if "server_step mem_api api_env api_venv api_config sub_state ev a a'" for ev a a'
    using system_step.serve [of mem_api api_env api_venv api_config sub_state "\<lparr>server = a, root_task = sys_updated\<rparr>" ev a'] that
    by (simp add: sys_validator(1))
  have "?run ([] @ [Update sys_download]) \<lparr>server = api_start, root_task = sys_roots\<rparr> \<lparr>server = api_start, root_task = sys_updated\<rparr>"
    by (rule system_more [OF system_start s])
  from system_more [OF this served [OF api_steps(1)]] have "?run (([] @ [Update sys_download]) @ [Serve (AddPreChain mem_time 5 api_request)])
      \<lparr>server = api_start, root_task = sys_roots\<rparr> \<lparr>server = api_queued, root_task = sys_updated\<rparr>" .
  from system_more [OF this served [OF api_steps(2)]] show ?thesis by (simp add: sys_events_def)
qed

lemma sys_requests:
  assumes "T \<in> trusting api_venv root_config sub_state (store_roots (root_store sys_updated))"
  shows "requests_ok mem_api api_venv T toy_encodings {api_request}"
proof -
  obtain v roots where v: "T = with_current sub_state v" "with_trusted_roots api_venv root_config roots = Inr v" "set roots \<subseteq> {api_root}"
    using assms by (auto simp: trusting_def sys_validator(2) simp flip: set_store_list)
  have "parse_chain toy_x509 0 [[1], [2], [3]] = Inr [toy_cert [20] [10] [toy_poison], toy_cert [30] [20] [], toy_cert [30] [30] []]"
    by (rule toy_parse)
  then have "all_encodings api_venv toy_encodings v [[1], [2], [3]]"
    using v(3) with_trusted_roots_fields(2) [OF v(2)]
    by (simp add: all_encodings_def api_venv_def encodings_in_def toy_encodings_def api_root_def)
      (auto simp: toy_venv_def toy_x509_def toy_cert_def)
  then show ?thesis by (simp add: requests_ok_def api_decode v(1) with_current_def)
qed

lemma sys_certs: "\<Union> (system_certs ` set sys_events) = {api_request}"
  by (simp add: sys_events_def)

theorem system_logs_only_trusted_chains_witness:
  "\<exists>qs P'. log_holds api_env mem_view ([] @ qs) P' (store (api_worker api_after)) \<and>
    (\<forall>j < length qs. \<exists>certs \<in> {api_request}. \<exists>chn parsed xs v. decode_chain mem_api certs = Inr chn \<and>
      parse_chain (der_ops api_venv) 0 chn = Inr parsed \<and> chain_valid api_venv root_config [api_root] parsed xs \<and>
      entry_for mem_api api_env api_venv (with_current sub_state v) chn (length ([] :: Prepared list) + j) (qs ! j)) \<and>
    (\<exists>txs. length txs = length qs \<and>
      sent (store (api_worker api_after)) = sent mem_storage @ map (\<lambda>j. (txs ! j, Inr (of_nat (length ([] :: Prepared list) + j), prep_sct (qs ! j)))) [0..<length qs])"
  using system_logs_only_trusted_chains [OF api_storage_ok api_caching(1) sys_env_ok api_empty api_caching(2) sys_roots_ok
      sys_run [unfolded api_start_def]] api_loggable sys_requests
  by (simp add: api_accepted sys_certs sys_validator(2))


lemma sys_sent: "sent (store (api_worker api_after)) = [(5, Inr (0, the (sct_callback api_batch_entry 0)))]"
  by code_simp

theorem issued_scts_are_honoured_witness:
  "\<exists>certs \<in> {api_request}. \<exists>chn parsed xs v leaf. decode_chain mem_api certs = Inr chn \<and>
    parse_chain (der_ops api_venv) 0 chn = Inr parsed \<and> chain_valid api_venv root_config [api_root] parsed xs \<and>
    promised_leaf api_env api_venv (with_current sub_state v) chn (the (sct_callback api_batch_entry 0)) leaf \<and>
    sct_extensions (the (sct_callback api_batch_entry 0)) = leaf_index_extension 0 \<and>
    sct_log_id (the (sct_callback api_batch_entry 0)) = builder_log_id (sct_builder sub_state) \<and>
    sct_signature (the (sct_callback api_batch_entry 0)) = [4, 3] @ vec16 (sign mem_api (signing_key (sct_builder sub_state)) leaf) \<and>
    audited mem_api api_env sub_state mem_time leaf 0 (store (api_worker api_after))"
proof -
  let ?g = "\<lparr>server = api_after, root_task = sys_updated\<rparr>"
  have req: "requests_ok mem_api api_venv T toy_encodings (\<Union> (system_certs ` set sys_events))"
    if "T \<in> trusting api_venv root_config sub_state (store_roots (root_store (root_task ?g)))" for T
    using sys_requests that by (simp add: sys_certs)
  have log: "loggable api_env [] (accepted (api_worker (server ?g)))" by (simp add: api_accepted api_loggable)
  have one: "length all = 1" if "log_holds api_env mem_view all P' (store (api_worker (server ?g)))" for all P'
  proof -
    from system_log [OF sys_run [unfolded api_start_def] api_storage_ok api_caching(1) sys_env_ok api_empty api_caching(2) sys_roots_ok req log]
    obtain qs Q txs where "log_holds api_env mem_view ([] @ qs) Q (store (api_worker (server ?g)))"
      "sent (store (api_worker (server ?g))) = sent mem_storage @ map (\<lambda>j. (txs ! j, Inr (of_nat (length ([] :: Prepared list) + j), prep_sct (qs ! j)))) [0..<length qs]"
      by blast
    then show ?thesis using log_length_unique [OF api_storage_ok that] sys_sent by (auto simp: mem_storage_def dest: arg_cong [of _ _ length])
  qed
  have inj: "inj_on (sha256 api_env) ((\<lambda>p. [0x00] @ prep_leaf p) ` set all)"
    if "log_holds api_env mem_view all P' (store (api_worker (server ?g)))" for all P'
    using one [OF that] by (auto simp: length_Suc_conv)
  have sent: "(5, Inr (0, the (sct_callback api_batch_entry 0))) \<in> set (drop (length (sent mem_storage)) (sent (store (api_worker (server ?g)))))"
    by (simp add: sys_sent mem_storage_def)
  from issued_scts_are_honoured [where time = mem_time, OF api_storage_ok api_caching(1) sys_env_ok api_empty api_caching(2) sys_roots_ok sys_run [unfolded api_start_def]
      req log mem_codec inj sent]
  show ?thesis by (simp add: sys_certs sys_validator(2))
qed

end
