(* ===== verification/Storage_Metrics.thy ===== *)
theory Storage_Metrics
  imports Batch_Worker_Props "HOL-Library.Log_Nat"
begin

text \<open>
  The statistics task of \<^verbatim>\<open>src/src/storage/mod.rs\<close> (\<^verbatim>\<open>metrics_worker\<close>): every five seconds it sets the gauges of the queue, reports what was
  flushed and read since the last time and rates the queue. The floating-point numbers of the code are computed as the
  rationals they stand for, each result rounded to 53 bits; in the ranges used here they are neither subnormal nor infinite. A panic is \<open>None\<close>.
\<close>

section \<open>Floating point\<close>

definition round_half_even :: "rat \<Rightarrow> int" where
  "round_half_even q =
     (let f = \<lfloor>q\<rfloor>; r = q - of_int f in
      if r < 1 / 2 then f else if 1 / 2 < r then f + 1 else if even f then f else f + 1)"

text \<open>The exponent of a positive rational: it lies between this power of two and the next.\<close>

definition f64_exponent :: "rat \<Rightarrow> int" where
  "f64_exponent x =
     (case quotient_of x of (a, b) \<Rightarrow>
        let e = int (floorlog 2 (nat a)) - int (floorlog 2 (nat b)) in if 2 powi e \<le> x then e else e - 1)"

definition f64 :: "rat \<Rightarrow> rat" where
  "f64 x = (if x \<le> 0 then 0 else let u = 2 powi (f64_exponent x - 52) in of_int (round_half_even (x / u)) * u)"

section \<open>One round of the task\<close>

definition saturating_sub :: "u64 \<Rightarrow> u64 \<Rightarrow> u64" where
  "saturating_sub a b = (if b \<le> a then a - b else 0)"

definition checked_div :: "u64 \<Rightarrow> u64 \<Rightarrow> u64 option" where
  "checked_div a b = (if b = 0 then None else Some (a div b))"

definition BatchStats_default :: BatchStats where
  "BatchStats_default = \<lparr>batches_flushed = 0, total_entries = 0, total_flush_time_ms = 0, min_batch_size = 0, max_batch_size_seen = 0,
     total_certs_checked = 0, total_certs_deduplicated = 0, total_bytes_saved = 0, total_dedup_check_time_ms = 0\<rparr>"

record MetricsTask =
  last_stats :: BatchStats
  last_read_ops :: u64
  last_read_bytes :: u64

definition metrics_start :: MetricsTask where
  "metrics_start = \<lparr>last_stats = BatchStats_default, last_read_ops = 0, last_read_bytes = 0\<rparr>"

record BatchReport =
  rep_batches :: u64
  rep_avg_size :: u64
  rep_avg_time :: u64
  rep_throughput :: u64
  rep_dedup_rate :: rat
  rep_deduped :: u64
  rep_checked :: u64
  rep_kb_saved :: u64
  rep_dedup_time :: u64

record ReadReport =
  rep_read_ops :: u64
  rep_read_mb :: u64
  rep_avg_read_kb :: u64

record QueueMetrics =
  queue_depth :: nat
  queue_capacity :: nat
  queue_health :: rat
  queue_warning :: "nat option"

definition batch_report :: "BatchStats \<Rightarrow> BatchStats \<Rightarrow> BatchReport option option" where
  "batch_report prev stats =
     (let interval_batches = saturating_sub (batches_flushed stats) (batches_flushed prev);
          interval_entries = saturating_sub (total_entries stats) (total_entries prev);
          interval_time_ms = saturating_sub (total_flush_time_ms stats) (total_flush_time_ms prev)
      in if 0 < interval_batches
         then do {
           avg_batch_size \<leftarrow> checked_div interval_entries interval_batches;
           avg_flush_time \<leftarrow> checked_div interval_time_ms interval_batches;
           let interval_certs_checked = saturating_sub (total_certs_checked stats) (total_certs_checked prev);
           let interval_certs_deduped = saturating_sub (total_certs_deduplicated stats) (total_certs_deduplicated prev);
           let interval_bytes_saved = saturating_sub (total_bytes_saved stats) (total_bytes_saved prev);
           let interval_dedup_time = saturating_sub (total_dedup_check_time_ms stats) (total_dedup_check_time_ms prev);
           Some (Some
             \<lparr>rep_batches = interval_batches, rep_avg_size = avg_batch_size, rep_avg_time = avg_flush_time,
              rep_throughput = of_int \<lfloor>f64 (f64 (of_nat (unat interval_entries)) / 5)\<rfloor>,
              rep_dedup_rate =
                (if 0 < interval_certs_checked
                 then f64 (f64 (f64 (of_nat (unat interval_certs_deduped)) / f64 (of_nat (unat interval_certs_checked))) * 100) else 0),
              rep_deduped = interval_certs_deduped, rep_checked = interval_certs_checked,
              rep_kb_saved = interval_bytes_saved div 1024, rep_dedup_time = interval_dedup_time\<rparr>) }
         else Some None)"

definition read_report :: "MetricsTask \<Rightarrow> u64 \<times> u64 \<Rightarrow> ReadReport option option" where
  "read_report task reads =
     (let read_ops_delta = saturating_sub (fst reads) (last_read_ops task);
          read_bytes_delta = saturating_sub (snd reads) (last_read_bytes task)
      in if 0 < read_ops_delta
         then do {
           avg_read_size \<leftarrow> checked_div read_bytes_delta read_ops_delta;
           Some (Some \<lparr>rep_read_ops = read_ops_delta div 5, rep_read_mb = read_bytes_delta div 5 div 1000000,
                       rep_avg_read_kb = avg_read_size div 1024\<rparr>) }
         else Some None)"

definition utilization_percent :: "nat \<Rightarrow> nat \<Rightarrow> rat" where
  "utilization_percent depth cap = f64 (f64 (f64 (of_nat depth) / f64 (of_nat cap)) * 100)"

definition queue_metrics :: "nat \<Rightarrow> nat \<Rightarrow> QueueMetrics" where
  "queue_metrics depth cap =
     (let percent = utilization_percent depth cap in
      \<lparr>queue_depth = depth, queue_capacity = cap,
       queue_health = (if 90 < percent then 0 else if 75 < percent then 1 / 2 else 1),
       queue_warning = (if 75 < percent then Some (nat \<lfloor>percent\<rfloor>) else None)\<rparr>)"

text \<open>The free places of the channel, its capacity, the statistics of the worker and of the reads.\<close>

definition metrics_tick ::
  "nat \<Rightarrow> nat \<Rightarrow> BatchStats \<Rightarrow> u64 \<times> u64 \<Rightarrow> MetricsTask \<Rightarrow> (QueueMetrics \<times> BatchReport option \<times> ReadReport option \<times> MetricsTask) option" where
  "metrics_tick capacity max_capacity stats reads task =
     (if max_capacity < capacity then None
      else do {
        let current_depth = max_capacity - capacity;
        batches \<leftarrow> batch_report (last_stats task) stats;
        read \<leftarrow> read_report task reads;
        Some (queue_metrics current_depth max_capacity, batches, read,
              \<lparr>last_stats = stats, last_read_ops = fst reads, last_read_bytes = snd reads\<rparr>) })"

text \<open>The rounds of the task between flushes of the worker; the number of free places of the channel and the read statistics are whatever they are
  at the time.\<close>

datatype stats_event = Flush nat u64 u64 PushResult | Tick nat nat "u64 \<times> u64"

fun stats_run :: "stats_event list \<Rightarrow> BatchStats \<times> MetricsTask \<Rightarrow> (BatchReport list \<times> BatchStats \<times> MetricsTask) option" where
  "stats_run [] (stats, task) = Some ([], stats, task)"
| "stats_run (Flush n t1 t2 r # evs) (stats, task) = stats_run evs (record_stats n t1 t2 r stats, task)"
| "stats_run (Tick capacity max_capacity reads # evs) (stats, task) = do {
     (q, b, rd, task') \<leftarrow> metrics_tick capacity max_capacity stats reads task;
     (reports, rest) \<leftarrow> stats_run evs (stats, task');
     Some ((case b of None \<Rightarrow> reports | Some rep \<Rightarrow> rep # reports), rest) }"

section \<open>Rounding\<close>

lemma round_half_even_error: "\<bar>of_int (round_half_even q) - q\<bar> \<le> 1 / 2"
proof -
  have "of_int \<lfloor>q\<rfloor> \<le> q" "q < of_int \<lfloor>q\<rfloor> + 1" by linarith+
  then show ?thesis unfolding round_half_even_def Let_def by (auto simp: abs_le_iff)
qed

lemma floorlog_2: "0 < n \<Longrightarrow> 2 ^ (floorlog 2 n - 1) \<le> n \<and> n < 2 ^ floorlog 2 n \<and> 0 < floorlog 2 n"
  using floorlog_bounds [of n 2] floorlog_eq_zero_iff [of 2 n] by auto

lemma f64_exponent_bounds:
  assumes "0 < x"
  shows "2 powi f64_exponent x \<le> x" "x < 2 powi (f64_exponent x + 1)"
proof -
  obtain a b where q: "quotient_of x = (a, b)" by force
  have b: "0 < b" and x: "x = of_int a / of_int b" using quotient_of_denom_pos [OF q] quotient_of_div [OF q] by simp_all
  have a: "0 < a" using assms b by (simp add: x zero_less_divide_iff)
  let ?m = "floorlog 2 (nat a)" and ?n = "floorlog 2 (nat b)"
  have A: "2 ^ (?m - 1) \<le> nat a" "nat a < 2 ^ ?m" "0 < ?m" and B: "2 ^ (?n - 1) \<le> nat b" "nat b < 2 ^ ?n" "0 < ?n"
    using floorlog_2 [of "nat a"] floorlog_2 [of "nat b"] a b by simp_all
  have r: "(2::rat) ^ (?m - 1) \<le> of_int a" "of_int a < (2::rat) ^ ?m" "(2::rat) ^ (?n - 1) \<le> of_int b" "of_int b < (2::rat) ^ ?n"
    using of_nat_mono [OF A(1), where 'a = rat] of_nat_mono [OF B(1), where 'a = rat] A(2) B(2) a b
      of_nat_less_iff [of "nat a" "2 ^ ?m", where 'a = rat] of_nat_less_iff [of "nat b" "2 ^ ?n", where 'a = rat] by simp_all
  let ?e = "int ?m - int ?n"
  have e: "2 powi (int i - int j) = (2::rat) ^ i / 2 ^ j" for i j by (simp add: power_int_diff)
  have lo: "2 powi (?e - 1) \<le> x"
  proof -
    have "2 powi (?e - 1) = (2::rat) ^ (?m - 1) / 2 ^ ?n" using e [of "?m - 1" ?n] A(3) by (simp add: of_nat_diff Suc_leI algebra_simps)
    also have "\<dots> \<le> of_int a / of_int b" using r a b by (intro frac_le) simp_all
    finally show ?thesis by (simp add: x)
  qed
  have hi: "x < 2 powi (?e + 1)"
  proof -
    have "of_int a / of_int b < (2::rat) ^ ?m / 2 ^ (?n - 1)" using r a by (intro frac_less) (simp_all add: order_less_imp_le)
    also have "\<dots> = 2 powi (?e + 1)" using e [of ?m "?n - 1"] B(3) by (simp add: of_nat_diff Suc_leI algebra_simps)
    finally show ?thesis by (simp add: x)
  qed
  show "2 powi f64_exponent x \<le> x" "x < 2 powi (f64_exponent x + 1)"
    using lo hi by (simp_all add: f64_exponent_def q Let_def)
qed

text \<open>The relative error of a rounding is at most $2^{-53}$.\<close>

lemma f64_error:
  assumes "0 \<le> x"
  shows "\<bar>f64 x - x\<bar> \<le> x / 2 ^ 53" "0 \<le> f64 x"
proof -
  have "\<bar>f64 x - x\<bar> \<le> x / 2 ^ 53"
  proof (cases "x = 0")
    case False
    with assms have x: "0 < x" by simp
    define u :: rat where "u = 2 powi (f64_exponent x - 52)"
    have u: "0 < u" by (simp add: u_def)
    have "u / 2 * 2 ^ 53 = 2 powi f64_exponent x" by (simp add: u_def power_int_diff)
    then have le: "u / 2 \<le> x / 2 ^ 53" using f64_exponent_bounds(1) [OF x] by (simp add: field_simps)
    have "f64 x - x = (of_int (round_half_even (x / u)) - x / u) * u" using x u by (simp add: f64_def u_def [symmetric] Let_def algebra_simps)
    then have "\<bar>f64 x - x\<bar> = \<bar>of_int (round_half_even (x / u)) - x / u\<bar> * u" using u by (simp add: abs_mult)
    also have "\<dots> \<le> 1 / 2 * u" using round_half_even_error u by (intro mult_right_mono) simp_all
    finally show ?thesis using le by simp
  qed (simp add: f64_def)
  moreover have "x / 2 ^ 53 \<le> x" using assms by (simp add: field_simps)
  ultimately show "\<bar>f64 x - x\<bar> \<le> x / 2 ^ 53" "0 \<le> f64 x" by linarith+
qed

text \<open>Integers of 53 bits are exact.\<close>

lemma round_half_even_int: "round_half_even (of_int k) = k"
  by (simp add: round_half_even_def)

lemma f64_nat:
  assumes "n < 2 ^ 53"
  shows "f64 (of_nat n) = of_nat n"
proof (cases "n = 0")
  case False
  let ?x = "of_nat n :: rat" and ?e = "f64_exponent (of_nat n)"
  have x: "0 < ?x" using False by simp
  note b = f64_exponent_bounds [OF x]
  have "(2::rat) powi 0 < 2 powi (?e + 1)" using b(2) False by (simp add: order_le_less_trans [rotated])
  then have e0: "0 \<le> ?e" using power_int_increasing [of "?e + 1" 0 "2::rat"] by linarith
  have "?x < 2 ^ 53" using assms of_nat_less_iff [of n "2 ^ 53", where 'a = rat] by simp
  then have "2 powi ?e < (2::rat) powi 53" using b(1) by (simp add: power_int_def)
  then have "?e \<le> 52" using power_int_increasing [of 53 ?e "2::rat"] by linarith
  then have u: "2 powi (?e - 52) = 1 / (2::rat) ^ nat (52 - ?e)" by (simp add: power_int_def power_one_over)
  have "?x / (1 / 2 ^ nat (52 - ?e)) = of_int (int n * 2 ^ nat (52 - ?e))" by simp
  then have "round_half_even (?x / (1 / 2 ^ nat (52 - ?e))) = int n * 2 ^ nat (52 - ?e)" by (simp only: round_half_even_int)
  with x show ?thesis by (simp add: f64_def u Let_def)
qed (simp add: f64_def)

lemma f64_exponent_eq:
  assumes "2 powi e \<le> x" "x < 2 powi (e + 1)"
  shows "f64_exponent x = e"
proof -
  have "0 < x" using assms(1) less_le_trans [of 0 "2 powi e" x] by simp
  note b = f64_exponent_bounds [OF this]
  have "(2::rat) powi e < 2 powi (f64_exponent x + 1)" "(2::rat) powi f64_exponent x < 2 powi (e + 1)" using assms b by linarith+
  then have "\<not> f64_exponent x + 1 \<le> e" "\<not> e + 1 \<le> f64_exponent x" using power_int_increasing [of _ _ "2::rat"] by fastforce+
  then show ?thesis by linarith
qed

lemma round_half_even_eq: "\<bar>q - of_int k\<bar> < 1 / 2 \<Longrightarrow> round_half_even q = k"
  using round_half_even_error [of q] by linarith

lemma f64_eq:
  assumes "2 powi e \<le> x" "x < 2 powi (e + 1)" "\<bar>x / 2 powi (e - 52) - of_int k\<bar> < 1 / 2"
  shows "f64 x = of_int k * 2 powi (e - 52)"
proof -
  have "0 < x" using assms(1) less_le_trans [of 0 "2 powi e" x] by simp
  then show ?thesis using round_half_even_eq [OF assms(3)] by (simp add: f64_def f64_exponent_eq [OF assms(1,2)] Let_def)
qed

lemma f64_thresholds: "f64 (f64 (9 / 10) * 100) = 90" "f64 (f64 (3 / 4) * 100) = 75"
proof -
  have n: "f64 (9 / 10) = 8106479329266893 / 2 ^ 53"
    using f64_eq [of "-1" "9 / 10" 8106479329266893] by (simp add: power_int_def power_one_over)
  have "f64 (8106479329266893 / 2 ^ 53 * 100) = 90"
    using f64_eq [of 6 "8106479329266893 / 2 ^ 53 * 100" 6333186975989760] by (simp add: power_int_def power_one_over)
  then show "f64 (f64 (9 / 10) * 100) = 90" by (simp only: n)
  have m: "f64 (3 / 4) = 3 / 4" using f64_eq [of "-1" "3 / 4" 6755399441055744] by (simp add: power_int_def power_one_over)
  have "f64 (3 / 4 * 100) = 75" using f64_nat [of 75] by simp
  then show "f64 (f64 (3 / 4) * 100) = 75" by (simp only: m)
qed

text \<open>Two roundings in a row, at most one part in $2^{51}$ off.\<close>

lemma f64_twice:
  assumes "0 \<le> x"
  shows "\<bar>f64 (f64 x * 100) - x * 100\<bar> \<le> x * 100 / 2 ^ 51"
proof -
  let ?y = "f64 x" and ?u = "1 / 2 ^ 53 :: rat"
  have y: "\<bar>?y - x\<bar> \<le> x * ?u" "0 \<le> ?y" using f64_error [OF assms] by simp_all
  have z: "\<bar>f64 (?y * 100) - ?y * 100\<bar> \<le> ?y * 100 * ?u" using f64_error(1) [of "?y * 100"] y(2) by simp
  have "x * ?u \<le> x" using assms by (simp add: field_simps)
  then have "?y \<le> 2 * x" using y(1) by linarith
  then have "?y * 100 * ?u \<le> 2 * x * 100 * ?u" by (simp add: field_simps)
  with y(1) z have "\<bar>f64 (?y * 100) - x * 100\<bar> \<le> 2 * x * 100 * ?u + x * ?u * 100" by linarith
  also have "\<dots> \<le> x * 100 / 2 ^ 51" using assms by (simp add: field_simps)
  finally show ?thesis .
qed

text \<open>The rating compares exactly: rounding never moves a utilization over a threshold.\<close>

lemma threshold_exact:
  assumes "d \<le> c" "0 < c" "c < 2 ^ 40" "0 < p" "p < 100" "f64 (f64 (of_nat p / 100) * 100) = of_nat p"
  shows "of_nat p < utilization_percent d c \<longleftrightarrow> p * c < d * 100"
proof -
  let ?x = "of_nat d / of_nat c :: rat" and ?z = "utilization_percent d c"
  have z: "?z = f64 (f64 ?x * 100)" using f64_nat [of d] f64_nat [of c] assms(1,3) by (simp add: utilization_percent_def)
  have x: "0 \<le> ?x" "?x \<le> 1" using assms(1,2) by simp_all
  have err: "\<bar>?z - ?x * 100\<bar> \<le> 100 / 2 ^ 51" using f64_twice [OF x(1)] x(2) unfolding z by (simp add: field_simps)
  have step: "100 / 2 ^ 51 < 1 / (of_nat c :: rat)"
  proof -
    have "(of_nat c :: rat) < 2 ^ 40" using assms(3) of_nat_less_iff [of c "2 ^ 40", where 'a = rat] by simp
    then show ?thesis using assms(2) by (simp add: field_simps)
  qed
  consider "d * 100 = p * c" | "p * c + 1 \<le> d * 100" | "d * 100 + 1 \<le> p * c" by linarith
  then show ?thesis
  proof cases
    case 1
    then have "(of_nat d :: rat) * 100 = of_nat p * of_nat c" by (metis of_nat_mult of_nat_numeral)
    then have "?x = of_nat p / 100" using assms(2) by (simp add: field_simps)
    then have "?z = of_nat p" using assms(6) by (simp only: z)
    with 1 show ?thesis by simp
  next
    case 2
    then have "(of_nat (p * c + 1) :: rat) \<le> of_nat (d * 100)" by (simp only: of_nat_le_iff)
    then have "(of_nat p * of_nat c + 1) / of_nat c \<le> (of_nat d * 100 :: rat) / of_nat c" by (intro divide_right_mono) simp_all
    then have "of_nat p + 1 / of_nat c \<le> ?x * 100" using assms(2) by (simp add: add_divide_distrib)
    then have "of_nat p < ?z" using err step by linarith
    with 2 show ?thesis by simp
  next
    case 3
    then have "(of_nat (d * 100 + 1) :: rat) \<le> of_nat (p * c)" by (simp only: of_nat_le_iff)
    then have "(of_nat d * 100 + 1) / of_nat c \<le> (of_nat p * of_nat c :: rat) / of_nat c" by (intro divide_right_mono) simp_all
    then have "?x * 100 + 1 / of_nat c \<le> of_nat p" using assms(2) by (simp add: add_divide_distrib)
    then have "\<not> of_nat p < ?z" using err step by linarith
    with 3 show ?thesis by simp
  qed
qed

section \<open>What the task reports\<close>

lemma queue_rated:
  assumes "d \<le> c" "0 < c" "c < 2 ^ 40"
  shows "queue_health (queue_metrics d c) = (if 9 * c < 10 * d then 0 else if 3 * c < 4 * d then 1 / 2 else 1)"
proof -
  have "90 < utilization_percent d c \<longleftrightarrow> 90 * c < d * 100" using threshold_exact [OF assms, of 90] f64_thresholds(1) by simp
  moreover have "75 < utilization_percent d c \<longleftrightarrow> 75 * c < d * 100" using threshold_exact [OF assms, of 75] f64_thresholds(2) by simp
  moreover have "90 * c < d * 100 \<longleftrightarrow> 9 * c < 10 * d" "75 * c < d * 100 \<longleftrightarrow> 3 * c < 4 * d" by linarith+
  ultimately show ?thesis by (simp add: queue_metrics_def Let_def)
qed

lemma report_returns: "\<exists>r. batch_report prev stats = Some r" "\<exists>r. read_report task reads = Some r"
  by (auto simp: batch_report_def read_report_def checked_div_def Let_def)

lemma batch_report_counts:
  assumes "batch_report prev stats = Some b"
  shows "b = None \<longleftrightarrow> batches_flushed stats \<le> batches_flushed prev"
    "b = Some r \<Longrightarrow> rep_batches r = batches_flushed stats - batches_flushed prev \<and>
      rep_checked r = saturating_sub (total_certs_checked stats) (total_certs_checked prev) \<and>
      rep_deduped r = saturating_sub (total_certs_deduplicated stats) (total_certs_deduplicated prev)"
  using assms by (auto simp: batch_report_def saturating_sub_def checked_div_def Let_def word_gt_0 split: if_splits)

text \<open>The counts that the flushes add up to.\<close>

fun flush_counts :: "stats_event list \<Rightarrow> nat \<times> nat \<times> nat" where
  "flush_counts [] = (0, 0, 0)"
| "flush_counts (Flush n t1 t2 r # evs) =
     (case flush_counts evs of (b, c, d) \<Rightarrow>
        (b + 1, c + certs_in_batch r, d + (if 0 < certs_in_batch r then certs_skipped r else 0)))"
| "flush_counts (Tick _ _ _ # evs) = flush_counts evs"

definition report_counts :: "BatchReport list \<Rightarrow> nat \<times> nat \<times> nat" where
  "report_counts rs = (sum_list (map (\<lambda>r. unat (rep_batches r)) rs), sum_list (map (\<lambda>r. unat (rep_checked r)) rs),
     sum_list (map (\<lambda>r. unat (rep_deduped r)) rs))"

definition stats_counts :: "BatchStats \<Rightarrow> nat \<times> nat \<times> nat" where
  "stats_counts s = (unat (batches_flushed s), unat (total_certs_checked s), unat (total_certs_deduplicated s))"

definition plus3 :: "nat \<times> nat \<times> nat \<Rightarrow> nat \<times> nat \<times> nat \<Rightarrow> nat \<times> nat \<times> nat" where
  "plus3 x y = (fst x + fst y, fst (snd x) + fst (snd y), snd (snd x) + snd (snd y))"

definition below3 :: "nat \<times> nat \<times> nat \<Rightarrow> nat \<Rightarrow> bool" where
  "below3 x n \<longleftrightarrow> fst x < n \<and> fst (snd x) < n \<and> snd (snd x) < n"

text \<open>What the task has seen is at most what was counted, and everything when no batch is new.\<close>

definition behind :: "BatchStats \<Rightarrow> BatchStats \<Rightarrow> bool" where
  "behind prev stats \<longleftrightarrow> batches_flushed prev \<le> batches_flushed stats \<and> total_certs_checked prev \<le> total_certs_checked stats \<and>
     total_certs_deduplicated prev \<le> total_certs_deduplicated stats \<and>
     (batches_flushed prev = batches_flushed stats \<longrightarrow> stats_counts prev = stats_counts stats)"

lemma report_counts_tick:
  assumes "batch_report prev stats = Some b" "behind prev stats"
  shows "plus3 (stats_counts prev) (report_counts (case b of None \<Rightarrow> rs | Some r \<Rightarrow> r # rs)) = plus3 (stats_counts stats) (report_counts rs)"
proof (cases b)
  case None
  then have "batches_flushed prev = batches_flushed stats" using batch_report_counts(1) [OF assms(1)] assms(2) by (simp add: behind_def)
  then show ?thesis using None assms(2) by (simp add: behind_def)
next
  case (Some r)
  with batch_report_counts(2) [OF assms(1) Some] assms(2) show ?thesis
    by (simp add: behind_def saturating_sub_def plus3_def stats_counts_def report_counts_def unat_sub word_le_nat_alt)
qed

lemma record_stats_counts:
  assumes "below3 (plus3 (stats_counts stats) (flush_counts [Flush n t1 t2 r])) (2 ^ 64)"
  shows "stats_counts (record_stats n t1 t2 r stats) = plus3 (stats_counts stats) (flush_counts [Flush n t1 t2 r])"
  using assms by (auto simp: below3_def plus3_def stats_counts_def record_stats_def Let_def unat_add_lem [THEN iffD1] unat_of_nat_u64 unat_word_ariths)

lemma behind_flush:
  assumes "behind prev stats" "below3 (plus3 (stats_counts stats) (flush_counts [Flush n t1 t2 r])) (2 ^ 64)"
  shows "behind prev (record_stats n t1 t2 r stats)"
  using assms(1) record_stats_counts [OF assms(2)]
  by (auto simp: behind_def stats_counts_def plus3_def word_le_nat_alt dest: arg_cong [of _ _ unat])

lemma behind_refl: "behind stats stats"
  by (simp add: behind_def)

lemma plus3_assoc: "plus3 (plus3 x y) z = plus3 x (plus3 y z)"
  by (simp add: plus3_def)

lemma flush_counts_Cons: "flush_counts (Flush n t1 t2 r # evs) = plus3 (flush_counts [Flush n t1 t2 r]) (flush_counts evs)"
  by (simp add: plus3_def split: prod.splits)

fun tick_ok :: "stats_event \<Rightarrow> bool" where
  "tick_ok (Tick capacity max_capacity _) \<longleftrightarrow> capacity \<le> max_capacity"
| "tick_ok _ \<longleftrightarrow> True"

lemma stats_run_counts:
  assumes "list_all tick_ok evs" "behind (last_stats task) stats" "below3 (plus3 (stats_counts stats) (flush_counts evs)) (2 ^ 64)"
  shows "\<exists>reps stats' task'. stats_run evs (stats, task) = Some (reps, stats', task') \<and> behind (last_stats task') stats' \<and>
    stats_counts stats' = plus3 (stats_counts stats) (flush_counts evs) \<and>
    plus3 (stats_counts (last_stats task)) (report_counts reps) = stats_counts (last_stats task')"
  using assms
proof (induction evs arbitrary: stats task)
  case Nil
  then show ?case by (simp add: plus3_def report_counts_def)
next
  case (Cons ev evs)
  show ?case
  proof (cases ev)
    case (Flush n t1 t2 r)
    have small: "below3 (plus3 (stats_counts stats) (flush_counts [ev])) (2 ^ 64)"
      and sum: "plus3 (plus3 (stats_counts stats) (flush_counts [ev])) (flush_counts evs) = plus3 (stats_counts stats) (flush_counts (ev # evs))"
      using Cons.prems(3) Flush flush_counts_Cons [of n t1 t2 r evs] by (auto simp: below3_def plus3_def)
    let ?s = "record_stats n t1 t2 r stats"
    have c: "stats_counts ?s = plus3 (stats_counts stats) (flush_counts [ev])" using record_stats_counts small Flush by blast
    have "behind (last_stats task) ?s" using behind_flush Cons.prems(2) small Flush by blast
    from Cons.IH [OF _ this] Cons.prems(1,3) c sum show ?thesis by (simp add: Flush)
  next
    case (Tick capacity max_capacity reads)
    obtain b rd where br: "batch_report (last_stats task) stats = Some b" "read_report task reads = Some rd" using report_returns by blast
    let ?t = "\<lparr>last_stats = stats, last_read_ops = fst reads, last_read_bytes = snd reads\<rparr>"
    have "below3 (plus3 (stats_counts stats) (flush_counts evs)) (2 ^ 64)" using Cons.prems(3) Tick by simp
    from Cons.IH [OF _ _ this, of ?t] Cons.prems(1) obtain reps stats' task' where
      ih: "stats_run evs (stats, ?t) = Some (reps, stats', task')" "behind (last_stats task') stats'"
        "stats_counts stats' = plus3 (stats_counts stats) (flush_counts evs)"
        "plus3 (stats_counts stats) (report_counts reps) = stats_counts (last_stats task')" by (auto simp: behind_refl)
    have "\<exists>q. metrics_tick capacity max_capacity stats reads task = Some (q, b, rd, ?t)"
      using Cons.prems(1) Tick br by (simp add: metrics_tick_def)
    then have "stats_run (ev # evs) (stats, task) = Some (case b of None \<Rightarrow> reps | Some rep \<Rightarrow> rep # reps, stats', task')"
      using Tick ih(1) by auto
    then show ?thesis using ih report_counts_tick [OF br(1) Cons.prems(2), of reps] Tick by simp
  qed
qed

text \<open>C33: The statistics are right. A round of the task never panics; it sets the gauges to the number of waiting entries and the capacity of the channel, and
  rates the queue 0 when more than nine tenths of it are in use, one half above three quarters, and 1 otherwise, in
  spite of the rounding of floating-point numbers. Over any sequence of flushes and rounds every batch and every certificate
  is reported exactly once: the reports add up to what was counted at the last round, and the counts are those of the flushes.\<close>

theorem metrics_task_reports:
  assumes "worker_inv config w" "channel_capacity config < 2 ^ 40" "list_all tick_ok evs" "below3 (flush_counts evs) (2 ^ 64)"
  shows "(\<exists>q b rd task'. metrics_tick (channel_capacity config - length (channel w)) (channel_capacity config) stats reads task = Some (q, b, rd, task') \<and>
      queue_depth q = length (channel w) \<and> queue_capacity q = channel_capacity config \<and>
      queue_health q = (if 9 * channel_capacity config < 10 * length (channel w) then 0
        else if 3 * channel_capacity config < 4 * length (channel w) then 1 / 2 else 1)) \<and>
    (\<exists>reps stats' task'. stats_run evs (BatchStats_default, metrics_start) = Some (reps, stats', task') \<and>
      report_counts reps = stats_counts (last_stats task') \<and> stats_counts stats' = flush_counts evs)"
proof -
  let ?c = "channel_capacity config" and ?d = "length (channel w)"
  have d: "?d \<le> ?c" using assms(1) by (simp add: worker_inv_def)
  have c: "0 < ?c" by (simp add: channel_capacity_def)
  obtain b rd where br: "batch_report (last_stats task) stats = Some b" "read_report task reads = Some rd" using report_returns by blast
  have "metrics_tick (?c - ?d) ?c stats reads task
      = Some (queue_metrics ?d ?c, b, rd, \<lparr>last_stats = stats, last_read_ops = fst reads, last_read_bytes = snd reads\<rparr>)"
    using d br by (simp add: metrics_tick_def)
  moreover have "queue_depth (queue_metrics ?d ?c) = ?d" "queue_capacity (queue_metrics ?d ?c) = ?c" by (simp_all add: queue_metrics_def Let_def)
  moreover have "\<exists>reps stats' task'. stats_run evs (BatchStats_default, metrics_start) = Some (reps, stats', task') \<and>
      report_counts reps = stats_counts (last_stats task') \<and> stats_counts stats' = flush_counts evs"
  proof -
    have "last_stats metrics_start = BatchStats_default" "plus3 (stats_counts BatchStats_default) x = x" for x
      by (simp_all add: stats_counts_def BatchStats_default_def plus3_def metrics_start_def)
    then show ?thesis using stats_run_counts [OF assms(3), of metrics_start BatchStats_default] assms(4) behind_refl by auto
  qed
  ultimately show ?thesis using queue_rated [OF d c assms(2)] by blast
qed

definition toy_stats_events :: "stats_event list" where
  "toy_stats_events = [Flush 3 20 2 \<lparr>push_outcome = Inr 3, certs_in_batch = 9, certs_skipped = 6, bytes_saved = 4096\<rparr>, Tick 500 500 (7, 2048), Tick 500 500 (7, 2048)]"

theorem metrics_task_reports_witness:
  "(\<exists>q b rd task'. metrics_tick (channel_capacity BatchConfig_default - length (channel (worker_new mem_storage 7))) (channel_capacity BatchConfig_default)
        BatchStats_default (0, 0) metrics_start = Some (q, b, rd, task') \<and>
      queue_depth q = length (channel (worker_new mem_storage 7)) \<and> queue_capacity q = channel_capacity BatchConfig_default \<and>
      queue_health q = (if 9 * channel_capacity BatchConfig_default < 10 * length (channel (worker_new mem_storage 7)) then 0
        else if 3 * channel_capacity BatchConfig_default < 4 * length (channel (worker_new mem_storage 7)) then 1 / 2 else 1)) \<and>
    (\<exists>reps stats' task'. stats_run toy_stats_events (BatchStats_default, metrics_start) = Some (reps, stats', task') \<and>
      report_counts reps = stats_counts (last_stats task') \<and> stats_counts stats' = flush_counts toy_stats_events)"
  by (rule metrics_task_reports [OF worker_new_inv])
    (simp_all add: channel_capacity_def BatchConfig_default_def toy_stats_events_def below3_def)

end
