(* ===== verification/Metrics.thy ===== *)
theory Metrics
  imports CT_Prelude Complex_Main
begin

text \<open>
  The Prometheus metrics of \<^verbatim>\<open>src/src/metrics.rs\<close>: every metric is registered once at the start, and the result of the registration is unwrapped, so
  that a metric the registry rejects ends the program. The registry is a parameter.
\<close>

section \<open>The metrics\<close>

datatype MetricKind = IntCounterVec | HistogramVec "rat list" | IntGauge | Gauge | GaugeVec

record Metric =
  metric_kind :: MetricKind
  metric_name :: string
  metric_help :: string
  metric_labels :: "string list"

definition metric :: "MetricKind \<Rightarrow> string \<Rightarrow> string \<Rightarrow> string list \<Rightarrow> Metric" where
  "metric kind name help labels = \<lparr>metric_kind = kind, metric_name = name, metric_help = help, metric_labels = labels\<rparr>"

definition metrics :: "Metric list" where
  "metrics = [
     metric IntCounterVec ''http_requests_total''
       ''Total number of HTTP requests'' [''endpoint'', ''method'', ''status''],
     metric (HistogramVec [1 / 1000, 1 / 200, 1 / 100, 1 / 40, 1 / 20, 1 / 10, 1 / 4, 1 / 2, 1, 5 / 2, 5, 10]) ''http_request_duration_seconds''
       ''HTTP request duration in seconds'' [''endpoint'', ''method''],
     metric IntCounterVec ''certificate_submissions_total''
       ''Total number of certificate submissions'' [''type'', ''status''],
     metric IntGauge ''storage_queue_depth''
       ''Current depth of the storage queue'' [],
     metric IntGauge ''storage_queue_capacity''
       ''Maximum capacity of the storage queue'' [],
     metric IntCounterVec ''storage_batches_flushed_total''
       ''Total number of storage batches flushed'' [''status''],
     metric IntCounterVec ''storage_entries_processed_total''
       ''Total number of entries processed by storage'' [''type''],
     metric (HistogramVec [1 / 100, 1 / 20, 1 / 10, 1 / 4, 1 / 2, 1, 5 / 2, 5, 10]) ''storage_flush_duration_seconds''
       ''Duration of storage flush operations in seconds'' [''status''],
     metric IntGauge ''merkle_tree_size''
       ''Current size of the Merkle tree (number of entries)'' [],
     metric IntCounterVec ''deduplicated_certificates_total''
       ''Total number of deduplicated certificates'' [''type''],
     metric IntCounterVec ''cache_hits_total''
       ''Total number of cache hits'' [''cache_type''],
     metric IntCounterVec ''cache_misses_total''
       ''Total number of cache misses'' [''cache_type''],
     metric Gauge ''active_connections''
       ''Number of active HTTP connections'' [],
     metric (HistogramVec [1, 2, 3, 4, 5, 10]) ''certificate_chain_length''
       ''Length of certificate chains submitted'' [''type''],
     metric (HistogramVec [1 / 1000, 1 / 200, 1 / 100, 1 / 40, 1 / 20, 1 / 10, 1 / 4, 1 / 2, 1]) ''validation_duration_seconds''
       ''Duration of certificate validation in seconds'' [''type''],
     metric IntCounterVec ''get_entries_requests_total''
       ''Total number of get-entries requests'' [''status''],
     metric (HistogramVec [1, 10, 50, 100, 250, 500, 1000]) ''get_entries_batch_size''
       ''Number of entries requested in get-entries calls'' [],
     metric IntCounterVec ''inclusion_proof_requests_total''
       ''Total number of inclusion proof requests'' [''status''],
     metric IntCounterVec ''consistency_proof_requests_total''
       ''Total number of consistency proof requests'' [''status''],
     metric GaugeVec ''health_check_status''
       ''Health check status (1 = healthy, 0 = unhealthy)'' [''component''],
     metric IntCounterVec ''static_ct_checkpoint_requests_total''
       ''Total number of static CT checkpoint requests'' [''status''],
     metric IntCounterVec ''static_ct_tile_requests_total''
       ''Total number of static CT tile requests'' [''tile_type'', ''status''],
     metric IntCounterVec ''static_ct_issuer_requests_total''
       ''Total number of static CT issuer lookup requests'' [''status''],
     metric (HistogramVec [1024, 4096, 16384, 65536, 262144, 1048576]) ''static_ct_tile_size_bytes''
       ''Size of static CT tiles in bytes'' [''tile_type'']]"

text \<open>\<open>None\<close> is the panic of \<^verbatim>\<open>unwrap\<close>.\<close>

primrec register_all :: "(Metric \<Rightarrow> 'r \<Rightarrow> 'r option) \<Rightarrow> Metric list \<Rightarrow> 'r \<Rightarrow> 'r option" where
  "register_all reg [] r = Some r"
| "register_all reg (m # ms) r = (case reg m r of None \<Rightarrow> None | Some r' \<Rightarrow> register_all reg ms r')"

definition init_metrics :: "(Metric \<Rightarrow> 'r \<Rightarrow> 'r option) \<Rightarrow> 'r \<Rightarrow> 'r option" where
  "init_metrics reg r = register_all reg metrics r"

section \<open>Registration succeeds\<close>

text \<open>What a registry accepts: a name and labels of letters, digits and underscores that do not begin with a digit, a help text, distinct labels of which none
  is reserved, increasing buckets, and a name that is not registered yet.\<close>

definition letter :: "char \<Rightarrow> bool" where
  "letter c \<longleftrightarrow> (let n = of_char c :: nat in 65 \<le> n \<and> n \<le> 90 \<or> 97 \<le> n \<and> n \<le> 122 \<or> n = 95)"

definition digit :: "char \<Rightarrow> bool" where
  "digit c \<longleftrightarrow> (let n = of_char c :: nat in 48 \<le> n \<and> n \<le> 57)"

fun valid_name :: "string \<Rightarrow> bool" where
  "valid_name [] \<longleftrightarrow> False"
| "valid_name (c # cs) \<longleftrightarrow> letter c \<and> list_all (\<lambda>d. letter d \<or> digit d) cs"

fun increasing :: "rat list \<Rightarrow> bool" where
  "increasing (a # b # bs) \<longleftrightarrow> a < b \<and> increasing (b # bs)"
| "increasing _ \<longleftrightarrow> True"

definition acceptable :: "Metric \<Rightarrow> bool" where
  "acceptable m \<longleftrightarrow> valid_name (metric_name m) \<and> metric_help m \<noteq> [] \<and> list_all valid_name (metric_labels m) \<and> distinct (metric_labels m) \<and>
     (case metric_kind m of HistogramVec buckets \<Rightarrow> increasing buckets \<and> ''le'' \<notin> set (metric_labels m) | _ \<Rightarrow> True)"

definition registry_ok :: "(Metric \<Rightarrow> 'r \<Rightarrow> 'r option) \<Rightarrow> ('r \<Rightarrow> string set) \<Rightarrow> bool" where
  "registry_ok reg names \<longleftrightarrow>
     (\<forall>m r. acceptable m \<longrightarrow> metric_name m \<notin> names r \<longrightarrow> (\<exists>r'. reg m r = Some r' \<and> names r' = insert (metric_name m) (names r)))"

lemma register_all_succeeds:
  assumes "registry_ok reg names" "list_all acceptable ms" "distinct (map metric_name ms)" "names r \<inter> metric_name ` set ms = {}"
  shows "\<exists>r'. register_all reg ms r = Some r' \<and> names r' = names r \<union> metric_name ` set ms"
  using assms(2-4)
proof (induction ms arbitrary: r)
  case (Cons m ms)
  have "acceptable m" "metric_name m \<notin> names r" using Cons.prems(1,3) by simp_all
  then obtain r' where r': "reg m r = Some r'" "names r' = insert (metric_name m) (names r)"
    using assms(1) unfolding registry_ok_def by blast
  have "names r' \<inter> metric_name ` set ms = {}" using Cons.prems(2,3) r'(2) by auto
  with Cons.IH [of r'] Cons.prems(1,2) obtain r'' where "register_all reg ms r' = Some r''" "names r'' = names r' \<union> metric_name ` set ms" by auto
  with r' show ?case by simp
qed simp

lemma metrics_acceptable: "list_all acceptable metrics" "distinct (map metric_name metrics)"
  by (simp_all add: metrics_def metric_def acceptable_def letter_def digit_def)

lemma init_metrics_succeeds:
  assumes "registry_ok reg names" "names r = {}"
  shows "\<exists>r'. init_metrics reg r = Some r' \<and> names r' = metric_name ` set metrics"
  using register_all_succeeds [OF assms(1) metrics_acceptable, of r] assms(2) by (simp add: init_metrics_def)

text \<open>A registry that keeps the names.\<close>

lemma toy_registry: "registry_ok (\<lambda>m r. if acceptable m \<and> metric_name m \<notin> set r then Some (metric_name m # r) else None) set"
  by (simp add: registry_ok_def)

end
