(* ===== verification/Rate_Limiter.thy ===== *)
theory Rate_Limiter
  imports Effects
begin

text \<open>
  \<^verbatim>\<open>src/src/rate_limiter.rs\<close>: during a warm-up after the start, a read of the store first takes a permit of a semaphore, and waits for
  one when all are in use. Instants and durations are milliseconds; the semaphore of tokio is a counter with a queue, and hands permits out in
  the order of the queue. A read is in one of three places: in the queue, holding a permit, or running without one after the warm-up.
\<close>

section \<open>The limiter\<close>

record ReadRateLimiter =
  permits :: nat
  warmup_start :: nat
  warmup_end :: nat
  last_log :: u64

definition ReadRateLimiter_new :: "nat \<Rightarrow> u64 \<Rightarrow> nat \<Rightarrow> ReadRateLimiter" where
  "ReadRateLimiter_new max_concurrent_reads warmup_duration_secs time =
     \<lparr>permits = max_concurrent_reads, warmup_start = time, warmup_end = time + unat warmup_duration_secs * 1000, last_log = 0\<rparr>"

text \<open>The part of \<^verbatim>\<open>acquire\<close> before the wait: whether a permit is needed. The sum wraps, as in a release build.\<close>

definition needs_permit :: "nat \<Rightarrow> ReadRateLimiter \<Rightarrow> bool \<times> ReadRateLimiter" where
  "needs_permit time self =
     (if warmup_end self \<le> time then (False, self\<lparr>last_log := - 1\<rparr>)
      else
        let elapsed_secs = of_nat ((time - warmup_start self) div 1000) :: u64 in
        (True, if last_log self + 10 \<le> elapsed_secs then self\<lparr>last_log := elapsed_secs\<rparr> else self))"

section \<open>Reads\<close>

record 'r Reads =
  limiter :: ReadRateLimiter
  clock :: nat
  queued :: "'r list"
  holding :: "'r list"
  unlimited :: "'r list"

definition reads_new :: "nat \<Rightarrow> u64 \<Rightarrow> nat \<Rightarrow> 'r Reads" where
  "reads_new max_reads secs time =
     \<lparr>limiter = ReadRateLimiter_new max_reads secs time, clock = time, queued = [], holding = [], unlimited = []\<rparr>"

definition acquire :: "'r \<Rightarrow> 'r Reads \<Rightarrow> 'r Reads" where
  "acquire r s =
     (case needs_permit (clock s) (limiter s) of
        (True, l) \<Rightarrow> s\<lparr>limiter := l, queued := queued s @ [r]\<rparr>
      | (False, l) \<Rightarrow> s\<lparr>limiter := l, unlimited := unlimited s @ [r]\<rparr>)"

text \<open>The semaphore wakes the first of the queue.\<close>

definition grant :: "'r Reads \<Rightarrow> 'r Reads option" where
  "grant s =
     (case queued s of
        r # rs \<Rightarrow> if permits (limiter s) = 0 then None
          else Some (s\<lparr>limiter := (limiter s)\<lparr>permits := permits (limiter s) - 1\<rparr>, queued := rs, holding := holding s @ [r]\<rparr>)
      | [] \<Rightarrow> None)"

text \<open>A read ends; \<^verbatim>\<open>ReadPermit\<close> gives its permit back when it is dropped.\<close>

definition finish :: "'r \<Rightarrow> 'r Reads \<Rightarrow> 'r Reads option" where
  "finish r s =
     (if r \<in> set (holding s)
      then Some (s\<lparr>limiter := (limiter s)\<lparr>permits := permits (limiter s) + 1\<rparr>, holding := remove1 r (holding s)\<rparr>)
      else if r \<in> set (unlimited s) then Some (s\<lparr>unlimited := remove1 r (unlimited s)\<rparr>)
      else None)"

inductive reads_step :: "'r Reads \<Rightarrow> 'r Reads \<Rightarrow> bool" where
  start: "reads_step s (acquire r s)"
| granted: "grant s = Some s' \<Longrightarrow> reads_step s s'"
| finished: "finish r s = Some s' \<Longrightarrow> reads_step s s'"
| tick: "clock s \<le> t \<Longrightarrow> reads_step s (s\<lparr>clock := t\<rparr>)"

section \<open>Bounds and progress\<close>

definition reads_inv :: "nat \<Rightarrow> u64 \<Rightarrow> nat \<Rightarrow> 'r Reads \<Rightarrow> bool" where
  "reads_inv max_reads secs time s \<longleftrightarrow>
     permits (limiter s) + length (holding s) = max_reads \<and> warmup_start (limiter s) = time \<and>
     warmup_end (limiter s) = time + unat secs * 1000 \<and> time \<le> clock s \<and> (unlimited s \<noteq> [] \<longrightarrow> warmup_end (limiter s) \<le> clock s)"

lemma reads_inv_new: "reads_inv m secs time (reads_new m secs time)"
  by (simp add: reads_inv_def reads_new_def ReadRateLimiter_new_def)

lemma reads_inv_step: "reads_step s s' \<Longrightarrow> reads_inv m secs time s \<Longrightarrow> reads_inv m secs time s'"
proof (induction rule: reads_step.induct)
  case (start s r)
  then show ?case by (auto simp: acquire_def needs_permit_def reads_inv_def Let_def split: if_splits)
next
  case (granted s s')
  then show ?case by (auto simp: grant_def reads_inv_def split: list.splits if_splits)
next
  case (finished r s s')
  then show ?case by (auto simp: finish_def reads_inv_def length_remove1 Suc_pred [OF length_pos_if_in_set] split: if_splits)
next
  case (tick s t)
  then show ?case by (auto simp: reads_inv_def)
qed

text \<open>At most \<open>m\<close> reads run at a time before the warm-up is over.\<close>

lemma warmup_reads_bounded:
  assumes "reads_step\<^sup>*\<^sup>* (reads_new m secs time) s"
  shows "length (holding s) \<le> m \<and> (clock s < time + unat secs * 1000 \<longrightarrow> unlimited s = [])"
proof -
  have "reads_inv m secs time s" using assms by induction (auto intro: reads_inv_new reads_inv_step)
  then show ?thesis by (auto simp: reads_inv_def)
qed

text \<open>Every read that waits can be served: the steps of the semaphore and of the reads that hold a permit empty the queue.\<close>

lemma queue_drains:
  assumes "reads_inv m secs time s" "0 < m"
  shows "\<exists>s'. reads_step\<^sup>*\<^sup>* s s' \<and> queued s' = []"
  using assms(1)
proof (induction "length (queued s)" arbitrary: s)
  case 0
  then show ?case by (intro exI [of _ s]) simp
next
  case (Suc n)
  then obtain r rs where q: "queued s = r # rs" by (metis length_Suc_conv)
  have "\<exists>t. reads_step\<^sup>*\<^sup>* s t \<and> queued t = queued s \<and> permits (limiter t) \<noteq> 0"
  proof (cases "permits (limiter s) = 0")
    case True
    with Suc.prems assms(2) obtain x where "x \<in> set (holding s)" by (cases "holding s") (auto simp: reads_inv_def)
    then have "\<exists>t. finish x s = Some t \<and> queued t = queued s \<and> permits (limiter t) \<noteq> 0" by (simp add: finish_def)
    then show ?thesis using reads_step.finished by (metis r_into_rtranclp)
  qed (intro exI [of _ s], simp)
  then obtain t where t: "reads_step\<^sup>*\<^sup>* s t" "queued t = r # rs" "permits (limiter t) \<noteq> 0" using q by auto
  define u where "u = the (grant t)"
  have u: "grant t = Some u" "queued u = rs" using t(2,3) by (simp_all add: u_def grant_def)
  have "reads_inv m secs time t" using t(1) Suc.prems by (induction rule: rtranclp_induct) (auto intro: reads_inv_step)
  then have "reads_inv m secs time u" using u(1) reads_inv_step reads_step.granted by blast
  moreover have "n = length (queued u)" using Suc.hyps(2) q u(2) by simp
  ultimately obtain s' where "reads_step\<^sup>*\<^sup>* u s'" "queued s' = []" using Suc.hyps(1) by blast
  moreover have "reads_step\<^sup>*\<^sup>* s u" using t(1) reads_step.granted [OF u(1)] by (rule rtranclp.rtrancl_into_rtrancl)
  ultimately show ?case by (meson rtranclp_trans)
qed

end
