(* ===== verification/Spec2Isabelle.thy ===== *)
theory Spec2Isabelle
  imports Slate_Tree_Single Router_Props Server Storage_Metrics Metrics Rate_Limiter
begin

text \<open>
  Verification of \<^verbatim>\<open>compact_log\<close>, a Certificate Transparency log (RFC 6962 and the static API) over the key-value store SlateDB.

  \<^bold>\<open>The program.\<close> A submitted chain is checked by the validator, turned into a log entry and put into a bounded channel. The batch
  worker collects entries and flushes them: every entry gets the next index, an SCT that carries the index, and a leaf; the leaves are pushed
  into a Merkle tree kept in the store, in one atomic write together with the deduplicated entries, the lookup records and the
  certificates that are not stored yet; then the submitters are answered. Reading serves entries, roots, inclusion and consistency
  proofs, tiles and pages at published sizes. At the start the server reads its configuration, key and trusted roots from files; a worker
  extends the roots from the reports of the CCADB and rebuilds the validator.

  \<^bold>\<open>The theories.\<close>
  \<^item> \<open>CT_Prelude\<close>: words, big-endian encodings, length-prefixed vectors, shared list lemmas. \<open>Effects\<close>: the asynchronous functions as
    state-passing operations with errors and panics, and total-correctness rules (\<open>triple\<close>) for them.
  \<^item> \<open>Tree_Math\<close>, \<open>Tree_Nodes\<close>, \<open>Merkle_Spec\<close>, \<open>Merkle_Proofs\<close>: \<^verbatim>\<open>merkle_tree/ct_merkle_vendored.rs\<close> and \<^verbatim>\<open>consistency.rs\<close>: node
    arithmetic of the array tree, proof indices, the verifiers, against \<open>mth\<close>, \<open>path\<close> and \<open>rfc_proof\<close>, the definitions of RFC 6962.
    Soundness is unless the hash collides on inputs actually hashed.
  \<^item> \<open>Kv_Store\<close>: \<^verbatim>\<open>storage/rate_limited_db.rs\<close>, the store and cache contracts, the keys. \<open>Tile\<close>, \<open>Slate_Tree\<close>: the code of
    \<^verbatim>\<open>merkle_tree/slatedb_backed_tree.rs\<close>; \<open>Slate_Tree_Inv\<close>, \<open>Slate_Tree_Append\<close>, \<open>Slate_Tree_Tiles\<close>, \<open>Slate_Tree_Batch\<close>: its
    invariant, reads, appending, tile precomputation; \<open>Slate_Tree_Props\<close>: the interfaces \<open>proof_source\<close> and \<open>merkle_log\<close> and that the
    stored tree refines the RFC 6962 tree, also across failing writes; \<open>Slate_Tree_Single\<close>: the push of single leaves that the tests use
    as their reference, and that it builds the tree that the batch builds.
  \<^item> \<open>Ct_Error\<close>, \<open>Merkle_Storage\<close>: error types with their texts, and \<^verbatim>\<open>merkle_storage.rs\<close>, which classifies tree errors by their text.
  \<^item> \<open>Sct_Extensions\<close>, \<open>Log_Entry\<close>, \<open>Sct\<close>, \<open>Tree_Head\<close>, \<open>Tile_Leaf\<close>: \<^verbatim>\<open>types/\<close>: encodings of extensions, leaves, signature inputs, tree
    heads, checkpoints, data tiles and pages, each against a reader of the format. The format of pages is the one of the code, which differs from
    the proposal in the repository by a length before each entry.
  \<^item> \<open>Tbs_Extractor\<close>, \<open>Validator\<close>, \<open>Validator_Props\<close>: \<^verbatim>\<open>validation/\<close> and \<^verbatim>\<open>oids.rs\<close>: pre-certificate transformation (an exact characterisation
    of the final TBSCertificate), issuer key hash and chain validation; the verdict does not depend on the cache, and an accepted chain is valid.
  \<^item> \<open>Ct_Storage\<close>: the code of \<^verbatim>\<open>storage/mod.rs\<close> (flush and lookups); \<open>Ct_Storage_Inv\<close>, \<open>Ct_Storage_Flush\<close>: the log behind it, what the
    lookups answer and what a flush does; \<open>Ct_Storage_Props\<close>: flushing logs a batch whose entries can be prepared as a
    whole, and what is left of any other batch when entries fail or panic; entries are served as submitted and provable. \<open>Batch_Worker\<close>, \<open>Batch_Worker_Props\<close>: submission and batching as a transition system; order, bounds, progress.
  \<^item> \<open>Api_State\<close>, \<open>Api_Read\<close>, \<open>Api_Submit\<close>: the handlers of \<^verbatim>\<open>api/handlers.rs\<close>, \<^verbatim>\<open>static_handlers.rs\<close>, \<^verbatim>\<open>pages_handlers.rs\<close> and the paths and errors of
    \<^verbatim>\<open>api/mod.rs\<close>. \<open>Api_Answers\<close>: what handlers may rely on, as interfaces of the storage. \<open>Api_Read_Props\<close>: entries, tree heads and proofs;
    \<open>Api_Static_Props\<close>: tiles and checkpoints; \<open>Api_Pages_Props\<close>: data tiles, issuers and pages; \<open>Api_Submit_Props\<close>: the submission
    handlers against pure references, and the server as a transition system with its invariant. \<open>Router\<close>, \<open>Router_Props\<close>: the route table,
    the dispatch of requests and the metrics middleware; the URL of a tile leads to its hashes, and what the middleware counts.
  \<^item> \<open>Ccadb\<close>: \<^verbatim>\<open>ccadb.rs\<close>, the root store with its directory and the worker. \<open>Root_Files\<close>: files and codecs in memory for the concrete runs.
    \<open>Ccadb_Props\<close>: the store stays well-formed and only grows, and what an update contributes; \<open>Ccadb_Persist\<close>: the directory mirrors the store.
  \<^item> \<open>Startup\<close>, \<open>Startup_Props\<close>: \<^verbatim>\<open>main.rs\<close>: configuration, keys, storage, validation; the trusted roots and the identity of the log survive
    a restart. \<open>Server\<close>: the handlers, the batch worker and the CCADB worker as one transition system that shares the validator; only chains
    that lead to a root of the store are logged, and every SCT that was sent can be audited. \<open>Rate_Limiter\<close>: \<^verbatim>\<open>rate_limiter.rs\<close>: the bound on concurrent reads during the warm-up.
  \<^item> \<open>Storage_Metrics\<close>: the statistics task of \<^verbatim>\<open>storage/mod.rs\<close>: every batch is reported once and the queue is rated exactly at its
    thresholds. \<open>Metrics\<close>: the metrics of \<^verbatim>\<open>metrics.rs\<close>, whose registration succeeds.

  \<^bold>\<open>Parameters.\<close> SlateDB, the foyer caches, postcard, SHA-256, ECDSA, DER, OpenSSL and base64 are parameters. Relied on are: the store
  returns the last write and applies batches atomically (\<open>slatedb_ok\<close>; with an error set, a failing write may or may not have been applied); a
  cache returns only what was inserted (\<open>cache_ok\<close>); postcard reads back what it wrote (\<open>storage_ok\<close>); digests have 32 bytes. Where
  content is addressed by hash, absence of collisions is assumed only on the finite set of inputs at hand. Every such hypothesis is met by the in-memory
  instances on which the witnesses run.

  \<^bold>\<open>Integers and bounds.\<close> \<^verbatim>\<open>u64\<close> is \<open>64 word\<close>; the tree results hold up to $2^{63}$ leaves, where node indices fit; leaf indices in SCTs have 40
  bits and the code panics beyond, which \<open>batch_ready\<close> and \<open>loggable\<close> exclude as premises where a batch is to be logged. Products and
  sums of request parameters wrap as in a release build, and the results say where: tiles from index $2^{56}$ on, pages from number $2^{64} / 1000$
  on, and the range of all 64-bit indices in \<open>get_entries\<close>, whose limit is lost. The climb to the root is bounded by 65 iterations
  (\<open>climb_bound\<close>), more than the height of a tree with 64-bit indices; running out of a bound is a panic in the model and is proved not to occur.
  Floating-point numbers occur in the statistics only; they are rationals rounded to 53 bits after every operation (\<open>f64\<close>).

  \<^bold>\<open>Concurrency.\<close> An operation runs as one step; \<^verbatim>\<open>join_all\<close> and \<^verbatim>\<open>try_join_all\<close> run their parts in order. The flush holds a mutex in the code, and
  submissions only append to the channel, so the transition system of the worker interleaves submissions, iterations and time. \<open>Server\<close> adds
  the CCADB worker, whose update is one step that may exchange the validator, with a fresh cache, between requests.

  \<^bold>\<open>Files and downloads.\<close> The file system (\<open>FsOps\<close>), PEM, CSV, TOML, PKCS\#8 and the answers to HTTP requests are parameters. The results on
  restarts rely on a directory whose operations do not fail (\<open>directory_ok\<close>), on files that are read as they were written (\<open>files_ok\<close>) and on
  codecs that read back what they wrote (\<open>codecs_ok\<close>, \<open>start_codecs_ok\<close>).

  \<^bold>\<open>Framework.\<close> Choosing the route of a request with the texts of its path parameters, the decoding of path parameters, queries and JSON bodies, and
  the rejections are those of axum (\<open>Framework\<close>); the model has the route table and the handler of each route. Relied on is that a GET request goes to the
  most specific route its path fits and that a text without escapes is decoded to itself (\<open>router_ok\<close>, in the terms of axum's documentation). The Prometheus registry is a parameter too (\<open>registry_ok\<close>).

  \<^bold>\<open>Not modelled.\<close> The places where handlers count into metrics other than those of the middleware and the statistics task, tracing and the
  texts of log messages, the compression of responses, the runtime and the listening socket: they have no effect on what is logged
  or served. The retry policy of the object stores, and tests. The delay of a read by the rate limiter is not part of the store operations,
  since it does not change their results.
\<close>

end
